(* ===== verification/Prelude.thy ===== *)
theory Prelude
  imports Complex_Main "HOL-Library.Word"
begin

text \<open>
  Shared material of the development: the type names of the model, the ordered
  associative container of the C++ standard library (\<^verbatim>\<open>std::map\<close>) as a key-sorted
  association list, loops whose body may fail, and the generic lemmas on lists, options
  and words that the component theories use.
\<close>

named_theorems mp_simps \<open>lookup and update laws of the ordered map\<close>
named_theorems poly_wf \<open>well-formedness facts of polynomials\<close>

type_synonym u16 = "16 word"
type_synonym u32 = "32 word"

text \<open>
  The two ways a C++ operation of the program can fail: a \<^verbatim>\<open>throw\<close> with its message,
  and undefined behaviour (a null or ill-typed dereference, an index out of range).
\<close>

datatype cxx_error = Throw string | Undefined

type_synonym 'a result = "cxx_error + 'a"

text \<open>
  Sequencing of operations that may fail, and the passage from a value that is missing
  exactly when the operation is undefined.
\<close>

definition bindR :: "'a result \<Rightarrow> ('a \<Rightarrow> 'b result) \<Rightarrow> 'b result" where
  "bindR r f = (case r of Inl err \<Rightarrow> Inl err | Inr x \<Rightarrow> f x)"

definition ofopt :: "'a option \<Rightarrow> 'a result" where
  "ofopt r = (case r of None \<Rightarrow> Inl Undefined | Some x \<Rightarrow> Inr x)"

lemma bindR_simps [simp]: "bindR (Inl err) f = Inl err" "bindR (Inr x) f = f x"
  by (simp_all add: bindR_def)

lemma bindR_Inr: "bindR r f = Inr y \<longleftrightarrow> (\<exists>x. r = Inr x \<and> f x = Inr y)"
  by (cases r) auto

lemma bindR_cong [fundef_cong]: "r = s \<Longrightarrow> (\<And>x. s = Inr x \<Longrightarrow> f x = g x) \<Longrightarrow> bindR r f = bindR s g"
  by (cases s) auto

lemma bindR_assoc: "bindR (bindR r f) g = bindR r (\<lambda>x. bindR (f x) g)"
  by (cases r) auto

lemma ofopt_simps [simp]: "ofopt None = Inl Undefined" "ofopt (Some x) = Inr x"
  by (simp_all add: ofopt_def)

lemma ofopt_Inr [simp]: "ofopt r = Inr x \<longleftrightarrow> r = Some x"
  by (cases r) auto

text \<open>A loop over a vector whose body may fail, threading a state.\<close>

fun foldR :: "('a \<Rightarrow> 's \<Rightarrow> 's result) \<Rightarrow> 'a list \<Rightarrow> 's \<Rightarrow> 's result" where
  "foldR f [] s = Inr s"
| "foldR f (x # xs) s = bindR (f x s) (foldR f xs)"

lemma foldR_append: "foldR f (xs @ ys) s = bindR (foldR f xs s) (foldR f ys)"
  by (induction xs arbitrary: s) (auto simp: bindR_def split: sum.splits)

lemma foldR_invariant:
  assumes "foldR f xs s = Inr s'" and "I s"
    and "\<And>x s s'. x \<in> set xs \<Longrightarrow> I s \<Longrightarrow> f x s = Inr s' \<Longrightarrow> I s'"
  shows "I s'"
  using assms by (induction xs arbitrary: s) (auto simp: bindR_Inr)

lemma foldR_total:
  assumes "I s" and "\<And>x s. x \<in> set xs \<Longrightarrow> I s \<Longrightarrow> \<exists>s'. f x s = Inr s' \<and> I s'"
  shows "\<exists>s'. foldR f xs s = Inr s' \<and> I s'"
  using assms
proof (induction xs arbitrary: s)
  case (Cons x xs)
  from Cons.prems(2)[of x s] Cons.prems(1) obtain s1 where s1: "f x s = Inr s1" "I s1" by auto
  have "\<exists>s'. foldR f xs s1 = Inr s' \<and> I s'" by (rule Cons.IH[OF s1(2)]) (use Cons.prems(2) in auto)
  with s1 show ?case by simp
qed simp

text \<open>The loop that collects one result per element.\<close>

fun mapR :: "('a \<Rightarrow> 'b result) \<Rightarrow> 'a list \<Rightarrow> 'b list result" where
  "mapR f [] = Inr []"
| "mapR f (x # xs) = bindR (f x) (\<lambda>y. bindR (mapR f xs) (\<lambda>ys. Inr (y # ys)))"

lemma mapR_cong [fundef_cong]:
  "xs = ys \<Longrightarrow> (\<And>x. x \<in> set ys \<Longrightarrow> f x = g x) \<Longrightarrow> mapR f xs = mapR g ys"
  by (induction xs arbitrary: ys) auto

lemma mapR_Inr: "mapR f xs = Inr ys \<longleftrightarrow> list_all2 (\<lambda>x y. f x = Inr y) xs ys"
  by (induction xs arbitrary: ys) (auto simp: bindR_Inr list_all2_Cons1)

lemma mapR_total: "(\<And>x. x \<in> set xs \<Longrightarrow> \<exists>y. f x = Inr y) \<Longrightarrow> \<exists>ys. mapR f xs = Inr ys"
  by (induction xs) (fastforce simp: bindR_Inr)+

lemma mapR_in:
  assumes "mapR f xs = Inr ys" and "x \<in> set xs"
  shows "\<exists>y \<in> set ys. f x = Inr y"
  using assms by (induction xs arbitrary: ys) (auto simp: bindR_Inr)

text \<open>
  Computations that may also run forever: \<open>None\<close> is the run without end.
\<close>

type_synonym 'a run = "'a result option"

definition bindO :: "'a run \<Rightarrow> ('a \<Rightarrow> 'b run) \<Rightarrow> 'b run" where
  "bindO m f = (case m of None \<Rightarrow> None | Some (Inl err) \<Rightarrow> Some (Inl err) | Some (Inr x) \<Rightarrow> f x)"

fun foldO :: "('a \<Rightarrow> 's \<Rightarrow> 's run) \<Rightarrow> 'a list \<Rightarrow> 's \<Rightarrow> 's run" where
  "foldO f [] s = Some (Inr s)"
| "foldO f (x # xs) s = bindO (f x s) (foldO f xs)"

lemma bindO_simps [simp]: "bindO None f = None" "bindO (Some (Inl err)) f = Some (Inl err)" "bindO (Some (Inr x)) f = f x"
  by (simp_all add: bindO_def)

lemma bindO_cong [fundef_cong]: "m = m' \<Longrightarrow> (\<And>x. m' = Some (Inr x) \<Longrightarrow> f x = g x) \<Longrightarrow> bindO m f = bindO m' g"
  by (auto simp: bindO_def split: option.splits sum.splits)

lemma bindO_Inr: "bindO m f = Some (Inr y) \<longleftrightarrow> (\<exists>x. m = Some (Inr x) \<and> f x = Some (Inr y))"
  by (auto simp: bindO_def split: option.splits sum.splits)

lemma foldO_append: "foldO f (xs @ ys) s = bindO (foldO f xs s) (foldO f ys)"
  by (induction xs arbitrary: s) (auto simp: bindO_def split: option.splits sum.splits)

lemma foldO_invariant:
  assumes "foldO f xs s = Some (Inr s')" and "I s"
    and "\<And>x s s'. x \<in> set xs \<Longrightarrow> I s \<Longrightarrow> f x s = Some (Inr s') \<Longrightarrow> I s'"
  shows "I s'"
  using assms by (induction xs arbitrary: s) (auto simp: bindO_Inr)

lemma foldO_total:
  assumes "I s" and "\<And>x s. x \<in> set xs \<Longrightarrow> I s \<Longrightarrow> \<exists>s'. f x s = Some (Inr s') \<and> I s'"
  shows "\<exists>s'. foldO f xs s = Some (Inr s') \<and> I s'"
  using assms
proof (induction xs arbitrary: s)
  case (Cons x xs)
  from Cons.prems(2)[of x s] Cons.prems(1) obtain s1 where s1: "f x s = Some (Inr s1)" "I s1" by auto
  have "\<exists>s'. foldO f xs s1 = Some (Inr s') \<and> I s'" by (rule Cons.IH[OF s1(2)]) (use Cons.prems(2) in auto)
  with s1 show ?case by simp
qed simp

subsection \<open>Ordered maps\<close>

text \<open>
  \<^verbatim>\<open>std::map<K,V>\<close> iterates in increasing key order.  It is represented by the list of
  its entries in that order; \<open>mp_find\<close> is \<^verbatim>\<open>find\<close>, \<open>mp_set\<close> is
  \<^verbatim>\<open>m[k] = v\<close> and \<open>mp_erase\<close> is \<^verbatim>\<open>erase(k)\<close>.
\<close>

type_synonym ('k, 'v) mp = "('k \<times> 'v) list"

abbreviation mp_find :: "('k, 'v) mp \<Rightarrow> 'k \<Rightarrow> 'v option" where
  "mp_find m k \<equiv> map_of m k"

fun mp_set :: "'k::linorder \<Rightarrow> 'v \<Rightarrow> ('k, 'v) mp \<Rightarrow> ('k, 'v) mp" where
  "mp_set k v [] = [(k, v)]"
| "mp_set k v ((k', v') # m) =
     (if k < k' then (k, v) # (k', v') # m
      else if k = k' then (k, v) # m
      else (k', v') # mp_set k v m)"

definition mp_erase :: "'k \<Rightarrow> ('k, 'v) mp \<Rightarrow> ('k, 'v) mp" where
  "mp_erase k m = filter (\<lambda>(k', _). k' \<noteq> k) m"

definition mp_keys :: "('k, 'v) mp \<Rightarrow> 'k list" where
  "mp_keys m = map fst m"

definition mp_ok :: "('k::linorder, 'v) mp \<Rightarrow> bool" where
  "mp_ok m \<longleftrightarrow> sorted_wrt (<) (mp_keys m)"

text \<open>A run of insertions, in the order of the list.\<close>

fun mp_sets :: "('k::linorder \<times> 'v) list \<Rightarrow> ('k, 'v) mp \<Rightarrow> ('k, 'v) mp" where
  "mp_sets [] m = m"
| "mp_sets ((k, v) # kvs) m = mp_sets kvs (mp_set k v m)"

lemma mp_find_set [mp_simps, simp]: "mp_find (mp_set k v m) k' = (if k' = k then Some v else mp_find m k')"
  by (induction k v m rule: mp_set.induct) auto

lemma mp_keys_set: "set (mp_keys (mp_set k v m)) = insert k (set (mp_keys m))"
  by (induction k v m rule: mp_set.induct) (auto simp: mp_keys_def)

lemma mp_ok_Nil [simp]: "mp_ok []"
  by (simp add: mp_ok_def mp_keys_def)

lemma mp_ok_Cons: "mp_ok ((k, v) # m) \<longleftrightarrow> (\<forall>k' \<in> set (mp_keys m). k < k') \<and> mp_ok m"
  by (simp add: mp_ok_def mp_keys_def)

lemma mp_ok_set [simp]: "mp_ok m \<Longrightarrow> mp_ok (mp_set k v m)"
  by (induction k v m rule: mp_set.induct)
    (auto simp: mp_ok_Cons mp_keys_set, (auto simp: mp_keys_def dest: order.strict_trans)?)

lemma mp_ok_sets [simp]: "mp_ok m \<Longrightarrow> mp_ok (mp_sets kvs m)"
  by (induction kvs m rule: mp_sets.induct) auto

lemma mp_ok_distinct: "mp_ok m \<Longrightarrow> distinct (mp_keys m)"
  by (simp add: mp_ok_def strict_sorted_iff)

lemma mp_ok_filter: "mp_ok m \<Longrightarrow> mp_ok (filter P m)"
  by (induction m) (auto simp: mp_ok_Cons mp_keys_def)

lemma mp_ok_same_keys: "mp_keys m = mp_keys m' \<Longrightarrow> mp_ok m \<longleftrightarrow> mp_ok m'"
  by (simp add: mp_ok_def)

lemma mp_find_iff: "mp_ok m \<Longrightarrow> mp_find m k = Some v \<longleftrightarrow> (k, v) \<in> set m"
  using mp_ok_distinct[of m] by (simp add: mp_keys_def)

lemma mp_find_None: "mp_find m k = None \<longleftrightarrow> k \<notin> set (mp_keys m)"
  by (simp add: map_of_eq_None_iff mp_keys_def)

lemma mp_keys_iff_find: "k \<in> set (mp_keys m) \<longleftrightarrow> (\<exists>v. mp_find m k = Some v)"
  using mp_find_None[of m k] by auto

lemma set_mp_set_subset: "set (mp_set k v m) \<subseteq> insert (k, v) (set m)"
  by (induction k v m rule: mp_set.induct) auto

lemma in_mp_setD: "(e, p) \<in> set (mp_set k v m) \<Longrightarrow> e = k \<and> p = v \<or> (e, p) \<in> set m"
  using set_mp_set_subset by fastforce

lemma set_mp_sets_subset: "set (mp_sets kvs m) \<subseteq> set kvs \<union> set m"
proof (induction kvs m rule: mp_sets.induct)
  case (2 k v kvs m)
  then show ?case using set_mp_set_subset[of k v m] by auto
qed simp

lemma mp_keys_sets: "set (mp_keys (mp_sets kvs m)) = fst ` set kvs \<union> set (mp_keys m)"
  by (induction kvs m rule: mp_sets.induct) (auto simp: mp_keys_set)

lemma mp_set_neq_Nil [simp]: "mp_set k v m \<noteq> []"
  by (induction k v m rule: mp_set.induct) auto

lemma mp_keys_set_same: "mp_ok m \<Longrightarrow> k \<in> set (mp_keys m) \<Longrightarrow> mp_keys (mp_set k v m) = mp_keys m"
  by (induction k v m rule: mp_set.induct) (auto simp: mp_ok_Cons, auto simp: mp_keys_def)

lemma mp_keys_map_snd [simp]: "mp_keys (map (\<lambda>(e, p). (e, f e p)) m) = mp_keys m"
  by (induction m) (auto simp: mp_keys_def)

lemma mp_find_map_snd [simp]:
  "mp_find (map (\<lambda>(e, p). (e, f e p)) m) k = map_option (f k) (mp_find m k)"
  by (induction m) auto

lemma mp_keys_Nil [simp]: "mp_keys [] = []"
  and mp_keys_Cons [simp]: "mp_keys ((k, v) # m) = k # mp_keys m"
  by (simp_all add: mp_keys_def)

lemma length_mp_keys [simp]: "length (mp_keys m) = length m"
  by (simp add: mp_keys_def)

lemma in_mp_keys: "(e, p) \<in> set m \<Longrightarrow> e \<in> set (mp_keys m)"
  by (force simp: mp_keys_def)

lemma mp_find_sets_absent: "k \<notin> fst ` set kvs \<Longrightarrow> mp_find (mp_sets kvs m) k = mp_find m k"
  by (induction kvs m rule: mp_sets.induct) auto

lemma mp_find_sets_unique:
  "(k, v) \<in> set kvs \<Longrightarrow> (\<And>v'. (k, v') \<in> set kvs \<Longrightarrow> v' = v) \<Longrightarrow> mp_find (mp_sets kvs m) k = Some v"
proof (induction kvs m rule: mp_sets.induct)
  case (2 k' w kvs m)
  show ?case
  proof (cases "(k, v) \<in> set kvs")
    case True
    then show ?thesis using 2(1)[OF True] 2(3) by simp
  next
    case False
    then have kw: "k' = k" "w = v" using 2(2) by auto
    have "k \<notin> fst ` set kvs" using False 2(3) by fastforce
    then show ?thesis by (simp add: mp_find_sets_absent kw)
  qed
qed simp

subsection \<open>Loops whose body may fail\<close>

text \<open>
  \<open>mp_imapM n\<close> runs a partial body over the entries of a map in iteration order,
  counting the iterations from \<open>n\<close>, and rebuilds a map with the same keys; it is
  undefined as soon as one run of the body is.  \<open>mp_mapM\<close> is the loop whose body does
  not look at the count.
\<close>

definition mp_imapM :: "nat \<Rightarrow> (nat \<Rightarrow> 'k \<Rightarrow> 'v \<Rightarrow> 'w option) \<Rightarrow> ('k, 'v) mp \<Rightarrow> ('k, 'w) mp option" where
  "mp_imapM n f m = those (map (\<lambda>(i, (e, p)). map_option (Pair e) (f i e p)) (enumerate n m))"

definition mp_mapM :: "('k \<Rightarrow> 'v \<Rightarrow> 'w option) \<Rightarrow> ('k, 'v) mp \<Rightarrow> ('k, 'w) mp option" where
  "mp_mapM f m = mp_imapM 0 (\<lambda>i. f) m"

lemma in_enumerateD: "(i, x) \<in> set (enumerate n xs) \<Longrightarrow> x \<in> set xs"
  by (auto simp: enumerate_eq_zip dest: set_zip_rightD)

lemma Bex_enumerate: "(\<exists>(i, x) \<in> set (enumerate 0 xs). P i x) \<longleftrightarrow> (\<exists>j < length xs. P j (xs ! j))"
proof -
  have "(\<exists>(i, x) \<in> set (enumerate 0 xs). P i x) \<longleftrightarrow> (\<exists>i x. (i, x) \<in> set (enumerate 0 xs) \<and> P i x)" by auto
  then show ?thesis by (simp add: in_set_enumerate_eq)
qed

lemma mp_imapM_cong [fundef_cong]:
  assumes "n = n'" and "m = m'" and "\<And>i e p. (e, p) \<in> set m' \<Longrightarrow> f i e p = g i e p"
  shows "mp_imapM n f m = mp_imapM n' g m'"
proof -
  have "map (\<lambda>(i, (e, p)). map_option (Pair e) (f i e p)) (enumerate n' m')
      = map (\<lambda>(i, (e, p)). map_option (Pair e) (g i e p)) (enumerate n' m')"
    using assms(3) by (intro map_cong) (auto dest!: in_enumerateD)
  then show ?thesis unfolding mp_imapM_def assms(1,2) by (rule arg_cong)
qed

lemma mp_mapM_cong [fundef_cong]:
  "m = m' \<Longrightarrow> (\<And>e p. (e, p) \<in> set m' \<Longrightarrow> f e p = g e p) \<Longrightarrow> mp_mapM f m = mp_mapM g m'"
  unfolding mp_mapM_def by (rule mp_imapM_cong) auto

lemma mp_imapM_Nil [simp]: "mp_imapM n f [] = Some []"
  by (simp add: mp_imapM_def)

lemma mp_imapM_Cons [simp]:
  "mp_imapM n f ((e, p) # m) =
     (case f n e p of None \<Rightarrow> None | Some q \<Rightarrow> map_option ((#) (e, q)) (mp_imapM (Suc n) f m))"
  by (simp add: mp_imapM_def split: option.splits)

lemma mp_imapM_const: "mp_imapM n (\<lambda>i. f) m = mp_mapM f m"
  unfolding mp_mapM_def
proof (induction m arbitrary: n)
  case (Cons x m)
  from Cons.IH[of "Suc n"] Cons.IH[of "Suc 0"] show ?case
    by (cases x) (simp split: option.splits)
qed simp

lemma mp_mapM_Nil [simp]: "mp_mapM f [] = Some []"
  by (simp add: mp_mapM_def)

lemma mp_mapM_Cons [simp]:
  "mp_mapM f ((e, p) # m) =
     (case f e p of None \<Rightarrow> None | Some q \<Rightarrow> map_option ((#) (e, q)) (mp_mapM f m))"
  using mp_imapM_const[of "Suc 0" f m] by (simp add: mp_mapM_def split: option.splits)

lemma mp_imapM_keys: "mp_imapM n f m = Some m' \<Longrightarrow> mp_keys m' = mp_keys m"
  by (induction m arbitrary: n m') (auto split: option.splits)

lemma mp_imapM_in:
  "mp_imapM n f m = Some m' \<Longrightarrow> (e, q) \<in> set m' \<Longrightarrow> \<exists>i p. (e, p) \<in> set m \<and> f i e p = Some q"
  by (induction m arbitrary: n m') (force split: option.splits)+

lemma mp_imapM_total:
  assumes "\<And>i e p. (e, p) \<in> set m \<Longrightarrow> \<exists>q. f i e p = Some q"
  shows "\<exists>m'. mp_imapM n f m = Some m'"
  using assms
proof (induction m arbitrary: n)
  case (Cons x m)
  obtain e p where x: "x = (e, p)" by force
  from Cons.prems[of e p n] x obtain q where "f n e p = Some q" by auto
  moreover obtain m' where "mp_imapM (Suc n) f m = Some m'" using Cons by force
  ultimately show ?case by (simp add: x)
qed simp

lemma mp_imapM_sum_list:
  assumes "mp_imapM n f m = Some m'"
    and "\<And>i e p q. (e, p) \<in> set m \<Longrightarrow> f i e p = Some q \<Longrightarrow> h e q = g e p"
  shows "(\<Sum>(e, q)\<leftarrow>m'. h e q) = (\<Sum>(e, p)\<leftarrow>m. g e p)"
  using assms
proof (induction m arbitrary: n m')
  case (Cons x m)
  then show ?case by (cases x) (fastforce split: option.splits)
qed simp

lemmas mp_mapM_keys = mp_imapM_keys [where n = 0 and f = "\<lambda>i. f" for f, folded mp_mapM_def]
lemmas mp_mapM_in = mp_imapM_in [where n = 0 and f = "\<lambda>i. f" for f, folded mp_mapM_def]
lemmas mp_mapM_total = mp_imapM_total [where n = 0 and f = "\<lambda>i. f" for f, folded mp_mapM_def]
lemmas mp_mapM_sum_list = mp_imapM_sum_list [where n = 0 and f = "\<lambda>i. f" for f, folded mp_mapM_def]

lemma mp_mapM_all_Some:
  assumes "\<And>e p. (e, p) \<in> set m \<Longrightarrow> f e p = Some (g e p)"
  shows "mp_mapM f m = Some (map (\<lambda>(e, p). (e, g e p)) m)"
  using assms
proof (induction m)
  case (Cons x m)
  then have "mp_mapM f m = Some (map (\<lambda>(e, p). (e, g e p)) m)" by simp
  moreover obtain e p where x: "x = (e, p)" by force
  moreover have "f e p = Some (g e p)" using Cons.prems x by simp
  ultimately show ?case by simp
qed simp

lemma mp_mapM_None:
  assumes "(e, p) \<in> set m" and "f e p = None"
  shows "mp_mapM f m = None"
  using assms
proof (induction m)
  case (Cons x m)
  then show ?case by (cases x) (auto split: option.splits)
qed simp

subsection \<open>Sums over the entries of a map\<close>

abbreviation msum :: "('k \<Rightarrow> 'v \<Rightarrow> 'a::comm_monoid_add) \<Rightarrow> ('k, 'v) mp \<Rightarrow> 'a" where
  "msum f m \<equiv> (\<Sum>(e, p)\<leftarrow>m. f e p)"

lemma msum_cong: "(\<And>e p. (e, p) \<in> set m \<Longrightarrow> f e p = g e p) \<Longrightarrow> msum f m = msum g m"
  by (induction m) auto

lemma msum_mp_set_new: "k \<notin> set (mp_keys m) \<Longrightarrow> msum f (mp_set k v m) = f k v + msum f m"
  by (induction k v m rule: mp_set.induct) (auto simp: ac_simps)

lemma msum_mp_set_old:
  assumes "mp_ok m" and "mp_find m k = Some v0"
  shows "msum f (mp_set k v m) + f k v0 = f k v + msum f m"
  using assms
proof (induction k v m rule: mp_set.induct)
  case (2 k v k' v' m)
  show ?case
  proof (cases "k = k'")
    case False
    with 2(3) have f: "mp_find m k = Some v0" by simp
    then have "k \<in> set (mp_keys m)" by (auto simp: mp_keys_iff_find)
    with 2(2) have "k' < k" and "mp_ok m" by (auto simp: mp_ok_Cons)
    moreover have "\<not> k < k'" using \<open>k' < k\<close> by simp
    ultimately show ?thesis using 2(1)[OF _ False _ f] False by (simp add: ac_simps)
  qed (use 2(3) in \<open>simp add: ac_simps\<close>)
qed simp

lemma msum_mp_sets:
  "distinct (map fst kvs) \<Longrightarrow> fst ` set kvs \<inter> set (mp_keys m) = {} \<Longrightarrow>
     msum f (mp_sets kvs m) = msum f kvs + msum f m"
proof (induction kvs m rule: mp_sets.induct)
  case (2 k v kvs m)
  then have "msum f (mp_sets kvs (mp_set k v m)) = msum f kvs + msum f (mp_set k v m)"
    by (auto simp: mp_keys_set)
  with 2 show ?case by (simp add: msum_mp_set_new ac_simps)
qed simp

lemma msum_filter_zero: "(\<And>e p. (e, p) \<in> set m \<Longrightarrow> \<not> P (e, p) \<Longrightarrow> f e p = 0) \<Longrightarrow> msum f (filter P m) = msum f m"
  by (induction m) auto

lemma msum_over_keys:
  "mp_ok m \<Longrightarrow> msum f m = (\<Sum>e\<in>set (mp_keys m). f e (the (mp_find m e)))"
proof (induction m)
  case (Cons x m)
  obtain k v where x: "x = (k, v)" by force
  from Cons.prems have nk: "k \<notin> set (mp_keys m)" and ok: "mp_ok m" by (auto simp: x mp_ok_Cons)
  have "(\<Sum>e\<in>set (mp_keys m). f e (the (mp_find ((k, v) # m) e)))
      = (\<Sum>e\<in>set (mp_keys m). f e (the (mp_find m e)))"
    using nk by (intro sum.cong) auto
  with Cons.IH[OF ok] nk show ?case by (simp add: x)
qed simp

lemma msum_split_keys:
  assumes "mp_ok m1" and "mp_ok m2"
  shows "msum f m2 = msum (\<lambda>e a. case mp_find m2 e of None \<Rightarrow> 0 | Some b \<Rightarrow> f e b) m1
           + msum f (filter (\<lambda>(e, b). mp_find m1 e = None) m2)"
proof -
  let ?g = "\<lambda>e. f e (the (mp_find m2 e))" and ?h = "\<lambda>e. case mp_find m2 e of None \<Rightarrow> 0 | Some b \<Rightarrow> f e b"
  let ?K1 = "set (mp_keys m1)" and ?K2 = "set (mp_keys m2)"
  let ?r = "filter (\<lambda>(e, b). mp_find m1 e = None) m2"
  have kr: "set (mp_keys ?r) = ?K2 - ?K1"
    by (induction m2) (simp_all add: mp_find_None case_prod_unfold insert_Diff_if mp_keys_def)
  have fr: "mp_find ?r e = mp_find m2 e" if "e \<in> ?K2 - ?K1" for e
  proof -
    from that have "mp_find m1 e = None" by (simp add: mp_find_None)
    then show ?thesis by (induction m2) auto
  qed
  have okr: "mp_ok ?r" by (rule mp_ok_filter[OF assms(2)])
  have "msum f m2 = (\<Sum>e\<in>?K2. ?g e)" by (rule msum_over_keys[OF assms(2)])
  also have "\<dots> = (\<Sum>e\<in>?K2 \<inter> ?K1. ?g e) + (\<Sum>e\<in>?K2 - ?K1. ?g e)"
    by (rule sum.Int_Diff) simp
  also have "(\<Sum>e\<in>?K2 \<inter> ?K1. ?g e) = (\<Sum>e\<in>?K1. ?h e)"
  proof (rule sum.mono_neutral_cong_left)
    show "\<forall>e\<in>?K1 - ?K2 \<inter> ?K1. ?h e = 0" by (auto simp: mp_keys_iff_find split: option.splits)
    show "?g e = ?h e" if "e \<in> ?K2 \<inter> ?K1" for e using that by (auto simp: mp_keys_iff_find)
  qed simp_all
  also have "(\<Sum>e\<in>?K1. ?h e) = msum (\<lambda>e a. ?h e) m1" by (rule msum_over_keys[OF assms(1), symmetric])
  also have "(\<Sum>e\<in>?K2 - ?K1. ?g e) = msum f ?r"
    unfolding msum_over_keys[OF okr] kr by (rule sum.cong) (simp_all add: fr)
  finally show ?thesis .
qed
lemma msum_add: "msum (\<lambda>e p. f e p + g e p) m = msum f m + msum g m"
  by (induction m) (auto simp: ac_simps)

lemma msum_mult_left: "(c::'a::semiring_0) * msum f m = msum (\<lambda>e p. c * f e p) m"
  by (induction m) (auto simp: algebra_simps)

lemma msum_mult_right: "msum f m * (c::'a::semiring_0) = msum (\<lambda>e p. f e p * c) m"
  by (induction m) (auto simp: algebra_simps)

end
