(* ===== verification/Symbols.thy ===== *)
theory Symbols
  imports Prelude
begin

text \<open>
  The symbols of a polynomial, from \<^verbatim>\<open>include/symbol.hpp\<close> and \<^verbatim>\<open>src/symbol.cpp\<close>:
  a 32-bit identifier taken from the global counter \<^verbatim>\<open>NUM_SYMBOLS\<close> and a flag that
  tells template (unknown) symbols from program variables.
\<close>

record symbol =
  get_id :: u32
  is_template :: bool

definition SYM_LIMIT :: u32 where
  "SYM_LIMIT = - 1"

text \<open>The constructor: it reads and increments the global counter, or throws.\<close>

definition symbol_new :: "bool \<Rightarrow> u32 \<Rightarrow> (symbol \<times> u32) result" where
  "symbol_new ais_template NUM_SYMBOLS =
     (if NUM_SYMBOLS \<ge> SYM_LIMIT
      then Inl (Throw ''[ERROR](symbol.h) Maximum symbol limit reached'')
      else Inr (\<lparr>get_id = NUM_SYMBOLS, is_template = ais_template\<rparr>, NUM_SYMBOLS + 1))"

text \<open>The destructor gives the count back, not the identifier.\<close>

definition symbol_delete :: "u32 \<Rightarrow> u32" where
  "symbol_delete NUM_SYMBOLS = NUM_SYMBOLS - 1"

definition symbol_eq :: "symbol \<Rightarrow> symbol \<Rightarrow> bool" where
  "symbol_eq a b \<longleftrightarrow> get_id a = get_id b"

definition symbol_gt :: "symbol \<Rightarrow> symbol \<Rightarrow> bool" where
  "symbol_gt a b \<longleftrightarrow> get_id a > get_id b"

definition symbol_lt :: "symbol \<Rightarrow> symbol \<Rightarrow> bool" where
  "symbol_lt a b \<longleftrightarrow> get_id a < get_id b"

lemma symbol_trichotomy: "\<not> symbol_gt a b \<Longrightarrow> \<not> symbol_lt a b \<Longrightarrow> symbol_eq a b"
  by (auto simp: symbol_gt_def symbol_lt_def symbol_eq_def)

lemma symbol_new_Inr:
  assumes "symbol_new t n = Inr (s, n')"
  shows "get_id s = n" and "is_template s = t" and "unat n' = unat n + 1"
proof -
  from assms have lt: "n < SYM_LIMIT" and n': "n' = n + 1" and s: "s = \<lparr>get_id = n, is_template = t\<rparr>"
    by (auto simp: symbol_new_def not_le split: if_splits)
  from s show "get_id s = n" and "is_template s = t" by simp_all
  have "n \<noteq> - 1" using lt by (auto simp: SYM_LIMIT_def)
  then show "unat n' = unat n + 1" unfolding n' by (metis Suc_eq_plus1 add.commute unatSuc add_eq_0_iff2)
qed

end
