(* ===== verification/Multinomial.thy ===== *)
theory Multinomial
  imports Symbols
begin

text \<open>
  The polynomial class \<^verbatim>\<open>multinomial\<close> of \<^verbatim>\<open>include/multinomial.hpp\<close> and
  \<^verbatim>\<open>src/polynomial.cpp\<close>.  A polynomial is nested: its main symbol \<^verbatim>\<open>prim_key\<close> and a
  map from 16-bit exponents to the coefficient polynomials; with \<^verbatim>\<open>prim_key == NULL\<close> the
  map holds one double at key 0.

  The operators own their unsaved operands and leave the saved ones alone, so a model of
  what they compute is a function of the values of the operands: \<open>None\<close> is undefined
  behaviour.  Every object a \<^verbatim>\<open>new multinomial()\<close> makes carries a double at key 0; where
  an operator gives such an object a main symbol without storing a polynomial at key 0
  (possible only when its operand has no entry at key 0), the double is later read as a
  polynomial, and the operator is undefined in the model.

  The coefficient type is a type variable: the definitions use only the operations the
  code uses, and nothing is assumed of them here.
\<close>

datatype 'a multinomial =
    MConst bool 'a
  | MNode bool symbol "(u16 \<times> 'a multinomial) list"

fun save :: "'a multinomial \<Rightarrow> bool" where
  "save (MConst s c) = s"
| "save (MNode s k m) = s"

text \<open>Constructors: a constant, and the polynomial of one symbol.\<close>

definition new_const :: "'a \<Rightarrow> bool \<Rightarrow> 'a multinomial" where
  "new_const c asave = MConst asave c"

definition new_symbol :: "symbol \<Rightarrow> bool \<Rightarrow> ('a::{zero, one}) multinomial" where
  "new_symbol aprim_key asave =
     MNode asave aprim_key (mp_set 0 (new_const 0 asave) (mp_set 1 (new_const 1 asave) []))"

definition is_zero :: "('a::zero) multinomial \<Rightarrow> bool" where
  "is_zero p = (case p of MConst s c \<Rightarrow> c = 0 | MNode s k m \<Rightarrow> False)"

definition simplify :: "('a::zero) multinomial \<Rightarrow> 'a multinomial" where
  "simplify p =
     (case p of
        MConst s c \<Rightarrow> p
      | MNode s k m \<Rightarrow>
          (if s then p
           else
             let m' = filter (\<lambda>(e, q). \<not> is_zero q) m in
             if m' = [] then MConst s 0
             else if mp_find m' 0 = None then MNode s k (mp_set 0 (new_const 0 False) m')
             else MNode s k m'))"

text \<open>
  \<^verbatim>\<open>operator=\<close> into a freshly made unsaved object: a saved source is copied in depth, an
  unsaved one is moved.
\<close>

fun assign :: "'a multinomial \<Rightarrow> 'a multinomial" where
  "assign (MConst s c) = MConst False c"
| "assign (MNode s k m) =
     (if s then MNode False k (map (\<lambda>(e, p). (e, assign p)) m) else MNode False k m)"

fun set_save :: "bool \<Rightarrow> 'a multinomial \<Rightarrow> 'a multinomial" where
  "set_save b (MConst s c) = MConst b c"
| "set_save b (MNode s k m) =
     (if s = b then MNode s k m else MNode b k (map (\<lambda>(e, p). (e, set_save b p)) m))"

lemma size_mp_in: "(e, p) \<in> set m \<Longrightarrow> size p < size (MNode s k m)"
  by (induction m) auto

lemma size_mp_find: "mp_find m e = Some p \<Longrightarrow> size p < size (MNode s k m)"
  by (blast dest: map_of_SomeD intro: size_mp_in)

lemma size_mp_find_snd [termination_simp]:
  "mp_find m e = Some p \<Longrightarrow> size p < Suc (size_list (\<lambda>x. Suc (size (snd x))) m)"
  by (induction m) (auto split: if_splits)

lemma multinomial_induct [case_names Const Node]:
  assumes "\<And>s c. P (MConst s c)"
    and "\<And>s k m. (\<And>e p. (e, p) \<in> set m \<Longrightarrow> P p) \<Longrightarrow> P (MNode s k m)"
  shows "P p"
proof (induction p)
  case (MNode s k m)
  show ?case by (rule assms(2)) (rule MNode, auto)
qed (rule assms(1))

lemma size_set_save [simp]: "size (set_save b p) = size p"
proof (induction p rule: multinomial_induct)
  case (Node s k m)
  have "size_list (size_prod (\<lambda>x. 0) size) (map (\<lambda>(e, p). (e, set_save b p)) m)
      = size_list (size_prod (\<lambda>x. 0) size) m"
    using Node by (induction m) fastforce+
  then show ?case by simp
qed simp

text \<open>\<^verbatim>\<open>operator+(const double&)\<close>.\<close>

fun add_c :: "('a::{zero, plus}) multinomial \<Rightarrow> 'a \<Rightarrow> 'a multinomial option" where
  "add_c (MConst s x) c = Some (MConst False (x + c))"
| "add_c (MNode s k m) c =
     (if \<not> s then
        (case mp_find m 0 of
           None \<Rightarrow>
             let p0 = MConst False (0 + c) in
             Some (if length (mp_set 0 p0 m) = 1 \<and> is_zero p0 then MConst False 0
                   else MNode False k (mp_set 0 p0 m))
         | Some p \<Rightarrow>
             (case add_c p c of
                None \<Rightarrow> None
              | Some p0 \<Rightarrow>
                  Some (if length (mp_set 0 p0 m) = 1 \<and> is_zero p0 then MConst False 0
                        else MNode False k (mp_set 0 p0 m))))
      else if mp_find m 0 = None then None
      else
        (case mp_mapM (\<lambda>e p. if e = 0 then add_c p c else Some (assign p)) m of
           None \<Rightarrow> None
         | Some m' \<Rightarrow> Some (simplify (MNode False k m'))))"

text \<open>\<^verbatim>\<open>operator+(multinomial&)\<close>: the polynomial of the smaller symbol stays outermost.\<close>

function add :: "('a::{zero, plus}) multinomial \<Rightarrow> 'a multinomial \<Rightarrow> 'a multinomial option" where
  "add (MConst s c) q = add_c q c"
| "add (MNode s1 k1 m1) (MConst s c) = add_c (MNode s1 k1 m1) c"
| "add (MNode s1 k1 m1) (MNode s2 k2 m2) =
     (if symbol_gt k1 k2 then
        (if mp_find m2 0 = None then None
         else map_option (MNode False k2)
                (mp_mapM (\<lambda>e a. if e \<noteq> 0 then Some (assign a) else add a (MNode s1 k1 m1)) m2))
      else if symbol_lt k1 k2 then
        (if mp_find m1 0 = None then None
         else map_option (MNode False k1)
                (mp_mapM (\<lambda>e a. if e \<noteq> 0 then Some (assign a) else add a (MNode s2 k2 m2)) m1))
      else if mp_find m1 0 = None \<and> mp_find m2 0 = None then None
      else
        (case mp_mapM (\<lambda>e a. case mp_find m2 e of
                               None \<Rightarrow> Some (assign a)
                             | Some b \<Rightarrow> map_option assign (add a b)) m1 of
           None \<Rightarrow> None
         | Some l \<Rightarrow>
             let rest = map (\<lambda>(e, b). (e, assign b)) (filter (\<lambda>(e, b). mp_find m1 e = None) m2) in
             Some (simplify (MNode False k1 (mp_sets rest l)))))"

  by pat_completeness auto
termination
  by (relation "measure (\<lambda>(p, q). size p + size q)")
    (auto dest!: size_mp_in [simplified] size_mp_find [simplified])

text \<open>\<^verbatim>\<open>operator*(const double&)\<close>.\<close>

fun mult_c :: "('a::{zero, times}) multinomial \<Rightarrow> 'a \<Rightarrow> 'a multinomial option" where
  "mult_c (MConst s x) c =
     (if \<not> s then Some (if c = 0 then MConst False 0 else MConst False (x * c))
      else Some (MConst False (x * c)))"
| "mult_c (MNode s k m) c =
     (if \<not> s then
        (if c = 0 then Some (MConst False 0)
         else map_option (MNode False k) (mp_mapM (\<lambda>e p. mult_c p c) m))
      else if mp_find m 0 = None then None
      else map_option (\<lambda>m'. simplify (MNode False k m')) (mp_mapM (\<lambda>e p. mult_c p c) m))"

text \<open>
  The flags an operand of \<^verbatim>\<open>operator*\<close> carries while the other operand's \<open>n\<close>
  coefficients are visited: raised during all visits but the last, when the original
  flag is put back (the operator may then consume it).
\<close>

definition guarded :: "nat \<Rightarrow> bool \<Rightarrow> nat \<Rightarrow> 'a multinomial \<Rightarrow> 'a multinomial" where
  "guarded n is_save i p =
     (let raised = (if n > 1 \<and> \<not> is_save then set_save True p else p) in
      if n > 1 \<and> i = n - 1 then set_save is_save raised else raised)"

lemma size_guarded [simp]: "size (guarded n is_save i p) = size p"
  by (simp add: guarded_def Let_def)

text \<open>The entries of the coefficient map, empty for a constant.\<close>

fun mp_of :: "'a multinomial \<Rightarrow> (u16 \<times> 'a multinomial) list" where
  "mp_of (MConst s c) = []"
| "mp_of (MNode s k m) = m"

lemma size_mp_of: "(e, p) \<in> set (mp_of q) \<Longrightarrow> size p < size q"
  by (cases q) (auto dest: size_mp_in [simplified])

text \<open>
  The products of the third case are added into the result in the order they are made;
  a product whose exponent (16 bits, wrapping) is already there is added to that entry.
\<close>

fun accumulate :: "(u16 \<times> ('a::{zero, plus}) multinomial) list \<Rightarrow> (u16 \<times> 'a multinomial) list
    \<Rightarrow> (u16 \<times> 'a multinomial) list option" where
  "accumulate [] ans = Some ans"
| "accumulate ((e, r) # prods) ans =
     (case mp_find ans e of
        None \<Rightarrow> accumulate prods (mp_set e r ans)
      | Some old \<Rightarrow>
          (case add old r of
             None \<Rightarrow> None
           | Some r' \<Rightarrow> accumulate prods (mp_set e r' ans)))"

text \<open>\<^verbatim>\<open>operator*(multinomial&)\<close>.\<close>

function mult :: "('a::{zero, plus, times}) multinomial \<Rightarrow> 'a multinomial \<Rightarrow> 'a multinomial option" where
  "mult (MConst s c) q = mult_c q c"
| "mult (MNode s1 k1 m1) (MConst s c) = mult_c (MNode s1 k1 m1) c"
| "mult (MNode s1 k1 m1) (MNode s2 k2 m2) =
     (if symbol_gt k1 k2 then
        map_option (\<lambda>l. simplify (MNode False k2 l))
          (mp_imapM 0 (\<lambda>i e a. mult a (guarded (length m2) s1 i (MNode s1 k1 m1))) m2)
      else if symbol_lt k1 k2 then
        map_option (\<lambda>l. simplify (MNode False k1 l))
          (mp_imapM 0 (\<lambda>i e a. mult a (guarded (length m1) s2 i (MNode s2 k2 m2))) m1)
      else
        (case mp_imapM 0 (\<lambda>i ea a.
                map_option (map (\<lambda>(eb, r). (ea + eb, r)))
                  (mp_imapM 0 (\<lambda>j eb b. mult (guarded (length m2) s1 j a) b)
                     (mp_of (guarded (length m1) s2 i (MNode s2 k2 m2))))) m1 of
           None \<Rightarrow> None
         | Some prods \<Rightarrow>
             map_option (\<lambda>l. simplify (MNode False k1 l)) (accumulate (concat (map snd prods)) [])))"
  by pat_completeness auto
termination
proof (relation "measure (\<lambda>(p, q). size p + size q)", goal_cases)
  case (4 s1 k1 m1 s2 k2 m2 i ea a j eb b)
  then have "size a < size (MNode s1 k1 m1)" by (auto intro: size_mp_in simp del: multinomial.size)
  moreover have "size b < size (MNode s2 k2 m2)"
    using 4 by (auto dest!: size_mp_of simp del: multinomial.size)
  ultimately show ?case by simp
qed (auto dest!: size_mp_in [simplified])

text \<open>
  \<^verbatim>\<open>operator^\<close>: powers 1 and 2 directly, any other by binary exponentiation on the
  16-bit exponent.  The recursive call \<^verbatim>\<open>*temp^2\<close> of the loop is \<open>square\<close>.
\<close>

definition square :: "('a::{zero, one, plus, times}) multinomial \<Rightarrow> 'a multinomial option" where
  "square p =
     (case mult_c p 1 of
        None \<Rightarrow> None
      | Some temp \<Rightarrow> mult (set_save True temp) (set_save True temp))"

definition half_pow :: "u16 \<Rightarrow> u16" where
  "half_pow cpow = (cpow - cpow mod 2) div 2"

lemma unat_half_pow: "unat (half_pow c) = unat c div 2"
proof -
  have "c mod 2 \<le> c" by (simp add: word_le_nat_alt unat_mod)
  then have "unat (c - c mod 2) = unat c - unat c mod 2"
    by (simp add: unat_sub unat_mod)
  then show ?thesis by (simp add: half_pow_def unat_div minus_mod_eq_mult_div)
qed

text \<open>One turn of the loop on an odd exponent multiplies the saved \<^verbatim>\<open>temp\<close> into the result.\<close>

definition pow_step :: "('a::{zero, one, plus, times}) multinomial \<Rightarrow> 'a multinomial \<Rightarrow> u16
    \<Rightarrow> ('a multinomial \<times> 'a multinomial) option" where
  "pow_step temp ans cpow =
     (if cpow mod 2 = 1
      then map_option (\<lambda>r. (set_save False (set_save True temp), r)) (mult ans (set_save True temp))
      else Some (temp, ans))"

function pow_loop :: "('a::{zero, one, plus, times}) multinomial \<Rightarrow> 'a multinomial \<Rightarrow> u16
    \<Rightarrow> 'a multinomial option" where
  "pow_loop temp ans cpow =
     (if cpow > 0 then
        (case pow_step temp ans cpow of
           None \<Rightarrow> None
         | Some (temp', ans') \<Rightarrow>
             if half_pow cpow = 0 then Some ans'
             else
               (case square temp' of
                  None \<Rightarrow> None
                | Some temp'' \<Rightarrow> pow_loop temp'' ans' (half_pow cpow)))
      else Some ans)"
  by pat_completeness auto
termination
  by (relation "measure (\<lambda>(temp, ans, cpow). unat cpow)")
    (auto simp: unat_half_pow word_less_nat_alt)

declare pow_loop.simps [simp del]

definition power_poly :: "('a::{zero, one, plus, times}) multinomial \<Rightarrow> u16 \<Rightarrow> 'a multinomial option" where
  "power_poly p pow =
     (case mult_c p 1 of
        None \<Rightarrow> None
      | Some temp \<Rightarrow>
          if pow = 1 then Some temp
          else if pow = 2 then mult (set_save True temp) (set_save True temp)
          else pow_loop temp (new_const 1 False) pow)"

text \<open>
  \<^verbatim>\<open>get_degree\<close>: the recursive call takes the default argument, so the flag governs
  the outermost symbol only.
\<close>

fun get_degree :: "bool \<Rightarrow> 'a multinomial \<Rightarrow> u32" where
  "get_degree count_template (MConst s c) = 0"
| "get_degree count_template (MNode s k m) =
     (if \<not> count_template \<and> is_template k then 0
      else fold (\<lambda>d ans. max ans d) (map (\<lambda>(e, p). ucast e + get_degree True p) m) 0)"

text \<open>\<^verbatim>\<open>reduce\<close>: the coefficients with respect to the program variables.\<close>

fun reduce :: "'a multinomial \<Rightarrow> 'a multinomial list" where
  "reduce (MConst s c) = [MConst s c]"
| "reduce (MNode s k m) =
     (if is_template k then [MNode s k m] else concat (map (\<lambda>(e, p). reduce p) m))"

text \<open>\<^verbatim>\<open>is_proper\<close>: the symbols do not decrease from the outside in.\<close>

fun is_proper :: "u32 \<Rightarrow> 'a multinomial \<Rightarrow> bool" where
  "is_proper i (MConst s c) = True"
| "is_proper i (MNode s k m) =
     (let i' = (if i = 0 then get_id k else i) in
      if get_id k < i' then False
      else list_all (\<lambda>(e, p). is_proper (get_id k) p) m)"

fun ret_id_arr :: "'a multinomial \<Rightarrow> u32 list" where
  "ret_id_arr (MConst s c) = []"
| "ret_id_arr (MNode s k m) = get_id k # concat (map (\<lambda>(e, p). ret_id_arr p) m)"

fun cmp_poly :: "u32 list \<Rightarrow> 'a multinomial \<Rightarrow> bool" where
  "cmp_poly v (MConst s c) = False"
| "cmp_poly v (MNode s k m) =
     (if list_ex (\<lambda>v_id. v_id = get_id k) v then True
      else list_ex (\<lambda>(e, p). cmp_poly v p) m)"

text \<open>
  \<^verbatim>\<open>substitute\<close>: the value at a point given as a vector indexed by symbol identifiers;
  an index outside the vector is undefined.
\<close>

fun substitute :: "('a::{zero, plus, power}) list \<Rightarrow> 'a multinomial \<Rightarrow> 'a option" where
  "substitute vals (MConst s c) = Some c"
| "substitute vals (MNode s k m) =
     map_option (\<lambda>terms. fold (\<lambda>(e, t) ans. ans + t) terms 0)
       (mp_mapM (\<lambda>e p.
          if unat (get_id k) < length vals
          then map_option (\<lambda>temp. (vals ! unat (get_id k)) ^ unat e * temp) (substitute vals p)
          else None) m)"

subsection \<open>Well-formed polynomials\<close>

text \<open>
  The invariant of the class: the exponents of a node are strictly increasing (the map)
  and start with 0, and the symbols strictly increase from the outside in.
\<close>

fun above_id :: "u32 \<Rightarrow> 'a multinomial \<Rightarrow> bool" where
  "above_id i (MConst s c) = True"
| "above_id i (MNode s k m) = (i < get_id k)"

fun wf_poly :: "'a multinomial \<Rightarrow> bool" where
  "wf_poly (MConst s c) = True"
| "wf_poly (MNode s k m) =
     (mp_ok m \<and> mp_find m 0 \<noteq> None \<and> list_all (\<lambda>(e, p). above_id (get_id k) p \<and> wf_poly p) m)"

text \<open>All exponents are at most a bound.\<close>

fun exps_le :: "nat \<Rightarrow> 'a multinomial \<Rightarrow> bool" where
  "exps_le B (MConst s c) = True"
| "exps_le B (MNode s k m) = list_all (\<lambda>(e, p). unat e \<le> B \<and> exps_le B p) m"

text \<open>The value of a polynomial under a valuation of its symbols: the specification.\<close>

fun eval :: "(u32 \<Rightarrow> 'a::comm_ring_1) \<Rightarrow> 'a multinomial \<Rightarrow> 'a" where
  "eval \<rho> (MConst s c) = c"
| "eval \<rho> (MNode s k m) = (\<Sum>(e, p)\<leftarrow>m. \<rho> (get_id k) ^ unat e * eval \<rho> p)"

end
