(* ===== verification/Multinomial_Grades.thy ===== *)
theory Multinomial_Grades
  imports Multinomial
begin

text \<open>
  Bounds on the shape of polynomials.  A grade assigns to a polynomial the statement that
  some quantity of it is at most \<open>d\<close>, entry by entry: the entry of exponent \<open>e\<close> under the
  symbol \<open>k\<close> is admissible for \<open>d\<close> and its coefficient has the grade that is left.  The
  locale states what the arithmetic needs of a grade; its lemmas say that sums keep the
  grade and products add the grades.  The largest exponent, the degree in a set of symbols
  and the set of symbols are grades.
\<close>

subsection \<open>Entries\<close>

lemma all_mp_image [simp]:
  "(\<forall>e p. (e, p) \<in> (\<lambda>(e, p). (e, f p)) ` S \<longrightarrow> P e p) \<longleftrightarrow> (\<forall>e p. (e, p) \<in> S \<longrightarrow> P e (f p))"
  by force

lemma comp_mp [simp]: "(\<lambda>(e, p). h e p) \<circ> (\<lambda>(e, p). (e, f e p)) = (\<lambda>(e, p). h e (f e p))"
  by auto

lemma list_all_mp_iff: "list_all (\<lambda>(e, p). P e p) m \<longleftrightarrow> (\<forall>e p. (e, p) \<in> set m \<longrightarrow> P e p)"
  by (auto simp: list_all_iff)

lemma mp_ok_map_snd [simp]: "mp_ok (map (\<lambda>(e, p). (e, f e p)) m) = mp_ok m"
  by (simp add: mp_ok_def)

lemma symbol_cases:
  obtains (gt) "symbol_gt k1 k2" | (lt) "\<not> symbol_gt k1 k2" "symbol_lt k1 k2"
  | (eq) "\<not> symbol_gt k1 k2" "\<not> symbol_lt k1 k2" "get_id k2 = get_id k1"
  by (metis symbol_eq_def symbol_trichotomy)

lemma guarded_MNode: "\<exists>s' m'. guarded n b i (MNode s k m) = MNode s' k m'"
  by (auto simp: guarded_def Let_def)

lemma unat_add_le: "unat (a + b :: u16) \<le> unat a + unat b"
  by (simp add: unat_word_ariths)

text \<open>The body of the saved branch of \<open>add_c\<close>: one entry is added to, the others are copied.\<close>

abbreviation add_c_entry :: "('a::{zero, plus}) \<Rightarrow> u16 \<Rightarrow> 'a multinomial \<Rightarrow> 'a multinomial option" where
  "add_c_entry c \<equiv> \<lambda>e p. if e = 0 then add_c p c else Some (assign p)"

text \<open>The body of the loops of \<open>add\<close> over a polynomial in the smaller symbol.\<close>

abbreviation zero_entry :: "('a multinomial \<Rightarrow> 'a multinomial option) \<Rightarrow> u16 \<Rightarrow> 'a multinomial
    \<Rightarrow> 'a multinomial option" where
  "zero_entry g \<equiv> \<lambda>e a. if e \<noteq> 0 then Some (assign a) else g a"

text \<open>The products the third case of \<open>mult\<close> makes, from the two loops.\<close>

abbreviation products :: "('a::{zero, plus, times}) multinomial \<Rightarrow> bool \<Rightarrow> nat
    \<Rightarrow> 'a multinomial \<Rightarrow> bool \<Rightarrow> nat \<Rightarrow> (u16 \<times> (u16 \<times> 'a multinomial) list) list option" where
  "products p s1 n1 q s2 n2 \<equiv>
     mp_imapM 0 (\<lambda>i ea a.
       map_option (map (\<lambda>(eb, r). (ea + eb, r)))
         (mp_imapM 0 (\<lambda>j eb b. mult (guarded n2 s1 j a) b) (mp_of (guarded n1 s2 i q)))) (mp_of p)"

lemma products_in:
  assumes "products p s1 n1 q s2 n2 = Some prods" and "(e, r) \<in> set (concat (map snd prods))"
  obtains i j ea a eb b where "(ea, a) \<in> set (mp_of p)" and "(eb, b) \<in> set (mp_of (guarded n1 s2 i q))"
    and "mult (guarded n2 s1 j a) b = Some r" and "e = ea + eb"
proof -
  from assms(2) obtain ea rs where 1: "(ea, rs) \<in> set prods" and 2: "(e, r) \<in> set rs" by force
  from mp_imapM_in[OF assms(1) 1] obtain i a l where a: "(ea, a) \<in> set (mp_of p)"
    and l: "mp_imapM 0 (\<lambda>j eb b. mult (guarded n2 s1 j a) b) (mp_of (guarded n1 s2 i q)) = Some l"
    and rs: "rs = map (\<lambda>(eb, r). (ea + eb, r)) l" by auto
  from 2 rs obtain eb where eb: "(eb, r) \<in> set l" and e: "e = ea + eb" by auto
  from mp_imapM_in[OF l eb] a e show ?thesis using that by blast
qed

subsection \<open>Grades\<close>

locale poly_grade =
  fixes good :: "nat \<Rightarrow> 'a::{zero, plus, times} multinomial \<Rightarrow> bool"
    and top :: "symbol \<Rightarrow> bool"
    and adm :: "nat \<Rightarrow> symbol \<Rightarrow> u16 \<Rightarrow> bool"
    and left :: "nat \<Rightarrow> symbol \<Rightarrow> u16 \<Rightarrow> nat"
  assumes const [simp]: "good d (MConst s c)"
    and node: "good d (MNode s k m) \<longleftrightarrow> top k \<and> (\<forall>e p. (e, p) \<in> set m \<longrightarrow> adm d k e \<and> good (left d k e) p)"
    and same: "get_id k = get_id k' \<Longrightarrow> adm d k = adm d k' \<and> left d k = left d k'"
    and zero [simp]: "adm d k 0" "left d k 0 = d"
    and adm_mono: "adm a k e \<Longrightarrow> a \<le> b \<Longrightarrow> adm b k e"
    and left_mono: "a \<le> b \<Longrightarrow> left a k e \<le> left b k e"
    and sum: "adm a k e \<Longrightarrow> adm b k e' \<Longrightarrow>
        adm (a + b) k (e + e') \<and> left a k e + left b k e' \<le> left (a + b) k (e + e')"
begin

lemma good_mono: "good a p \<Longrightarrow> a \<le> b \<Longrightarrow> good b p"
proof (induction p arbitrary: a b rule: multinomial_induct)
  case (Node s k m)
  then show ?case unfolding node by (blast intro: adm_mono left_mono)
qed simp

lemma good_child: "good d (MNode s k m) \<Longrightarrow> (e, p) \<in> set m \<Longrightarrow> adm d k e \<and> good (left d k e) p"
  by (simp add: node)

lemma good_child0: "good d (MNode s k m) \<Longrightarrow> (0, p) \<in> set m \<Longrightarrow> good d p"
  using good_child[of d s k m 0 p] by simp

lemma good_set_save [simp]: "good d (set_save b p) = good d p"
proof (induction p arbitrary: d rule: multinomial_induct)
  case (Node s k m)
  then show ?case by (auto simp: node)
qed simp

lemma good_assign [simp]: "good d (assign p) = good d p"
proof (induction p arbitrary: d rule: multinomial_induct)
  case (Node s k m)
  then show ?case by (auto simp: node)
qed simp

lemma good_guarded [simp]: "good d (guarded n b j p) = good d p"
  by (simp add: guarded_def Let_def)

lemma good_mp_of_guarded:
  assumes "good d (MNode s k m)" and "(e, p) \<in> set (mp_of (guarded n b i (MNode s k m)))"
  shows "adm d k e \<and> good (left d k e) p"
proof -
  obtain s' m' where g: "guarded n b i (MNode s k m) = MNode s' k m'" using guarded_MNode by blast
  have "good d (MNode s' k m')" using good_guarded[of d n b i "MNode s k m"] assms(1) g by simp
  then show ?thesis using assms(2) by (simp add: g good_child)
qed

lemma good_simplify: "good d (MNode s k m) \<Longrightarrow> good d (simplify (MNode s k m))"
  by (auto simp: simplify_def Let_def node new_const_def dest!: in_mp_setD)

lemma good_mapM:
  assumes "mp_imapM n f m = Some m'" and "top k"
    and "\<And>i e p q. (e, p) \<in> set m \<Longrightarrow> f i e p = Some q \<Longrightarrow> adm d k e \<and> good (left d k e) q"
  shows "good d (MNode s k m')"
  using assms(2,3) mp_imapM_in[OF assms(1)] unfolding node by blast

lemma good_mp_set:
  assumes "good d (MNode s k m)" and "adm d k e" and "good (left d k e) q"
  shows "good d (MNode s' k (mp_set e q m))"
  using assms unfolding node by (blast dest: in_mp_setD)

lemma good_add_c: "add_c p c = Some r \<Longrightarrow> good d p \<Longrightarrow> good d r"
proof (induction p arbitrary: r d rule: multinomial_induct)
  case (Node s k m)
  have top: "top k" and ch: "\<And>e p. (e, p) \<in> set m \<Longrightarrow> adm d k e \<and> good (left d k e) p"
    using Node.prems(2) by (simp_all add: node)
  have put: "good d (if length (mp_set 0 p0 m) = 1 \<and> is_zero p0 then MConst False 0 else MNode False k (mp_set 0 p0 m))"
    if "good d p0" for p0
    using that by (simp add: good_mp_set[OF Node.prems(2)])
  show ?case
  proof (cases s)
    case False
    show ?thesis
    proof (cases "mp_find m 0")
      case None
      with False Node.prems(1) show ?thesis using put[of "MConst False (0 + c)"] by (auto simp: Let_def)
    next
      case (Some p)
      note mem = map_of_SomeD[OF Some]
      from False Some Node.prems(1) obtain p0 where p0: "add_c p c = Some p0"
        and r: "r = (if length (mp_set 0 p0 m) = 1 \<and> is_zero p0 then MConst False 0 else MNode False k (mp_set 0 p0 m))"
        by (auto split: option.splits)
      show ?thesis unfolding r by (rule put) (rule Node.IH[OF mem p0 good_child0[OF Node.prems(2) mem]])
    qed
  next
    case True
    with Node.prems(1) obtain m' where m': "mp_mapM (add_c_entry c) m = Some m'"
      and r: "r = simplify (MNode False k m')" by (auto split: if_splits option.splits)
    have "adm d k e \<and> good (left d k e) q" if "(e, p) \<in> set m" "add_c_entry c e p = Some q" for e p q
      using that ch[OF that(1)] Node.IH[OF that(1)] by (auto split: if_splits)
    then show ?thesis unfolding r by (intro good_simplify good_mapM[OF m'[unfolded mp_mapM_def] top])
  qed
qed auto

lemma good_zero_loop:
  assumes "mp_mapM (zero_entry g) m = Some m'" and "good d (MNode s k m)"
    and "\<And>a q. (0, a) \<in> set m \<Longrightarrow> g a = Some q \<Longrightarrow> good d q"
  shows "good d (MNode s' k m')"
proof (rule good_mapM[OF assms(1)[unfolded mp_mapM_def]])
  show "top k" using assms(2) by (simp add: node)
  fix i :: nat and e p q assume "(e, p) \<in> set m" and "zero_entry g e p = Some q"
  with good_child[OF assms(2), of e p] assms(3)[of p q] show "adm d k e \<and> good (left d k e) q"
    by (auto split: if_splits)
qed

lemma good_add: "add p q = Some r \<Longrightarrow> good d p \<Longrightarrow> good d q \<Longrightarrow> good d r"
proof (induction p q arbitrary: r d rule: add.induct)
  case (3 s1 k1 m1 s2 k2 m2)
  note c1 = good_child[OF "3.prems"(2)] and c2 = good_child[OF "3.prems"(3)]
  show ?case
  proof (cases k1 k2 rule: symbol_cases)
    case gt
    with "3.prems"(1) obtain m' where m': "mp_mapM (zero_entry (\<lambda>a. add a (MNode s1 k1 m1))) m2 = Some m'"
      and z: "mp_find m2 0 \<noteq> None" and r: "r = MNode False k2 m'" by (auto split: if_splits)
    show ?thesis unfolding r
    proof (rule good_zero_loop[OF m' "3.prems"(3)])
      fix a q assume a: "(0, a) \<in> set m2" and q: "add a (MNode s1 k1 m1) = Some q"
      show "good d q" using "3.IH"(1)[OF gt z a _ q good_child0[OF "3.prems"(3) a] "3.prems"(2)] by simp
    qed
  next
    case lt
    with "3.prems"(1) obtain m' where m': "mp_mapM (zero_entry (\<lambda>a. add a (MNode s2 k2 m2))) m1 = Some m'"
      and z: "mp_find m1 0 \<noteq> None" and r: "r = MNode False k1 m'" by (auto split: if_splits)
    show ?thesis unfolding r
    proof (rule good_zero_loop[OF m' "3.prems"(2)])
      fix a q assume a: "(0, a) \<in> set m1" and q: "add a (MNode s2 k2 m2) = Some q"
      show "good d q" using "3.IH"(2)[OF lt z a _ q good_child0[OF "3.prems"(2) a] "3.prems"(3)] by simp
    qed
  next
    case eq
    let ?f = "\<lambda>e a. case mp_find m2 e of None \<Rightarrow> Some (assign a) | Some b \<Rightarrow> map_option assign (add a b)"
    let ?rest = "map (\<lambda>(e, b). (e, assign b)) (filter (\<lambda>(e, b). mp_find m1 e = None) m2)"
    from eq "3.prems"(1) obtain l where z: "\<not> (mp_find m1 0 = None \<and> mp_find m2 0 = None)"
      and l: "mp_mapM ?f m1 = Some l"
      and r: "r = simplify (MNode False k1 (mp_sets ?rest l))"
      by (auto simp: Let_def split: option.splits if_splits)
    have c2': "adm d k1 e \<and> good (left d k1 e) b" if "(e, b) \<in> set m2" for e b
      using c2[OF that] same[OF eq(3), of d] by simp
    have "adm d k1 e \<and> good (left d k1 e) q" if "(e, a) \<in> set m1" "?f e a = Some q" for e a q
      using that c1 c2' "3.IH"(3)[OF eq(1,2) z that(1)]
      by (auto split: option.splits dest: map_of_SomeD)
    then have gl: "good d (MNode False k1 l)"
      using "3.prems"(2) by (intro good_mapM[OF l[unfolded mp_mapM_def]]) (simp add: node)
    have "adm d k1 e \<and> good (left d k1 e) q" if "(e, q) \<in> set ?rest" for e q using that c2' by auto
    then have "good d (MNode False k1 (mp_sets ?rest l))"
      using set_mp_sets_subset[of ?rest l] gl unfolding node by blast
    then show ?thesis unfolding r by (rule good_simplify)
  qed
qed (auto intro: good_add_c simp del: add_c.simps)

lemma good_mult_c: "mult_c p c = Some r \<Longrightarrow> good d p \<Longrightarrow> good d r"
proof (induction p arbitrary: r d rule: multinomial_induct)
  case (Node s k m)
  have "good d (MNode False k m')" if m': "mp_mapM (\<lambda>e p. mult_c p c) m = Some m'" for m'
  proof (rule good_mapM[OF m'[unfolded mp_mapM_def]])
    show "top k" using Node.prems(2) by (simp add: node)
    show "adm d k e \<and> good (left d k e) q" if "(e, p) \<in> set m" "mult_c p c = Some q" for e p q
      using good_child[OF Node.prems(2) that(1)] Node.IH[OF that] by blast
  qed
  with Node.prems(1) show ?case by (auto split: if_splits intro: good_simplify)
qed (auto split: if_splits)

lemma good_accumulate:
  assumes "accumulate prods ans = Some l" and "good d (MNode s k ans)"
    and "\<And>e p. (e, p) \<in> set prods \<Longrightarrow> adm d k e \<and> good (left d k e) p"
  shows "good d (MNode s k l)"
  using assms
proof (induction prods ans rule: accumulate.induct)
  case (2 e r prods ans)
  have r: "adm d k e" "good (left d k e) r" using "2.prems"(3)[of e r] by auto
  have rest: "adm d k e' \<and> good (left d k e') p" if "(e', p) \<in> set prods" for e' p
    using "2.prems"(3)[of e' p] that by simp
  note set = good_mp_set[OF "2.prems"(2) r(1)]
  show ?case
  proof (cases "mp_find ans e")
    case None
    with "2.IH"(1)[OF None _ set[OF r(2)] rest] "2.prems"(1) show ?thesis by simp
  next
    case (Some old)
    have old: "good (left d k e) old" using good_child[OF "2.prems"(2) map_of_SomeD[OF Some]] by simp
    obtain r' where r': "add old r = Some r'" "accumulate prods (mp_set e r' ans) = Some l"
      using Some "2.prems"(1) by (auto split: option.splits)
    show ?thesis by (rule "2.IH"(2)[OF Some r' set[OF good_add[OF r'(1) old r(2)]] rest])
  qed
qed simp

lemma sum0:
  assumes "adm b k e"
  shows "adm (a + b) k e" and "a + left b k e \<le> left (a + b) k e"
  using sum[of a k 0 b e] assms by simp_all

lemma good_mult: "mult p q = Some r \<Longrightarrow> good a p \<Longrightarrow> good b q \<Longrightarrow> good (a + b) r"
proof (induction p q arbitrary: r a b rule: mult.induct)
  case (1 s c q)
  then show ?case by (auto intro: good_mono[OF good_mult_c])
next
  case (2 s1 k1 m1 s c)
  then show ?case by (auto intro: good_mono[OF good_mult_c] simp del: mult_c.simps)
next
  case (3 s1 k1 m1 s2 k2 m2)
  let ?p = "MNode s1 k1 m1" and ?q = "MNode s2 k2 m2"
  note c1 = good_child[OF "3.prems"(2)] and c2 = good_child[OF "3.prems"(3)]
  have top: "top k1" "top k2" using "3.prems"(2,3) by (simp_all add: node)
  show ?case
  proof (cases k1 k2 rule: symbol_cases)
    case gt
    with "3.prems"(1) obtain m' where
      m': "mp_imapM 0 (\<lambda>i e x. mult x (guarded (length m2) s1 i ?p)) m2 = Some m'"
      and r: "r = simplify (MNode False k2 m')" by auto
    show ?thesis unfolding r
    proof (rule good_simplify, rule good_mapM[OF m' top(2)])
      fix i e x q assume x: "(e, x) \<in> set m2" and q: "mult x (guarded (length m2) s1 i ?p) = Some q"
      from "3.IH"(1)[OF gt x q, of "left b k2 e" a] c2[OF x] "3.prems"(2)
      have "good (left b k2 e + a) q" by simp
      with sum0[of b k2 e a] c2[OF x] show "adm (a + b) k2 e \<and> good (left (a + b) k2 e) q"
        by (auto simp: add.commute intro: good_mono)
    qed
  next
    case lt
    with "3.prems"(1) obtain m' where
      m': "mp_imapM 0 (\<lambda>i e x. mult x (guarded (length m1) s2 i ?q)) m1 = Some m'"
      and r: "r = simplify (MNode False k1 m')" by auto
    show ?thesis unfolding r
    proof (rule good_simplify, rule good_mapM[OF m' top(1)])
      fix i e x q assume x: "(e, x) \<in> set m1" and q: "mult x (guarded (length m1) s2 i ?q) = Some q"
      from "3.IH"(2)[OF lt x q, of "left a k1 e" b] c1[OF x] "3.prems"(3)
      have "good (left a k1 e + b) q" by simp
      with sum0[of a k1 e b] c1[OF x] show "adm (a + b) k1 e \<and> good (left (a + b) k1 e) q"
        by (auto simp: add.commute[of b] intro: good_mono)
    qed
  next
    case eq
    from eq "3.prems"(1) obtain prods l where prods: "products ?p s1 (length m1) ?q s2 (length m2) = Some prods"
      and l: "accumulate (concat (map snd prods)) [] = Some l" and r: "r = simplify (MNode False k1 l)"
      by (auto split: option.splits)
    show ?thesis unfolding r
    proof (rule good_simplify, rule good_accumulate[OF l])
      fix e t assume "(e, t) \<in> set (concat (map snd prods))"
      then obtain i j ea x eb y where x: "(ea, x) \<in> set m1" and y: "(eb, y) \<in> set (mp_of (guarded (length m1) s2 i ?q))"
        and t: "mult (guarded (length m2) s1 j x) y = Some t" and e: "e = ea + eb"
        using products_in[OF prods] by (metis mp_of.simps(2))
      have gy: "adm b k1 eb" "good (left b k1 eb) y"
        using good_mp_of_guarded[OF "3.prems"(3) y] same[OF eq(3), of b] by simp_all
      have "good (left a k1 ea + left b k1 eb) t"
        using "3.IH"(3)[OF eq(1,2) x y t, of "left a k1 ea" "left b k1 eb"] c1[OF x] gy by simp
      with sum[of a k1 ea b eb] c1[OF x] gy e show "adm (a + b) k1 e \<and> good (left (a + b) k1 e) t"
        by (auto intro: good_mono)
    qed (simp add: node top)
  qed
qed

end

subsection \<open>Largest exponent, degree in a set of symbols, set of symbols\<close>

interpretation exps: poly_grade exps_le "\<lambda>k. True" "\<lambda>B k e. unat e \<le> B" "\<lambda>B k e. B"
  by unfold_locales (auto simp: list_all_mp_iff intro: order_trans[OF unat_add_le])

text \<open>The degree in the symbols of a set, counted along every path, is at most \<open>d\<close>.\<close>

fun tdeg_le :: "u32 set \<Rightarrow> nat \<Rightarrow> 'a multinomial \<Rightarrow> bool" where
  "tdeg_le T d (MConst s c) = True"
| "tdeg_le T d (MNode s k m) =
     list_all (\<lambda>(e, p). (get_id k \<in> T \<longrightarrow> unat e \<le> d) \<and> tdeg_le T (if get_id k \<in> T then d - unat e else d) p) m"

interpretation tdeg: poly_grade "tdeg_le T" "\<lambda>k. True" "\<lambda>d k e. get_id k \<in> T \<longrightarrow> unat e \<le> d"
    "\<lambda>d k e. if get_id k \<in> T then d - unat e else d" for T
proof (unfold_locales, goal_cases)
  case (8 a k e b e')
  then show ?case using unat_add_le[of e e'] by auto
qed (auto simp: list_all_mp_iff)

fun symbols :: "'a multinomial \<Rightarrow> symbol list" where
  "symbols (MConst s c) = []"
| "symbols (MNode s k m) = k # concat (map (\<lambda>(e, p). symbols p) m)"

interpretation syms: poly_grade "\<lambda>d p. set (symbols p) \<subseteq> S" "\<lambda>k. k \<in> S" "\<lambda>d k e. True" "\<lambda>d k e. d" for S
  by unfold_locales auto

end
