(* ===== verification/Multinomial_Laws.thy ===== *)
theory Multinomial_Laws
  imports Multinomial_Grades
begin

text \<open>
  The operators of \<^verbatim>\<open>multinomial\<close> keep the invariant of the class, are defined on every
  well-formed operand, and compute sum, product and power of the values.  The first two
  hold for every coefficient arithmetic, the third for every commutative ring.
\<close>

lemmas exps_le_mono = exps.good_mono
lemmas exps_le_child = exps.good_child
lemmas add_c_exps_le = exps.good_add_c
lemmas add_exps_le = exps.good_add
lemmas mult_c_exps_le = exps.good_mult_c
lemmas mult_exps_le = exps.good_mult

subsection \<open>Copying and the save flag do not change the value\<close>

lemma above_set_save [simp]: "above_id i (set_save b p) = above_id i p"
  by (cases p) auto

lemma above_assign [simp]: "above_id i (assign p) = above_id i p"
  by (cases p) auto

lemma wf_set_save [simp]: "wf_poly (set_save b p) = wf_poly p"
  by (induction p rule: multinomial_induct) (auto simp: list_all_mp_iff)

lemma wf_assign [simp]: "wf_poly (assign p) = wf_poly p"
  by (induction p rule: multinomial_induct) (auto simp: list_all_mp_iff)

lemma msum_map_snd: "msum f (map (\<lambda>(e, p). (e, g e p)) m) = msum (\<lambda>e p. f e (g e p)) m"
  by (induction m) auto

lemma eval_set_save [simp]: "eval \<rho> (set_save b p) = eval \<rho> p"
  by (induction p rule: multinomial_induct) (auto simp: msum_map_snd intro!: msum_cong)

lemma eval_assign [simp]: "eval \<rho> (assign p) = eval \<rho> p"
  by (induction p rule: multinomial_induct) (auto simp: msum_map_snd intro!: msum_cong)

lemma above_guarded [simp]: "above_id i (guarded n b j p) = above_id i p"
  and wf_guarded [simp]: "wf_poly (guarded n b j p) = wf_poly p"
  by (simp_all add: guarded_def Let_def)

lemma eval_guarded [simp]: "eval \<rho> (guarded n b j p) = eval \<rho> p"
  by (simp add: guarded_def Let_def)

lemma save_set_save [simp]: "save (set_save b p) = b"
  by (cases p) auto

lemma wf_child: "wf_poly (MNode s k m) \<Longrightarrow> (e, p) \<in> set m \<Longrightarrow> wf_poly p"
  and wf_child_above: "wf_poly (MNode s k m) \<Longrightarrow> (e, p) \<in> set m \<Longrightarrow> above_id (get_id k) p"
  by (auto simp: list_all_iff)

lemma above_mono: "above_id i p \<Longrightarrow> j \<le> i \<Longrightarrow> above_id j p"
  by (cases p) auto

subsection \<open>A node before simplification\<close>

text \<open>What the loops of the operators build: sorted entries of well-formed polynomials over larger symbols.\<close>

definition pre_wf :: "symbol \<Rightarrow> (u16, 'a multinomial) mp \<Rightarrow> bool" where
  "pre_wf k m \<longleftrightarrow> mp_ok m \<and> (\<forall>e p. (e, p) \<in> set m \<longrightarrow> above_id (get_id k) p \<and> wf_poly p)"

lemma wf_MNode: "wf_poly (MNode s k m) \<longleftrightarrow> pre_wf k m \<and> mp_find m 0 \<noteq> None"
  by (auto simp: pre_wf_def list_all_iff)

lemma pre_wf_set: "pre_wf k m \<Longrightarrow> above_id (get_id k) p \<Longrightarrow> wf_poly p \<Longrightarrow> pre_wf k (mp_set e p m)"
  by (auto simp: pre_wf_def dest: in_mp_setD)

lemma pre_wf_filter: "pre_wf k m \<Longrightarrow> pre_wf k (filter P m)"
  by (auto simp: pre_wf_def mp_ok_filter)

lemma simplify_wf: "pre_wf k m \<Longrightarrow> wf_poly (simplify (MNode False k m))"
  by (auto simp: simplify_def Let_def wf_MNode new_const_def
      intro!: pre_wf_set pre_wf_filter simp del: wf_poly.simps(2))

lemma simplify_above: "i < get_id k \<Longrightarrow> above_id i (simplify (MNode s k m))"
  by (auto simp: simplify_def Let_def)

lemma eval_is_zero: "is_zero p \<Longrightarrow> eval \<rho> p = 0"
  by (auto simp: is_zero_def split: multinomial.splits)

lemma eval_simplify:
  assumes "mp_ok m"
  shows "eval \<rho> (simplify (MNode s k m)) = eval \<rho> (MNode s k m)"
proof -
  let ?f = "\<lambda>e p. \<rho> (get_id k) ^ unat e * eval \<rho> p"
  let ?m = "filter (\<lambda>(e, q). \<not> is_zero q) m"
  have z: "msum ?f ?m = msum ?f m"
    by (rule msum_filter_zero) (auto simp: eval_is_zero)
  have "msum ?f (mp_set 0 (new_const 0 False) ?m) = msum ?f ?m" if "mp_find ?m 0 = None"
    using that by (subst msum_mp_set_new) (auto simp: mp_find_None new_const_def)
  with z show ?thesis
    by (cases "?m = []") (auto simp: simplify_def Let_def)
qed

subsection \<open>Adding a constant\<close>

lemma add_c_total: "wf_poly p \<Longrightarrow> \<exists>r. add_c p c = Some r"
proof (induction p rule: multinomial_induct)
  case (Node s k m)
  then obtain p0 where p0: "mp_find m 0 = Some p0" by auto
  from p0 have "(0, p0) \<in> set m" by (rule map_of_SomeD)
  with Node obtain r0 where r0: "add_c p0 c = Some r0" by (metis wf_child)
  have "\<exists>m'. mp_mapM (\<lambda>e p. if e = 0 then add_c p c else Some (assign p)) m = Some m'"
    using Node by (intro mp_mapM_total) (auto simp del: wf_poly.simps intro: wf_child)
  then show ?case using p0 r0 by auto
qed simp

lemma add_c_above: "add_c p c = Some r \<Longrightarrow> above_id i p \<Longrightarrow> above_id i r"
  by (cases p) (auto split: if_splits option.splits simp: Let_def simplify_above)

lemma mp_imapM_pre_wf:
  assumes "mp_imapM n f m = Some m'" and "mp_ok m"
    and "\<And>i e p q. (e, p) \<in> set m \<Longrightarrow> f i e p = Some q \<Longrightarrow> above_id (get_id k) q \<and> wf_poly q"
  shows "pre_wf k m'"
  using assms mp_imapM_in[OF assms(1)] mp_ok_same_keys[OF mp_imapM_keys[OF assms(1)]]
  by (fastforce simp: pre_wf_def)

lemmas mp_mapM_pre_wf = mp_imapM_pre_wf [where n = 0 and f = "\<lambda>i. f" for f, folded mp_mapM_def]

lemma mp_imapM_pre_wf_ex:
  assumes "mp_ok m"
    and "\<And>i e p. (e, p) \<in> set m \<Longrightarrow> \<exists>q. f i e p = Some q \<and> above_id (get_id k) q \<and> wf_poly q"
  obtains m' where "mp_imapM n f m = Some m'" and "pre_wf k m'" and "mp_keys m' = mp_keys m"
proof -
  have "\<exists>m'. mp_imapM n f m = Some m'" by (rule mp_imapM_total) (use assms(2) in blast)
  then obtain m' where m': "mp_imapM n f m = Some m'" by blast
  have "pre_wf k m'" by (rule mp_imapM_pre_wf[OF m' assms(1)]) (metis assms(2) option.inject)
  from m' this mp_imapM_keys[OF m'] show ?thesis by (rule that)
qed

lemmas mp_mapM_pre_wf_ex = mp_imapM_pre_wf_ex [where n = 0 and f = "\<lambda>i. f" for f, folded mp_mapM_def]

lemma pre_wf_sets:
  "pre_wf k l \<Longrightarrow> (\<And>e b. (e, b) \<in> set kvs \<Longrightarrow> above_id (get_id k) b \<and> wf_poly b) \<Longrightarrow> pre_wf k (mp_sets kvs l)"
proof (induction kvs l rule: mp_sets.induct)
  case (2 e b kvs l)
  from "2.prems"(1) "2.prems"(2)[of e b] have "pre_wf k (mp_set e b l)" by (simp add: pre_wf_set)
  then have "pre_wf k (mp_sets kvs (mp_set e b l))" by (rule "2.IH") (use "2.prems"(2) in auto)
  then show ?case by simp
qed simp

lemma add_c_wf: "add_c p c = Some r \<Longrightarrow> wf_poly p \<Longrightarrow> wf_poly r"
proof (induction p arbitrary: r rule: multinomial_induct)
  case (Node s k m)
  from Node.prems(2) obtain p0 where p0: "mp_find m 0 = Some p0" and pre: "pre_wf k m"
    by (auto simp: wf_MNode simp del: wf_poly.simps)
  have in0: "(0, p0) \<in> set m" using p0 by (rule map_of_SomeD)
  show ?case
  proof (cases s)
    case False
    with Node.prems(1) p0 obtain r0 where r0: "add_c p0 c = Some r0"
      and r: "r = (if length (mp_set 0 r0 m) = 1 \<and> is_zero r0 then MConst False 0 else MNode False k (mp_set 0 r0 m))"
      by (auto split: option.splits)
    have "wf_poly r0" and "above_id (get_id k) r0"
      using Node.IH[OF in0 r0] add_c_above[OF r0] Node.prems(2) in0
      by (auto intro: wf_child wf_child_above simp del: wf_poly.simps)
    with r pre show ?thesis by (auto simp: wf_MNode pre_wf_set simp del: wf_poly.simps(2))
  next
    case True
    with Node.prems(1) p0 obtain m' where m': "mp_mapM (add_c_entry c) m = Some m'"
      and r: "r = simplify (MNode False k m')" by (auto split: option.splits)
    have "pre_wf k m'"
    proof (rule mp_mapM_pre_wf[OF m'])
      fix e p q assume "(e, p) \<in> set m" and "add_c_entry c e p = Some q"
      with Node.IH[of e p q] Node.prems(2) add_c_above[of p c q "get_id k"]
      show "above_id (get_id k) q \<and> wf_poly q"
        by (auto split: if_splits dest: wf_child wf_child_above simp del: wf_poly.simps)
    qed (use pre in \<open>simp add: pre_wf_def\<close>)
    with r show ?thesis by (simp add: simplify_wf)
  qed
qed auto

lemma eval_add_c: "add_c p c = Some r \<Longrightarrow> wf_poly p \<Longrightarrow> eval \<rho> r = eval \<rho> p + c"
proof (induction p arbitrary: r rule: multinomial_induct)
  case (Node s k m)
  let ?f = "\<lambda>e p. \<rho> (get_id k) ^ unat e * eval \<rho> p"
  from Node.prems(2) obtain p0 where p0: "mp_find m 0 = Some p0" and ok: "mp_ok m" by auto
  have in0: "(0, p0) \<in> set m" using p0 by (rule map_of_SomeD)
  have w0: "wf_poly p0" using Node.prems(2) in0 by (rule wf_child)
  show ?case
  proof (cases s)
    case False
    with Node.prems(1) p0 obtain r0 where r0: "add_c p0 c = Some r0"
      and r: "r = (if length (mp_set 0 r0 m) = 1 \<and> is_zero r0 then MConst False 0 else MNode False k (mp_set 0 r0 m))"
      by (auto split: option.splits)
    have sum: "msum ?f (mp_set 0 r0 m) = msum ?f m + c"
      using msum_mp_set_old[OF ok p0, of ?f r0] Node.IH[OF in0 r0 w0] by (simp add: algebra_simps)
    have "msum ?f (mp_set 0 r0 m) = 0" if len: "length (mp_set 0 r0 m) = 1" and z: "is_zero r0"
    proof -
      have "mp_set 0 r0 m = [(0, r0)]"
        using len map_of_SomeD[of "mp_set 0 r0 m" 0 r0] by (auto simp: length_Suc_conv)
      then show ?thesis by (simp add: eval_is_zero[OF z])
    qed
    with r sum show ?thesis by auto
  next
    case True
    with Node.prems(1) p0 obtain m' where m': "mp_mapM (add_c_entry c) m = Some m'"
      and r: "r = simplify (MNode False k m')" by (auto split: option.splits)
    have "mp_ok m'" using ok mp_ok_same_keys[OF mp_mapM_keys[OF m']] by simp
    then have "eval \<rho> r = msum ?f m'" by (simp add: r eval_simplify)
    also have "\<dots> = msum (\<lambda>e p. ?f e p + (if e = 0 then c else 0)) m"
      using Node.IH Node.prems(2)
      by (intro mp_mapM_sum_list[OF m']) (auto split: if_splits dest: wf_child simp del: wf_poly.simps)
    also have "\<dots> = msum ?f m + msum (\<lambda>e p. if e = 0 then c else 0) m" by (rule msum_add)
    also have "msum (\<lambda>e p. if e = 0 then c else 0) m = c"
      using p0 by (simp add: msum_over_keys[OF ok] mp_keys_iff_find)
    finally show ?thesis by simp
  qed
qed auto

subsection \<open>Addition\<close>

lemma find_same_keys: "mp_keys m' = mp_keys m \<Longrightarrow> mp_find m' e = None \<longleftrightarrow> mp_find m e = None"
  by (simp add: mp_find_None)

lemma zero_loop_wf:
  assumes w: "wf_poly (MNode s k m)"
    and g: "\<And>a. (0, a) \<in> set m \<Longrightarrow> \<exists>q. g a = Some q \<and> above_id (get_id k) q \<and> wf_poly q"
  shows "\<exists>m'. mp_mapM (zero_entry g) m = Some m' \<and> wf_poly (MNode False k m')"
proof -
  have "\<exists>q. zero_entry g e a = Some q \<and> above_id (get_id k) q \<and> wf_poly q" if "(e, a) \<in> set m" for e a
    using that g w by (auto dest: wf_child wf_child_above simp del: wf_poly.simps)
  from mp_mapM_pre_wf_ex[where f = "zero_entry g", OF _ this] w obtain m' where
    "mp_mapM (zero_entry g) m = Some m'" "pre_wf k m'" "mp_keys m' = mp_keys m" by auto
  with w find_same_keys[of m' m 0] show ?thesis by (auto simp: wf_MNode simp del: wf_poly.simps)
qed

lemma zero_loop_eval:
  assumes m': "mp_mapM (zero_entry g) m = Some m'" and w: "wf_poly (MNode s k m)"
    and g: "\<And>a q. (0, a) \<in> set m \<Longrightarrow> g a = Some q \<Longrightarrow> eval \<rho> q = eval \<rho> a + c"
  shows "eval \<rho> (MNode s' k m') = eval \<rho> (MNode s k m) + c"
proof -
  let ?E = "\<lambda>e p. \<rho> (get_id k) ^ unat e * eval \<rho> p"
  have "msum ?E m' = msum (\<lambda>e a. ?E e a + (if e = 0 then c else 0)) m"
    using g by (intro mp_mapM_sum_list[OF m']) (auto split: if_splits)
  moreover have "msum (\<lambda>e a. if e = 0 then c else 0) m = c"
    using w by (auto simp: msum_over_keys mp_keys_iff_find)
  ultimately show ?thesis by (simp add: msum_add)
qed

lemma add_struct:
  "wf_poly p \<Longrightarrow> wf_poly q \<Longrightarrow>
     \<exists>r. add p q = Some r \<and> wf_poly r \<and> (\<forall>i. above_id i p \<longrightarrow> above_id i q \<longrightarrow> above_id i r)"
proof (induction p q rule: add.induct)
  case (1 s c q)
  then show ?case using add_c_total[of q c] add_c_wf[of q c] add_c_above[of q c] by auto
next
  case (2 s1 k1 m1 s c)
  then show ?case
    using add_c_total[of "MNode s1 k1 m1" c] add_c_wf[of "MNode s1 k1 m1" c] add_c_above[of "MNode s1 k1 m1" c]
    by (auto simp del: add_c.simps wf_poly.simps)
next
  case (3 s1 k1 m1 s2 k2 m2)
  note w1 = \<open>wf_poly (MNode s1 k1 m1)\<close> and w2 = \<open>wf_poly (MNode s2 k2 m2)\<close>
  have z: "mp_find m1 0 \<noteq> None" "mp_find m2 0 \<noteq> None" using w1 w2 by auto
  show ?case
  proof (cases k1 k2 rule: symbol_cases)
    case gt
    have "\<exists>q. add a (MNode s1 k1 m1) = Some q \<and> above_id (get_id k2) q \<and> wf_poly q"
      if "(0, a) \<in> set m2" for a
      using "3.IH"(1)[OF gt z(2) that] wf_child[OF w2 that] w1 wf_child_above[OF w2 that] gt
      by (auto simp: symbol_gt_def simp del: wf_poly.simps)
    from zero_loop_wf[where g = "\<lambda>a. add a (MNode s1 k1 m1)", OF w2 this] gt z(2) show ?thesis by (auto simp del: wf_poly.simps)
  next
    case lt
    have "\<exists>q. add a (MNode s2 k2 m2) = Some q \<and> above_id (get_id k1) q \<and> wf_poly q"
      if "(0, a) \<in> set m1" for a
      using "3.IH"(2)[OF lt z(1) that] wf_child[OF w1 that] w2 wf_child_above[OF w1 that] lt
      by (auto simp: symbol_lt_def simp del: wf_poly.simps)
    from zero_loop_wf[where g = "\<lambda>a. add a (MNode s2 k2 m2)", OF w1 this] lt z(1) show ?thesis by (auto simp del: wf_poly.simps)
  next
    case eq
    let ?f = "\<lambda>e a. case mp_find m2 e of None \<Rightarrow> Some (assign a) | Some b \<Rightarrow> map_option assign (add a b)"
    have "\<exists>q. ?f e a = Some q \<and> above_id (get_id k1) q \<and> wf_poly q" if a: "(e, a) \<in> set m1" for e a
    proof (cases "mp_find m2 e")
      case (Some b)
      then have b: "(e, b) \<in> set m2" by (rule map_of_SomeD)
      from "3.IH"(3)[OF eq(1,2) _ a Some] z wf_child[OF w1 a] wf_child[OF w2 b]
        wf_child_above[OF w1 a] wf_child_above[OF w2 b] Some eq(3)
      show ?thesis by auto
    qed (use a w1 in \<open>auto dest: wf_child wf_child_above simp del: wf_poly.simps\<close>)
    from mp_mapM_pre_wf_ex[where f = ?f, OF _ this] w1 obtain l where
      l: "mp_mapM ?f m1 = Some l" "pre_wf k1 l" by auto
    have "pre_wf k1 (mp_sets (map (\<lambda>(e, b). (e, assign b)) (filter (\<lambda>(e, b). mp_find m1 e = None) m2)) l)"
      using w2 eq(3) by (intro pre_wf_sets[OF l(2)]) (auto dest: wf_child wf_child_above simp del: wf_poly.simps)
    with eq z l(1) show ?thesis
      by (simp add: Let_def simplify_wf simplify_above del: wf_poly.simps)
  qed
qed

lemma add_total: "wf_poly p \<Longrightarrow> wf_poly q \<Longrightarrow> \<exists>r. add p q = Some r"
  and add_wf: "wf_poly p \<Longrightarrow> wf_poly q \<Longrightarrow> add p q = Some r \<Longrightarrow> wf_poly r"
  and add_above: "wf_poly p \<Longrightarrow> wf_poly q \<Longrightarrow> add p q = Some r \<Longrightarrow> above_id i p \<Longrightarrow> above_id i q \<Longrightarrow> above_id i r"
  using add_struct[of p q] by auto

lemma eval_add: "add p q = Some r \<Longrightarrow> wf_poly p \<Longrightarrow> wf_poly q \<Longrightarrow> eval \<rho> r = eval \<rho> p + eval \<rho> q"
proof (induction p q arbitrary: r rule: add.induct)
  case (1 s c q)
  then show ?case using eval_add_c[of q c r \<rho>] by (simp add: ac_simps)
next
  case (2 s1 k1 m1 s c)
  then show ?case using eval_add_c[of "MNode s1 k1 m1" c r \<rho>] by (simp del: eval.simps(2) wf_poly.simps add_c.simps)
next
  case (3 s1 k1 m1 s2 k2 m2)
  note w1 = \<open>wf_poly (MNode s1 k1 m1)\<close> and w2 = \<open>wf_poly (MNode s2 k2 m2)\<close>
  have ok: "mp_ok m1" "mp_ok m2" and z: "mp_find m1 0 \<noteq> None" "mp_find m2 0 \<noteq> None"
    using w1 w2 by auto
  show ?case
  proof (cases k1 k2 rule: symbol_cases)
    case gt
    with z(2) "3.prems"(1) obtain m' where m': "mp_mapM (zero_entry (\<lambda>a. add a (MNode s1 k1 m1))) m2 = Some m'"
      and r: "r = MNode False k2 m'" by auto
    show ?thesis unfolding r
      by (subst add.commute, rule zero_loop_eval[OF m' w2])
        (use "3.IH"(1)[OF gt z(2)] w1 wf_child[OF w2] in blast)
  next
    case lt
    with z(1) "3.prems"(1) obtain m' where m': "mp_mapM (zero_entry (\<lambda>a. add a (MNode s2 k2 m2))) m1 = Some m'"
      and r: "r = MNode False k1 m'" by auto
    show ?thesis unfolding r
      by (rule zero_loop_eval[OF m' w1]) (use "3.IH"(2)[OF lt z(1)] w2 wf_child[OF w1] in blast)
  next
    case eq
    let ?E = "\<lambda>k e p. \<rho> (get_id k) ^ unat e * eval \<rho> p"
    let ?f = "\<lambda>e a. case mp_find m2 e of None \<Rightarrow> Some (assign a) | Some b \<Rightarrow> map_option assign (add a b)"
    let ?flt = "filter (\<lambda>(e, b). mp_find m1 e = None) m2"
    let ?rest = "map (\<lambda>(e, b). (e, assign b)) ?flt"
    let ?g = "\<lambda>e. case mp_find m2 e of None \<Rightarrow> 0 | Some b \<Rightarrow> ?E k1 e b"
    from eq z "3.prems"(1) obtain l where l: "mp_mapM ?f m1 = Some l"
      and r: "r = simplify (MNode False k1 (mp_sets ?rest l))" by (auto simp: Let_def split: option.splits)
    have okl: "mp_ok l" using ok(1) mp_ok_same_keys[OF mp_mapM_keys[OF l]] by simp
    have dist: "distinct (map fst ?rest)"
      using mp_ok_distinct[OF mp_ok_filter[OF ok(2)]] by (simp add: mp_keys_def comp_def case_prod_unfold)
    have disj: "fst ` set ?rest \<inter> set (mp_keys l) = {}"
      using mp_mapM_keys[OF l] by (auto simp: mp_find_None)
    have "eval \<rho> r = msum (?E k1) (mp_sets ?rest l)" by (simp add: r eval_simplify okl)
    also have "\<dots> = msum (?E k1) ?rest + msum (?E k1) l" by (rule msum_mp_sets[OF dist disj])
    also have "msum (?E k1) l = msum (\<lambda>e a. ?E k1 e a + ?g e) m1"
    proof (rule mp_mapM_sum_list[OF l])
      fix e a q assume a: "(e, a) \<in> set m1" and q: "?f e a = Some q"
      show "?E k1 e q = ?E k1 e a + ?g e"
      proof (cases "mp_find m2 e")
        case (Some b)
        with q obtain q' where "add a b = Some q'" and "q = assign q'" by auto
        with "3.IH"(3)[OF eq(1,2) _ a Some] z wf_child[OF w1 a] wf_child[OF w2 map_of_SomeD[OF Some]] Some
        show ?thesis by (simp add: algebra_simps)
      qed (use q in auto)
    qed
    also have "msum (?E k1) ?rest + msum (\<lambda>e a. ?E k1 e a + ?g e) m1 = msum (?E k1) m1 + msum (?E k1) m2"
      using msum_split_keys[OF ok, of "?E k1"] by (simp add: msum_add msum_map_snd)
    finally show ?thesis by (simp add: eq(3))
  qed
qed

subsection \<open>Multiplication by a constant\<close>

lemma mult_c_struct:
  "wf_poly p \<Longrightarrow> \<exists>r. mult_c p c = Some r \<and> wf_poly r \<and> (\<forall>i. above_id i p \<longrightarrow> above_id i r)"
proof (induction p rule: multinomial_induct)
  case (Node s k m)
  have "\<exists>q. mult_c p c = Some q \<and> above_id (get_id k) q \<and> wf_poly q" if "(e, p) \<in> set m" for e p
    using Node.IH[OF that] wf_child[OF Node.prems that] wf_child_above[OF Node.prems that] by auto
  then obtain m' where "mp_mapM (\<lambda>e p. mult_c p c) m = Some m'" "pre_wf k m'" "mp_keys m' = mp_keys m"
    using mp_mapM_pre_wf_ex[of m "\<lambda>e p. mult_c p c" k] Node.prems by auto
  with Node.prems find_same_keys[of m' m 0] show ?case
    by (auto simp: wf_MNode simplify_wf simplify_above simp del: wf_poly.simps(2))
qed auto

lemma eval_mult_c: "mult_c p c = Some r \<Longrightarrow> wf_poly p \<Longrightarrow> eval \<rho> r = eval \<rho> p * c"
proof (induction p arbitrary: r rule: multinomial_induct)
  case (Node s k m)
  let ?E = "\<lambda>e p. \<rho> (get_id k) ^ unat e * eval \<rho> p"
  show ?case
  proof (cases "\<not> s \<and> c = 0")
    case False
    with Node.prems(1) obtain m' where m': "mp_mapM (\<lambda>e p. mult_c p c) m = Some m'"
      and r: "r = MNode False k m' \<or> r = simplify (MNode False k m')" by (auto split: if_splits)
    have "mp_ok m'" using Node.prems(2) mp_ok_same_keys[OF mp_mapM_keys[OF m']] by simp
    with r have "eval \<rho> r = msum ?E m'" by (auto simp: eval_simplify)
    also have "\<dots> = msum (\<lambda>e p. ?E e p * c) m"
      using Node.IH wf_child[OF Node.prems(2)] by (intro mp_mapM_sum_list[OF m']) (auto simp: mult.assoc)
    finally show ?thesis by (simp add: msum_mult_right)
  qed (use Node.prems(1) in auto)
qed (auto split: if_splits)

subsection \<open>Multiplication\<close>

text \<open>The operand whose coefficients the inner loop visits: its entries are those of a node with the same value.\<close>

lemma mp_of_guarded:
  fixes m :: "(u16, 'a::{zero, plus, times} multinomial) mp" and n i :: nat and b :: bool
  assumes w: "wf_poly (MNode s k m)"
  defines "m' \<equiv> mp_of (guarded n b i (MNode s k m))"
  shows "pre_wf k m'" and "exps_le B (MNode s k m) \<Longrightarrow> exps_le B (MNode s k m')"
proof -
  obtain s' l where l: "guarded n b i (MNode s k m) = MNode s' k l" using guarded_MNode by blast
  with w have "wf_poly (MNode s' k l)" by (metis wf_guarded)
  then show "pre_wf k m'" by (simp add: m'_def l wf_MNode del: wf_poly.simps)
  show "exps_le B (MNode s k m')" if "exps_le B (MNode s k m)"
    using that l exps.good_guarded[of B n b i "MNode s k m"] by (simp add: m'_def)
qed

lemma eval_mp_of_guarded:
  "eval \<rho> (MNode s' k (mp_of (guarded n b i (MNode s k m)))) = eval \<rho> (MNode s k m)"
proof -
  obtain t l where l: "guarded n b i (MNode s k m) = MNode t k l" using guarded_MNode by blast
  then have "eval \<rho> (MNode t k l) = eval \<rho> (MNode s k m)" by (metis eval_guarded)
  then show ?thesis by (simp add: l)
qed

lemma accumulate_struct:
  assumes "pre_wf k ans" and "\<And>e p. (e, p) \<in> set prods \<Longrightarrow> above_id (get_id k) p \<and> wf_poly p"
  shows "\<exists>l. accumulate prods ans = Some l \<and> pre_wf k l"
  using assms
proof (induction prods ans rule: accumulate.induct)
  case (2 e r prods ans)
  have r: "above_id (get_id k) r" "wf_poly r" using "2.prems"(2)[of e r] by auto
  have rest: "above_id (get_id k) p \<and> wf_poly p" if "(e', p) \<in> set prods" for e' p
    using "2.prems"(2)[of e' p] that by simp
  show ?case
  proof (cases "mp_find ans e")
    case None
    with "2.IH"(1)[OF None pre_wf_set[OF "2.prems"(1) r] rest] show ?thesis by simp
  next
    case (Some old)
    then have "above_id (get_id k) old" "wf_poly old"
      using "2.prems"(1) map_of_SomeD[OF Some] by (auto simp: pre_wf_def)
    with add_struct[of old r] r obtain r' where r': "add old r = Some r'" "wf_poly r'" "above_id (get_id k) r'"
      by auto
    with Some "2.IH"(2)[OF Some r'(1) pre_wf_set[OF "2.prems"(1) r'(3,2)] rest] show ?thesis by simp
  qed
qed simp

lemma accumulate_eval:
  assumes "accumulate prods ans = Some l" and "pre_wf k ans"
    and "\<And>e p. (e, p) \<in> set prods \<Longrightarrow> above_id (get_id k) p \<and> wf_poly p"
  shows "eval \<rho> (MNode s k l) = msum (\<lambda>e p. \<rho> (get_id k) ^ unat e * eval \<rho> p) prods + eval \<rho> (MNode s k ans)"
  using assms
proof (induction prods ans rule: accumulate.induct)
  case (2 e r prods ans)
  let ?E = "\<lambda>e p. \<rho> (get_id k) ^ unat e * eval \<rho> p"
  have r: "above_id (get_id k) r" "wf_poly r" using "2.prems"(3)[of e r] by auto
  have rest: "above_id (get_id k) p \<and> wf_poly p" if "(e', p) \<in> set prods" for e' p
    using "2.prems"(3)[of e' p] that by simp
  show ?case
  proof (cases "mp_find ans e")
    case None
    then have "msum ?E (mp_set e r ans) = ?E e r + msum ?E ans" by (simp add: msum_mp_set_new mp_find_None)
    with None "2.IH"(1)[OF None _ pre_wf_set[OF "2.prems"(2) r] rest] "2.prems"(1) show ?thesis
      by (simp add: ac_simps)
  next
    case (Some old)
    with "2.prems"(1) obtain r' where r': "add old r = Some r'" and l: "accumulate prods (mp_set e r' ans) = Some l"
      by (auto split: option.splits)
    have old: "above_id (get_id k) old" "wf_poly old"
      using "2.prems"(2) map_of_SomeD[OF Some] by (auto simp: pre_wf_def)
    have "pre_wf k (mp_set e r' ans)"
      using "2.prems"(2) add_wf[OF old(2) r(2) r'] add_above[OF old(2) r(2) r' old(1) r(1)]
      by (intro pre_wf_set)
    moreover have "msum ?E (mp_set e r' ans) = ?E e r + msum ?E ans"
      using msum_mp_set_old[OF _ Some, of ?E r'] "2.prems"(2) eval_add[OF r' old(2) r(2), of \<rho>]
      by (simp add: pre_wf_def algebra_simps)
    ultimately show ?thesis using "2.IH"(2)[OF Some r' l _ rest] by (simp add: ac_simps)
  qed
qed simp

lemma mult_struct:
  "wf_poly p \<Longrightarrow> wf_poly q \<Longrightarrow>
     \<exists>r. mult p q = Some r \<and> wf_poly r \<and> (\<forall>i. above_id i p \<longrightarrow> above_id i q \<longrightarrow> above_id i r)"
proof (induction p q rule: mult.induct)
  case (1 s c q)
  then show ?case using mult_c_struct[of q c] by auto
next
  case (2 s1 k1 m1 s c)
  then show ?case using mult_c_struct[of "MNode s1 k1 m1" c] by (auto simp del: mult_c.simps wf_poly.simps)
next
  case (3 s1 k1 m1 s2 k2 m2)
  note w1 = \<open>wf_poly (MNode s1 k1 m1)\<close> and w2 = \<open>wf_poly (MNode s2 k2 m2)\<close>
  have ok: "mp_ok m1" "mp_ok m2" using w1 w2 by auto
  show ?case
  proof (cases k1 k2 rule: symbol_cases)
    case gt
    let ?f = "\<lambda>i e a. mult a (guarded (length m2) s1 i (MNode s1 k1 m1))"
    have body: "\<exists>r. ?f i e a = Some r \<and> above_id (get_id k2) r \<and> wf_poly r"
      if "(e, a) \<in> set m2" for i e a
      using "3.IH"(1)[OF gt that, of i] wf_child[OF w2 that] w1 wf_child_above[OF w2 that] gt
      by (auto simp: symbol_gt_def simp del: wf_poly.simps)
    obtain m' where "mp_imapM 0 ?f m2 = Some m'" "pre_wf k2 m'"
      by (rule mp_imapM_pre_wf_ex[where n = 0 and f = ?f and k = k2, OF ok(2)]) (blast intro: body)+
    with gt show ?thesis by (auto simp: simplify_wf simplify_above simp del: wf_poly.simps)
  next
    case lt
    let ?f = "\<lambda>i e a. mult a (guarded (length m1) s2 i (MNode s2 k2 m2))"
    have body: "\<exists>r. ?f i e a = Some r \<and> above_id (get_id k1) r \<and> wf_poly r"
      if "(e, a) \<in> set m1" for i e a
      using "3.IH"(2)[OF lt that, of i] wf_child[OF w1 that] w2 wf_child_above[OF w1 that] lt
      by (auto simp: symbol_lt_def simp del: wf_poly.simps)
    obtain m' where "mp_imapM 0 ?f m1 = Some m'" "pre_wf k1 m'"
      by (rule mp_imapM_pre_wf_ex[where n = 0 and f = ?f and k = k1, OF ok(1)]) (blast intro: body)+
    with lt show ?thesis by (auto simp: simplify_wf simplify_above simp del: wf_poly.simps)
  next
    case eq
    let ?n = "length m1" and ?n' = "length m2"
    let ?q = "MNode s2 k2 m2"
    have one: "\<exists>r. mult (guarded ?n' s1 j a) b = Some r \<and> above_id (get_id k1) r \<and> wf_poly r"
      if a: "(ea, a) \<in> set m1" and b: "(eb, b) \<in> set (mp_of (guarded ?n s2 i ?q))" for i j ea a eb b
      using "3.IH"(3)[OF eq(1,2) a b, of j] wf_child[OF w1 a] wf_child_above[OF w1 a]
        mp_of_guarded(1)[OF w2, of ?n s2 i] b eq(3)
      by (auto simp: pre_wf_def)
    have "\<exists>rs. mp_imapM 0 (\<lambda>j eb b. mult (guarded ?n' s1 j a) b) (mp_of (guarded ?n s2 i ?q)) = Some rs"
      if "(ea, a) \<in> set m1" for i ea a
      using one[OF that] by (intro mp_imapM_total) blast
    then obtain prods where prods: "products (MNode s1 k1 m1) s1 ?n ?q s2 ?n' = Some prods"
      using mp_imapM_total[where m = m1 and n = 0 and f = "\<lambda>i ea a. map_option (map (\<lambda>(eb, r). (ea + eb, r)))
         (mp_imapM 0 (\<lambda>j eb b. mult (guarded ?n' s1 j a) b) (mp_of (guarded ?n s2 i ?q)))"] by fastforce
    have "above_id (get_id k1) r \<and> wf_poly r" if "(e, r) \<in> set (concat (map snd prods))" for e r
      using products_in[OF prods that] one by (metis mp_of.simps(2) option.inject)
    then have "\<exists>l. accumulate (concat (map snd prods)) [] = Some l \<and> pre_wf k1 l"
      by (intro accumulate_struct) (simp_all add: pre_wf_def)
    then obtain l where "accumulate (concat (map snd prods)) [] = Some l" "pre_wf k1 l" by blast
    with eq prods show ?thesis by (auto simp: simplify_wf simplify_above simp del: wf_poly.simps)
  qed
qed

lemma mult_total: "wf_poly p \<Longrightarrow> wf_poly q \<Longrightarrow> \<exists>r. mult p q = Some r"
  and mult_wf: "wf_poly p \<Longrightarrow> wf_poly q \<Longrightarrow> mult p q = Some r \<Longrightarrow> wf_poly r"
  using mult_struct[of p q] by auto

lemma msum_concat: "msum E (concat (map snd prods)) = msum (\<lambda>_ rs. msum E rs) prods"
  by (induction prods) auto

lemma eval_products:
  assumes prods: "products (MNode s1 k m1) s1 n1 (MNode s2 k2 m2) s2 n2 = Some prods"
    and id: "get_id k2 = get_id k"
    and fact: "\<And>i j ea a eb b r. (ea, a) \<in> set m1 \<Longrightarrow> (eb, b) \<in> set (mp_of (guarded n1 s2 i (MNode s2 k2 m2))) \<Longrightarrow>
        mult (guarded n2 s1 j a) b = Some r \<Longrightarrow>
        eval \<rho> r = eval \<rho> a * eval \<rho> b \<and> unat (ea + eb) = unat ea + unat eb"
  shows "msum (\<lambda>e p. \<rho> (get_id k) ^ unat e * eval \<rho> p) (concat (map snd prods))
       = eval \<rho> (MNode s1 k m1) * eval \<rho> (MNode s2 k2 m2)"
proof -
  let ?x = "\<rho> (get_id k)" and ?q = "MNode s2 k2 m2"
  let ?E = "\<lambda>e p. ?x ^ unat e * eval \<rho> p"
  have "msum (\<lambda>_ rs. msum ?E rs) prods = msum (\<lambda>ea a. ?E ea a * eval \<rho> ?q) m1"
  proof (rule mp_imapM_sum_list[OF prods[unfolded mp_of.simps(2)]])
    fix i ea a rs assume a: "(ea, a) \<in> set m1"
    assume "map_option (map (\<lambda>(eb, r). (ea + eb, r)))
      (mp_imapM 0 (\<lambda>j eb b. mult (guarded n2 s1 j a) b) (mp_of (guarded n1 s2 i ?q))) = Some rs"
    then obtain l where l: "mp_imapM 0 (\<lambda>j eb b. mult (guarded n2 s1 j a) b) (mp_of (guarded n1 s2 i ?q)) = Some l"
      and rs: "rs = map (\<lambda>(eb, r). (ea + eb, r)) l" by auto
    have "msum ?E rs = msum (\<lambda>eb r. ?x ^ unat (ea + eb) * eval \<rho> r) l"
      unfolding rs by (induction l) auto
    also have "\<dots> = msum (\<lambda>eb b. ?E ea a * ?E eb b) (mp_of (guarded n1 s2 i ?q))"
      by (rule mp_imapM_sum_list[OF l]) (auto dest!: fact[OF a] simp: power_add algebra_simps)
    also have "\<dots> = ?E ea a * eval \<rho> (MNode s2 k2 (mp_of (guarded n1 s2 i ?q)))"
      by (simp add: msum_mult_left id)
    finally show "msum ?E rs = ?E ea a * eval \<rho> ?q" unfolding eval_mp_of_guarded .
  qed
  then show ?thesis by (simp add: msum_concat msum_mult_right[symmetric])
qed

text \<open>Multiplying every coefficient of a node by the same polynomial, the case of different variables.\<close>

lemma eval_scaled_node:
  assumes m': "mp_imapM 0 f m = Some m'" and ok: "mp_ok m"
    and f: "\<And>i e a q. (e, a) \<in> set m \<Longrightarrow> f i e a = Some q \<Longrightarrow> eval \<rho> q = eval \<rho> a * c"
  shows "eval \<rho> (simplify (MNode False k m')) = eval \<rho> (MNode s k m) * c"
proof -
  let ?E = "\<lambda>e p. \<rho> (get_id k) ^ unat e * eval \<rho> p"
  have "mp_ok m'" using ok mp_ok_same_keys[OF mp_imapM_keys[OF m']] by simp
  then have "eval \<rho> (simplify (MNode False k m')) = msum ?E m'" by (simp add: eval_simplify)
  also have "\<dots> = msum (\<lambda>e a. ?E e a * c) m" by (rule mp_imapM_sum_list[OF m']) (simp add: f mult.assoc)
  finally show ?thesis by (simp add: msum_mult_right[symmetric])
qed

text \<open>Adding up the products of the coefficients, the case of the same variable.\<close>

lemma eval_mult_same:
  assumes prods: "products (MNode s1 k1 m1) s1 n1 (MNode s2 k2 m2) s2 n2 = Some prods"
    and l: "accumulate (concat (map snd prods)) [] = Some l" and id: "get_id k2 = get_id k1"
    and fact: "\<And>i j ea a eb b q. (ea, a) \<in> set m1 \<Longrightarrow> (eb, b) \<in> set (mp_of (guarded n1 s2 i (MNode s2 k2 m2))) \<Longrightarrow>
        mult (guarded n2 s1 j a) b = Some q \<Longrightarrow>
        eval \<rho> q = eval \<rho> a * eval \<rho> b \<and> above_id (get_id k1) q \<and> wf_poly q \<and> unat (ea + eb) = unat ea + unat eb"
  shows "eval \<rho> (simplify (MNode False k1 l)) = eval \<rho> (MNode s1 k1 m1) * eval \<rho> (MNode s2 k2 m2)"
proof -
  let ?E = "\<lambda>e p. \<rho> (get_id k1) ^ unat e * eval \<rho> p"
  have pw: "above_id (get_id k1) q \<and> wf_poly q" if "(e, q) \<in> set (concat (map snd prods))" for e q
    using products_in[OF prods that] fact by (metis mp_of.simps(2))
  have nil: "pre_wf k1 ([] :: (u16, 'a multinomial) mp)" by (simp add: pre_wf_def)
  have "pre_wf k1 l" using accumulate_struct[OF nil, of "concat (map snd prods)"] pw l by fastforce
  then have "eval \<rho> (simplify (MNode False k1 l)) = eval \<rho> (MNode False k1 l)" by (intro eval_simplify) (simp add: pre_wf_def)
  also have "\<dots> = msum ?E (concat (map snd prods)) + eval \<rho> (MNode False k1 [])"
    by (rule accumulate_eval[OF l nil]) (rule pw)
  also have "msum ?E (concat (map snd prods)) = eval \<rho> (MNode s1 k1 m1) * eval \<rho> (MNode s2 k2 m2)"
    by (rule eval_products[OF prods id]) (use fact in blast)
  finally show ?thesis by simp
qed

lemma eval_mult:
  "mult p q = Some r \<Longrightarrow> wf_poly p \<Longrightarrow> wf_poly q \<Longrightarrow> exps_le A p \<Longrightarrow> exps_le B q \<Longrightarrow> A + B < 2 ^ 16 \<Longrightarrow>
     eval \<rho> r = eval \<rho> p * eval \<rho> q"
proof (induction p q arbitrary: r A B rule: mult.induct)
  case (1 s c q)
  then show ?case using eval_mult_c[of q c r \<rho>] by (simp add: mult.commute)
next
  case (2 s1 k1 m1 s c)
  then show ?case using eval_mult_c[of "MNode s1 k1 m1" c r \<rho>]
    by (simp del: eval.simps(2) wf_poly.simps mult_c.simps)
next
  case (3 s1 k1 m1 s2 k2 m2)
  note w1 = \<open>wf_poly (MNode s1 k1 m1)\<close> and w2 = \<open>wf_poly (MNode s2 k2 m2)\<close>
  note e1 = exps_le_child[OF "3.prems"(4)] and e2 = exps_le_child[OF "3.prems"(5)]
  let ?p = "MNode s1 k1 m1" and ?q = "MNode s2 k2 m2"
  have ok: "mp_ok m1" "mp_ok m2" using w1 w2 by auto
  show ?case
  proof (cases k1 k2 rule: symbol_cases)
    case gt
    with "3.prems"(1) obtain m' where
      m': "mp_imapM 0 (\<lambda>i e a. mult a (guarded (length m2) s1 i ?p)) m2 = Some m'"
      and r: "r = simplify (MNode False k2 m')" by auto
    have "eval \<rho> r = eval \<rho> ?q * eval \<rho> ?p" unfolding r
    proof (rule eval_scaled_node[OF m' ok(2)])
      fix i e a q assume a: "(e, a) \<in> set m2" and q: "mult a (guarded (length m2) s1 i ?p) = Some q"
      from "3.IH"(1)[OF gt a q wf_child[OF w2 a], of B A] w1 e2[OF a] "3.prems"(4,6)
      show "eval \<rho> q = eval \<rho> a * eval \<rho> ?p" by (simp del: eval.simps wf_poly.simps exps_le.simps)
    qed
    then show ?thesis by (simp add: mult.commute)
  next
    case lt
    with "3.prems"(1) obtain m' where
      m': "mp_imapM 0 (\<lambda>i e a. mult a (guarded (length m1) s2 i ?q)) m1 = Some m'"
      and r: "r = simplify (MNode False k1 m')" by auto
    show ?thesis unfolding r
    proof (rule eval_scaled_node[OF m' ok(1)])
      fix i e a q assume a: "(e, a) \<in> set m1" and q: "mult a (guarded (length m1) s2 i ?q) = Some q"
      from "3.IH"(2)[OF lt a q wf_child[OF w1 a], of A B] w2 e1[OF a] "3.prems"(5,6)
      show "eval \<rho> q = eval \<rho> a * eval \<rho> ?q" by (simp del: eval.simps wf_poly.simps exps_le.simps)
    qed
  next
    case eq
    from eq "3.prems"(1) obtain prods l where prods: "products ?p s1 (length m1) ?q s2 (length m2) = Some prods"
      and l: "accumulate (concat (map snd prods)) [] = Some l" and r: "r = simplify (MNode False k1 l)"
      by (auto split: option.splits)
    have fact: "eval \<rho> q = eval \<rho> a * eval \<rho> b \<and> above_id (get_id k1) q \<and> wf_poly q \<and> unat (ea + eb) = unat ea + unat eb"
      if a: "(ea, a) \<in> set m1" and b: "(eb, b) \<in> set (mp_of (guarded (length m1) s2 i ?q))"
        and q: "mult (guarded (length m2) s1 j a) b = Some q" for i j ea a eb b q
    proof -
      have wb: "wf_poly b" "above_id (get_id k1) b" using mp_of_guarded(1)[OF w2] b eq(3) by (auto simp: pre_wf_def)
      have eb: "unat eb \<le> B \<and> exps_le B b" using exps_le_child[OF mp_of_guarded(2)[OF w2 "3.prems"(5)] b] .
      have "unat (ea + eb) = unat ea + unat eb"
        using e1[OF a] eb "3.prems"(6) by (intro unat_add_lem[THEN iffD1]) simp
      moreover have "above_id (get_id k1) q \<and> wf_poly q"
        using mult_struct[of "guarded (length m2) s1 j a" b] q wb wf_child[OF w1 a] wf_child_above[OF w1 a] by auto
      ultimately show ?thesis
        using "3.IH"(3)[OF eq(1,2) a b q, of A B] wf_child[OF w1 a] wb e1[OF a] eb "3.prems"(6) by simp
    qed
    show ?thesis unfolding r by (rule eval_mult_same[OF prods l eq(3)]) (rule fact)
  qed
qed

subsection \<open>Powers\<close>

lemma scaled_squared:
  assumes "wf_poly p"
  obtains t r where "mult_c p 1 = Some t" and "wf_poly t"
    and "mult (set_save True t) (set_save True t) = Some r" and "wf_poly r"
proof -
  obtain t where t: "mult_c p 1 = Some t" "wf_poly t" using mult_c_struct[OF assms] by blast
  with mult_struct[of "set_save True t" "set_save True t"] that show ?thesis by auto
qed

lemma square_struct: "wf_poly p \<Longrightarrow> \<exists>r. square p = Some r \<and> wf_poly r"
  by (erule scaled_squared) (simp add: square_def)

lemma pow_step_struct:
  "wf_poly temp \<Longrightarrow> wf_poly ans \<Longrightarrow> \<exists>t a. pow_step temp ans n = Some (t, a) \<and> wf_poly t \<and> wf_poly a"
  using mult_struct[of ans "set_save True temp"] by (auto simp: pow_step_def)

lemma pow_loop_struct: "wf_poly temp \<Longrightarrow> wf_poly ans \<Longrightarrow> \<exists>r. pow_loop temp ans n = Some r \<and> wf_poly r"
proof (induction temp ans n rule: pow_loop.induct)
  case (1 temp ans n)
  obtain t a where ta: "pow_step temp ans n = Some (t, a)" "wf_poly t" "wf_poly a"
    using pow_step_struct "1.prems" by blast
  obtain t2 where t2: "square t = Some t2" "wf_poly t2" using square_struct ta(2) by blast
  have "\<exists>r. pow_loop t2 a (half_pow n) = Some r \<and> wf_poly r" if "0 < n" "half_pow n \<noteq> 0"
    by (rule "1.IH"[OF that(1) ta(1) refl that(2) t2(1) t2(2) ta(3)])
  then show ?case using ta t2 "1.prems"(2) by (simp add: pow_loop.simps[of temp ans n])
qed

lemma power_poly_struct:
  assumes "wf_poly p"
  shows "\<exists>r. power_poly p n = Some r \<and> wf_poly r"
proof -
  obtain t r where "mult_c p 1 = Some t" "wf_poly t"
    and "mult (set_save True t) (set_save True t) = Some r" "wf_poly r" using scaled_squared[OF assms] .
  with pow_loop_struct[of t "new_const 1 False" n] show ?thesis
    by (simp add: power_poly_def new_const_def)
qed

lemma square_spec:
  assumes "square p = Some r" and "wf_poly p" and "exps_le A p"
  shows "exps_le (A + A) r" and "A + A < 2 ^ 16 \<Longrightarrow> eval \<rho> r = eval \<rho> p ^ 2"
proof -
  from assms(1) obtain t where t: "mult_c p 1 = Some t" and r: "mult (set_save True t) (set_save True t) = Some r"
    by (auto simp: square_def split: option.splits)
  have w: "wf_poly (set_save True t)" using mult_c_struct[OF assms(2), of 1] t by auto
  have e: "exps_le A (set_save True t)" using mult_c_exps_le[OF t assms(3)] by simp
  have v: "eval \<rho> (set_save True t) = eval \<rho> p" using eval_mult_c[OF t assms(2), of \<rho>] by simp
  show "exps_le (A + A) r" by (rule mult_exps_le[OF r e e])
  show "eval \<rho> r = eval \<rho> p ^ 2" if "A + A < 2 ^ 16"
    using eval_mult[OF r w w e e that, of \<rho>] unfolding v power2_eq_square .
qed

lemma odd_word: "(n::u16) mod 2 = 1 \<longleftrightarrow> odd (unat n)"
proof -
  have "unat (n mod 2) = unat n mod 2" by (simp add: unat_mod)
  then show ?thesis by (metis odd_iff_mod_2_eq_one unat_1 word_unat_eq_iff)
qed

lemma pow_step_spec:
  assumes "pow_step temp ans n = Some (t, a)" and "wf_poly temp" and "wf_poly ans"
    and "exps_le A temp" and "exps_le B ans" and "B + A < 2 ^ 16 \<or> even (unat n)"
  shows "exps_le A t" and "eval \<rho> t = eval \<rho> temp"
    and "exps_le (if odd (unat n) then B + A else B) a"
    and "eval \<rho> a = (if odd (unat n) then eval \<rho> ans * eval \<rho> temp else eval \<rho> ans)"
proof -
  have "exps_le A (set_save True temp)" and "wf_poly (set_save True temp)" using assms by simp_all
  note m = mult_exps_le[OF _ assms(5) this(1)]
    eval_mult[OF _ assms(3) this(2) assms(5) this(1), of _ \<rho>]
  from assms m show "exps_le A t" "eval \<rho> t = eval \<rho> temp"
    "exps_le (if odd (unat n) then B + A else B) a"
    "eval \<rho> a = (if odd (unat n) then eval \<rho> ans * eval \<rho> temp else eval \<rho> ans)"
    by (auto simp: pow_step_def odd_word split: if_splits)
qed

lemma pow_loop_spec:
  "pow_loop temp ans n = Some r \<Longrightarrow> wf_poly temp \<Longrightarrow> wf_poly ans \<Longrightarrow> exps_le A temp \<Longrightarrow> exps_le B ans \<Longrightarrow>
     B + A * unat n < 2 ^ 16 \<Longrightarrow>
     exps_le (B + A * unat n) r \<and> eval \<rho> r = eval \<rho> ans * eval \<rho> temp ^ unat n"
proof (induction temp ans n arbitrary: r A B rule: pow_loop.induct)
  case (1 temp ans n)
  note w = "1.prems"(2,3) and e = "1.prems"(4,5)
  show ?case
  proof (cases "n = 0")
    case True
    with "1.prems" show ?thesis by (simp add: pow_loop.simps[of temp ans 0])
  next
    case False
    then have n0: "0 < n" and n1: "1 \<le> unat n" by (simp_all add: word_gt_0 Suc_le_eq unat_gt_0)
    obtain t a where ta: "pow_step temp ans n = Some (t, a)" "wf_poly t" "wf_poly a"
      using pow_step_struct w by blast
    let ?B = "if odd (unat n) then B + A else B" and ?h = "unat n div 2"
    have odd_even: "B + A < 2 ^ 16 \<or> even (unat n)"
      using "1.prems"(6) n1 by (metis add_left_mono le_less_trans mult.right_neutral mult_le_mono2)
    note st = pow_step_spec[OF ta(1) w e odd_even]
    have split_n: "unat n = (if odd (unat n) then 1 else 0) + 2 * ?h" by presburger
    have bound: "?B + (A + A) * ?h = B + A * unat n"
      by (subst (2) split_n) (simp add: algebra_simps)
    have val: "eval \<rho> a * (eval \<rho> t ^ 2) ^ ?h = eval \<rho> ans * eval \<rho> temp ^ unat n"
      by (subst (2) split_n) (simp add: st power_mult[symmetric] power_add)
    show ?thesis
    proof (cases "half_pow n = 0")
      case True
      then have h0: "?h = 0" using unat_half_pow[of n] by simp
      from True ta n0 "1.prems"(1) have "r = a" by (simp add: pow_loop.simps[of temp ans n])
      with st(3) bound val h0 show ?thesis by simp
    next
      case h: False
      obtain t2 where t2: "square t = Some t2" "wf_poly t2" using square_struct ta(2) by blast
      have loop: "pow_loop t2 a (half_pow n) = Some r"
        using "1.prems"(1) n0 ta t2 h by (simp add: pow_loop.simps[of temp ans n])
      have "1 \<le> ?h" using h unat_half_pow[of n] by (metis One_nat_def Suc_leI gr_zeroI unat_eq_zero)
      then have "A + A \<le> (A + A) * ?h" by (metis mult.right_neutral mult_le_mono2)
      then have small: "A + A < 2 ^ 16" using bound "1.prems"(6) by linarith
      have "exps_le (?B + (A + A) * unat (half_pow n)) r
          \<and> eval \<rho> r = eval \<rho> a * eval \<rho> t2 ^ unat (half_pow n)"
        using "1.prems"(6) bound
        by (intro "1.IH"[OF n0 ta(1) refl h t2(1) loop t2(2) ta(3) square_spec(1)[OF t2(1) ta(2) st(1)] st(3)])
          (simp add: unat_half_pow)
      then show ?thesis
        using square_spec(2)[OF t2(1) ta(2) st(1) small, of \<rho>] bound val by (simp add: unat_half_pow)
    qed
  qed
qed

lemma power_poly_spec:
  assumes r: "power_poly p n = Some r" and w: "wf_poly p" and e: "exps_le A p" and A: "A * unat n < 2 ^ 16"
  shows "eval \<rho> r = eval \<rho> p ^ unat n" and "exps_le (A * unat n) r"
proof -
  obtain t where t: "mult_c p 1 = Some t" "wf_poly t" using scaled_squared[OF w] by blast
  have et: "exps_le A t" using mult_c_exps_le[OF t(1) e] .
  have vt: "eval \<rho> t = eval \<rho> p" using eval_mult_c[OF t(1) w, of \<rho>] by simp
  have "eval \<rho> r = eval \<rho> p ^ unat n \<and> exps_le (A * unat n) r"
  proof (cases "n = 1 \<or> n = 2")
    case True
    then show ?thesis
    proof
      assume "n = 1"
      with r t et vt show ?thesis by (simp add: power_poly_def)
    next
      assume n: "n = 2"
      with r t have "square p = Some r" by (simp add: power_poly_def square_def)
      from square_spec[OF this w e] A n show ?thesis by (simp add: mult_2_right power2_eq_square)
    qed
  next
    case False
    with r t have "pow_loop t (new_const 1 False) n = Some r" by (simp add: power_poly_def)
    from pow_loop_spec[OF this t(2) _ et, of 0 \<rho>] A vt show ?thesis by (simp add: new_const_def)
  qed
  then show "eval \<rho> r = eval \<rho> p ^ unat n" and "exps_le (A * unat n) r" by simp_all
qed

end
