(* ===== verification/Multinomial_Queries.thy ===== *)
theory Multinomial_Queries
  imports Multinomial_Laws
begin

text \<open>
  The read-only operations of \<^verbatim>\<open>multinomial\<close>: order of the symbols, symbol search,
  substitution, degree and the coefficient extraction \<^verbatim>\<open>reduce\<close>.
\<close>

subsection \<open>Symbols of a polynomial\<close>

lemma ret_id_arr_symbols: "ret_id_arr p = map get_id (symbols p)"
proof (induction p rule: multinomial_induct)
  case (Node s k m)
  then have "map (\<lambda>(e, p). ret_id_arr p) m = map (map get_id \<circ> (\<lambda>(e, p). symbols p)) m"
    by (intro map_cong) auto
  then show ?case by (simp only: ret_id_arr.simps symbols.simps list.map map_concat map_map)
qed simp

lemma cmp_poly_iff: "cmp_poly v p \<longleftrightarrow> set v \<inter> set (ret_id_arr p) \<noteq> {}"
proof (induction p rule: multinomial_induct)
  case (Node s k m)
  then have "list_ex (\<lambda>(e, p). cmp_poly v p) m \<longleftrightarrow> (\<exists>x\<in>set m. set v \<inter> set (ret_id_arr (snd x)) \<noteq> {})"
    by (auto simp: list_ex_iff intro!: bex_cong)
  also have "\<dots> \<longleftrightarrow> set v \<inter> (\<Union>x\<in>set m. set (ret_id_arr (snd x))) \<noteq> {}" by blast
  finally show ?case by (auto simp: list_ex_iff case_prod_unfold)
qed simp

lemma wf_is_proper: "wf_poly p \<Longrightarrow> above_id i p \<or> i = 0 \<Longrightarrow> is_proper i p"
proof (induction p arbitrary: i rule: multinomial_induct)
  case (Node s k m)
  have "is_proper (get_id k) q" if "(e, q) \<in> set m" for e q
    using Node.IH[OF that] wf_child[OF Node.prems(1) that] wf_child_above[OF Node.prems(1) that] by blast
  with Node.prems(2) show ?case by (auto simp: list_all_iff Let_def)
qed simp

lemma eval_cong: "(\<And>i. i \<in> set (ret_id_arr p) \<Longrightarrow> \<rho> i = \<rho>' i) \<Longrightarrow> eval \<rho> p = eval \<rho>' p"
proof (induction p rule: multinomial_induct)
  case (Node s k m)
  have "eval \<rho> q = eval \<rho>' q" if q: "(e, q) \<in> set m" for e q
    by (rule Node.IH[OF q], rule Node.prems) (use q in auto)
  moreover have "\<rho> (get_id k) = \<rho>' (get_id k)" by (rule Node.prems) simp
  ultimately have "msum (\<lambda>e p. \<rho> (get_id k) ^ unat e * eval \<rho> p) m
      = msum (\<lambda>e p. \<rho>' (get_id k) ^ unat e * eval \<rho>' p) m" by (intro msum_cong) simp
  then show ?case by simp
qed simp

subsection \<open>Substitution\<close>

lemma fold_msum: "fold (\<lambda>(e, t) ans. ans + t) ts (a::'a::comm_monoid_add) = a + msum (\<lambda>e t. t) ts"
  by (induction ts arbitrary: a) (auto simp: ac_simps)

lemma substitute_eval:
  assumes "\<And>i. i \<in> set (ret_id_arr p) \<Longrightarrow> unat i < length vals"
  shows "substitute vals p = Some (eval (\<lambda>i. vals ! unat i) p)"
  using assms
proof (induction p rule: multinomial_induct)
  case (Node s k m)
  let ?x = "vals ! unat (get_id k)" and ?v = "\<lambda>i. vals ! unat i"
  have k: "unat (get_id k) < length vals" by (rule Node.prems) simp
  have sub: "substitute vals q = Some (eval ?v q)" if "(e, q) \<in> set m" for e q
    by (rule Node.IH[OF that], rule Node.prems) (use that in auto)
  have "mp_mapM (\<lambda>e p. map_option (\<lambda>t. ?x ^ unat e * t) (substitute vals p)) m
      = Some (map (\<lambda>(e, q). (e, ?x ^ unat e * eval ?v q)) m)"
    by (rule mp_mapM_all_Some) (simp add: sub)
  with k show ?case by (simp add: fold_msum msum_map_snd)
qed simp

lemma substitute_out_of_range:
  "i \<in> set (ret_id_arr p) \<Longrightarrow> length vals \<le> unat i \<Longrightarrow> wf_poly p \<Longrightarrow> substitute vals p = None"
proof (induction p rule: multinomial_induct)
  case (Node s k m)
  let ?f = "\<lambda>e p. if unat (get_id k) < length vals
      then map_option (\<lambda>t. (vals ! unat (get_id k)) ^ unat e * t) (substitute vals p) else None"
  have "\<exists>e q. (e, q) \<in> set m \<and> ?f e q = None"
  proof (cases "i = get_id k")
    case True
    obtain p0 where "mp_find m 0 = Some p0" using Node.prems(3) by auto
    then have "(0, p0) \<in> set m" by (rule map_of_SomeD)
    with True Node.prems(2) show ?thesis by (intro exI[of _ 0] exI[of _ p0]) auto
  next
    case False
    with Node.prems(1) obtain e q where q: "(e, q) \<in> set m" and "i \<in> set (ret_id_arr q)" by auto
    then have "substitute vals q = None"
      using Node.IH[OF q] Node.prems(2) wf_child[OF Node.prems(3) q] by blast
    with q show ?thesis by (intro exI[of _ e] exI[of _ q]) auto
  qed
  then have "mp_mapM ?f m = None" using mp_mapM_None[of _ _ m ?f] by blast
  then show ?case by simp
qed simp

subsection \<open>Coefficients with respect to the program variables\<close>

text \<open>
  A polynomial whose coefficients with respect to the program variables all vanish
  vanishes itself, at every valuation of the program variables.
\<close>

lemma reduce_zero: "(\<And>q. q \<in> set (reduce p) \<Longrightarrow> eval \<rho> q = 0) \<Longrightarrow> eval \<rho> p = 0"
proof (induction p rule: multinomial_induct)
  case (Node s k m)
  show ?case
  proof (cases "is_template k")
    case True
    with Node.prems[of "MNode s k m"] show ?thesis by simp
  next
    case False
    have "eval \<rho> q = 0" if "(e, q) \<in> set m" for e q
      using that False Node.prems by (intro Node.IH[OF that]) auto
    then have "msum (\<lambda>e p. \<rho> (get_id k) ^ unat e * eval \<rho> p) m = msum (\<lambda>e p. 0) m"
      by (intro msum_cong) auto
    then show ?thesis by (simp add: case_prod_unfold)
  qed
qed simp

text \<open>The coefficients are polynomials in the templates alone when templates are innermost.\<close>

definition tagged :: "u32 set \<Rightarrow> 'a multinomial \<Rightarrow> bool" where
  "tagged T p \<longleftrightarrow> (\<forall>k \<in> set (symbols p). is_template k \<longleftrightarrow> get_id k \<in> T)"

fun inner_templates :: "'a multinomial \<Rightarrow> bool" where
  "inner_templates (MConst s c) = True"
| "inner_templates (MNode s k m) =
     (if is_template k then list_all is_template (symbols (MNode s k m))
      else list_all (\<lambda>(e, p). inner_templates p) m)"

lemma reduce_templates: "inner_templates p \<Longrightarrow> q \<in> set (reduce p) \<Longrightarrow> k \<in> set (symbols q) \<Longrightarrow> is_template k"
proof (induction p rule: multinomial_induct)
  case (Node s k' m)
  then show ?case by (cases "is_template k'") (auto simp: list_all_iff)
qed simp

lemma reduce_symbols: "q \<in> set (reduce p) \<Longrightarrow> set (symbols q) \<subseteq> set (symbols p)"
proof (induction p rule: multinomial_induct)
  case (Node s k m)
  then show ?case by (cases "is_template k") fastforce+
qed simp

lemma reduce_wf: "wf_poly p \<Longrightarrow> q \<in> set (reduce p) \<Longrightarrow> wf_poly q"
proof (induction p rule: multinomial_induct)
  case (Node s k m)
  then show ?case by (cases "is_template k") (auto dest: wf_child simp del: wf_poly.simps)
qed simp

lemma reduce_exps_le: "exps_le B (p :: ('a::{zero, plus, times}) multinomial) \<Longrightarrow> q \<in> set (reduce p) \<Longrightarrow> exps_le B q"
proof (induction p rule: multinomial_induct)
  case (Node s k m)
  then show ?case by (cases "is_template k") (auto dest: exps_le_child simp del: exps_le.simps)
qed simp

text \<open>In a well-formed polynomial all symbols are above the outermost one.\<close>

lemma wf_symbols_above: "wf_poly p \<Longrightarrow> above_id i p \<Longrightarrow> k \<in> set (symbols p) \<Longrightarrow> i < get_id k"
proof (induction p arbitrary: i rule: multinomial_induct)
  case (Node s k' m)
  from Node.prems(3) consider "k = k'" | e q where "(e, q) \<in> set m" "k \<in> set (symbols q)" by auto
  then show ?case
  proof cases
    case 2
    then have "get_id k' < get_id k"
      using Node.IH wf_child[OF Node.prems(1)] wf_child_above[OF Node.prems(1)] by blast
    with Node.prems(2) show ?thesis by simp
  qed (use Node.prems(2) in simp)
qed simp

lemma wf_inner_templates:
  assumes "wf_poly p" and "tagged T p"
    and last: "\<And>i j. i \<in> T \<Longrightarrow> j \<in> set (ret_id_arr p) \<Longrightarrow> j \<notin> T \<Longrightarrow> j < i"
  shows "inner_templates p"
  using assms
proof (induction p rule: multinomial_induct)
  case (Node s k m)
  have child: "inner_templates q" if q: "(e, q) \<in> set m" for e q
  proof (rule Node.IH[OF q wf_child[OF Node.prems(1) q]])
    show "tagged T q" using Node.prems(2) q by (fastforce simp: tagged_def)
    show "j < i" if "i \<in> T" "j \<in> set (ret_id_arr q)" "j \<notin> T" for i j
      using that q by (intro Node.prems(3)) auto
  qed
  have "is_template k'" if t: "is_template k" and k': "k' \<in> set (symbols (MNode s k m))" for k'
  proof (rule ccontr)
    assume n: "\<not> is_template k'"
    then have kT: "get_id k \<in> T" "get_id k' \<notin> T" using Node.prems(2) t k' by (auto simp: tagged_def)
    have "get_id k' \<in> set (ret_id_arr (MNode s k m))" using k' by (auto simp: ret_id_arr_symbols)
    then have lt: "get_id k' < get_id k" using Node.prems(3) kT by blast
    from k' n t obtain e q where q: "(e, q) \<in> set m" "k' \<in> set (symbols q)" by auto
    have "get_id k < get_id k'"
      using wf_symbols_above[OF wf_child[OF Node.prems(1) q(1)] wf_child_above[OF Node.prems(1) q(1)] q(2)] .
    with lt show False by simp
  qed
  with child show ?case by (auto simp: list_all_iff)
qed simp

lemma reduce_sound:
  assumes "inner_templates p" and "tagged T p"
    and "\<And>q. q \<in> set (reduce p) \<Longrightarrow> eval \<tau> q = 0" and "\<And>i. i \<in> T \<Longrightarrow> \<rho> i = \<tau> i"
  shows "eval \<rho> p = 0"
proof (rule reduce_zero)
  fix q assume q: "q \<in> set (reduce p)"
  have "\<rho> i = \<tau> i" if "i \<in> set (ret_id_arr q)" for i
    using that assms(2,4) reduce_templates[OF assms(1) q] reduce_symbols[OF q]
    by (auto simp: ret_id_arr_symbols tagged_def)
  with assms(3)[OF q] show "eval \<rho> q = 0" using eval_cong[of q \<rho> \<tau>] by simp
qed

subsection \<open>Properties of the polynomial arithmetic\<close>

abbreviation ex_x :: "int multinomial" where
  "ex_x \<equiv> new_symbol \<lparr>get_id = 0, is_template = False\<rparr> True"

abbreviation ex_t :: "int multinomial" where
  "ex_t \<equiv> new_symbol \<lparr>get_id = 5, is_template = True\<rparr> True"

lemma new_symbol_wf [simp]: "wf_poly (new_symbol k b)"
  by (simp add: new_symbol_def new_const_def mp_ok_def mp_keys_def)

lemma new_symbol_exps_le [simp]: "1 \<le> B \<Longrightarrow> exps_le B (new_symbol k b)"
  by (simp add: new_symbol_def new_const_def)

lemma eval_new_symbol [simp]: "eval \<rho> (new_symbol k b) = \<rho> (get_id k)"
  by (simp add: new_symbol_def new_const_def)

text \<open>
  C9: \<^verbatim>\<open>operator+(multinomial&)\<close> is defined on all well-formed operands, whatever their save
  flags, returns a well-formed polynomial, and the value of the result is the sum of the
  values of the operands at every point.
\<close>

theorem add_correct:
  fixes p q :: "'a::comm_ring_1 multinomial"
  assumes "wf_poly p" and "wf_poly q"
  shows "\<exists>r. add p q = Some r \<and> wf_poly r \<and> (\<forall>\<rho>. eval \<rho> r = eval \<rho> p + eval \<rho> q)"
  using add_struct[OF assms] eval_add[OF _ assms] by blast

theorem add_correct_witness:
  "\<exists>r. add ex_t ex_x = Some r \<and> wf_poly r \<and> (\<forall>\<rho>. eval \<rho> r = eval \<rho> ex_t + eval \<rho> ex_x)"
  using add_correct[of ex_t ex_x] by simp

text \<open>
  C8: \<^verbatim>\<open>operator*(multinomial&)\<close> is defined on all well-formed operands and returns a
  well-formed polynomial; as long as the exponents of the two operands cannot add up to
  65536 (the width of an exponent), the value of the result is the product of the values
  and the exponents of the result are bounded by the sum of the bounds.
\<close>

theorem mult_correct:
  fixes p q :: "'a::comm_ring_1 multinomial"
  assumes "wf_poly p" and "wf_poly q" and "exps_le A p" and "exps_le B q" and "A + B < 2 ^ 16"
  shows "\<exists>r. mult p q = Some r \<and> wf_poly r \<and> exps_le (A + B) r \<and> (\<forall>\<rho>. eval \<rho> r = eval \<rho> p * eval \<rho> q)"
proof -
  obtain r where r: "mult p q = Some r" "wf_poly r" using mult_struct[OF assms(1,2)] by blast
  with mult_exps_le[OF r(1) assms(3,4)] eval_mult[OF r(1) assms] show ?thesis by blast
qed

theorem mult_correct_witness:
  "\<exists>r. mult ex_t ex_x = Some r \<and> wf_poly r \<and> exps_le (1 + 1) r \<and> (\<forall>\<rho>. eval \<rho> r = eval \<rho> ex_t * eval \<rho> ex_x)"
  using mult_correct[of ex_t ex_x 1 1] by simp

text \<open>
  C10: \<^verbatim>\<open>operator^\<close>, with its special cases for 1 and 2 and its binary exponentiation loop
  for every other 16-bit exponent, terminates and computes the power, as long as the
  largest exponent times the power stays below 65536.
\<close>

theorem power_correct:
  fixes p :: "'a::comm_ring_1 multinomial"
  assumes "wf_poly p" and "exps_le A p" and "A * unat n < 2 ^ 16"
  shows "\<exists>r. power_poly p n = Some r \<and> wf_poly r \<and> (\<forall>\<rho>. eval \<rho> r = eval \<rho> p ^ unat n)"
proof -
  obtain r where r: "power_poly p n = Some r" "wf_poly r" using power_poly_struct[OF assms(1)] by blast
  with power_poly_spec[OF r(1) assms] show ?thesis by blast
qed

theorem power_correct_witness:
  "\<exists>r. power_poly ex_x 13 = Some r \<and> wf_poly r \<and> (\<forall>\<rho>. eval \<rho> r = eval \<rho> ex_x ^ unat (13::u16))"
  using power_correct[of ex_x 1 13] by simp

end
