(* ===== verification/Strings.thy ===== *)
theory Strings
  imports Prelude "HOL-Library.Char_ord" "HOL-Library.List_Lexorder"
begin

text \<open>
  The conversions between numbers and strings the program takes from the C++ standard
  library: \<^verbatim>\<open>std::to_string\<close> on integers and \<^verbatim>\<open>std::stoi\<close>.  Strings compare
  lexicographically by byte, as the keys of a \<^verbatim>\<open>std::map<std::string, int>\<close> do.
\<close>

definition digit_char :: "nat \<Rightarrow> char" where
  "digit_char d = char_of (48 + d)"

lemma digit_char_simps [simp]:
  "digit_char 0 = CHR ''0''" "digit_char (Suc 0) = CHR ''1''" "digit_char 1 = CHR ''1''" "digit_char 2 = CHR ''2''"
  "digit_char 3 = CHR ''3''" "digit_char 4 = CHR ''4''" "digit_char 5 = CHR ''5''" "digit_char 6 = CHR ''6''"
  "digit_char 7 = CHR ''7''" "digit_char 8 = CHR ''8''" "digit_char 9 = CHR ''9''"
  by (simp_all add: digit_char_def char_of_def bit_iff_odd)

fun nat_to_string :: "nat \<Rightarrow> string" where
  "nat_to_string n = (if n < 10 then [digit_char n] else nat_to_string (n div 10) @ [digit_char (n mod 10)])"

declare nat_to_string.simps [simp del]

definition int_to_string :: "int \<Rightarrow> string" where
  "int_to_string i = (if i < 0 then ''-'' @ nat_to_string (nat (- i)) else nat_to_string (nat i))"

definition is_digit :: "char \<Rightarrow> bool" where
  "is_digit c \<longleftrightarrow> 48 \<le> (of_char c :: nat) \<and> (of_char c :: nat) \<le> 57"

definition digit_val :: "char \<Rightarrow> nat" where
  "digit_val c = of_char c - 48"

definition digits_val :: "string \<Rightarrow> nat" where
  "digits_val ds = foldl (\<lambda>a c. 10 * a + digit_val c) 0 ds"

text \<open>
  \<^verbatim>\<open>std::stoi\<close>: skip white space, an optional sign, the longest run of digits; no digit
  is \<^verbatim>\<open>invalid_argument\<close>, a value outside \<^verbatim>\<open>int\<close> is \<^verbatim>\<open>out_of_range\<close>.
\<close>

definition is_space :: "char \<Rightarrow> bool" where
  "is_space c \<longleftrightarrow> (of_char c :: nat) = 32 \<or> (9 \<le> (of_char c :: nat) \<and> (of_char c :: nat) \<le> 13)"

definition in_int_range :: "int \<Rightarrow> bool" where
  "in_int_range i \<longleftrightarrow> - (2 ^ 31) \<le> i \<and> i < 2 ^ 31"

definition stoi :: "string \<Rightarrow> int result" where
  "stoi s =
     (let s' = dropWhile is_space s;
          neg = (case s' of c # _ \<Rightarrow> c = CHR ''-'' | [] \<Rightarrow> False);
          s'' = (case s' of c # t \<Rightarrow> if c = CHR ''-'' \<or> c = CHR ''+'' then t else s' | [] \<Rightarrow> []);
          ds = takeWhile is_digit s'';
          i = (if neg then - int (digits_val ds) else int (digits_val ds))
      in if ds = [] then Inl (Throw ''stoi'')
         else if in_int_range i then Inr i else Inl (Throw ''stoi''))"

lemma digit_char_props:
  assumes "d < 10"
  shows "is_digit (digit_char d)" and "digit_val (digit_char d) = d"
    and "digit_char d \<noteq> CHR ''-''" and "digit_char d \<noteq> CHR ''+''" and "\<not> is_space (digit_char d)"
proof -
  have c: "(of_char (digit_char d) :: nat) = 48 + d" using assms by (simp add: digit_char_def)
  then show "is_digit (digit_char d)" and "digit_val (digit_char d) = d" and "\<not> is_space (digit_char d)"
    using assms by (simp_all add: is_digit_def digit_val_def is_space_def)
  show "digit_char d \<noteq> CHR ''-''" and "digit_char d \<noteq> CHR ''+''" using c by auto
qed

lemma nat_to_string_nonempty [simp]: "nat_to_string n \<noteq> []"
  by (subst nat_to_string.simps) simp

lemma nat_to_string_digits: "list_all is_digit (nat_to_string n)"
proof (induction n rule: nat_to_string.induct)
  case (1 n)
  then show ?case by (subst nat_to_string.simps) (auto simp: digit_char_props)
qed

lemma nat_to_string_first: "\<exists>c t. nat_to_string n = c # t \<and> c \<noteq> CHR ''-'' \<and> c \<noteq> CHR ''+'' \<and> \<not> is_space c"
proof (induction n rule: nat_to_string.induct)
  case (1 n)
  show ?case
  proof (cases "n < 10")
    case True
    then show ?thesis by (subst nat_to_string.simps) (auto simp: digit_char_props)
  next
    case False
    with 1 show ?thesis by (subst nat_to_string.simps) auto
  qed
qed

lemma digits_val_append: "digits_val (ds @ [c]) = 10 * digits_val ds + digit_val c"
  by (simp add: digits_val_def)

lemma digits_val_nat_to_string [simp]: "digits_val (nat_to_string n) = n"
proof (induction n rule: nat_to_string.induct)
  case (1 n)
  show ?case
  proof (cases "n < 10")
    case True
    then show ?thesis by (subst nat_to_string.simps) (simp add: digits_val_def digit_char_props)
  next
    case False
    with 1 show ?thesis by (subst nat_to_string.simps) (simp add: digits_val_append digit_char_props)
  qed
qed

lemma nat_to_string_inj: "nat_to_string a = nat_to_string b \<Longrightarrow> a = b"
  by (metis digits_val_nat_to_string)

lemma takeWhile_digits [simp]: "takeWhile is_digit (nat_to_string n) = nat_to_string n"
  using nat_to_string_digits by (simp add: takeWhile_eq_all_conv list_all_iff)

lemma stoi_int_to_string:
  assumes "in_int_range i"
  shows "stoi (int_to_string i) = Inr i"
proof (cases "i < 0")
  case True
  then have "int_to_string i = CHR ''-'' # nat_to_string (nat (- i))" by (simp add: int_to_string_def)
  moreover have "\<not> is_space CHR ''-''" by (simp add: is_space_def)
  ultimately show ?thesis using assms True by (simp add: stoi_def)
next
  case False
  obtain c t where ct: "nat_to_string (nat i) = c # t" "c \<noteq> CHR ''-''" "c \<noteq> CHR ''+''" "\<not> is_space c"
    using nat_to_string_first by blast
  have s: "int_to_string i = nat_to_string (nat i)" using False by (simp add: int_to_string_def)
  have tw: "takeWhile is_digit (c # t) = c # t" and dv: "digits_val (c # t) = nat i"
    using takeWhile_digits[of "nat i"] digits_val_nat_to_string[of "nat i"] unfolding ct(1) by simp_all
  have "stoi (c # t) = (if in_int_range (int (nat i)) then Inr (int (nat i)) else Inl (Throw ''stoi''))"
    using ct(2-4) by (simp only: stoi_def Let_def dropWhile.simps tw dv list.case if_False if_True simp_thms list.distinct)
  then show ?thesis using assms False by (simp add: s ct(1))
qed

end
