(* ===== verification/Vars.thy ===== *)
theory Vars
  imports Multinomial_Queries Strings
begin

text \<open>
  The variable table \<^verbatim>\<open>vars\<close> of \<^verbatim>\<open>include/vars.hpp\<close> and \<^verbatim>\<open>src/vars.cpp\<close>: a vector of
  saved one-symbol polynomials and the map from names to positions.  The operations also
  move the global symbol counter, so the state they thread is the table with the counter.
\<close>

record 'a vars =
  var_arr :: "'a multinomial list"
  vmp :: "(string, nat) mp"
  NUM_SYMBOLS :: u32

definition vars_sz :: "'a vars \<Rightarrow> nat" where
  "vars_sz v = length (var_arr v)"

text \<open>\<^verbatim>\<open>mp[name] = var_arr.size(); var_arr.push_back(new multinomial(new symbol(t), true))\<close>.\<close>

definition push_var :: "('a::{zero, one}) vars \<Rightarrow> bool \<Rightarrow> string \<Rightarrow> 'a vars result" where
  "push_var v ais_template name =
     (case symbol_new ais_template (NUM_SYMBOLS v) of
        Inl err \<Rightarrow> Inl err
      | Inr (s, n) \<Rightarrow>
          Inr (v\<lparr>var_arr := var_arr v @ [new_symbol s True],
                 vmp := mp_set name (vars_sz v) (vmp v), NUM_SYMBOLS := n\<rparr>))"

text \<open>The constructor: \<open>n\<close> program variables with default names.\<close>

fun vars_new_loop :: "nat \<Rightarrow> ('a::{zero, one}) vars \<Rightarrow> 'a vars result" where
  "vars_new_loop 0 v = Inr v"
| "vars_new_loop (Suc n) v =
     (case push_var v False (''var_'' @ nat_to_string (vars_sz v)) of
        Inl err \<Rightarrow> Inl err
      | Inr v' \<Rightarrow> vars_new_loop n v')"

definition vars_new :: "nat \<Rightarrow> u32 \<Rightarrow> ('a::{zero, one}) vars result" where
  "vars_new n num = vars_new_loop n \<lparr>var_arr = [], vmp = [], NUM_SYMBOLS = num\<rparr>"

definition add_var :: "('a::{zero, one}) vars \<Rightarrow> bool \<Rightarrow> string \<Rightarrow> (string \<times> 'a vars) result" where
  "add_var v ais_template aname =
     (let name = (if aname = [] \<or> mp_find (vmp v) aname \<noteq> None
                  then aname @ ''var_'' @ nat_to_string (vars_sz v) else aname) in
      case push_var v ais_template name of
        Inl err \<Rightarrow> Inl err
      | Inr v' \<Rightarrow> Inr (name, v'))"

text \<open>A group of variables \<open>name_0, name_1, \<dots>\<close>.\<close>

fun add_group_loop :: "nat \<Rightarrow> nat \<Rightarrow> bool \<Rightarrow> string \<Rightarrow> ('a::{zero, one}) vars \<Rightarrow> 'a vars result" where
  "add_group_loop i 0 t aname v = Inr v"
| "add_group_loop i (Suc n) t aname v =
     (case push_var v t (aname @ ''_'' @ nat_to_string i) of
        Inl err \<Rightarrow> Inl err
      | Inr v' \<Rightarrow> add_group_loop (Suc i) n t aname v')"

definition add_var_group :: "('a::{zero, one}) vars \<Rightarrow> nat \<Rightarrow> bool \<Rightarrow> string \<Rightarrow> (string \<times> 'a vars) result" where
  "add_var_group v n ais_template aname =
     (let name = (if aname = [] \<or> mp_find (vmp v) aname \<noteq> None
                  then aname @ ''grp'' @ nat_to_string (length (vmp v)) else aname) in
      case add_group_loop 0 n ais_template name v of
        Inl err \<Rightarrow> Inl err
      | Inr v' \<Rightarrow> Inr (name, v'))"

text \<open>
  The three ways to read a variable.  \<^verbatim>\<open>operator[](std::string)\<close> goes through
  \<^verbatim>\<open>mp[name]\<close>, which inserts position 0 for a name that is not there.
\<close>

definition var_at :: "'a vars \<Rightarrow> nat \<Rightarrow> 'a multinomial result" where
  "var_at v idx = (if idx < length (var_arr v) then Inr (var_arr v ! idx) else Inl Undefined)"

definition var_named :: "'a vars \<Rightarrow> string \<Rightarrow> ('a multinomial \<times> 'a vars) result" where
  "var_named v name =
     (let v' = (case mp_find (vmp v) name of None \<Rightarrow> v\<lparr>vmp := mp_set name 0 (vmp v)\<rparr> | Some _ \<Rightarrow> v) in
      case mp_find (vmp v') name of
        None \<Rightarrow> Inl Undefined
      | Some i \<Rightarrow> (case var_at v' i of Inl err \<Rightarrow> Inl err | Inr p \<Rightarrow> Inr (p, v')))"

definition var_in_group :: "'a vars \<Rightarrow> string \<Rightarrow> nat \<Rightarrow> 'a multinomial result" where
  "var_in_group v name idx =
     (let to_s = name @ ''_'' @ nat_to_string idx in
      case mp_find (vmp v) to_s of
        None \<Rightarrow> Inl (Throw (''No such name ['' @ to_s @ '']\<newline>''))
      | Some i \<Rightarrow> var_at v i)"

definition var_is_templ :: "'a vars \<Rightarrow> nat \<Rightarrow> bool result" where
  "var_is_templ v idx =
     (case var_at v idx of
        Inl err \<Rightarrow> Inl err
      | Inr (MNode s k m) \<Rightarrow> Inr (is_template k)
      | Inr (MConst s c) \<Rightarrow> Inl Undefined)"

text \<open>
  The invariant: position and symbol identifier agree (every later use of a symbol
  identifier as an index relies on it), every entry is a saved one-symbol polynomial, and
  every name denotes a position.
\<close>

definition vars_ok :: "('a::{zero, one}) vars \<Rightarrow> bool" where
  "vars_ok v \<longleftrightarrow>
     length (var_arr v) = unat (NUM_SYMBOLS v)
     \<and> (\<forall>i < length (var_arr v). \<exists>k. var_arr v ! i = new_symbol k True \<and> unat (get_id k) = i)
     \<and> (\<forall>name i. mp_find (vmp v) name = Some i \<longrightarrow> i < length (var_arr v))"

lemma push_var_ok:
  assumes "push_var v t name = Inr v'" and "vars_ok v"
  shows "vars_ok v'" and "length (var_arr v') = Suc (length (var_arr v))"
    and "\<exists>k. var_arr v' = var_arr v @ [new_symbol k True] \<and> unat (get_id k) = length (var_arr v) \<and> is_template k = t"
    and "mp_find (vmp v') = (mp_find (vmp v))(name \<mapsto> length (var_arr v))"
proof -
  from assms(1) obtain s n where s: "symbol_new t (NUM_SYMBOLS v) = Inr (s, n)"
    and v': "v' = v\<lparr>var_arr := var_arr v @ [new_symbol s True],
                 vmp := mp_set name (vars_sz v) (vmp v), NUM_SYMBOLS := n\<rparr>"
    by (auto simp: push_var_def split: sum.splits)
  note n = symbol_new_Inr[OF s]
  from assms(2) have len: "length (var_arr v) = unat (NUM_SYMBOLS v)" by (simp add: vars_ok_def)
  show "length (var_arr v') = Suc (length (var_arr v))" by (simp add: v')
  show "\<exists>k. var_arr v' = var_arr v @ [new_symbol k True] \<and> unat (get_id k) = length (var_arr v) \<and> is_template k = t"
    using n len by (auto simp: v')
  show "mp_find (vmp v') = (mp_find (vmp v))(name \<mapsto> length (var_arr v))"
    by (auto simp: v' vars_sz_def)
  have "\<exists>k. (var_arr v @ [new_symbol s True]) ! i = new_symbol k True \<and> unat (get_id k) = i"
    if "i < Suc (length (var_arr v))" for i
    using that assms(2) n len by (cases "i = length (var_arr v)") (auto simp: vars_ok_def nth_append)
  then show "vars_ok v'" using assms(2) n len by (auto simp: v' vars_ok_def vars_sz_def less_SucI)
qed

lemma push_var_total:
  assumes "unat (NUM_SYMBOLS v) < 2 ^ 32 - 1"
  shows "\<exists>v'. push_var v t name = Inr v'"
proof -
  have "NUM_SYMBOLS v < SYM_LIMIT" using assms
    by (simp add: SYM_LIMIT_def word_less_nat_alt unsigned_minus_1_eq_mask mask_eq_exp_minus_1)
  then show ?thesis by (simp add: push_var_def symbol_new_def)
qed

lemma vars_new_loop_ok:
  "vars_new_loop n v = Inr v' \<Longrightarrow> vars_ok v \<Longrightarrow>
     vars_ok v' \<and> length (var_arr v') = length (var_arr v) + n"
proof (induction n v arbitrary: v' rule: vars_new_loop.induct)
  case (2 n v)
  then obtain u where u: "push_var v False (''var_'' @ nat_to_string (vars_sz v)) = Inr u"
    and loop: "vars_new_loop n u = Inr v'" by (auto split: sum.splits)
  from "2.IH"[OF u loop] push_var_ok(1,2)[OF u "2.prems"(2)] show ?case by simp
qed simp

lemma vars_empty_ok: "vars_ok \<lparr>var_arr = [], vmp = [], NUM_SYMBOLS = 0\<rparr>"
  by (simp add: vars_ok_def)

lemma add_var_ok:
  assumes "add_var v t aname = Inr (name, v')" and "vars_ok v"
  shows "vars_ok v'" and "\<exists>k. var_named v' name = Inr (new_symbol k True, v')
      \<and> unat (get_id k) = length (var_arr v) \<and> is_template k = t \<and> var_arr v' = var_arr v @ [new_symbol k True]"
proof -
  from assms(1) have p: "push_var v t name = Inr v'" by (auto simp: add_var_def Let_def split: sum.splits)
  note ok = push_var_ok[OF p assms(2)]
  then show "vars_ok v'" by simp
  from ok(3) obtain k where "var_arr v' = var_arr v @ [new_symbol k True]" "unat (get_id k) = length (var_arr v)"
    "is_template k = t" by blast
  with ok(4) show "\<exists>k. var_named v' name = Inr (new_symbol k True, v')
      \<and> unat (get_id k) = length (var_arr v) \<and> is_template k = t \<and> var_arr v' = var_arr v @ [new_symbol k True]"
    by (auto simp: var_named_def var_at_def Let_def)
qed

end
