(* ===== verification/Decimal.thy ===== *)
theory Decimal
  imports Strings
begin

text \<open>
  Doubles as text.  A finite double is a rational number; \<^verbatim>\<open>std::to_string(double)\<close> prints
  it with six digits after the point, rounded to nearest with ties to even, and the solvers
  read such a text back as an exact decimal.  The pair is the identity exactly on the
  multiples of \<open>10\<^sup>-\<^sup>6\<close>, and moves every other value by at most half of that.
\<close>

type_synonym double = rat

definition round_even :: "rat \<Rightarrow> int" where
  "round_even x =
     (let f = \<lfloor>x\<rfloor>; d = x - of_int f in
      if d < 1 / 2 then f else if d > 1 / 2 then f + 1 else if even f then f else f + 1)"

text \<open>\<open>n\<close> with leading zeros, in \<open>k\<close> places.\<close>

fun pad_digits :: "nat \<Rightarrow> nat \<Rightarrow> string" where
  "pad_digits 0 n = []"
| "pad_digits (Suc k) n = pad_digits k (n div 10) @ [digit_char (n mod 10)]"

definition micro :: "double \<Rightarrow> nat" where
  "micro x = nat (round_even (\<bar>x\<bar> * 10 ^ 6))"

definition to_string_d :: "double \<Rightarrow> string" where
  "to_string_d x =
     (if x < 0 then ''-'' else []) @ nat_to_string (micro x div 10 ^ 6) @ ''.'' @ pad_digits 6 (micro x mod 10 ^ 6)"

text \<open>The value of a decimal text.\<close>

definition dec_value :: "string \<Rightarrow> rat" where
  "dec_value s =
     (let neg = (case s of c # _ \<Rightarrow> c = CHR ''-'' | [] \<Rightarrow> False);
          u = (if neg then tl s else s);
          ip = takeWhile is_digit u;
          fp = takeWhile is_digit (drop (Suc (length ip)) u);
          a = of_nat (digits_val ip) + of_nat (digits_val fp) / 10 ^ length fp
      in if neg then - a else a)"

text \<open>What a coefficient becomes on its way through the text.\<close>

definition round6 :: "double \<Rightarrow> double" where
  "round6 x = (let a = of_nat (micro x) / 10 ^ 6 in if x < 0 then - a else a)"

lemma length_pad_digits [simp]: "length (pad_digits k n) = k"
  by (induction k arbitrary: n) auto

lemma pad_digits_digits: "list_all is_digit (pad_digits k n)"
  by (induction k arbitrary: n) (auto simp: digit_char_props)

lemma digits_val_pad: "n < 10 ^ k \<Longrightarrow> digits_val (pad_digits k n) = n"
proof (induction k arbitrary: n)
  case (Suc k)
  then have "n div 10 < 10 ^ k" by (simp add: less_mult_imp_div_less mult.commute)
  with Suc.IH show ?case by (simp add: digits_val_append digit_char_props)
qed (simp add: digits_val_def)

lemma takeWhile_pad [simp]: "takeWhile is_digit (pad_digits k n) = pad_digits k n"
  using pad_digits_digits by (simp add: takeWhile_eq_all_conv list_all_iff)

lemma dec_value_fixed:
  assumes "f < 10 ^ k"
  shows "dec_value (nat_to_string i @ ''.'' @ pad_digits k f) = of_nat i + of_nat f / 10 ^ k"
    and "dec_value (''-'' @ nat_to_string i @ ''.'' @ pad_digits k f) = - (of_nat i + of_nat f / 10 ^ k)"
proof -
  let ?u = "nat_to_string i @ ''.'' @ pad_digits k f"
  have dot: "\<not> is_digit CHR ''.''" by (simp add: is_digit_def)
  have ip: "takeWhile is_digit ?u = nat_to_string i"
    using nat_to_string_digits[of i] dot by (subst takeWhile_append2) (auto simp: list_all_iff)
  have fp: "takeWhile is_digit (drop (Suc (length (nat_to_string i))) ?u) = pad_digits k f" by simp
  obtain c t where ct: "nat_to_string i = c # t" "c \<noteq> CHR ''-''" using nat_to_string_first[of i] by blast
  have neg: "(case ?u of c # _ \<Rightarrow> c = CHR ''-'' | [] \<Rightarrow> False) = False" using ct by simp
  show "dec_value ?u = of_nat i + of_nat f / 10 ^ k"
    unfolding dec_value_def Let_def neg if_False ip fp using assms by (simp add: digits_val_pad)
  have neg': "(case ''-'' @ ?u of c # _ \<Rightarrow> c = CHR ''-'' | [] \<Rightarrow> False) = True" by simp
  have tl: "tl (''-'' @ ?u) = ?u" by simp
  show "dec_value (''-'' @ ?u) = - (of_nat i + of_nat f / 10 ^ k)"
    unfolding dec_value_def Let_def neg' if_True tl ip fp using assms by (simp add: digits_val_pad)
qed

lemma div_mod_frac: "of_nat (n div d) + of_nat (n mod d) / (of_nat d :: rat) = of_nat n / of_nat d" if "d > 0"
proof -
  have "(of_nat n :: rat) = of_nat (n div d) * of_nat d + of_nat (n mod d)"
    by (metis of_nat_add of_nat_mult div_mult_mod_eq)
  then show ?thesis using that by (simp add: field_simps)
qed

lemma dec_value_to_string [simp]: "dec_value (to_string_d x) = round6 x"
proof -
  have "of_nat (micro x div 10 ^ 6) + of_nat (micro x mod 10 ^ 6) / (10 ^ 6 :: rat) = of_nat (micro x) / 10 ^ 6"
    using div_mod_frac[of "10 ^ 6" "micro x"] by simp
  moreover have "micro x mod 10 ^ 6 < 10 ^ 6" by simp
  ultimately show ?thesis
    using dec_value_fixed[of "micro x mod 10 ^ 6" 6 "micro x div 10 ^ 6"]
    unfolding to_string_d_def round6_def Let_def by (cases "x < 0") simp_all
qed

lemma round_even_bounds: "of_int (round_even x) - x \<le> 1 / 2" "x - of_int (round_even x) \<le> 1 / 2"
proof -
  have "of_int \<lfloor>x\<rfloor> \<le> x" "x < of_int \<lfloor>x\<rfloor> + 1" by linarith+
  then show "of_int (round_even x) - x \<le> 1 / 2" "x - of_int (round_even x) \<le> 1 / 2"
    unfolding round_even_def Let_def by (simp_all split: if_splits) linarith+
qed

lemma round_even_of_int [simp]: "round_even (of_int i) = i"
  by (simp add: round_even_def)

lemma round_even_nonneg: "0 \<le> x \<Longrightarrow> 0 \<le> round_even x"
proof -
  assume "0 \<le> x"
  then have "0 \<le> \<lfloor>x\<rfloor>" by simp
  then show ?thesis by (auto simp: round_even_def Let_def)
qed

lemma of_nat_micro: "(of_nat (micro x) :: rat) = of_int (round_even (\<bar>x\<bar> * 10 ^ 6))"
  using round_even_nonneg[of "\<bar>x\<bar> * 10 ^ 6"] by (simp add: micro_def)

lemma round6_close: "\<bar>round6 x - x\<bar> \<le> 1 / (2 * 10 ^ 6)"
proof -
  have "\<bar>of_nat (micro x) - \<bar>x\<bar> * 10 ^ 6\<bar> \<le> 1 / 2"
    using round_even_bounds[of "\<bar>x\<bar> * 10 ^ 6"] unfolding of_nat_micro abs_le_iff by linarith
  then have "\<bar>of_nat (micro x) / 10 ^ 6 - \<bar>x\<bar>\<bar> \<le> 1 / (2 * 10 ^ 6)"
    by (simp add: abs_le_iff field_simps)
  then show ?thesis by (auto simp: round6_def Let_def abs_if split: if_splits)
qed

lemma round6_exact:
  assumes "x * 10 ^ 6 = of_int i"
  shows "round6 x = x"
proof -
  have "\<bar>x\<bar> * 10 ^ 6 = of_int \<bar>i\<bar>" using assms by (simp add: abs_if split: if_splits)
  then have "of_nat (micro x) = \<bar>x\<bar> * 10 ^ 6" unfolding of_nat_micro by (metis round_even_of_int)
  then show ?thesis by (auto simp: round6_def Let_def)
qed

lemma round6_exact_iff: "round6 x = x \<longleftrightarrow> (\<exists>i. x * 10 ^ 6 = of_int i)"
proof
  assume "round6 x = x"
  moreover have "\<exists>i. round6 x * 10 ^ 6 = of_int i"
  proof (cases "x < 0")
    case True
    then have "round6 x * 10 ^ 6 = of_int (- int (micro x))" by (simp add: round6_def Let_def)
    then show ?thesis by blast
  next
    case False
    then have "round6 x * 10 ^ 6 = of_int (int (micro x))" by (simp add: round6_def Let_def)
    then show ?thesis by blast
  qed
  ultimately show "\<exists>i. x * 10 ^ 6 = of_int i" by simp
qed (blast intro: round6_exact)

lemma round6_of_int [simp]: "round6 (of_int i) = of_int i"
  by (rule round6_exact[of _ "i * 10 ^ 6"]) simp

lemma round6_0 [simp]: "round6 0 = 0" and round6_1 [simp]: "round6 1 = 1"
  using round6_of_int[of 0] round6_of_int[of 1] by simp_all

lemma round6_tiny: "round6 (1 / 10 ^ 7) = 0"
proof -
  have "micro (1 / 10 ^ 7) = 0" by (simp add: micro_def round_even_def Let_def)
  then show ?thesis by (simp add: round6_def)
qed

end
