(* ===== verification/Terms.thy ===== *)
theory Terms
  imports Decimal
begin

text \<open>
  The formulas handed to the SMT solvers.  The program builds them by calls of the z3 and
  yices interfaces; a formula is the tree of these calls, over named real constants.  The
  meaning of a tree is its standard arithmetic meaning over the reals.
\<close>

datatype zterm =
    ZInt int
  | ZRat int int
  | ZDec string
  | ZConst string
  | ZAdd zterm zterm
  | ZSub zterm zterm
  | ZMul zterm zterm
  | ZPow zterm nat

datatype zform =
    ZGe zterm zterm
  | ZEq zterm zterm
  | ZAnd zform zform
  | ZImplies zform zform
  | ZForall string zform

fun zeval :: "(string \<Rightarrow> real) \<Rightarrow> zterm \<Rightarrow> real" where
  "zeval \<chi> (ZInt i) = of_int i"
| "zeval \<chi> (ZRat a b) = of_int a / of_int b"
| "zeval \<chi> (ZDec s) = of_rat (dec_value s)"
| "zeval \<chi> (ZConst x) = \<chi> x"
| "zeval \<chi> (ZAdd s t) = zeval \<chi> s + zeval \<chi> t"
| "zeval \<chi> (ZSub s t) = zeval \<chi> s - zeval \<chi> t"
| "zeval \<chi> (ZMul s t) = zeval \<chi> s * zeval \<chi> t"
| "zeval \<chi> (ZPow t n) = zeval \<chi> t ^ n"

fun zholds :: "(string \<Rightarrow> real) \<Rightarrow> zform \<Rightarrow> bool" where
  "zholds \<chi> (ZGe s t) = (zeval \<chi> s \<ge> zeval \<chi> t)"
| "zholds \<chi> (ZEq s t) = (zeval \<chi> s = zeval \<chi> t)"
| "zholds \<chi> (ZAnd f g) = (zholds \<chi> f \<and> zholds \<chi> g)"
| "zholds \<chi> (ZImplies f g) = (zholds \<chi> f \<longrightarrow> zholds \<chi> g)"
| "zholds \<chi> (ZForall x f) = (\<forall>r. zholds (\<chi>(x := r)) f)"

text \<open>\<^verbatim>\<open>Z3_substitute\<close> of values for constants; a bound name is not touched.\<close>

fun tsubst :: "(string \<Rightarrow> zterm option) \<Rightarrow> zterm \<Rightarrow> zterm" where
  "tsubst \<sigma> (ZConst x) = (case \<sigma> x of None \<Rightarrow> ZConst x | Some t \<Rightarrow> t)"
| "tsubst \<sigma> (ZAdd s t) = ZAdd (tsubst \<sigma> s) (tsubst \<sigma> t)"
| "tsubst \<sigma> (ZSub s t) = ZSub (tsubst \<sigma> s) (tsubst \<sigma> t)"
| "tsubst \<sigma> (ZMul s t) = ZMul (tsubst \<sigma> s) (tsubst \<sigma> t)"
| "tsubst \<sigma> (ZPow t n) = ZPow (tsubst \<sigma> t) n"
| "tsubst \<sigma> (ZInt i) = ZInt i"
| "tsubst \<sigma> (ZRat a b) = ZRat a b"
| "tsubst \<sigma> (ZDec s) = ZDec s"

fun fsubst :: "(string \<Rightarrow> zterm option) \<Rightarrow> zform \<Rightarrow> zform" where
  "fsubst \<sigma> (ZGe s t) = ZGe (tsubst \<sigma> s) (tsubst \<sigma> t)"
| "fsubst \<sigma> (ZEq s t) = ZEq (tsubst \<sigma> s) (tsubst \<sigma> t)"
| "fsubst \<sigma> (ZAnd f g) = ZAnd (fsubst \<sigma> f) (fsubst \<sigma> g)"
| "fsubst \<sigma> (ZImplies f g) = ZImplies (fsubst \<sigma> f) (fsubst \<sigma> g)"
| "fsubst \<sigma> (ZForall x f) = ZForall x (fsubst (\<sigma>(x := None)) f)"

text \<open>Substituted texts denote numbers, so substitution is evaluation at the shifted point.\<close>

definition closed_subst :: "(string \<Rightarrow> zterm option) \<Rightarrow> bool" where
  "closed_subst \<sigma> \<longleftrightarrow> (\<forall>x t. \<sigma> x = Some t \<longrightarrow> (\<exists>s. t = ZDec s))"

definition shift :: "(string \<Rightarrow> zterm option) \<Rightarrow> (string \<Rightarrow> real) \<Rightarrow> string \<Rightarrow> real" where
  "shift \<sigma> \<chi> x = (case \<sigma> x of None \<Rightarrow> \<chi> x | Some t \<Rightarrow> zeval \<chi> t)"

lemma zeval_tsubst: "zeval \<chi> (tsubst \<sigma> t) = zeval (shift \<sigma> \<chi>) t"
  by (induction t) (auto simp: shift_def split: option.splits)

lemma shift_upd: "closed_subst \<sigma> \<Longrightarrow> shift (\<sigma>(x := None)) (\<chi>(x := r)) = (shift \<sigma> \<chi>)(x := r)"
  by (rule ext) (force simp: shift_def closed_subst_def split: option.splits)

lemma zholds_fsubst: "closed_subst \<sigma> \<Longrightarrow> zholds \<chi> (fsubst \<sigma> f) = zholds (shift \<sigma> \<chi>) f"
proof (induction f arbitrary: \<sigma> \<chi>)
  case (ZForall x f)
  have "closed_subst (\<sigma>(x := None))" using ZForall.prems by (auto simp: closed_subst_def)
  with ZForall.IH have "zholds \<chi>' (fsubst (\<sigma>(x := None)) f) = zholds (shift (\<sigma>(x := None)) \<chi>') f" for \<chi>' by blast
  then show ?case using shift_upd[OF ZForall.prems] by simp
qed (simp_all add: zeval_tsubst)

text \<open>The leaves of a formula that are named constants, left to right.\<close>

fun tconsts :: "zterm \<Rightarrow> string list" where
  "tconsts (ZConst x) = [x]"
| "tconsts (ZAdd s t) = tconsts s @ tconsts t"
| "tconsts (ZSub s t) = tconsts s @ tconsts t"
| "tconsts (ZMul s t) = tconsts s @ tconsts t"
| "tconsts (ZPow t n) = tconsts t"
| "tconsts _ = []"

lemma zeval_cong: "(\<And>x. x \<in> set (tconsts t) \<Longrightarrow> \<chi> x = \<chi>' x) \<Longrightarrow> zeval \<chi> t = zeval \<chi>' t"
  by (induction t) auto

end
