(* ===== verification/Multinomial_Ownership.thy ===== *)
theory Multinomial_Ownership
  imports Multinomial_Queries
begin

text \<open>
  The save flags of \<^verbatim>\<open>multinomial\<close> as an ownership discipline.  An operator frees its
  unsaved operands and copies the saved ones; that is sound only when a polynomial carries
  one flag throughout, so that an operator never frees a coefficient of a saved
  polynomial.  Every operator returns a polynomial that is unsaved throughout, and
  \<^verbatim>\<open>set_save\<close> moves a whole polynomial from one flag to the other.
\<close>

fun flags :: "bool \<Rightarrow> 'a multinomial \<Rightarrow> bool" where
  "flags b (MConst s c) = (s = b)"
| "flags b (MNode s k m) = (s = b \<and> list_all (\<lambda>(e, p). flags b p) m)"

abbreviation uniform :: "'a multinomial \<Rightarrow> bool" where
  "uniform p \<equiv> flags (save p) p"

lemma flags_child: "flags b (MNode s k m) \<Longrightarrow> (e, p) \<in> set m \<Longrightarrow> flags b p"
  by (auto simp: list_all_iff)

lemma flags_uniform: "flags b p \<Longrightarrow> uniform p"
  by (cases p) auto

lemma flags_iff: "flags b p \<longleftrightarrow> uniform p \<and> save p = b"
  by (cases p) auto

lemma uniform_child: "uniform (MNode s k m) \<Longrightarrow> (e, p) \<in> set m \<Longrightarrow> uniform p"
  using flags_child[of s s k m e p] flags_uniform[of s p] by simp

lemma flags_MNodeI: "(\<And>e p. (e, p) \<in> set m \<Longrightarrow> flags b p) \<Longrightarrow> flags b (MNode b k m)"
  by (auto simp: list_all_iff)

lemma flags_set_save: "uniform p \<Longrightarrow> flags b (set_save b p)"
proof (induction p rule: multinomial_induct)
  case (Node s k m)
  then show ?case using uniform_child[OF Node.prems] by (auto simp: list_all_iff)
qed simp

lemma uniform_set_save: "uniform p \<Longrightarrow> uniform (set_save b p)"
  by (blast intro: flags_uniform flags_set_save)

lemma flags_assign: "uniform p \<Longrightarrow> flags False (assign p)"
proof (induction p rule: multinomial_induct)
  case (Node s k m)
  then show ?case using uniform_child[OF Node.prems] by (auto simp: list_all_iff)
qed simp

lemma uniform_guarded: "uniform p \<Longrightarrow> uniform (guarded n b i p)"
  by (simp add: guarded_def Let_def flags_set_save uniform_set_save)

lemma flags_simplify:
  assumes "\<And>e p. (e, p) \<in> set m \<Longrightarrow> flags False p"
  shows "flags False (simplify (MNode False k m))"
  using assms by (auto simp: simplify_def Let_def list_all_iff new_const_def dest!: in_mp_setD)

lemma flags_mp_set:
  assumes "\<And>e p. (e, p) \<in> set m \<Longrightarrow> flags b p" and "flags b q" and "(e, p) \<in> set (mp_set k q m)"
  shows "flags b p"
  using in_mp_setD[OF assms(3)] assms(1,2) by blast

lemma flags_imapM:
  assumes "mp_imapM n f m = Some m'" and "\<And>i e p q. (e, p) \<in> set m \<Longrightarrow> f i e p = Some q \<Longrightarrow> flags b q"
    and "(e, q) \<in> set m'"
  shows "flags b q"
  using mp_imapM_in[OF assms(1,3)] assms(2) by blast

lemmas flags_mapM = flags_imapM [where n = 0 and f = "\<lambda>i. f" for f, folded mp_mapM_def]

lemma flags_add_c: "add_c p c = Some r \<Longrightarrow> uniform p \<Longrightarrow> flags False r"
proof (induction p c arbitrary: r rule: add_c.induct)
  case (2 s k m c)
  note u = uniform_child[OF "2.prems"(2)]
  show ?case
  proof (cases s)
    case True
    with "2.prems"(1) obtain m' where
      m': "mp_mapM (\<lambda>e p. if e = 0 then add_c p c else Some (assign p)) m = Some m'"
      and r: "r = simplify (MNode False k m')" by (auto split: if_splits option.splits)
    have "flags False q" if q: "(e, q) \<in> set m'" for e q
    proof (rule flags_mapM[OF m' _ q])
      fix e p q assume "(e, p) \<in> set m" "(if e = 0 then add_c p c else Some (assign p)) = Some q"
      then show "flags False q" using "2.IH"(2) u[of e p] True "2.prems"(1)
        by (auto split: if_splits intro: flags_assign)
    qed
    then show ?thesis unfolding r by (rule flags_simplify)
  next
    case False
    then have ch: "flags False q" if "(e, q) \<in> set m" for e q using that "2.prems"(2) flags_child[of False s k m] by auto
    have res: "flags False (if length (mp_set 0 p0 m) = 1 \<and> is_zero p0 then MConst False 0
                        else MNode False k (mp_set 0 p0 m))" if "flags False p0" for p0
      using that by (auto simp: list_all_iff intro: flags_mp_set[OF ch])
    show ?thesis
    proof (cases "mp_find m 0")
      case None
      with False "2.prems"(1) res[of "MConst False (0 + c)"] show ?thesis by (auto simp: Let_def)
    next
      case (Some p)
      with False "2.prems"(1) obtain p0 where p0: "add_c p c = Some p0"
        and r: "r = (if length (mp_set 0 p0 m) = 1 \<and> is_zero p0 then MConst False 0
                        else MNode False k (mp_set 0 p0 m))" by (auto split: option.splits)
      have "uniform p" by (rule u) (rule map_of_SomeD[OF Some])
      then have "flags False p0" using "2.IH"(1)[OF _ Some p0] False by simp
      then show ?thesis unfolding r by (rule res)
    qed
  qed
qed auto

lemma flags_add: "add p q = Some r \<Longrightarrow> uniform p \<Longrightarrow> uniform q \<Longrightarrow> flags False r"
proof (induction p q arbitrary: r rule: add.induct)
  case (1 s c q)
  then show ?case by (auto intro: flags_add_c)
next
  case (2 s1 k1 m1 s c)
  then show ?case by (auto intro: flags_add_c simp del: add_c.simps)
next
  case (3 s1 k1 m1 s2 k2 m2)
  note u1 = uniform_child[OF "3.prems"(2)] and u2 = uniform_child[OF "3.prems"(3)]
  consider "symbol_gt k1 k2" | "\<not> symbol_gt k1 k2" "symbol_lt k1 k2" | "\<not> symbol_gt k1 k2" "\<not> symbol_lt k1 k2" by blast
  then show ?case
  proof cases
    case 1
    let ?f = "\<lambda>e a. if e \<noteq> 0 then Some (assign a) else add a (MNode s1 k1 m1)"
    from 1 "3.prems"(1) obtain m' where nz: "mp_find m2 0 \<noteq> None" and m': "mp_mapM ?f m2 = Some m'"
      and r: "r = MNode False k2 m'" by (auto split: if_splits)
    show ?thesis unfolding r
    proof (rule flags_MNodeI, rule flags_mapM[OF m'])
      fix e a q assume "(e, a) \<in> set m2" "?f e a = Some q"
      then show "flags False q"
        using "3.IH"(1)[OF 1 nz] u2[of e a] "3.prems"(2) by (auto split: if_splits intro: flags_assign)
    qed
  next
    case 2
    let ?f = "\<lambda>e a. if e \<noteq> 0 then Some (assign a) else add a (MNode s2 k2 m2)"
    from 2 "3.prems"(1) obtain m' where nz: "mp_find m1 0 \<noteq> None" and m': "mp_mapM ?f m1 = Some m'"
      and r: "r = MNode False k1 m'" by (auto split: if_splits)
    show ?thesis unfolding r
    proof (rule flags_MNodeI, rule flags_mapM[OF m'])
      fix e a q assume "(e, a) \<in> set m1" "?f e a = Some q"
      then show "flags False q"
        using "3.IH"(2)[OF 2 nz] u1[of e a] "3.prems"(3) by (auto split: if_splits intro: flags_assign)
    qed
  next
    case 3
    let ?f = "\<lambda>e a. case mp_find m2 e of None \<Rightarrow> Some (assign a) | Some b \<Rightarrow> map_option assign (add a b)"
    let ?rest = "map (\<lambda>(e, b). (e, assign b)) (filter (\<lambda>(e, b). mp_find m1 e = None) m2)"
    from 3 "3.prems"(1) obtain l where nz: "\<not> (mp_find m1 0 = None \<and> mp_find m2 0 = None)"
      and l: "mp_mapM ?f m1 = Some l" and r: "r = simplify (MNode False k1 (mp_sets ?rest l))"
      by (auto simp: Let_def split: if_splits option.splits)
    have fl: "flags False q" if q: "(e, q) \<in> set l" for e q
    proof (rule flags_mapM[OF l _ q])
      fix e a q assume a: "(e, a) \<in> set m1" and q: "?f e a = Some q"
      show "flags False q"
      proof (cases "mp_find m2 e")
        case None
        with q u1[OF a] show ?thesis by (auto intro: flags_assign)
      next
        case (Some b)
        with q obtain t where t: "add a b = Some t" "q = assign t" by auto
        have "flags False t"
          using "3.IH"(3)[OF 3 nz a Some t(1) u1[OF a] u2[OF map_of_SomeD[OF Some]]] .
        with t(2) show ?thesis by (auto intro: flags_assign flags_uniform)
      qed
    qed
    have "flags False q" if "(e, q) \<in> set ?rest" for e q
      using that u2 by (auto intro: flags_assign)
    then have "flags False q" if "(e, q) \<in> set (mp_sets ?rest l)" for e q
      using that set_mp_sets_subset[of ?rest l] fl by blast
    then show ?thesis unfolding r by (rule flags_simplify)
  qed
qed

lemma flags_mult_c: "mult_c p c = Some r \<Longrightarrow> uniform p \<Longrightarrow> flags False r"
proof (induction p c arbitrary: r rule: mult_c.induct)
  case (2 s k m c)
  note u = uniform_child[OF "2.prems"(2)]
  have fl: "flags False q" if "mp_mapM (\<lambda>e p. mult_c p c) m = Some m'" "(e, q) \<in> set m'"
    "s \<or> c \<noteq> 0" "\<not> s \<or> mp_find m 0 \<noteq> None" for m' e q
    using flags_mapM[OF that(1) _ that(2)] "2.IH" u that(3,4) by blast
  from "2.prems"(1) show ?case
    by (auto simp: list_all_iff split: if_splits intro!: flags_simplify dest: fl)
qed (auto split: if_splits)

lemma flags_accumulate:
  "accumulate prods ans = Some l \<Longrightarrow> (\<And>e r. (e, r) \<in> set prods \<Longrightarrow> flags False r) \<Longrightarrow>
     (\<And>e r. (e, r) \<in> set ans \<Longrightarrow> flags False r) \<Longrightarrow> (e, r) \<in> set l \<Longrightarrow> flags False r"
proof (induction prods ans rule: accumulate.induct)
  case (2 e' r' prods ans)
  have new: "flags False x" if "(e, x) \<in> set (mp_set e' t ans)" "flags False t" for e x t
    using in_mp_setD[OF that(1)] "2.prems"(3) that(2) by blast
  have r': "flags False r'" and prods: "\<And>e r. (e, r) \<in> set prods \<Longrightarrow> flags False r"
    using "2.prems"(2) by auto
  show ?case
  proof (cases "mp_find ans e'")
    case None
    have acc: "accumulate prods (mp_set e' r' ans) = Some l" using None "2.prems"(1) by simp
    show ?thesis by (rule "2.IH"(1)[OF None acc prods new[OF _ r'] "2.prems"(4)])
  next
    case (Some old)
    with "2.prems"(1) obtain t where t: "add old r' = Some t" by (auto split: option.splits)
    have "flags False t"
      using flags_add[OF t] "2.prems"(2)[of e' r'] "2.prems"(3)[OF map_of_SomeD[OF Some]] by (simp add: flags_uniform)
    note new_t = new[OF _ this]
    have acc: "accumulate prods (mp_set e' t ans) = Some l" using Some t "2.prems"(1) by simp
    show ?thesis by (rule "2.IH"(2)[OF Some t acc prods new_t "2.prems"(4)])
  qed
qed simp

lemma uniform_mp_of_guarded:
  assumes "uniform (MNode s k m)" and "(e, b) \<in> set (mp_of (guarded n t i (MNode s k m)))"
  shows "uniform b"
proof (cases "guarded n t i (MNode s k m)")
  case (MNode s' k' m')
  with uniform_child[of s' k' m' e b] uniform_guarded[OF assms(1), of n t i] assms(2) show ?thesis by simp
qed (use assms(2) in simp)

lemma flags_mult: "mult p q = Some r \<Longrightarrow> uniform p \<Longrightarrow> uniform q \<Longrightarrow> flags False r"
proof (induction p q arbitrary: r rule: mult.induct)
  case (1 s c q)
  then show ?case by (auto intro: flags_mult_c)
next
  case (2 s1 k1 m1 s c)
  then show ?case by (auto intro: flags_mult_c simp del: mult_c.simps)
next
  case (3 s1 k1 m1 s2 k2 m2)
  note u1 = uniform_child[OF "3.prems"(2)] and u2 = uniform_child[OF "3.prems"(3)]
  consider "symbol_gt k1 k2" | "\<not> symbol_gt k1 k2" "symbol_lt k1 k2" | "\<not> symbol_gt k1 k2" "\<not> symbol_lt k1 k2" by blast
  then show ?case
  proof cases
    case 1
    let ?f = "\<lambda>i e a. mult a (guarded (length m2) s1 i (MNode s1 k1 m1))"
    from 1 "3.prems"(1) obtain l where l: "mp_imapM 0 ?f m2 = Some l" and r: "r = simplify (MNode False k2 l)" by auto
    have "flags False q" if q: "(e, q) \<in> set l" for e q
      using "3.IH"(1)[OF 1] u2 uniform_guarded[OF "3.prems"(2)] by (intro flags_imapM[OF l _ q]) blast
    then show ?thesis unfolding r by (rule flags_simplify)
  next
    case 2
    let ?f = "\<lambda>i e a. mult a (guarded (length m1) s2 i (MNode s2 k2 m2))"
    from 2 "3.prems"(1) obtain l where l: "mp_imapM 0 ?f m1 = Some l" and r: "r = simplify (MNode False k1 l)" by auto
    have "flags False q" if q: "(e, q) \<in> set l" for e q
      using "3.IH"(2)[OF 2] u1 uniform_guarded[OF "3.prems"(3)] by (intro flags_imapM[OF l _ q]) blast
    then show ?thesis unfolding r by (rule flags_simplify)
  next
    case 3
    let ?inner = "\<lambda>i a. mp_imapM 0 (\<lambda>j eb b. mult (guarded (length m2) s1 j a) b)
        (mp_of (guarded (length m1) s2 i (MNode s2 k2 m2)))"
    let ?f = "\<lambda>i ea a. map_option (map (\<lambda>(eb, r). (ea + eb, r))) (?inner i a)"
    from 3 "3.prems"(1) obtain prods l where prods: "mp_imapM 0 ?f m1 = Some prods"
      and l: "accumulate (concat (map snd prods)) [] = Some l" and r: "r = simplify (MNode False k1 l)"
      by (auto split: option.splits)
    have pr: "flags False t" if "(e, t) \<in> set (concat (map snd prods))" for e t
    proof -
      from that obtain ea ts where ts: "(ea, ts) \<in> set prods" and t: "(e, t) \<in> set ts" by auto
      from mp_imapM_in[OF prods ts] obtain i a rs where a: "(ea, a) \<in> set m1" and rs: "?inner i a = Some rs"
        and "ts = map (\<lambda>(eb, r). (ea + eb, r)) rs" by auto
      with t obtain eb where eb: "(eb, t) \<in> set rs" by auto
      from mp_imapM_in[OF rs eb] obtain j b where
        b: "(eb, b) \<in> set (mp_of (guarded (length m1) s2 i (MNode s2 k2 m2)))"
        and m: "mult (guarded (length m2) s1 j a) b = Some t" by auto
      show ?thesis
        by (rule "3.IH"(3)[OF 3 a b m uniform_guarded[OF u1[OF a]] uniform_mp_of_guarded[OF "3.prems"(3) b]])
    qed
    have "flags False q" if "(e, q) \<in> set l" for e q
      by (rule flags_accumulate[OF l pr _ that]) auto
    then show ?thesis unfolding r by (rule flags_simplify)
  qed
qed

lemma flags_square: "square p = Some r \<Longrightarrow> uniform p \<Longrightarrow> flags False r"
  by (auto simp: square_def flags_set_save split: option.splits
      intro!: flags_mult[OF _ flags_uniform flags_uniform] flags_set_save flags_uniform dest: flags_mult_c)

lemma flags_pow_step:
  assumes "pow_step temp ans c = Some (temp', ans')" and "flags False temp" and "flags False ans"
  shows "flags False temp' \<and> flags False ans'"
proof (cases "c mod 2 = 1")
  case True
  have t: "flags True (set_save True temp)" by (rule flags_set_save) (rule flags_uniform[OF assms(2)])
  have m: "mult ans (set_save True temp) = Some ans'" and t': "temp' = set_save False (set_save True temp)"
    using assms(1) True by (auto simp: pow_step_def)
  from flags_mult[OF m flags_uniform[OF assms(3)] flags_uniform[OF t]]
    flags_set_save[OF flags_uniform[OF t], of False] t' show ?thesis by simp
qed (use assms in \<open>auto simp: pow_step_def\<close>)

lemma flags_pow_loop:
  "pow_loop temp ans c = Some r \<Longrightarrow> flags False temp \<Longrightarrow> flags False ans \<Longrightarrow> flags False r"
proof (induction temp ans c rule: pow_loop.induct)
  case (1 temp ans c)
  show ?case
  proof (cases "c > 0")
    case True
    with "1.prems"(1) obtain t a where st: "pow_step temp ans c = Some (t, a)"
      by (subst (asm) pow_loop.simps) (auto split: option.splits)
    note fl = flags_pow_step[OF st "1.prems"(2,3)]
    show ?thesis
    proof (cases "half_pow c = 0")
      case False
      with True "1.prems"(1) st obtain t2 where t2: "square t = Some t2" "pow_loop t2 a (half_pow c) = Some r"
        by (subst (asm) pow_loop.simps) (auto split: option.splits)
      have "flags False t2" by (rule flags_square[OF t2(1)]) (use fl in \<open>auto intro: flags_uniform\<close>)
      with "1.IH"[OF True st _ False t2(1)] t2(2) fl show ?thesis by simp
    qed (use True "1.prems"(1) st fl in \<open>subst (asm) pow_loop.simps, auto\<close>)
  qed (use "1.prems" in \<open>subst (asm) pow_loop.simps, auto\<close>)
qed

lemma flags_power_poly:
  assumes "power_poly p n = Some r" and "uniform p"
  shows "flags False r"
proof -
  from assms(1) obtain t where t: "mult_c p 1 = Some t" by (auto simp: power_poly_def split: option.splits)
  note ft = flags_mult_c[OF t assms(2)]
  have "flags False r" if "mult (set_save True t) (set_save True t) = Some r"
    by (rule flags_mult[OF that]) (rule uniform_set_save, rule flags_uniform, rule ft)+
  with assms(1) t ft flags_pow_loop[of t "new_const 1 False" n r] show ?thesis
    by (auto simp: power_poly_def new_const_def split: if_splits)
qed

text \<open>
  Ownership of results.  For operands that carry one save flag throughout, each of
  \<^verbatim>\<open>operator+\<close>, \<^verbatim>\<open>operator*\<close> and \<^verbatim>\<open>operator^\<close> returns a polynomial that is unsaved in every
  node, so the next operator may consume it, and \<^verbatim>\<open>set_save\<close> turns it into one that is
  saved in every node, so that no operator frees any part of it.
\<close>

theorem results_unsaved:
  assumes "uniform p" and "uniform q"
    and "r \<in> {add p q, mult p q, add_c p c, mult_c p c, power_poly p n}" and "r = Some t"
  shows "flags False t \<and> flags True (set_save True t)"
proof -
  have "flags False t"
    using assms flags_add[of p q t] flags_mult[of p q t] flags_add_c[of p c t] flags_mult_c[of p c t]
      flags_power_poly[of p n t] by auto
  then show ?thesis by (blast intro: flags_set_save flags_uniform)
qed

theorem results_unsaved_witness:
  "\<exists>t. mult ex_x ex_t = Some t \<and> flags False t \<and> flags True (set_save True t)"
proof -
  have u: "uniform ex_x" "uniform ex_t" by (simp_all add: new_symbol_def new_const_def)
  obtain t where "mult ex_x ex_t = Some t" using mult_struct[of ex_x ex_t] by auto
  with results_unsaved[OF u, of "mult ex_x ex_t" 0 0 t] show ?thesis by auto
qed

end
