(* ===== verification/Exprs.thy ===== *)
theory Exprs
  imports Multinomial_Ownership
begin

text \<open>
  The handle \<^verbatim>\<open>handelman::expr\<close> of \<^verbatim>\<open>include/expr.hpp\<close> and \<^verbatim>\<open>src/expr.cpp\<close>: a pointer to a
  polynomial and the flag \<^verbatim>\<open>in_mem\<close> that makes the destructor free it.  The operators are
  those of \<^verbatim>\<open>multinomial\<close>; an operator consumes an unsaved operand, so the handle gives the
  polynomial up.  The operands of a binary operator are different objects.
\<close>

text \<open>What the pointer holds: nothing yet, a polynomial, or one that another owner has taken.\<close>

datatype 'a handle = Null | Gone | Live "'a multinomial"

record 'a expr =
  in_mem :: bool
  ptr :: "'a handle"

definition expr_new :: "'a expr" where
  "expr_new = \<lparr>in_mem = False, ptr = Null\<rparr>"

text \<open>\<^verbatim>\<open>*m\<close>.\<close>

definition deref :: "'a expr \<Rightarrow> 'a multinomial result" where
  "deref e = (case ptr e of Live p \<Rightarrow> Inr p | _ \<Rightarrow> Inl Undefined)"

text \<open>\<^verbatim>\<open>if(!m->save) in_mem=false\<close> before an operator that consumes an unsaved operand.\<close>

definition give_up :: "'a multinomial \<Rightarrow> 'a expr \<Rightarrow> 'a expr" where
  "give_up p e = (if save p then e else e\<lparr>in_mem := False, ptr := Gone\<rparr>)"

text \<open>The old polynomial is freed before an assignment when the handle owns it.\<close>

definition release :: "'a expr \<Rightarrow> unit result" where
  "release e = (if in_mem e then bindR (deref e) (\<lambda>p. Inr ()) else Inr ())"

text \<open>
  Assignment from a handle reads \<^verbatim>\<open>e.m->save\<close> in \<^verbatim>\<open>rem_mem_flag\<close> after \<^verbatim>\<open>*m=*e.m\<close> has
  deleted an unsaved source: undefined unless the source is saved.
\<close>

definition expr_assign :: "'a expr \<Rightarrow> 'a expr \<Rightarrow> 'a expr result" where
  "expr_assign t e =
     bindR (release t) (\<lambda>u. bindR (deref e) (\<lambda>p.
       if save p then Inr \<lparr>in_mem = True, ptr = Live (assign p)\<rparr> else Inl Undefined))"

definition expr_assign_poly :: "'a expr \<Rightarrow> 'a multinomial \<Rightarrow> 'a expr result" where
  "expr_assign_poly t p = bindR (release t) (\<lambda>u. Inr \<lparr>in_mem = True, ptr = Live (assign p)\<rparr>)"

definition expr_assign_c :: "'a expr \<Rightarrow> 'a \<Rightarrow> 'a expr result" where
  "expr_assign_c t c = bindR (release t) (\<lambda>u. Inr \<lparr>in_mem = True, ptr = Live (new_const c False)\<rparr>)"

text \<open>The shape shared by the operators: on two handles, and on a handle and a value.\<close>

definition with_expr :: "('a multinomial \<Rightarrow> 'a multinomial \<Rightarrow> 'a multinomial option) \<Rightarrow> 'a expr \<Rightarrow> 'a expr
    \<Rightarrow> ('a multinomial \<times> 'a expr \<times> 'a expr) result" where
  "with_expr f a b =
     bindR (deref a) (\<lambda>p. bindR (deref b) (\<lambda>q. bindR (ofopt (f p q)) (\<lambda>r.
       Inr (r, give_up p a, give_up q b))))"

definition with_value :: "('a multinomial \<Rightarrow> 'a multinomial option) \<Rightarrow> 'a expr \<Rightarrow> ('a multinomial \<times> 'a expr) result" where
  "with_value f a = bindR (deref a) (\<lambda>p. bindR (ofopt (f p)) (\<lambda>r. Inr (r, give_up p a)))"

definition sub :: "('a::{zero, one, plus, times, uminus}) multinomial \<Rightarrow> 'a multinomial \<Rightarrow> 'a multinomial option" where
  "sub p q = Option.bind (mult_c q (- 1)) (add p)"

definition expr_add :: "('a::{zero, plus}) expr \<Rightarrow> 'a expr \<Rightarrow> ('a multinomial \<times> 'a expr \<times> 'a expr) result" where
  "expr_add = with_expr add"

definition expr_add_poly :: "('a::{zero, plus}) expr \<Rightarrow> 'a multinomial \<Rightarrow> ('a multinomial \<times> 'a expr) result" where
  "expr_add_poly a q = with_value (\<lambda>p. add p q) a"

definition expr_add_c :: "('a::{zero, plus}) expr \<Rightarrow> 'a \<Rightarrow> ('a multinomial \<times> 'a expr) result" where
  "expr_add_c a c = with_value (\<lambda>p. add_c p c) a"

definition expr_mult :: "('a::{zero, plus, times}) expr \<Rightarrow> 'a expr \<Rightarrow> ('a multinomial \<times> 'a expr \<times> 'a expr) result" where
  "expr_mult = with_expr mult"

definition expr_mult_poly :: "('a::{zero, plus, times}) expr \<Rightarrow> 'a multinomial \<Rightarrow> ('a multinomial \<times> 'a expr) result" where
  "expr_mult_poly a q = with_value (\<lambda>p. mult p q) a"

definition expr_mult_c :: "('a::{zero, times}) expr \<Rightarrow> 'a \<Rightarrow> ('a multinomial \<times> 'a expr) result" where
  "expr_mult_c a c = with_value (\<lambda>p. mult_c p c) a"

definition expr_sub :: "('a::{zero, one, plus, times, uminus}) expr \<Rightarrow> 'a expr \<Rightarrow> ('a multinomial \<times> 'a expr \<times> 'a expr) result" where
  "expr_sub = with_expr sub"

definition expr_sub_poly :: "('a::{zero, one, plus, times, uminus}) expr \<Rightarrow> 'a multinomial \<Rightarrow> ('a multinomial \<times> 'a expr) result" where
  "expr_sub_poly a q = with_value (\<lambda>p. sub p q) a"

definition expr_sub_c :: "('a::{zero, one, plus, times, uminus}) expr \<Rightarrow> 'a \<Rightarrow> ('a multinomial \<times> 'a expr) result" where
  "expr_sub_c a c = with_value (\<lambda>p. add_c p (c * - 1)) a"

definition expr_pow :: "('a::{zero, one, plus, times}) expr \<Rightarrow> u16 \<Rightarrow> ('a multinomial \<times> 'a expr) result" where
  "expr_pow a n = with_value (\<lambda>p. power_poly p n) a"

definition expr_set_save :: "'a expr \<Rightarrow> bool \<Rightarrow> 'a expr result" where
  "expr_set_save e b = bindR (deref e) (\<lambda>p. Inr (e\<lparr>ptr := Live (set_save b p)\<rparr>))"

definition expr_substitute :: "('a::{zero, plus, power}) expr \<Rightarrow> 'a list \<Rightarrow> 'a result" where
  "expr_substitute e v = bindR (deref e) (\<lambda>p. ofopt (substitute v p))"

text \<open>The destructor: whether it frees the polynomial, undefined on a pointer it must not read.\<close>

definition expr_delete :: "'a expr \<Rightarrow> bool result" where
  "expr_delete e = (if in_mem e then bindR (deref e) (\<lambda>p. Inr (\<not> save p)) else Inr False)"

text \<open>
  The invariant: a handle that owns its polynomial holds a live one, and a live polynomial
  is well formed and carries one save flag.
\<close>

definition expr_ok :: "'a expr \<Rightarrow> bool" where
  "expr_ok e \<longleftrightarrow>
     (in_mem e \<longrightarrow> (\<exists>p. ptr e = Live p)) \<and> (\<forall>p. ptr e = Live p \<longrightarrow> wf_poly p \<and> uniform p)"

lemma deref_Inr: "deref e = Inr p \<longleftrightarrow> ptr e = Live p"
  by (auto simp: deref_def split: handle.splits)

lemma expr_ok_deref: "expr_ok e \<Longrightarrow> deref e = Inr p \<Longrightarrow> wf_poly p \<and> uniform p"
  by (simp add: expr_ok_def deref_Inr)

lemma give_up_ok: "expr_ok e \<Longrightarrow> expr_ok (give_up p e)"
  by (simp add: give_up_def expr_ok_def)

lemma release_ok: "expr_ok e \<Longrightarrow> release e = Inr ()"
  by (auto simp: release_def expr_ok_def deref_def)

lemma expr_new_ok: "expr_ok expr_new"
  by (simp add: expr_new_def expr_ok_def)

lemma assign_live_ok: "wf_poly p \<Longrightarrow> uniform p \<Longrightarrow> expr_ok \<lparr>in_mem = True, ptr = Live (assign p)\<rparr>"
  by (auto simp: expr_ok_def intro: flags_uniform flags_assign)

lemma expr_delete_ok: "expr_ok e \<Longrightarrow> \<exists>b. expr_delete e = Inr b"
  by (auto simp: expr_delete_def expr_ok_def deref_def)

lemma sub_struct:
  assumes "wf_poly p" and "wf_poly (q :: ('a::comm_ring_1) multinomial)"
  shows "\<exists>r. sub p q = Some r \<and> wf_poly r \<and> (\<forall>\<rho>. eval \<rho> r = eval \<rho> p - eval \<rho> q)"
proof -
  obtain t where t: "mult_c q (- 1) = Some t" "wf_poly t" using mult_c_struct[OF assms(2)] by blast
  obtain r where r: "add p t = Some r" "wf_poly r" using add_struct[OF assms(1) t(2)] by blast
  have "eval \<rho> r = eval \<rho> p - eval \<rho> q" for \<rho>
    using eval_add[OF r(1) assms(1) t(2)] eval_mult_c[OF t(1) assms(2)] by simp
  with t r show ?thesis by (simp add: sub_def)
qed

lemma flags_sub:
  assumes "sub p q = Some r" and "uniform p" and "uniform q"
  shows "flags False r"
proof -
  from assms(1) obtain t where t: "mult_c q (- 1) = Some t" "add p t = Some r"
    by (auto simp: sub_def bind_eq_Some_conv)
  from flags_add[OF t(2) assms(2)] flags_uniform[OF flags_mult_c[OF t(1) assms(3)]] show ?thesis by blast
qed

text \<open>
  Handles.  On handles that satisfy the invariant, every binary operator is defined,
  computes the sum, the product (for exponents that fit) or the difference of the two
  polynomials, gives the unsaved operands up, and leaves both handles in the invariant: the
  destructor of a handle can always run afterwards and never frees a polynomial that an
  operator consumed.
\<close>

theorem expr_binop_correct:
  fixes a b :: "'a::comm_ring_1 expr"
  assumes ok: "expr_ok a" "expr_ok b" and live: "ptr a = Live p" "ptr b = Live q"
    and exps: "exps_le A p" "exps_le B q" "A + B < 2 ^ 16"
    and oper: "(f, g) \<in> {(expr_add, (+)), (expr_mult, (*)), (expr_sub, (-))}"
  shows "\<exists>r a' b'. f a b = Inr (r, a', b') \<and> (\<forall>\<rho>. eval \<rho> r = g (eval \<rho> p) (eval \<rho> q))
           \<and> wf_poly r \<and> flags False r \<and> expr_ok a' \<and> expr_ok b'
           \<and> (\<not> save p \<longrightarrow> expr_delete a' = Inr False) \<and> (\<not> save q \<longrightarrow> expr_delete b' = Inr False)"
proof -
  have p: "wf_poly p" "uniform p" and q: "wf_poly q" "uniform q" using ok live by (auto simp: expr_ok_def)
  have run: "with_expr h a b = Inr (r, give_up p a, give_up q b)" if "h p q = Some r" for h r
    using that live by (simp add: with_expr_def deref_def)
  have ups: "expr_ok (give_up p a)" "expr_ok (give_up q b)"
    "\<not> save p \<longrightarrow> expr_delete (give_up p a) = Inr False" "\<not> save q \<longrightarrow> expr_delete (give_up q b) = Inr False"
    using give_up_ok[OF ok(1)] give_up_ok[OF ok(2)] by (auto simp: give_up_def expr_delete_def)
  have "\<exists>h r. f = with_expr h \<and> h p q = Some r \<and> wf_poly r \<and> flags False r \<and> (\<forall>\<rho>. eval \<rho> r = g (eval \<rho> p) (eval \<rho> q))"
    using oper
  proof (elim insertE emptyE)
    assume "(f, g) = (expr_add, (+))"
    with add_struct[OF p(1) q(1)] show ?thesis
      using flags_add[OF _ p(2) q(2)] eval_add[OF _ p(1) q(1)] by (auto simp: expr_add_def)
  next
    assume "(f, g) = (expr_mult, (*))"
    moreover obtain r where r: "mult p q = Some r" "wf_poly r" using mult_struct[OF p(1) q(1)] by blast
    moreover have "eval \<rho> r = eval \<rho> p * eval \<rho> q" for \<rho> by (rule eval_mult[OF r(1) p(1) q(1) exps])
    ultimately show ?thesis using flags_mult[OF r(1) p(2) q(2)] by (auto simp: expr_mult_def)
  next
    assume "(f, g) = (expr_sub, (-))"
    with sub_struct[OF p(1) q(1)] flags_sub[OF _ p(2) q(2)] show ?thesis by (auto simp: expr_sub_def)
  qed
  with run ups show ?thesis by blast
qed

theorem expr_binop_correct_witness:
  "\<exists>r a' b'. expr_sub \<lparr>in_mem = False, ptr = Live ex_x\<rparr> \<lparr>in_mem = True, ptr = Live (MConst False 3)\<rparr> = Inr (r, a', b')
      \<and> (\<forall>\<rho>. eval \<rho> r = eval \<rho> ex_x - eval \<rho> (MConst False 3)) \<and> wf_poly r \<and> flags False r \<and> expr_ok a' \<and> expr_ok b'
      \<and> expr_delete b' = Inr False"
  using expr_binop_correct[of "\<lparr>in_mem = False, ptr = Live ex_x\<rparr>" "\<lparr>in_mem = True, ptr = Live (MConst False 3)\<rparr>"
      ex_x "MConst False 3" 1 0 expr_sub "(-)"]
  by (auto simp: expr_ok_def new_symbol_def new_const_def mp_ok_def mp_keys_def)

end
