(* ===== verification/Solver.thy ===== *)
theory Solver
  imports Vars Terms Exprs
begin

text \<open>
  The constraint store \<^verbatim>\<open>solver\<close> of \<^verbatim>\<open>include/solver.hpp\<close>: equations, inequalities, the
  z3 constants made so far and the free-form formulas; and the translation of its contents
  to z3 and yices formulas.  The checkers themselves are parameters.
\<close>

record 'a solver =
  eq_list :: "'a multinomial list"
  ineq_list :: "'a multinomial list"
  e_list :: "string list"
  mod_constraints :: "zform list"

definition var_name :: "nat \<Rightarrow> string" where
  "var_name i = ''var_'' @ nat_to_string i"

text \<open>The loop that makes the z3 constants from position \<^verbatim>\<open>e.size()\<close> to \<open>n\<close>.\<close>

definition make_consts :: "nat \<Rightarrow> string list \<Rightarrow> string list" where
  "make_consts n e = e @ map var_name [length e..<n]"

definition solver_new :: "'b vars \<Rightarrow> 'a solver" where
  "solver_new v = \<lparr>eq_list = [], ineq_list = [], e_list = make_consts (vars_sz v) [], mod_constraints = []\<rparr>"

definition grow_e :: "'b vars \<Rightarrow> 'a solver \<Rightarrow> 'a solver" where
  "grow_e v s = s\<lparr>e_list := make_consts (vars_sz v) (e_list s)\<rparr>"

definition empty_mod_constraints :: "int \<Rightarrow> 'a solver \<Rightarrow> 'a solver result" where
  "empty_mod_constraints n s =
     (if n = -1 then Inr (s\<lparr>mod_constraints := []\<rparr>)
      else if 0 \<le> n \<and> nat n \<le> length (mod_constraints s)
      then Inr (s\<lparr>mod_constraints := take (nat n) (mod_constraints s)\<rparr>)
      else Inl Undefined)"

definition empty_constraints :: "'a solver \<Rightarrow> 'a solver" where
  "empty_constraints s = s\<lparr>eq_list := [], ineq_list := []\<rparr>"

text \<open>
  \<^verbatim>\<open>add\<close> stores a copy: the argument is saved for the time of the assignment, which then
  copies it in depth into an unsaved object, and gets its flag back.
\<close>

definition add_constr :: "'a multinomial \<Rightarrow> bool \<Rightarrow> 'a solver \<Rightarrow> 'a solver" where
  "add_constr m is_ineq s =
     (let t = assign (set_save True m) in
      if is_ineq then s\<lparr>ineq_list := ineq_list s @ [t]\<rparr> else s\<lparr>eq_list := eq_list s @ [t]\<rparr>)"

definition add_expr :: "'a expr \<Rightarrow> bool \<Rightarrow> 'a solver \<Rightarrow> 'a solver result" where
  "add_expr e is_ineq s = bindR (deref e) (\<lambda>m. Inr (add_constr m is_ineq s))"

definition add_form :: "zform \<Rightarrow> 'a solver \<Rightarrow> 'a solver" where
  "add_form f s = s\<lparr>mod_constraints := mod_constraints s @ [f]\<rparr>"

subsection \<open>Polynomials as z3 terms\<close>

text \<open>
  A substitution \<^verbatim>\<open>sub_map\<close> maps symbol identifiers, read as \<^verbatim>\<open>int\<close>, to values;
  \<^verbatim>\<open>NULL\<close> behaves as the empty map.
\<close>

type_synonym sub_map = "(int, double) mp"

definition id_key :: "u32 \<Rightarrow> int" where
  "id_key i = sint i"

definition e_at :: "string list \<Rightarrow> symbol \<Rightarrow> zterm result" where
  "e_at e k = (if unat (get_id k) < length e then Inr (ZConst (e ! unat (get_id k))) else Inl Undefined)"

text \<open>One summand of \<^verbatim>\<open>print_sym\<close>, given the translated coefficient.\<close>

definition sym_factor :: "string list \<Rightarrow> sub_map \<Rightarrow> symbol \<Rightarrow> u16 \<Rightarrow> zterm \<Rightarrow> zterm result" where
  "sym_factor e sub_map k ex temp =
     (if ex = 0 then Inr temp
      else
        (case mp_find sub_map (id_key (get_id k)) of
           None \<Rightarrow> bindR (e_at e k) (\<lambda>x. Inr (ZMul (ZPow x (unat ex)) temp))
         | Some v \<Rightarrow> Inr (ZMul temp (ZDec (to_string_d (v ^ unat ex))))))"

fun print_sym :: "string list \<Rightarrow> sub_map \<Rightarrow> double multinomial \<Rightarrow> zterm result" where
  "print_sym e sub_map (MConst s c) = Inr (ZDec (to_string_d c))"
| "print_sym e sub_map (MNode s k m) =
     foldR (\<lambda>(ex, r) ans. bindR r (\<lambda>temp. bindR (sym_factor e sub_map k ex temp) (\<lambda>t. Inr (ZAdd ans t))))
       (map (\<lambda>(ex, p). (ex, print_sym e sub_map p)) m) (ZInt 0)"

text \<open>
  Specification: the value of a polynomial with rational coefficients at a real point, and
  the point a substitution and a valuation describe together.
\<close>

definition real_eval :: "(u32 \<Rightarrow> real) \<Rightarrow> double multinomial \<Rightarrow> real" where
  "real_eval \<rho> p = eval \<rho> (map_multinomial of_rat p)"

definition sub_val :: "sub_map \<Rightarrow> (u32 \<Rightarrow> real) \<Rightarrow> u32 \<Rightarrow> real" where
  "sub_val sub_map \<rho> i = (case mp_find sub_map (id_key i) of None \<Rightarrow> \<rho> i | Some v \<Rightarrow> of_rat v)"

lemma sub_val_Nil [simp]: "sub_val [] \<rho> = \<rho>"
  by (rule ext) (simp add: sub_val_def)

text \<open>All constants and all substituted powers survive the passage through text.\<close>

fun exact6 :: "sub_map \<Rightarrow> double multinomial \<Rightarrow> bool" where
  "exact6 sub_map (MConst s c) = (round6 c = c)"
| "exact6 sub_map (MNode s k m) =
     list_all (\<lambda>(e, p). exact6 sub_map p \<and>
       (case mp_find sub_map (id_key (get_id k)) of None \<Rightarrow> True | Some v \<Rightarrow> round6 (v ^ unat e) = v ^ unat e)) m"

lemma real_eval_const [simp]: "real_eval \<rho> (MConst s c) = of_rat c"
  by (simp add: real_eval_def)

lemma real_eval_node [simp]:
  "real_eval \<rho> (MNode s k m) = (\<Sum>(e, p)\<leftarrow>m. \<rho> (get_id k) ^ unat e * real_eval \<rho> p)"
  by (induction m) (auto simp: real_eval_def map_prod_def)

lemma zeval_foldR_sum:
  assumes "foldR (\<lambda>(ex, r) ans. bindR r (\<lambda>temp. bindR (g ex temp) (\<lambda>t. Inr (ZAdd ans t))))
       (map (\<lambda>(ex, p). (ex, f p)) m) a = Inr z"
    and "\<And>ex p temp t. (ex, p) \<in> set m \<Longrightarrow> f p = Inr temp \<Longrightarrow> g ex temp = Inr t \<Longrightarrow> zeval \<chi> t = h ex p"
  shows "zeval \<chi> z = zeval \<chi> a + msum h m"
  using assms
proof (induction m arbitrary: a)
  case (Cons x m)
  obtain ex p where x: "x = (ex, p)" by force
  from Cons.prems(1) obtain temp t where t: "f p = Inr temp" "g ex temp = Inr t"
    and rest: "foldR (\<lambda>(ex, r) ans. bindR r (\<lambda>temp. bindR (g ex temp) (\<lambda>t. Inr (ZAdd ans t))))
       (map (\<lambda>(ex, p). (ex, f p)) m) (ZAdd a t) = Inr z"
    by (auto simp: x bindR_Inr)
  have "zeval \<chi> t = h ex p" using Cons.prems(2)[of ex p] t x by simp
  moreover have "zeval \<chi> z = zeval \<chi> (ZAdd a t) + msum h m"
    by (rule Cons.IH[OF rest]) (use Cons.prems(2) in auto)
  ultimately show ?case by (simp add: x)
qed simp

lemma print_sym_value:
  assumes "print_sym e sub_map p = Inr z" and "exact6 sub_map p"
    and "\<And>k. k \<in> set (symbols p) \<Longrightarrow> \<chi> (e ! unat (get_id k)) = \<rho> (get_id k)"
  shows "zeval \<chi> z = real_eval (sub_val sub_map \<rho>) p"
  using assms
proof (induction p arbitrary: z rule: multinomial_induct)
  case (Node s k m)
  have "zeval \<chi> t = sub_val sub_map \<rho> (get_id k) ^ unat ex * real_eval (sub_val sub_map \<rho>) q"
    if q: "(ex, q) \<in> set m" and temp: "print_sym e sub_map q = Inr temp" and t: "sym_factor e sub_map k ex temp = Inr t"
    for ex q temp t
  proof -
    have ih: "zeval \<chi> temp = real_eval (sub_val sub_map \<rho>) q"
    proof (rule Node.IH[OF q temp])
      show "exact6 sub_map q" using Node.prems(2) q by (auto simp: list_all_iff)
      show "\<chi> (e ! unat (get_id k')) = \<rho> (get_id k')" if "k' \<in> set (symbols q)" for k'
        using that q by (intro Node.prems(3)) auto
    qed
    show ?thesis
    proof (cases "ex = 0 \<or> mp_find sub_map (id_key (get_id k)) = None")
      case True
      with t ih Node.prems(3)[of k] show ?thesis
        by (auto simp: sym_factor_def e_at_def sub_val_def bindR_Inr split: if_splits)
    next
      case False
      then obtain v where v: "mp_find sub_map (id_key (get_id k)) = Some v" by auto
      then have "round6 (v ^ unat ex) = v ^ unat ex" using Node.prems(2) q by (auto simp: list_all_iff)
      with t ih False v show ?thesis by (auto simp: sym_factor_def sub_val_def of_rat_power)
    qed
  qed
  then show ?case using Node.prems(1) zeval_foldR_sum[of "sym_factor e sub_map k" "print_sym e sub_map" m "ZInt 0" z \<chi>
      "\<lambda>ex q. sub_val sub_map \<rho> (get_id k) ^ unat ex * real_eval (sub_val sub_map \<rho>) q"] by simp
qed auto

lemma print_sym_total:
  assumes "\<And>k. k \<in> set (symbols p) \<Longrightarrow> unat (get_id k) < length e"
  shows "\<exists>z. print_sym e sub_map p = Inr z"
  using assms
proof (induction p rule: multinomial_induct)
  case (Node s k m)
  have k: "unat (get_id k) < length e" by (rule Node.prems) simp
  then have fac: "\<exists>t. sym_factor e sub_map k ex temp = Inr t" for ex temp
    by (auto simp: sym_factor_def e_at_def split: option.splits)
  have ih: "\<exists>t. print_sym e sub_map q = Inr t" if "(ex, q) \<in> set m" for ex q
    using that Node.prems by (intro Node.IH[OF that]) auto
  have "\<exists>z. foldR (\<lambda>(ex, r) ans. bindR r (\<lambda>temp. bindR (sym_factor e sub_map k ex temp) (\<lambda>t. Inr (ZAdd ans t))))
       (map (\<lambda>(ex, p). (ex, print_sym e sub_map p)) m) (ZInt 0) = Inr z \<and> True"
    by (rule foldR_total) (use ih fac in \<open>fastforce simp: bindR_Inr\<close>)+
  then show ?case by simp
qed simp

subsection \<open>The z3 queries\<close>

datatype check_result = Sat | Unsat | Unknown

definition eq_form :: "string list \<Rightarrow> sub_map \<Rightarrow> double multinomial \<Rightarrow> zform result" where
  "eq_form e sub_map a = bindR (print_sym e sub_map a) (\<lambda>t. Inr (ZEq t (ZInt 0)))"

definition ineq_form :: "string list \<Rightarrow> sub_map \<Rightarrow> double multinomial \<Rightarrow> zform result" where
  "ineq_form e sub_map a = bindR (print_sym e sub_map a) (\<lambda>t. Inr (ZGe t (ZInt 0)))"

text \<open>The arrays \<^verbatim>\<open>from\<close> and \<^verbatim>\<open>to\<close> passed to \<^verbatim>\<open>Z3_substitute\<close>.\<close>

definition subst_arrays :: "string list \<Rightarrow> sub_map \<Rightarrow> (string \<times> zterm) list result" where
  "subst_arrays e sub_map =
     mapR (\<lambda>(i, v). if 0 \<le> i \<and> nat i < length e then Inr (e ! nat i, ZDec (to_string_d v)) else Inl Undefined) sub_map"

definition mod_form :: "string list \<Rightarrow> sub_map \<Rightarrow> zform \<Rightarrow> zform result" where
  "mod_form e sub_map a = bindR (subst_arrays e sub_map) (\<lambda>ft. Inr (fsubst (map_of ft) a))"

definition assertions :: "double solver \<Rightarrow> sub_map \<Rightarrow> zform list result" where
  "assertions s sub_map =
     bindR (mapR (eq_form (e_list s) sub_map) (eq_list s)) (\<lambda>es.
     bindR (mapR (ineq_form (e_list s) sub_map) (ineq_list s)) (\<lambda>is.
     bindR (mapR (mod_form (e_list s) sub_map) (mod_constraints s)) (\<lambda>ms. Inr (es @ is @ ms))))"

text \<open>
  \<^verbatim>\<open>solve(silent, sub_map, "z3")\<close>.  The checker runs in its own thread and is given up
  after a number of polls; the parameter is the outcome the caller sees, a timeout being
  \<open>Unknown\<close>.
\<close>

definition solve_z3 :: "(zform list \<Rightarrow> check_result) \<Rightarrow> 'b vars \<Rightarrow> sub_map \<Rightarrow> double solver \<Rightarrow> (bool \<times> double solver) result" where
  "solve_z3 check v sub_map s =
     (let s' = grow_e v s in
      bindR (assertions s' sub_map) (\<lambda>fs.
        case check fs of
          Sat \<Rightarrow> Inr (True, s')
        | Unsat \<Rightarrow> Inr (False, s')
        | Unknown \<Rightarrow> Inl (Throw ''Timeout'')))"

text \<open>\<^verbatim>\<open>solve(silent, "z3")\<close>: without a substitution, the outcome is only reported.\<close>

definition solve_z3_report :: "(zform list \<Rightarrow> check_result) \<Rightarrow> 'b vars \<Rightarrow> double solver \<Rightarrow> (check_result \<times> double solver) result" where
  "solve_z3_report check v s =
     (let s' = grow_e v s in
      bindR (mapR (eq_form (e_list s') []) (eq_list s')) (\<lambda>es.
      bindR (mapR (ineq_form (e_list s') []) (ineq_list s')) (\<lambda>is.
        Inr (check (es @ is @ mod_constraints s'), s'))))"

text \<open>\<^verbatim>\<open>smt_query\<close>: is there a point of the box where all polynomials are non-negative?\<close>

definition bound_forms :: "string list \<Rightarrow> nat \<Rightarrow> double \<times> double \<Rightarrow> zform list result" where
  "bound_forms e i c =
     (if i < length e then
        Inr [ZGe (ZSub (ZConst (e ! i)) (ZDec (to_string_d (fst c)))) (ZInt 0),
             ZGe (ZAdd (ZMul (ZInt (- 1)) (ZConst (e ! i))) (ZDec (to_string_d (snd c)))) (ZInt 0)]
      else Inl Undefined)"

definition smt_query :: "(zform list \<Rightarrow> check_result) \<Rightarrow> double expr list \<Rightarrow> (double \<times> double) list \<Rightarrow> double solver \<Rightarrow> bool result" where
  "smt_query check e_check coords s =
     bindR (mapR (\<lambda>(i, c). bound_forms (e_list s) i c) (enumerate 0 coords)) (\<lambda>bs.
     bindR (mapR (\<lambda>poly. bindR (deref poly) (ineq_form (e_list s) [])) e_check) (\<lambda>ps.
       Inr (check (concat bs @ ps) = Sat)))"

subsection \<open>Polynomials as yices terms\<close>

definition trunc :: "rat \<Rightarrow> int" where
  "trunc x = (if x \<ge> 0 then \<lfloor>x\<rfloor> else \<lceil>x\<rceil>)"

text \<open>A coefficient is scaled by 100 and cut off to a 64-bit integer.\<close>

definition yices_const :: "double \<Rightarrow> zterm result" where
  "yices_const c =
     (let n = trunc (c * 100) in
      if - (2 ^ 63) \<le> n \<and> n < 2 ^ 63 then Inr (ZRat n 100) else Inl Undefined)"

fun print_sym_yices :: "string list \<Rightarrow> double multinomial \<Rightarrow> zterm result" where
  "print_sym_yices e (MConst s c) = yices_const c"
| "print_sym_yices e (MNode s k m) =
     foldR (\<lambda>(ex, r) ans. bindR r (\<lambda>temp. bindR
         (if ex = 0 then Inr temp else bindR (e_at e k) (\<lambda>x. Inr (ZMul (ZPow x (unat ex)) temp)))
         (\<lambda>t. Inr (ZAdd ans t))))
       (map (\<lambda>(ex, p). (ex, print_sym_yices e p)) m) (ZInt 0)"

definition yices_assertions :: "string list \<Rightarrow> double solver \<Rightarrow> zform list result" where
  "yices_assertions e s =
     bindR (mapR (\<lambda>a. bindR (print_sym_yices e a) (\<lambda>t. Inr (ZEq t (ZInt 0)))) (eq_list s)) (\<lambda>es.
     bindR (mapR (\<lambda>a. bindR (print_sym_yices e a) (\<lambda>t. Inr (ZGe t (ZInt 0)))) (ineq_list s)) (\<lambda>is.
       Inr (es @ is)))"

definition solve_yices :: "(zform list \<Rightarrow> check_result) \<Rightarrow> 'b vars \<Rightarrow> double solver \<Rightarrow> bool result" where
  "solve_yices check v s =
     bindR (yices_assertions (make_consts (vars_sz v) []) s) (\<lambda>fs. Inr (check fs = Sat))"

subsection \<open>Correctness of the translations\<close>

lemma id_names_distinct: "var_name i = var_name j \<longleftrightarrow> i = j"
  by (auto simp: var_name_def dest: nat_to_string_inj)

lemma make_consts_Nil: "make_consts n [] = map var_name [0..<n]"
  by (simp add: make_consts_def)

lemma make_consts_more: "make_consts n (map var_name [0..<k]) = map var_name [0..<max n k]"
proof (cases "k \<le> n")
  case True
  then have "[0..<n] = [0..<k] @ [k..<n]" using upt_add_eq_append[of 0 k "n - k"] by simp
  with True show ?thesis by (simp add: make_consts_def max_def)
qed (simp add: make_consts_def)

text \<open>The z3 constants of a store are \<^verbatim>\<open>var_0, var_1, \<dots>\<close>: position and name agree.\<close>

definition e_ok :: "'a solver \<Rightarrow> bool" where
  "e_ok s \<longleftrightarrow> e_list s = map var_name [0..<length (e_list s)]"

lemma e_ok_new: "e_ok (solver_new v)"
  by (simp add: e_ok_def solver_new_def make_consts_Nil)

lemma e_ok_grow: "e_ok s \<Longrightarrow> e_ok (grow_e v s) \<and> vars_sz v \<le> length (e_list (grow_e v s))"
proof -
  assume "e_ok s"
  then obtain k where "e_list s = map var_name [0..<k]" by (auto simp: e_ok_def)
  then show ?thesis by (simp add: e_ok_def grow_e_def make_consts_more)
qed

text \<open>The valuation of the symbols a valuation of the constants stands for.\<close>

definition id_val :: "(string \<Rightarrow> real) \<Rightarrow> u32 \<Rightarrow> real" where
  "id_val \<chi> i = \<chi> (var_name (unat i))"

lemma print_sym_meaning:
  assumes "e_ok s" and "print_sym (e_list s) sub_map p = Inr z" and "exact6 sub_map p"
    and "\<And>k. k \<in> set (symbols p) \<Longrightarrow> unat (get_id k) < length (e_list s)"
  shows "zeval \<chi> z = real_eval (sub_val sub_map (id_val \<chi>)) p"
proof (rule print_sym_value[OF assms(2,3)])
  fix k assume "k \<in> set (symbols p)"
  then have "unat (get_id k) < length (e_list s)" by (rule assms(4))
  then have "e_list s ! unat (get_id k) = var_name (unat (get_id k))"
    using assms(1) unfolding e_ok_def by (metis add_0 diff_zero length_map length_upt nth_map nth_upt)
  then show "\<chi> (e_list s ! unat (get_id k)) = id_val \<chi> (get_id k)" by (simp add: id_val_def)
qed

text \<open>Without a substitution, and for any coefficients: the printed term is the rounded polynomial.\<close>

lemma print_sym_rounded:
  assumes "print_sym e [] p = Inr z" and "\<And>k. k \<in> set (symbols p) \<Longrightarrow> \<chi> (e ! unat (get_id k)) = \<rho> (get_id k)"
  shows "zeval \<chi> z = real_eval \<rho> (map_multinomial round6 p)"
  using assms
proof (induction p arbitrary: z rule: multinomial_induct)
  case (Node s k m)
  have "zeval \<chi> t = \<rho> (get_id k) ^ unat ex * real_eval \<rho> (map_multinomial round6 q)"
    if q: "(ex, q) \<in> set m" and temp: "print_sym e [] q = Inr temp" and t: "sym_factor e [] k ex temp = Inr t"
    for ex q temp t
  proof -
    have "zeval \<chi> temp = real_eval \<rho> (map_multinomial round6 q)"
      by (rule Node.IH[OF q temp Node.prems(2)]) (use q in auto)
    with t Node.prems(2)[of k] show ?thesis by (auto simp: sym_factor_def e_at_def bindR_Inr split: if_splits)
  qed
  then have "zeval \<chi> z = msum (\<lambda>ex q. \<rho> (get_id k) ^ unat ex * real_eval \<rho> (map_multinomial round6 q)) m"
    using Node.prems(1) zeval_foldR_sum[of "sym_factor e [] k" "print_sym e []" m "ZInt 0" z \<chi>
      "\<lambda>ex q. \<rho> (get_id k) ^ unat ex * real_eval \<rho> (map_multinomial round6 q)"] by simp
  then show ?case by (simp add: o_def case_prod_unfold)
qed simp

text \<open>What a store asks of a valuation of the symbols.\<close>

definition store_holds :: "(u32 \<Rightarrow> real) \<Rightarrow> double solver \<Rightarrow> bool" where
  "store_holds \<rho> s \<longleftrightarrow>
     (\<forall>p \<in> set (eq_list s). real_eval \<rho> p = 0) \<and> (\<forall>p \<in> set (ineq_list s). real_eval \<rho> p \<ge> 0)"

definition store_polys :: "'a solver \<Rightarrow> 'a multinomial list" where
  "store_polys s = eq_list s @ ineq_list s"

definition in_range :: "nat \<Rightarrow> 'a multinomial \<Rightarrow> bool" where
  "in_range n p \<longleftrightarrow> (\<forall>k \<in> set (symbols p). unat (get_id k) < n)"

text \<open>The meaning of an SMT checker: its two definite answers are right.\<close>

definition checker_ok :: "(zform list \<Rightarrow> check_result) \<Rightarrow> bool" where
  "checker_ok check \<longleftrightarrow>
     (\<forall>fs. (check fs = Sat \<longrightarrow> (\<exists>\<chi>. \<forall>f \<in> set fs. zholds \<chi> f))
         \<and> (check fs = Unsat \<longrightarrow> \<not> (\<exists>\<chi>. \<forall>f \<in> set fs. zholds \<chi> f)))"

lemma id_val_surj: "\<exists>\<chi>. id_val \<chi> = \<rho>"
proof -
  have inj: "inj (\<lambda>i::u32. var_name (unat i))" by (simp add: inj_def id_names_distinct word_unat_eq_iff)
  have "id_val (\<lambda>x. \<rho> (inv (\<lambda>i::u32. var_name (unat i)) x)) = \<rho>"
    by (rule ext) (simp add: id_val_def inv_f_f[OF inj])
  then show ?thesis by blast
qed

lemma eq_form_meaning:
  assumes "e_ok s" and "eq_form (e_list s) sub_map p = Inr f" and "exact6 sub_map p" and "in_range (length (e_list s)) p"
  shows "zholds \<chi> f \<longleftrightarrow> real_eval (sub_val sub_map (id_val \<chi>)) p = 0"
  using assms print_sym_meaning[OF assms(1) _ assms(3)] by (auto simp: eq_form_def bindR_Inr in_range_def)

lemma ineq_form_meaning:
  assumes "e_ok s" and "ineq_form (e_list s) sub_map p = Inr f" and "exact6 sub_map p" and "in_range (length (e_list s)) p"
  shows "zholds \<chi> f \<longleftrightarrow> real_eval (sub_val sub_map (id_val \<chi>)) p \<ge> 0"
  using assms print_sym_meaning[OF assms(1) _ assms(3)] by (auto simp: ineq_form_def bindR_Inr in_range_def)

lemma mapR_all:
  assumes "mapR f xs = Inr ys" and "\<And>x y. x \<in> set xs \<Longrightarrow> f x = Inr y \<Longrightarrow> P y \<longleftrightarrow> Q x"
  shows "(\<forall>y \<in> set ys. P y) \<longleftrightarrow> (\<forall>x \<in> set xs. Q x)"
  using assms
proof (induction xs arbitrary: ys)
  case (Cons x xs)
  then obtain y ys' where y: "f x = Inr y" and ys': "mapR f xs = Inr ys'" "ys = y # ys'" by (auto simp: bindR_Inr)
  have "(\<forall>y \<in> set ys'. P y) \<longleftrightarrow> (\<forall>x \<in> set xs. Q x)"
    by (rule Cons.IH[OF ys'(1)]) (rule Cons.prems(2), simp)
  moreover have "P y \<longleftrightarrow> Q x" by (rule Cons.prems(2)) (simp_all add: y)
  ultimately show ?case by (simp add: ys'(2))
qed simp

lemma assertions_meaning:
  assumes "e_ok s" and "mod_constraints s = []"
    and polys: "\<And>p. p \<in> set (store_polys s) \<Longrightarrow> exact6 sub_map p \<and> in_range (length (e_list s)) p"
  shows "\<exists>fs. assertions s sub_map = Inr fs
           \<and> (\<forall>\<chi>. (\<forall>f \<in> set fs. zholds \<chi> f) \<longleftrightarrow> store_holds (sub_val sub_map (id_val \<chi>)) s)"
proof -
  have tot: "\<exists>z. print_sym (e_list s) sub_map p = Inr z" if "p \<in> set (store_polys s)" for p
    using polys[OF that] by (intro print_sym_total) (auto simp: in_range_def)
  have "\<exists>es. mapR (eq_form (e_list s) sub_map) (eq_list s) = Inr es"
    using tot by (intro mapR_total) (force simp: eq_form_def bindR_Inr store_polys_def)
  then obtain es where es: "mapR (eq_form (e_list s) sub_map) (eq_list s) = Inr es" by blast
  have "\<exists>is. mapR (ineq_form (e_list s) sub_map) (ineq_list s) = Inr is"
    using tot by (intro mapR_total) (force simp: ineq_form_def bindR_Inr store_polys_def)
  then obtain "is" where is': "mapR (ineq_form (e_list s) sub_map) (ineq_list s) = Inr is" by blast
  have "(\<forall>f \<in> set es. zholds \<chi> f) \<longleftrightarrow> (\<forall>p \<in> set (eq_list s). real_eval (sub_val sub_map (id_val \<chi>)) p = 0)" for \<chi>
    using polys by (intro mapR_all[OF es] eq_form_meaning[OF assms(1)]) (auto simp: store_polys_def)
  moreover have "(\<forall>f \<in> set is. zholds \<chi> f) \<longleftrightarrow> (\<forall>p \<in> set (ineq_list s). real_eval (sub_val sub_map (id_val \<chi>)) p \<ge> 0)" for \<chi>
    using polys by (intro mapR_all[OF is'] ineq_form_meaning[OF assms(1)]) (auto simp: store_polys_def)
  ultimately have "(\<forall>f \<in> set (es @ is). zholds \<chi> f) \<longleftrightarrow> store_holds (sub_val sub_map (id_val \<chi>)) s" for \<chi>
    by (simp add: store_holds_def ball_Un)
  moreover have "assertions s sub_map = Inr (es @ is)" using es is' assms(2) by (simp add: assertions_def)
  ultimately show ?thesis by blast
qed

text \<open>
  C15: Numbers in formulas.  The z3 term made for a polynomial of the table denotes the
  polynomial with every coefficient rounded to six decimals; a coefficient moves by at most
  \<open>5 * 10\<^sup>-\<^sup>7\<close> and is exact just when it is a multiple of \<open>10\<^sup>-\<^sup>6\<close>, so that one as small as
  \<open>10\<^sup>-\<^sup>7\<close> reaches the solver as 0.
\<close>

theorem print_sym_rounds:
  assumes "e_ok s" and "in_range (length (e_list s)) p"
  shows "\<exists>z. print_sym (e_list s) [] p = Inr z
     \<and> (\<forall>\<chi>. zeval \<chi> z = real_eval (id_val \<chi>) (map_multinomial round6 p))
     \<and> (\<forall>c. \<bar>round6 c - c\<bar> \<le> 1 / (2 * 10 ^ 6) \<and> (round6 c = c \<longleftrightarrow> (\<exists>i. c * 10 ^ 6 = of_int i)))
     \<and> round6 (1 / 10 ^ 7) = 0"
proof -
  from assms(2) obtain z where z: "print_sym (e_list s) [] p = Inr z"
    using print_sym_total[of p "e_list s" "[]"] by (auto simp: in_range_def)
  have "e_list s ! unat (get_id k) = var_name (unat (get_id k))" if "k \<in> set (symbols p)" for k
    using that assms unfolding e_ok_def in_range_def by (metis add_0 diff_zero length_map length_upt nth_map nth_upt)
  then have "zeval \<chi> z = real_eval (id_val \<chi>) (map_multinomial round6 p)" for \<chi>
    by (intro print_sym_rounded[OF z]) (simp add: id_val_def)
  with z round6_close round6_exact_iff round6_tiny show ?thesis by blast
qed

theorem print_sym_rounds_witness:
  "\<exists>z. print_sym [''var_0''] [] (MNode True \<lparr>get_id = 0, is_template = True\<rparr> [(0, MConst True 0), (1, MConst True (1 / 10 ^ 7))]) = Inr z
     \<and> (\<forall>\<chi>. zeval \<chi> z = 0)"
proof -
  let ?s = "\<lparr>eq_list = [], ineq_list = [], e_list = [''var_0''], mod_constraints = []\<rparr> :: double solver"
    and ?p = "MNode True \<lparr>get_id = 0, is_template = True\<rparr> [(0, MConst True 0), (1, MConst True (1 / 10 ^ 7))]"
  have "e_ok ?s" "in_range (length (e_list ?s)) ?p"
    by (simp_all add: e_ok_def in_range_def var_name_def nat_to_string.simps)
  from print_sym_rounds[OF this] show ?thesis by (auto simp: round6_tiny[simplified])
qed


definition ex_store :: "double solver" where
  "ex_store = \<lparr>eq_list = [], ineq_list = [MConst False (1 / 2)], e_list = [], mod_constraints = []\<rparr>"

definition ex_check :: "zform list \<Rightarrow> check_result" where
  "ex_check fs = (if fs = [ZGe (ZDec ''0.500000'') (ZInt 0)] then Sat else Unknown)"

lemma numeral_6_eq_6: "(6::nat) = Suc (Suc (Suc (Suc (Suc (Suc 0)))))"
  by simp

lemma to_string_half: "to_string_d (1 / 2) = ''0.500000''"
proof -
  have "round_even (500000 :: rat) = 500000" using round_even_of_int[of 500000] by simp
  then have "micro (1 / 2) = 500000" by (simp add: micro_def)
  moreover have "nat_to_string 0 = ''0''" by (subst nat_to_string.simps) simp
  moreover have "pad_digits (Suc (Suc (Suc (Suc (Suc (Suc 0)))))) 500000 = ''500000''" by simp
  then have "pad_digits 6 500000 = ''500000''" by (simp only: numeral_6_eq_6)
  ultimately show ?thesis by (simp add: to_string_d_def)
qed

lemma round6_half: "round6 (1 / 2) = 1 / 2"
  by (rule round6_exact[of _ 500000]) simp

lemma ex_check_ok: "checker_ok ex_check"
proof -
  have "zholds (\<lambda>x. 0) (ZGe (ZDec ''0.500000'') (ZInt 0))"
    using dec_value_to_string[of "1 / 2"] by (simp add: to_string_half round6_half)
  then show ?thesis by (auto simp: checker_ok_def ex_check_def)
qed


end
