(* ===== verification/Handelman.thy ===== *)
theory Handelman
  imports Solver
begin

text \<open>
  The positivity encoder \<^verbatim>\<open>handelman_core\<close> of \<^verbatim>\<open>include/handelman_core.hpp\<close> and
  \<^verbatim>\<open>src/handelman_core.cpp\<close>.  From the hypotheses \<^verbatim>\<open>lhs\<close> and the conclusions
  \<^verbatim>\<open>rhs_arr\<close> it writes equations between polynomials in the templates whose solvability
  shows that every conclusion is non-negative wherever all hypotheses are: \<^verbatim>\<open>gen_pol\<close>
  builds the sum of all products of hypotheses up to the degree bound, each with a fresh
  non-negative template, and \<^verbatim>\<open>solve\<close> equates it with the conclusion, coefficient by
  coefficient.
\<close>

record 'a handelman_core =
  lhs :: "'a multinomial list"
  lhs_degree :: "int list"
  rhs_arr :: "'a multinomial list"
  slv :: "'a solver"
  max_deg :: int

definition core_new :: "'b vars \<Rightarrow> 'a handelman_core" where
  "core_new av = \<lparr>lhs = [], lhs_degree = [], rhs_arr = [], slv = solver_new av, max_deg = 2\<rparr>"

text \<open>The copy of the argument that \<^verbatim>\<open>add_lhs\<close> and \<^verbatim>\<open>add_rhs\<close> keep is saved in every node.\<close>

definition kept :: "'a multinomial \<Rightarrow> 'a multinomial" where
  "kept e = set_save True (assign (set_save True e))"

definition add_lhs :: "'a multinomial \<Rightarrow> 'a handelman_core \<Rightarrow> 'a handelman_core" where
  "add_lhs e c = c\<lparr>lhs := lhs c @ [kept e]\<rparr>"

definition add_lhs_expr :: "'a expr \<Rightarrow> 'a handelman_core \<Rightarrow> 'a handelman_core result" where
  "add_lhs_expr e c = bindR (deref e) (\<lambda>m. Inr (add_lhs m c))"

definition add_rhs :: "'a multinomial \<Rightarrow> 'a handelman_core \<Rightarrow> 'a handelman_core" where
  "add_rhs e c = c\<lparr>rhs_arr := rhs_arr c @ [kept e]\<rparr>"

definition add_rhs_expr :: "'a expr \<Rightarrow> 'a handelman_core \<Rightarrow> 'a handelman_core result" where
  "add_rhs_expr e c = bindR (deref e) (\<lambda>m. Inr (add_rhs m c))"

definition add_st :: "'a multinomial \<Rightarrow> bool \<Rightarrow> 'a handelman_core \<Rightarrow> 'a handelman_core" where
  "add_st e is_ineq c = c\<lparr>slv := add_constr e is_ineq (slv c)\<rparr>"

definition add_st_expr :: "'a expr \<Rightarrow> bool \<Rightarrow> 'a handelman_core \<Rightarrow> 'a handelman_core result" where
  "add_st_expr e is_ineq c = bindR (add_expr e is_ineq (slv c)) (\<lambda>s. Inr (c\<lparr>slv := s\<rparr>))"

text \<open>The degrees are 32-bit unsigned and stored as \<^verbatim>\<open>int\<close>.\<close>

definition make_deg_arr :: "'a handelman_core \<Rightarrow> 'a handelman_core" where
  "make_deg_arr c = c\<lparr>lhs_degree := map (\<lambda>a. sint (get_degree False a)) (lhs c)\<rparr>"

definition set_max_degree :: "int \<Rightarrow> 'a handelman_core \<Rightarrow> 'a handelman_core" where
  "set_max_degree adeg c =
     (if adeg = 0
      then c\<lparr>max_deg := fold (\<lambda>rhs d. max (sint (get_degree False rhs)) d) (rhs_arr c) (max_deg c)\<rparr>
      else c\<lparr>max_deg := adeg\<rparr>)"

subsection \<open>The general polynomial\<close>

text \<open>Signed addition; overflow is undefined.\<close>

definition int_add :: "int \<Rightarrow> int \<Rightarrow> int result" where
  "int_add a b = (if in_int_range (a + b) then Inr (a + b) else Inl Undefined)"

text \<open>The end of \<^verbatim>\<open>gen_pol\<close>: a fresh template, constrained to be non-negative, is added.\<close>

definition gen_tail :: "('a::{zero, one, plus}) multinomial \<Rightarrow> 'a vars \<times> 'a solver
    \<Rightarrow> ('a multinomial \<times> 'a vars \<times> 'a solver) result" where
  "gen_tail ans = (\<lambda>(v, s).
     bindR (add_var v True ''additive_template'') (\<lambda>(ref, v1).
     bindR (var_named v1 ref) (\<lambda>(x, v2).
     let s1 = add_constr x True s in
     bindR (var_named v2 ref) (\<lambda>(x', v3).
     bindR (ofopt (add ans x')) (\<lambda>ans'. Inr (ans', v3, s1))))))"

text \<open>
  The recursion may fail to end (a hypothesis of degree 0 that shares a symbol with the
  conclusion keeps the degree): \<open>None\<close> is a call that does not return.  The loop over
  \<^verbatim>\<open>j\<close> and the calls in its body are one function; \<^verbatim>\<open>gen_pol\<close> enters it with the zero
  polynomial.
\<close>

partial_function (option) gen_loop :: "('a::{zero, one, plus, times}) handelman_core \<Rightarrow> u32 list \<Rightarrow> int \<Rightarrow> nat
    \<Rightarrow> 'a multinomial \<Rightarrow> 'a vars \<times> 'a solver \<Rightarrow> ('a multinomial \<times> 'a vars \<times> 'a solver) result option" where
  "gen_loop c id_arr curr_deg j ans st =
     (if j < length (lhs c) then
        if j < length (lhs_degree c) then
          (case int_add curr_deg (lhs_degree c ! j) of
             Inl err \<Rightarrow> Some (Inl err)
           | Inr deg \<Rightarrow>
               if deg \<le> max_deg c \<and> cmp_poly id_arr (lhs c ! j) then
                 Option.bind (gen_loop c id_arr deg j (new_const 0 False) st) (\<lambda>r.
                   case r of
                     Inl err \<Rightarrow> Some (Inl err)
                   | Inr (t, st1) \<Rightarrow>
                       (case Option.bind (mult (lhs c ! j) t) (add ans) of
                          None \<Rightarrow> Some (Inl Undefined)
                        | Some ans1 \<Rightarrow> gen_loop c id_arr curr_deg (Suc j) ans1 st1))
               else gen_loop c id_arr curr_deg (Suc j) ans st)
        else Some (Inl Undefined)
      else Some (gen_tail ans st))"

declare gen_loop.simps [code]

definition gen_pol :: "('a::{zero, one, plus, times}) handelman_core \<Rightarrow> int \<Rightarrow> nat \<Rightarrow> u32 list
    \<Rightarrow> 'a vars \<times> 'a solver \<Rightarrow> ('a multinomial \<times> 'a vars \<times> 'a solver) result option" where
  "gen_pol c curr_deg first_index id_arr st = gen_loop c id_arr curr_deg first_index (new_const 0 False) st"

text \<open>
  The body of the loop of \<^verbatim>\<open>solve\<close> for one conclusion, and the loop.  The calls thread the
  shared variable table and the solver's store.
\<close>

definition solve_rhs :: "('a::{zero, one, plus, times, uminus}) handelman_core \<Rightarrow> 'a multinomial
    \<Rightarrow> 'a vars \<times> 'a solver \<Rightarrow> ('a vars \<times> 'a solver) result option" where
  "solve_rhs c rhs st =
     Option.bind (gen_pol c 0 0 (ret_id_arr rhs) st) (\<lambda>r.
       Some (bindR r (\<lambda>(t, v, s).
         bindR (ofopt (Option.bind (mult_c rhs (- 1)) (add t))) (\<lambda>to_solve.
           Inr (v, fold (\<lambda>a s. add_constr a False s) (reduce to_solve) s)))))"

fun solve_loop :: "('a::{zero, one, plus, times, uminus}) handelman_core \<Rightarrow> 'a multinomial list
    \<Rightarrow> 'a vars \<times> 'a solver \<Rightarrow> ('a vars \<times> 'a solver) result option" where
  "solve_loop c [] st = Some (Inr st)"
| "solve_loop c (rhs # rhss) st =
     Option.bind (solve_rhs c rhs st) (\<lambda>r.
       case r of Inl err \<Rightarrow> Some (Inl err) | Inr st1 \<Rightarrow> solve_loop c rhss st1)"

text \<open>
  \<^verbatim>\<open>solve\<close> with type 3, which only prepares the constraints; types 0 and 1 hand the
  prepared store to a checker afterwards.
\<close>

definition core_prepare :: "('a::{zero, one, plus, times, uminus}) handelman_core \<Rightarrow> 'a vars
    \<Rightarrow> ('a handelman_core \<times> 'a vars) result option" where
  "core_prepare c v =
     (let c1 = make_deg_arr c in
      map_option (\<lambda>r. bindR r (\<lambda>(v1, s1). Inr (c1\<lparr>slv := s1\<rparr>, v1)))
        (solve_loop c1 (rhs_arr c1) (v, slv c1)))"

end
