(* ===== verification/Handelman_Laws.thy ===== *)
theory Handelman_Laws
  imports Handelman
begin

text \<open>
  The general polynomial of \<^verbatim>\<open>gen_pol\<close>: the recursion ends when every hypothesis has a
  positive degree, the result is a sum of products of hypotheses with fresh templates as
  weights, it is linear in the templates, and it is non-negative wherever hypotheses and
  templates are.
\<close>

abbreviation limit_error :: "cxx_error" where
  "limit_error \<equiv> Throw ''[ERROR](symbol.h) Maximum symbol limit reached''"

definition stored :: "'a multinomial \<Rightarrow> 'a multinomial" where
  "stored m = assign (set_save True m)"

lemma eval_stored [simp]: "eval \<rho> (stored m) = eval \<rho> m"
  and wf_stored [simp]: "wf_poly (stored m) = wf_poly m"
  by (simp_all add: stored_def)

lemma symbols_set_save [simp]: "symbols (set_save b p) = symbols p"
proof (induction p rule: multinomial_induct)
  case (Node s k m)
  then have "map (\<lambda>x. symbols (set_save b (snd x))) m = map (\<lambda>x. symbols (snd x)) m" by (intro map_cong) auto
  then have "concat (map (\<lambda>x. symbols (set_save b (snd x))) m) = concat (map (\<lambda>x. symbols (snd x)) m)" by (rule arg_cong)
  then show ?case by (simp add: case_prod_unfold comp_def)
qed simp

lemma symbols_assign [simp]: "symbols (assign p) = symbols p"
proof (induction p rule: multinomial_induct)
  case (Node s k m)
  then have "map (\<lambda>x. symbols (assign (snd x))) m = map (\<lambda>x. symbols (snd x)) m" by (intro map_cong) auto
  then have "concat (map (\<lambda>x. symbols (assign (snd x))) m) = concat (map (\<lambda>x. symbols (snd x)) m)" by (rule arg_cong)
  then show ?case by (simp add: case_prod_unfold comp_def)
qed simp

lemma symbols_stored [simp]: "symbols (stored m) = symbols m"
  by (simp add: stored_def)

lemma symbols_new_symbol [simp]: "symbols (new_symbol k b) = [k]"
  by (simp add: new_symbol_def new_const_def)

lemma tdeg_le_no_symbol: "(\<And>k. k \<in> set (symbols p) \<Longrightarrow> get_id k \<notin> T) \<Longrightarrow> tdeg_le T d p"
proof (induction p arbitrary: d rule: multinomial_induct)
  case (Node s k m)
  have "get_id k \<notin> T" by (rule Node.prems) simp
  moreover have "tdeg_le T d' p" if "(e, p) \<in> set m" for e p d'
    by (rule Node.IH[OF that], rule Node.prems) (use that in auto)
  ultimately show ?case by (simp add: list_all_mp_iff)
qed simp

lemma tdeg_le_new_symbol: "tdeg_le T 1 (new_symbol k b)"
  by (simp add: new_symbol_def new_const_def)

text \<open>The symbols at or after position \<open>N\<close> of the variable table.\<close>

abbreviation from_pos :: "nat \<Rightarrow> u32 set" where
  "from_pos N \<equiv> {i. N \<le> unat i}"

text \<open>What \<^verbatim>\<open>gen_pol\<close> needs of the hypotheses.\<close>

definition core_ok :: "nat \<Rightarrow> nat \<Rightarrow> ('a::comm_ring_1) handelman_core \<Rightarrow> bool" where
  "core_ok N A c \<longleftrightarrow>
     length (lhs_degree c) = length (lhs c) \<and> (\<forall>d \<in> set (lhs_degree c). 1 \<le> d \<and> d < 2 ^ 30) \<and> max_deg c \<le> 2 ^ 30
     \<and> (\<forall>l \<in> set (lhs c). wf_poly l \<and> exps_le A l \<and> (\<forall>k \<in> set (symbols l). unat (get_id k) < N))"

text \<open>What a run from \<open>ans\<close> in the state \<open>st\<close> to \<open>t\<close> in the state \<open>st'\<close> has done; \<open>xs\<close> are the new variables.\<close>

definition gen_post :: "nat \<Rightarrow> ('a::linordered_idom) handelman_core \<Rightarrow> 'a multinomial \<Rightarrow> 'a vars \<times> 'a solver
    \<Rightarrow> 'a multinomial \<Rightarrow> 'a vars \<times> 'a solver \<Rightarrow> 'a multinomial list \<Rightarrow> bool" where
  "gen_post N c ans st t st' xs \<longleftrightarrow>
     wf_poly t \<and> vars_ok (fst st')
     \<and> var_arr (fst st') = var_arr (fst st) @ xs
     \<and> (\<forall>x \<in> set xs. \<exists>k. x = new_symbol k True \<and> is_template k \<and> N \<le> unat (get_id k))
     \<and> snd st' = (snd st)\<lparr>ineq_list := ineq_list (snd st) @ map stored xs\<rparr>
     \<and> set (symbols t) \<subseteq> set (symbols ans) \<union> \<Union> (set ` symbols ` set (lhs c)) \<union> \<Union> (set ` symbols ` set xs)
     \<and> (tdeg_le (from_pos N) 1 ans \<longrightarrow> tdeg_le (from_pos N) 1 t)
     \<and> (\<forall>\<rho>. (\<forall>l \<in> set (lhs c) \<union> set xs. 0 \<le> eval \<rho> l) \<longrightarrow> 0 \<le> eval \<rho> ans \<longrightarrow> 0 \<le> eval \<rho> t)"

lemma gen_post_value:
  "gen_post N c ans st t st' xs \<Longrightarrow> (\<And>l. l \<in> set (lhs c) \<Longrightarrow> 0 \<le> eval \<rho> l) \<Longrightarrow>
     (\<And>x. x \<in> set xs \<Longrightarrow> 0 \<le> eval \<rho> x) \<Longrightarrow> 0 \<le> eval \<rho> ans \<Longrightarrow> 0 \<le> eval \<rho> t"
  unfolding gen_post_def by blast

lemma add_var_total_or_limit:
  "(\<exists>name v'. add_var v t aname = Inr (name, v')) \<or> add_var v t aname = Inl limit_error"
  by (auto simp: add_var_def push_var_def symbol_new_def Let_def)

lemma gen_tail_spec:
  assumes v: "vars_ok v" and N: "N \<le> length (var_arr v)" and w: "wf_poly ans" and e: "exps_le B ans" "1 \<le> B"
  shows "gen_tail ans (v, s) = Inl limit_error
     \<or> (\<exists>t st' xs. gen_tail ans (v, s) = Inr (t, st') \<and> gen_post N c ans (v, s) t st' xs \<and> exps_le B t)"
proof (cases "add_var v True ''additive_template''")
  case (Inl err)
  then show ?thesis using add_var_total_or_limit[of v True "''additive_template''"] by (simp add: gen_tail_def)
next
  case (Inr r)
  then obtain ref v1 where a: "add_var v True ''additive_template'' = Inr (ref, v1)" by (cases r) auto
  note ok = add_var_ok[OF a v]
  then obtain k where k: "var_named v1 ref = Inr (new_symbol k True, v1)" "unat (get_id k) = length (var_arr v)"
    "is_template k" "var_arr v1 = var_arr v @ [new_symbol k True]" by blast
  let ?x = "new_symbol k True"
  obtain t where t: "add ans ?x = Some t" "wf_poly t" using add_struct[OF w, of ?x] by auto
  let ?s = "add_constr ?x True s"
  have run: "gen_tail ans (v, s) = Inr (t, v1, ?s)" using a k(1) t(1) by (simp add: gen_tail_def Let_def)
  have ev: "eval \<rho> t = eval \<rho> ans + eval \<rho> ?x" for \<rho> by (rule eval_add[OF t(1) w]) simp
  have sy: "set (symbols t) \<subseteq> set (symbols ans) \<union> {k}"
    by (rule syms.good_add[OF t(1)]) auto
  have td: "tdeg_le (from_pos N) 1 t" if "tdeg_le (from_pos N) 1 ans"
    by (rule tdeg.good_add[OF t(1) that tdeg_le_new_symbol])
  have "gen_post N c ans (v, s) t (v1, ?s) [?x]"
    using t(2) ok(1) k sy td N ev by (auto simp: gen_post_def add_constr_def stored_def)
  moreover have "exps_le B t" by (rule add_exps_le[OF t(1) e(1)]) (rule new_symbol_exps_le[OF e(2)])
  ultimately show ?thesis using run by blast
qed

lemma gen_post_step:
  assumes rec: "gen_post N c (new_const 0 False) st t st1 xs" and m: "mult l t = Some p" and a: "add ans p = Some ans1"
    and cont: "gen_post N c ans1 st1 r st2 ys"
    and l: "l \<in> set (lhs c)" and c: "core_ok N A c" and w: "wf_poly ans" and e: "exps_le B t" "A + B < 2 ^ 16"
  shows "gen_post N c ans st r st2 (xs @ ys)"
proof -
  have wl: "wf_poly l" "exps_le A l" and ids: "\<forall>k \<in> set (symbols l). unat (get_id k) < N"
    using c l by (auto simp: core_ok_def)
  have tl: "tdeg_le (from_pos N) 0 l" by (rule tdeg_le_no_symbol) (use ids in force)
  have wt: "wf_poly t" using rec by (simp add: gen_post_def)
  have wp: "wf_poly p" using mult_wf[OF wl(1) wt m] .
  have ep: "eval \<rho> p = eval \<rho> l * eval \<rho> t" for \<rho> by (rule eval_mult[OF m wl(1) wt wl(2) e])
  have ea: "eval \<rho> ans1 = eval \<rho> ans + eval \<rho> l * eval \<rho> t" for \<rho>
    using eval_add[OF a w wp] by (simp add: ep)
  let ?L = "\<Union> (set ` symbols ` set (lhs c))" and ?X = "\<Union> (set ` symbols ` set xs)"
  have "set (symbols t) \<subseteq> ?L \<union> ?X" using rec by (auto simp: gen_post_def new_const_def)
  then have "set (symbols p) \<subseteq> ?L \<union> ?X" using l by (intro syms.good_mult[OF m]) auto
  then have sa: "set (symbols ans1) \<subseteq> set (symbols ans) \<union> ?L \<union> ?X" by (intro syms.good_add[OF a]) auto
  have "tdeg_le (from_pos N) 1 t" using rec by (simp add: gen_post_def new_const_def)
  then have "tdeg_le (from_pos N) 1 p" using tdeg.good_mult[OF m tl, of 1] by simp
  then have ta: "tdeg_le (from_pos N) 1 ans1" if "tdeg_le (from_pos N) 1 ans" using tdeg.good_add[OF a that] by simp
  have pos: "0 \<le> eval \<rho> r" if "\<forall>q \<in> set (lhs c) \<union> set (xs @ ys). 0 \<le> eval \<rho> q" "0 \<le> eval \<rho> ans" for \<rho>
  proof -
    have "0 \<le> eval \<rho> t" by (rule gen_post_value[OF rec]) (use that(1) in \<open>auto simp: new_const_def\<close>)
    then have "0 \<le> eval \<rho> ans1" using that l by (simp add: ea)
    then show ?thesis by (intro gen_post_value[OF cont]) (use that(1) in auto)
  qed
  from rec cont sa ta pos show ?thesis unfolding gen_post_def by auto
qed

text \<open>The exponents a run at degree \<open>d\<close> can build.\<close>

definition exp_budget :: "nat \<Rightarrow> 'a handelman_core \<Rightarrow> int \<Rightarrow> nat" where
  "exp_budget A c d = nat (max_deg c - d) * A + 1"

lemma exp_budget_step: "deg \<le> max_deg c \<Longrightarrow> d < deg \<Longrightarrow> A + exp_budget A c deg \<le> exp_budget A c d"
proof -
  assume "deg \<le> max_deg c" "d < deg"
  then have "Suc (nat (max_deg c - deg)) \<le> nat (max_deg c - d)" by simp
  then have "Suc (nat (max_deg c - deg)) * A \<le> nat (max_deg c - d) * A" by (rule mult_right_mono) simp
  then show ?thesis by (simp add: exp_budget_def)
qed

lemma gen_loop_unfold:
  assumes "core_ok N A c" and "0 \<le> d" and "d \<le> max_deg c" and "j < length (lhs c)"
  shows "gen_loop c ids d j ans st =
     (if d + lhs_degree c ! j \<le> max_deg c \<and> cmp_poly ids (lhs c ! j) then
        Option.bind (gen_loop c ids (d + lhs_degree c ! j) j (new_const 0 False) st) (\<lambda>r.
          case r of
            Inl err \<Rightarrow> Some (Inl err)
          | Inr (t, st1) \<Rightarrow>
              (case Option.bind (mult (lhs c ! j) t) (add ans) of
                 None \<Rightarrow> Some (Inl Undefined)
               | Some ans1 \<Rightarrow> gen_loop c ids d (Suc j) ans1 st1))
      else gen_loop c ids d (Suc j) ans st)"
proof -
  have len: "j < length (lhs_degree c)" using assms(1,4) by (simp add: core_ok_def)
  then have "1 \<le> lhs_degree c ! j" "lhs_degree c ! j < 2 ^ 30" "max_deg c \<le> 2 ^ 30"
    using assms(1) by (auto simp: core_ok_def)
  then have "int_add d (lhs_degree c ! j) = Inr (d + lhs_degree c ! j)"
    using assms(2,3) by (simp add: int_add_def in_int_range_def)
  then show ?thesis using len assms(4) by (subst gen_loop.simps) simp
qed

lemma gen_loop_end: "\<not> j < length (lhs c) \<Longrightarrow> gen_loop c ids d j ans st = Some (gen_tail ans st)"
  by (subst gen_loop.simps) simp

definition gen_measure :: "'a handelman_core \<Rightarrow> int \<Rightarrow> nat \<Rightarrow> nat" where
  "gen_measure c d j = nat (max_deg c - d) * Suc (length (lhs c)) + (length (lhs c) - j)"

lemma gen_measure_rec: "deg \<le> max_deg c \<Longrightarrow> d < deg \<Longrightarrow> gen_measure c deg j < gen_measure c d j"
proof -
  assume "deg \<le> max_deg c" "d < deg"
  then have "nat (max_deg c - deg) < nat (max_deg c - d)" by simp
  then have "nat (max_deg c - deg) * Suc (length (lhs c)) < nat (max_deg c - d) * Suc (length (lhs c))"
    by (rule mult_strict_right_mono) simp
  then show ?thesis by (simp add: gen_measure_def)
qed

lemma gen_measure_Suc: "j < length (lhs c) \<Longrightarrow> gen_measure c d (Suc j) < gen_measure c d j"
  by (simp add: gen_measure_def)

lemma gen_loop_spec:
  assumes "core_ok N A c" and "0 \<le> d" and "d \<le> max_deg c" and "exp_budget A c 0 < 2 ^ 16"
    and "vars_ok (fst st)" and "N \<le> length (var_arr (fst st))" and "wf_poly ans" and "exps_le (exp_budget A c d) ans"
  shows "gen_loop c ids d j ans st = Some (Inl limit_error)
     \<or> (\<exists>t st' xs. gen_loop c ids d j ans st = Some (Inr (t, st')) \<and> gen_post N c ans st t st' xs
          \<and> exps_le (exp_budget A c d) t)"
  using assms
proof (induction "gen_measure c d j" arbitrary: d j ans st rule: less_induct)
  case less
  show ?case
  proof (cases "j < length (lhs c)")
    case False
    obtain v s where st: "st = (v, s)" by force
    have "1 \<le> exp_budget A c d" by (simp add: exp_budget_def)
    from gen_tail_spec[OF _ _ less.prems(7,8) this, of v N s c] less.prems(5,6)
    show ?thesis by (auto simp: gen_loop_end[OF False] st)
  next
    case j: True
    note unf = gen_loop_unfold[OF less.prems(1-3) j, of ids ans st]
    let ?deg = "d + lhs_degree c ! j" and ?l = "lhs c ! j"
    have "j < length (lhs_degree c)" using less.prems(1) j by (simp add: core_ok_def)
    then have "1 \<le> lhs_degree c ! j" using less.prems(1) by (auto simp: core_ok_def)
    then have pos: "d < ?deg" by simp
    have l: "?l \<in> set (lhs c)" "wf_poly ?l" "exps_le A ?l" using j less.prems(1) by (auto simp: core_ok_def)
    show ?thesis
    proof (cases "?deg \<le> max_deg c \<and> cmp_poly ids ?l")
      case False
      show ?thesis unfolding unf[unfolded if_not_P[OF False]] by (rule less.hyps[OF gen_measure_Suc[OF j] less.prems])
    next
      case True
      note unf' = unf[unfolded if_P[OF True]]
      have rec: "gen_loop c ids ?deg j (new_const 0 False) st = Some (Inl limit_error)
        \<or> (\<exists>t st' xs. gen_loop c ids ?deg j (new_const 0 False) st = Some (Inr (t, st'))
            \<and> gen_post N c (new_const 0 False) st t st' xs \<and> exps_le (exp_budget A c ?deg) t)"
        by (rule less.hyps[OF gen_measure_rec]) (use True pos less.prems in \<open>auto simp: new_const_def\<close>)
      show ?thesis
      proof (cases "gen_loop c ids ?deg j (new_const 0 False) st = Some (Inl limit_error)")
        case True
        then show ?thesis by (simp add: unf')
      next
        case False
        with rec obtain t st1 xs where t: "gen_loop c ids ?deg j (new_const 0 False) st = Some (Inr (t, st1))"
          and post: "gen_post N c (new_const 0 False) st t st1 xs" and et: "exps_le (exp_budget A c ?deg) t" by blast
        have wt: "wf_poly t" using post by (simp add: gen_post_def)
        obtain p where p: "mult ?l t = Some p" "wf_poly p" using mult_struct[OF l(2) wt] by blast
        obtain ans1 where a: "add ans p = Some ans1" "wf_poly ans1" using add_struct[OF less.prems(7) p(2)] by blast
        have b: "A + exp_budget A c ?deg \<le> exp_budget A c d" using exp_budget_step[of ?deg c d A] True pos by simp
        have "exps_le (exp_budget A c d) p" by (rule exps_le_mono[OF mult_exps_le[OF p(1) l(3) et] b])
        then have ea: "exps_le (exp_budget A c d) ans1" by (rule add_exps_le[OF a(1) less.prems(8)])
        have "nat (max_deg c - d) \<le> nat (max_deg c)" using less.prems(2) by simp
        then have "exp_budget A c d \<le> exp_budget A c 0" by (simp add: exp_budget_def mult_right_mono)
        then have lim: "A + exp_budget A c ?deg < 2 ^ 16" using b less.prems(4) by linarith
        have cont: "gen_loop c ids d (Suc j) ans1 st1 = Some (Inl limit_error)
          \<or> (\<exists>t st' xs. gen_loop c ids d (Suc j) ans1 st1 = Some (Inr (t, st')) \<and> gen_post N c ans1 st1 t st' xs
              \<and> exps_le (exp_budget A c d) t)"
          by (rule less.hyps[OF gen_measure_Suc[OF j] less.prems(1-4)])
            (use post less.prems(6) a(2) ea in \<open>auto simp: gen_post_def\<close>)
        have run: "gen_loop c ids d j ans st = gen_loop c ids d (Suc j) ans1 st1" by (simp add: unf' t p(1) a(1))
        from cont show ?thesis unfolding run
          using gen_post_step[OF post p(1) a(1) _ l(1) less.prems(1,7) et lim] by blast
      qed
    qed
  qed
qed

end
