(* ===== verification/Handelman_Sound.thy ===== *)
theory Handelman_Sound
  imports Handelman_Laws
begin

text \<open>
  Soundness of the encoding.  The program variables come first in the variable table and
  the templates after them, as every caller sets it up; then the equations that
  \<^verbatim>\<open>reduce\<close> produces speak about templates only, and a solution of the constraint store is
  a proof that each conclusion is non-negative wherever all hypotheses are.
\<close>

text \<open>The symbols of \<open>p\<close> are the first \<open>N\<close> of the table, the first \<open>P\<close> of them program variables.\<close>

definition over :: "nat \<Rightarrow> nat \<Rightarrow> 'a multinomial \<Rightarrow> bool" where
  "over P N p \<longleftrightarrow> (\<forall>k \<in> set (symbols p). unat (get_id k) < N \<and> (is_template k \<longleftrightarrow> P \<le> unat (get_id k)))"

definition prep_ok :: "nat \<Rightarrow> nat \<Rightarrow> nat \<Rightarrow> ('a::linordered_idom) handelman_core \<Rightarrow> bool" where
  "prep_ok P N A c \<longleftrightarrow>
     core_ok N A c \<and> P \<le> N \<and> 0 \<le> max_deg c \<and> exp_budget A c 0 < 2 ^ 16
     \<and> (\<forall>p \<in> set (lhs c) \<union> set (rhs_arr c). over P N p \<and> wf_poly p)"

lemma over_tagged: "over P N p \<Longrightarrow> tagged (from_pos P) p"
  by (simp add: over_def tagged_def)

lemma over_inner_templates:
  assumes "over P N p" and "wf_poly p"
  shows "inner_templates p"
proof (rule wf_inner_templates[OF assms(2) over_tagged[OF assms(1)]])
  show "j < i" if "i \<in> from_pos P" "j \<notin> from_pos P" for i j :: u32
    using that by (simp add: word_less_nat_alt)
qed

lemma reduce_over:
  assumes "over P N p" and "wf_poly p" and "q \<in> set (reduce p)"
  shows "over P N q" and "wf_poly q" and "\<And>k. k \<in> set (symbols q) \<Longrightarrow> is_template k"
proof -
  show "over P N q" using assms(1) reduce_symbols[OF assms(3)] by (auto simp: over_def)
  show "wf_poly q" by (rule reduce_wf[OF assms(2,3)])
  show "is_template k" if "k \<in> set (symbols q)" for k
    by (rule reduce_templates[OF over_inner_templates[OF assms(1,2)] assms(3) that])
qed

lemma tdeg_reduce:
  fixes p :: "('a::{zero, plus, times}) multinomial"
  assumes "tdeg_le (from_pos N) d p" and "over P N' p" and "P \<le> N" and "q \<in> set (reduce p)"
  shows "tdeg_le (from_pos N) d q"
  using assms
proof (induction p rule: multinomial_induct)
  case (Node s k m)
  show ?case
  proof (cases "is_template k")
    case False
    with Node.prems(4) obtain e p where p: "(e, p) \<in> set m" "q \<in> set (reduce p)" by auto
    have "unat (get_id k) < P" using False Node.prems(2) by (auto simp: over_def)
    then have "get_id k \<notin> from_pos N" using Node.prems(3) by simp
    then have "tdeg_le (from_pos N) d p" using tdeg.good_child[OF Node.prems(1) p(1)] by simp
    moreover have "over P N' p" using Node.prems(2) p(1) by (auto simp: over_def)
    ultimately show ?thesis using Node.IH[OF p(1)] Node.prems(3) p(2) by blast
  qed (use Node.prems in simp)
qed simp

lemma fold_add_constr:
  "fold (\<lambda>a s. add_constr a False s) as s = s\<lparr>eq_list := eq_list s @ map stored as\<rparr>"
  by (induction as arbitrary: s) (simp_all add: add_constr_def stored_def)

lemma eval_agree:
  assumes "\<And>k. k \<in> set (symbols p) \<Longrightarrow> P \<le> unat (get_id k)" and "\<And>i. P \<le> unat i \<Longrightarrow> \<rho> i = \<tau> i"
  shows "eval \<rho> p = eval \<tau> p"
  by (rule eval_cong) (use assms in \<open>auto simp: ret_id_arr_symbols\<close>)

text \<open>
  What the treatment of one conclusion adds to the table and the store: \<open>xs\<close> new
  non-negative templates and the equations \<open>es\<close>.
\<close>

definition rhs_post :: "nat \<Rightarrow> nat \<Rightarrow> ('a::linordered_idom) handelman_core \<Rightarrow> 'a multinomial set \<Rightarrow> 'a vars \<times> 'a solver
    \<Rightarrow> 'a vars \<times> 'a solver \<Rightarrow> 'a multinomial list \<Rightarrow> 'a multinomial list \<Rightarrow> bool" where
  "rhs_post P N c R st st' xs es \<longleftrightarrow>
     vars_ok (fst st') \<and> var_arr (fst st') = var_arr (fst st) @ xs
     \<and> snd st' = (snd st)\<lparr>ineq_list := ineq_list (snd st) @ map stored xs, eq_list := eq_list (snd st) @ map stored es\<rparr>
     \<and> (\<forall>x \<in> set xs. \<exists>k. x = new_symbol k True \<and> is_template k \<and> N \<le> unat (get_id k))
     \<and> (\<forall>e \<in> set es. wf_poly e \<and> tdeg_le (from_pos N) 1 e
          \<and> (\<forall>k \<in> set (symbols e). P \<le> unat (get_id k) \<and> unat (get_id k) < length (var_arr (fst st'))))
     \<and> (\<forall>\<tau> \<rho>. (\<forall>x \<in> set xs. 0 \<le> eval \<tau> x) \<longrightarrow> (\<forall>e \<in> set es. eval \<tau> e = 0) \<longrightarrow>
          (\<forall>i. P \<le> unat i \<longrightarrow> \<rho> i = \<tau> i) \<longrightarrow> (\<forall>l \<in> set (lhs c). 0 \<le> eval \<rho> l) \<longrightarrow> (\<forall>r \<in> R. 0 \<le> eval \<rho> r))"

lemma new_symbol_inject [simp]: "new_symbol k b = new_symbol k' b' \<longleftrightarrow> k = k' \<and> b = b'"
  by (auto simp: new_symbol_def)

lemma vars_ok_entry:
  assumes "vars_ok v" and "new_symbol k True \<in> set (var_arr v)"
  shows "unat (get_id k) < length (var_arr v)"
proof -
  from assms(2) obtain i where i: "i < length (var_arr v)" "var_arr v ! i = new_symbol k True"
    by (auto simp: in_set_conv_nth)
  with assms(1) show ?thesis by (auto simp: vars_ok_def)
qed

lemma gen_post_over:
  assumes post: "gen_post N c (new_const 0 False) st t st1 xs" and P: "P \<le> N" and N: "N \<le> length (var_arr (fst st))"
    and l: "\<And>l. l \<in> set (lhs c) \<Longrightarrow> over P N l"
  shows "over P (length (var_arr (fst st1))) t"
proof -
  let ?M = "length (var_arr (fst st1))"
  have arr: "var_arr (fst st1) = var_arr (fst st) @ xs" and v1: "vars_ok (fst st1)"
    and new: "\<And>x. x \<in> set xs \<Longrightarrow> \<exists>k. x = new_symbol k True \<and> is_template k \<and> N \<le> unat (get_id k)"
    and sy: "set (symbols t) \<subseteq> \<Union> (set ` symbols ` set (lhs c)) \<union> \<Union> (set ` symbols ` set xs)"
    using post by (auto simp: gen_post_def new_const_def)
  have xs: "unat (get_id k) < ?M \<and> (is_template k \<longleftrightarrow> P \<le> unat (get_id k))" if "x \<in> set xs" "k \<in> set (symbols x)" for x k
    using new[OF that(1)] that vars_ok_entry[OF v1, of k] P by (auto simp: arr)
  have "unat (get_id k) < ?M \<and> (is_template k \<longleftrightarrow> P \<le> unat (get_id k))" if "l \<in> set (lhs c)" "k \<in> set (symbols l)" for l k
    using l[OF that(1)] that(2) N by (fastforce simp: over_def arr)
  with xs sy show ?thesis unfolding over_def by blast
qed

lemma solve_rhs_spec:
  assumes ok: "prep_ok P N A c" and r: "r \<in> set (rhs_arr c)"
    and st: "vars_ok (fst st)" "N \<le> length (var_arr (fst st))"
  shows "solve_rhs c r st = Some (Inl limit_error)
     \<or> (\<exists>st' xs es. solve_rhs c r st = Some (Inr st') \<and> rhs_post P N c {r} st st' xs es)"
proof -
  let ?g = "gen_pol c 0 0 (ret_id_arr r) st"
  have core: "core_ok N A c" "P \<le> N" "0 \<le> max_deg c" "exp_budget A c 0 < 2 ^ 16" using ok by (auto simp: prep_ok_def)
  have wr: "wf_poly r" "over P N r" using ok r by (auto simp: prep_ok_def)
  have ovl: "over P N l" if "l \<in> set (lhs c)" for l using ok that by (auto simp: prep_ok_def)
  from gen_loop_spec[OF core(1) _ core(3,4) st, of "new_const 0 False" "ret_id_arr r" 0]
  consider "?g = Some (Inl limit_error)" | t st1 xs where "?g = Some (Inr (t, st1))" "gen_post N c (new_const 0 False) st t st1 xs"
    by (auto simp: gen_pol_def new_const_def)
  then show ?thesis
  proof cases
    case (2 t st1 xs)
    obtain v1 s1 where st1: "st1 = (v1, s1)" by force
    note post = 2(2)[unfolded st1]
    have wt: "wf_poly t" using post by (simp add: gen_post_def)
    obtain n where n: "mult_c r (- 1) = Some n" "wf_poly n" using mult_c_struct[OF wr(1)] by blast
    obtain p where p: "add t n = Some p" "wf_poly p" using add_struct[OF wt n(2)] by blast
    have ev: "eval \<rho> p = eval \<rho> t - eval \<rho> r" for \<rho>
      using eval_add[OF p(1) wt n(2)] eval_mult_c[OF n(1) wr(1)] by simp
    let ?s = "s1\<lparr>eq_list := eq_list s1 @ map stored (reduce p)\<rparr>" and ?M = "length (var_arr v1)"
    have run: "solve_rhs c r st = Some (Inr (v1, ?s))"
      using 2(1) n(1) p(1) by (simp add: solve_rhs_def st1 fold_add_constr)
    have arr: "var_arr v1 = var_arr (fst st) @ xs" and v1: "vars_ok v1"
      and new: "\<And>x. x \<in> set xs \<Longrightarrow> \<exists>k. x = new_symbol k True \<and> is_template k \<and> N \<le> unat (get_id k)"
      using post by (auto simp: gen_post_def)
    have NM: "N \<le> ?M" using st(2) by (simp add: arr)
    then have ov_mono: "over P ?M q" if "over P N q" for q using that by (auto simp: over_def)
    have "over P ?M t" using gen_post_over[OF post core(2) st(2) ovl] by simp
    moreover have "set (symbols n) \<subseteq> set (symbols r)" by (rule syms.good_mult_c[OF n(1)]) simp
    then have "over P ?M n" using ov_mono[OF wr(2)] by (auto simp: over_def)
    moreover have "set (symbols p) \<subseteq> set (symbols t) \<union> set (symbols n)" by (rule syms.good_add[OF p(1)]) auto
    ultimately have ovp: "over P ?M p" by (auto simp: over_def)
    have "tdeg_le (from_pos N) 1 t" using post by (simp add: gen_post_def new_const_def)
    moreover have "tdeg_le (from_pos N) 1 n"
      by (rule tdeg.good_mult_c[OF n(1)], rule tdeg_le_no_symbol) (use wr(2) in \<open>auto simp: over_def\<close>)
    ultimately have tdp: "tdeg_le (from_pos N) 1 p" by (rule tdeg.good_add[OF p(1)])
    have es: "wf_poly e \<and> tdeg_le (from_pos N) 1 e \<and> (\<forall>k \<in> set (symbols e). P \<le> unat (get_id k) \<and> unat (get_id k) < ?M)"
      if e: "e \<in> set (reduce p)" for e
      using reduce_over[OF ovp p(2) e] tdeg_reduce[OF tdp ovp core(2) e] by (auto simp: over_def)
    have sound: "0 \<le> eval \<rho> r" if xs: "\<forall>x \<in> set xs. 0 \<le> eval \<tau> x" and eqs: "\<forall>e \<in> set (reduce p). eval \<tau> e = 0"
      and agree: "\<forall>i. P \<le> unat i \<longrightarrow> \<rho> i = \<tau> i" and lhs: "\<forall>l \<in> set (lhs c). 0 \<le> eval \<rho> l" for \<tau> \<rho>
    proof -
      have "eval \<rho> p = 0"
        by (rule reduce_sound[OF over_inner_templates[OF ovp p(2)] over_tagged[OF ovp]]) (use eqs agree in auto)
      moreover have "eval \<rho> x = eval \<tau> x" if "x \<in> set xs" for x
        by (rule eval_agree[where P = P]) (use new[OF that] core(2) agree in auto)
      then have "0 \<le> eval \<rho> t" by (intro gen_post_value[OF post]) (use lhs xs in \<open>auto simp: new_const_def\<close>)
      ultimately show ?thesis by (simp add: ev)
    qed
    have "rhs_post P N c {r} st (v1, ?s) xs (reduce p)"
      using post es sound by (auto simp: rhs_post_def gen_post_def)
    with run show ?thesis by blast
  qed (simp add: solve_rhs_def)
qed

lemma rhs_post_sound:
  "rhs_post P N c R st st' xs es \<Longrightarrow> (\<forall>x \<in> set xs. 0 \<le> eval \<tau> x) \<Longrightarrow> (\<forall>e \<in> set es. eval \<tau> e = 0) \<Longrightarrow>
     (\<forall>i. P \<le> unat i \<longrightarrow> \<rho> i = \<tau> i) \<Longrightarrow> (\<forall>l \<in> set (lhs c). 0 \<le> eval \<rho> l) \<Longrightarrow> r \<in> R \<Longrightarrow> 0 \<le> eval \<rho> r"
  unfolding rhs_post_def by blast

lemma rhs_post_trans:
  assumes 1: "rhs_post P N c R st st1 xs es" and 2: "rhs_post P N c S st1 st2 ys fs"
  shows "rhs_post P N c (R \<union> S) st st2 (xs @ ys) (es @ fs)"
proof -
  have len: "length (var_arr (fst st1)) \<le> length (var_arr (fst st2))" using 2 by (simp add: rhs_post_def)
  have es: "wf_poly e \<and> tdeg_le (from_pos N) 1 e
      \<and> (\<forall>k \<in> set (symbols e). P \<le> unat (get_id k) \<and> unat (get_id k) < length (var_arr (fst st2)))"
    if "e \<in> set (es @ fs)" for e
  proof (cases "e \<in> set es")
    case True
    with 1 len show ?thesis unfolding rhs_post_def by (blast intro: order_less_le_trans)
  next
    case False
    with 2 that show ?thesis unfolding rhs_post_def by auto
  qed
  have new: "\<exists>k. x = new_symbol k True \<and> is_template k \<and> N \<le> unat (get_id k)" if "x \<in> set (xs @ ys)" for x
    using that 1 2 unfolding rhs_post_def by auto
  have sound: "0 \<le> eval \<rho> r" if "\<forall>x \<in> set (xs @ ys). 0 \<le> eval \<tau> x" "\<forall>e \<in> set (es @ fs). eval \<tau> e = 0"
    "\<forall>i. P \<le> unat i \<longrightarrow> \<rho> i = \<tau> i" "\<forall>l \<in> set (lhs c). 0 \<le> eval \<rho> l" "r \<in> R \<union> S" for \<tau> \<rho> r
    using rhs_post_sound[OF 1 _ _ that(3,4), of r] rhs_post_sound[OF 2 _ _ that(3,4), of r] that(1,2,5) by auto
  from 1 2 have st: "vars_ok (fst st2)" "var_arr (fst st2) = var_arr (fst st) @ xs @ ys"
    "snd st2 = (snd st)\<lparr>ineq_list := ineq_list (snd st) @ map stored (xs @ ys), eq_list := eq_list (snd st) @ map stored (es @ fs)\<rparr>"
    by (simp_all add: rhs_post_def)
  show ?thesis unfolding rhs_post_def using st es new sound by blast
qed

lemma rhs_post_refl: "vars_ok (fst st) \<Longrightarrow> rhs_post P N c {} st st [] []"
  by (simp add: rhs_post_def)

lemma solve_loop_spec:
  assumes "prep_ok P N A c" and "set rs \<subseteq> set (rhs_arr c)" and "vars_ok (fst st)" and "N \<le> length (var_arr (fst st))"
  shows "solve_loop c rs st = Some (Inl limit_error)
     \<or> (\<exists>st' xs es. solve_loop c rs st = Some (Inr st') \<and> rhs_post P N c (set rs) st st' xs es)"
  using assms
proof (induction rs arbitrary: st)
  case Nil
  then show ?case using rhs_post_refl[of st P N c] by auto
next
  case (Cons r rs)
  from solve_rhs_spec[OF Cons.prems(1) _ Cons.prems(3,4), of r] Cons.prems(2)
  consider "solve_rhs c r st = Some (Inl limit_error)"
    | st1 xs es where "solve_rhs c r st = Some (Inr st1)" "rhs_post P N c {r} st st1 xs es" by auto
  then show ?case
  proof cases
    case (2 st1 xs es)
    have st1: "vars_ok (fst st1)" "N \<le> length (var_arr (fst st1))" using 2(2) Cons.prems(4) by (simp_all add: rhs_post_def)
    from Cons.IH[OF Cons.prems(1) _ st1] Cons.prems(2)
    consider "solve_loop c rs st1 = Some (Inl limit_error)"
      | st2 ys fs where "solve_loop c rs st1 = Some (Inr st2)" "rhs_post P N c (set rs) st1 st2 ys fs" by auto
    then show ?thesis
    proof cases
      case (2 st2 ys fs)
      from rhs_post_trans[OF \<open>rhs_post P N c {r} st st1 xs es\<close> 2(2)] have "rhs_post P N c (set (r # rs)) st st2 (xs @ ys) (es @ fs)"
        by simp
      with 2(1) \<open>solve_rhs c r st = Some (Inr st1)\<close> show ?thesis by (auto simp del: list.set)
    qed (simp add: 2(1))
  qed simp
qed

text \<open>
  The conditions on a core before its constraints are prepared: hypotheses and conclusions
  speak about the first \<open>N\<close> symbols of the table, of which the first \<open>P\<close> are program
  variables.
\<close>

definition core_wf :: "nat \<Rightarrow> nat \<Rightarrow> nat \<Rightarrow> ('a::linordered_idom) handelman_core \<Rightarrow> 'a vars \<Rightarrow> bool" where
  "core_wf P N A c v \<longleftrightarrow>
     vars_ok v \<and> P \<le> N \<and> N \<le> length (var_arr v) \<and> 0 \<le> max_deg c \<and> max_deg c \<le> 2 ^ 30 \<and> nat (max_deg c) * A + 1 < 2 ^ 16
     \<and> (\<forall>l \<in> set (lhs c). exps_le A l \<and> 1 \<le> sint (get_degree False l) \<and> sint (get_degree False l) < 2 ^ 30)
     \<and> (\<forall>p \<in> set (lhs c) \<union> set (rhs_arr c). over P N p \<and> wf_poly p)"

lemma core_wf_prep_ok: "core_wf P N A c v \<Longrightarrow> prep_ok P N A (make_deg_arr c)"
  by (auto simp: core_wf_def prep_ok_def core_ok_def make_deg_arr_def exp_budget_def over_def)

lemma core_prepare_spec:
  assumes "core_wf P N A c v"
  shows "core_prepare c v = Some (Inl limit_error)
     \<or> (\<exists>v' s' xs es. core_prepare c v = Some (Inr ((make_deg_arr c)\<lparr>slv := s'\<rparr>, v'))
          \<and> rhs_post P N (make_deg_arr c) (set (rhs_arr c)) (v, slv c) (v', s') xs es)"
proof -
  have "vars_ok v" "N \<le> length (var_arr v)" using assms by (simp_all add: core_wf_def)
  with solve_loop_spec[OF core_wf_prep_ok[OF assms], of "rhs_arr c" "(v, slv c)"]
  show ?thesis by (auto simp: core_prepare_def Let_def make_deg_arr_def)
qed

lemma prepared_sound:
  fixes c :: "'a::linordered_idom handelman_core"
  assumes wf: "core_wf P N A c v" and run: "core_prepare c v = Some (Inr (c', v'))"
    and eqs: "\<forall>q \<in> set (eq_list (slv c')). eval \<tau> q = 0" and ineqs: "\<forall>q \<in> set (ineq_list (slv c')). 0 \<le> eval \<tau> q"
    and agree: "\<forall>i. P \<le> unat i \<longrightarrow> \<rho> i = \<tau> i" and hyps: "\<forall>l \<in> set (lhs c). 0 \<le> eval \<rho> l"
    and rhs: "r \<in> set (rhs_arr c)"
  shows "0 \<le> eval \<rho> r"
proof -
  from core_prepare_spec[OF wf] run obtain xs es where
    post: "rhs_post P N (make_deg_arr c) (set (rhs_arr c)) (v, slv c) (v', slv c') xs es" by auto
  have st: "eq_list (slv c') = eq_list (slv c) @ map stored es" "ineq_list (slv c') = ineq_list (slv c) @ map stored xs"
    using post by (simp_all add: rhs_post_def)
  have "\<forall>x \<in> set xs. 0 \<le> eval \<tau> x" "\<forall>e \<in> set es. eval \<tau> e = 0" using eqs ineqs by (simp_all add: st ball_Un)
  moreover have "\<forall>l \<in> set (lhs (make_deg_arr c)). 0 \<le> eval \<rho> l" using hyps by (simp add: make_deg_arr_def)
  ultimately show ?thesis using agree rhs by (intro rhs_post_sound[OF post])
qed

subsection \<open>Properties\<close>

text \<open>
  C7: Soundness of the Handelman encoding.  Suppose \<^verbatim>\<open>handelman_core::solve\<close> (type 3) has
  prepared the store of a core whose variable table lists the program variables first.  If
  some valuation \<open>\<tau>\<close> of the templates satisfies every equation and every inequality of the
  store, then each conclusion of the core is non-negative at every point \<open>\<rho>\<close> of the program
  variables where all its hypotheses are non-negative.
\<close>

theorem handelman_sound:
  fixes c :: "'a::linordered_idom handelman_core"
  assumes wf: "core_wf P N A c v" and run: "core_prepare c v = Some (Inr (c', v'))"
    and eqs: "\<forall>q \<in> set (eq_list (slv c')). eval \<tau> q = 0" and ineqs: "\<forall>q \<in> set (ineq_list (slv c')). 0 \<le> eval \<tau> q"
    and agree: "\<forall>i. P \<le> unat i \<longrightarrow> \<rho> i = \<tau> i" and hyps: "\<forall>l \<in> set (lhs c). 0 \<le> eval \<rho> l"
    and rhs: "r \<in> set (rhs_arr c)"
  shows "0 \<le> eval \<rho> r"
  using assms by (rule prepared_sound)

text \<open>A core with the hypothesis \<open>x \<ge> 0\<close> and the conclusion \<open>x \<ge> 0\<close>.\<close>

definition ex_vars :: "int vars" where
  "ex_vars = \<lparr>var_arr = [ex_x], vmp = [(''var_0'', 0)], NUM_SYMBOLS = 1\<rparr>"

definition ex_core :: "int handelman_core" where
  "ex_core = set_max_degree 1 (add_rhs ex_x (add_lhs ex_x (core_new ex_vars)))"

lemma ex_core_wf: "core_wf 1 1 1 ex_core ex_vars"
proof -
  have "lhs ex_core = [ex_x]" "rhs_arr ex_core = [ex_x]" "max_deg ex_core = 1"
    by (simp_all add: ex_core_def core_new_def add_lhs_def add_rhs_def set_max_degree_def kept_def new_symbol_def new_const_def)
  moreover have "sint (get_degree False ex_x) = 1" by code_simp
  ultimately show ?thesis
    by (auto simp: core_wf_def ex_vars_def vars_ok_def over_def split: if_splits)
qed

definition ex_prepared :: "int solver" where
  "ex_prepared = \<lparr>eq_list = [stored (new_symbol \<lparr>get_id = 2, is_template = True\<rparr> True),
                       MNode False \<lparr>get_id = 1, is_template = True\<rparr> [(0, MConst False (- 1)), (1, MConst False 1)]],
           ineq_list = [stored (new_symbol \<lparr>get_id = 1, is_template = True\<rparr> True),
                        stored (new_symbol \<lparr>get_id = 2, is_template = True\<rparr> True)],
           e_list = [''var_0''], mod_constraints = []\<rparr>"

lemma ex_core_run: "\<exists>c' v'. core_prepare ex_core ex_vars = Some (Inr (c', v')) \<and> slv c' = ex_prepared"
proof -
  have "map_option (map_sum id (slv \<circ> fst)) (core_prepare ex_core ex_vars) = Some (Inr ex_prepared)" by code_simp
  then show ?thesis by (cases "core_prepare ex_core ex_vars") (auto simp: map_sum_def split: sum.splits)
qed

theorem handelman_sound_witness: "\<exists>c' v'. core_prepare ex_core ex_vars = Some (Inr (c', v')) \<and> 0 \<le> eval (\<lambda>i. 7 * (if i = 0 then 1 else 0) + (if i = 1 then 1 else 0)) ex_x"
proof -
  let ?\<rho> = "\<lambda>i::u32. 7 * (if i = 0 then 1 else 0) + (if i = 1 then 1 else 0 :: int)"
  obtain c' v' where run: "core_prepare ex_core ex_vars = Some (Inr (c', v'))" "slv c' = ex_prepared"
    using ex_core_run by blast
  have l: "lhs ex_core = [ex_x]" "rhs_arr ex_core = [ex_x]"
    by (simp_all add: ex_core_def core_new_def add_lhs_def add_rhs_def set_max_degree_def kept_def new_symbol_def new_const_def)
  have "0 \<le> eval ?\<rho> ex_x"
    by (rule handelman_sound[OF ex_core_wf run(1), where \<tau> = ?\<rho>]) (simp_all add: run(2) ex_prepared_def l)
  with run(1) show ?thesis by blast
qed

text \<open>
  Preparation always ends.  When every hypothesis has a positive degree, the recursion of
  \<^verbatim>\<open>gen_pol\<close> and the loop over the conclusions return; the only exception is the symbol limit,
  nothing is undefined, the constraints already in the store are kept, and the variable
  table is extended by templates only.
\<close>

theorem prepare_total:
  fixes c :: "'a::linordered_idom handelman_core"
  assumes "core_wf P N A c v"
  shows "core_prepare c v = Some (Inl limit_error)
     \<or> (\<exists>c' v' xs es. core_prepare c v = Some (Inr (c', v')) \<and> vars_ok v'
          \<and> var_arr v' = var_arr v @ xs \<and> (\<forall>x \<in> set xs. \<exists>k. x = new_symbol k True \<and> is_template k)
          \<and> eq_list (slv c') = eq_list (slv c) @ map stored es \<and> ineq_list (slv c') = ineq_list (slv c) @ map stored xs
          \<and> lhs c' = lhs c \<and> rhs_arr c' = rhs_arr c)"
  using core_prepare_spec[OF assms]
proof (elim disjE exE conjE)
  fix v' s' xs es
  assume "core_prepare c v = Some (Inr ((make_deg_arr c)\<lparr>slv := s'\<rparr>, v'))"
    and "rhs_post P N (make_deg_arr c) (set (rhs_arr c)) (v, slv c) (v', s') xs es"
  then show ?thesis
    by (intro disjI2 exI[of _ "(make_deg_arr c)\<lparr>slv := s'\<rparr>"] exI[of _ v'] exI[of _ xs] exI[of _ es])
      (auto simp: rhs_post_def make_deg_arr_def)
qed simp

theorem prepare_total_witness:
  "\<exists>c' v'. core_prepare ex_core ex_vars = Some (Inr (c', v')) \<and> vars_ok v' \<and> lhs c' = lhs ex_core"
  using prepare_total[OF ex_core_wf] ex_core_run by auto

text \<open>
  C12: The promise made to the linear solver.  Every equation the preparation adds is a
  well-formed polynomial in templates only, and of degree at most one in the templates that
  \<^verbatim>\<open>gen_pol\<close> made: once the other templates are substituted, the system is linear.
\<close>

theorem prepare_linear:
  fixes c :: "'a::linordered_idom handelman_core"
  assumes "core_wf P N A c v" and "core_prepare c v = Some (Inr (c', v'))"
  shows "\<exists>es. eq_list (slv c') = eq_list (slv c) @ map stored es
     \<and> (\<forall>e \<in> set es. wf_poly e \<and> tdeg_le (from_pos N) 1 e
          \<and> (\<forall>k \<in> set (symbols e). P \<le> unat (get_id k) \<and> unat (get_id k) < length (var_arr v')))"
  using core_prepare_spec[OF assms(1)] assms(2) by (auto simp: rhs_post_def)

theorem prepare_linear_witness:
  "\<exists>c' v' es. core_prepare ex_core ex_vars = Some (Inr (c', v')) \<and> eq_list (slv c') = map stored es
     \<and> length es = 2 \<and> (\<forall>e \<in> set es. tdeg_le (from_pos 1) 1 e)"
proof -
  obtain c' v' where run: "core_prepare ex_core ex_vars = Some (Inr (c', v'))" "slv c' = ex_prepared"
    using ex_core_run by blast
  from prepare_linear[OF ex_core_wf run(1)] obtain es where "eq_list (slv c') = eq_list (slv ex_core) @ map stored es"
    "\<forall>e \<in> set es. tdeg_le (from_pos 1) 1 e" by (auto simp: ex_vars_def)
  moreover have "eq_list (slv ex_core) = []"
    by (simp add: ex_core_def core_new_def add_lhs_def add_rhs_def set_max_degree_def solver_new_def)
  moreover have "length (eq_list (slv c')) = 2" by (simp add: run(2) ex_prepared_def)
  ultimately show ?thesis using run(1) by (metis append_Nil length_map)
qed

text \<open>A first hypothesis of degree 0 that mentions a symbol of the conclusion.\<close>

definition stuck :: "'a handelman_core \<Rightarrow> u32 list \<Rightarrow> int \<Rightarrow> bool" where
  "stuck c ids d \<longleftrightarrow>
     (\<exists>l ls ds. lhs c = l # ls \<and> lhs_degree c = 0 # ds \<and> cmp_poly ids l) \<and> d \<le> max_deg c \<and> in_int_range d"

lemma gen_loop_not_stuck:
  assumes "gen_loop c ids d j ans st = Some r"
  shows "\<not> (j = 0 \<and> stuck c ids d)"
proof (rule gen_loop.raw_induct[where P = "\<lambda>c ids d j ans st r. \<not> (j = 0 \<and> stuck c ids d)", OF _ assms], goal_cases)
  case (1 rec c ids d j ans st r)
  show ?case
  proof
    assume st: "j = 0 \<and> stuck c ids d"
    then have "int_add d (lhs_degree c ! 0) = Inr d" by (auto simp: stuck_def int_add_def)
    with st 1(2) obtain r' where "rec c ids d 0 (new_const 0 False) st = Some r'"
      by (auto simp: stuck_def bind_eq_Some_conv)
    with 1(1) st show False by blast
  qed
qed

text \<open>
  C13: The recursion of \<^verbatim>\<open>gen_pol\<close> does not end for a first hypothesis of degree 0 that shares a
  symbol with the conclusion, such as a hypothesis about a template alone: \<^verbatim>\<open>get_degree(false)\<close>
  is 0 there and the recursive call has the arguments of its caller.
\<close>

theorem gen_pol_diverges:
  assumes "stuck c ids d"
  shows "gen_pol c d 0 ids st = None"
proof (cases "gen_pol c d 0 ids st")
  case (Some r)
  then have "gen_loop c ids d 0 (new_const 0 False) st = Some r" by (simp add: gen_pol_def)
  with gen_loop_not_stuck[of c ids d 0 "new_const 0 False" st r] assms show ?thesis by blast
qed simp

theorem gen_pol_diverges_witness:
  "gen_pol (make_deg_arr (add_lhs ex_t (core_new ex_vars))) 0 0 (ret_id_arr ex_t) (ex_vars, solver_new ex_vars) = None"
proof (rule gen_pol_diverges)
  show "stuck (make_deg_arr (add_lhs ex_t (core_new ex_vars))) (ret_id_arr ex_t) 0"
    by (simp add: stuck_def make_deg_arr_def add_lhs_def core_new_def kept_def new_symbol_def in_int_range_def)
qed

end
