(* ===== verification/Gurobi.thy ===== *)
theory Gurobi
  imports Handelman_Sound
begin

text \<open>
  The linear back end: \<^verbatim>\<open>GRBLinExpr\<close> of \<^verbatim>\<open>LinExpr.cpp\<close>, the translation
  \<^verbatim>\<open>print_sym_GRB\<close> with its helper \<^verbatim>\<open>eval_sym_GRB\<close>, and the branch \<^verbatim>\<open>"GRB"\<close> of
  \<^verbatim>\<open>solver::solve\<close>.  The optimizer is a parameter; all its variables are non-negative.
\<close>

subsection \<open>Linear expressions\<close>

record 'a linexpr =
  lconstant :: 'a
  coeffs :: "'a list"
  lvars :: "nat list"

definition lin_const :: "'a \<Rightarrow> 'a linexpr" where
  "lin_const xconstant = \<lparr>lconstant = xconstant, coeffs = [], lvars = []\<rparr>"

definition lin_var :: "nat \<Rightarrow> ('a::{zero, one}) linexpr" where
  "lin_var x = \<lparr>lconstant = 0, coeffs = [1], lvars = [x]\<rparr>"

definition multAdd :: "('a::{zero, one, plus, times}) \<Rightarrow> 'a linexpr \<Rightarrow> 'a linexpr \<Rightarrow> 'a linexpr" where
  "multAdd m expr this =
     (if m = 0 then this
      else this\<lparr>coeffs := coeffs this @ (if m = 1 then coeffs expr else map (\<lambda>c. m * c) (coeffs expr)),
                lvars := lvars this @ lvars expr, lconstant := lconstant this + m * lconstant expr\<rparr>)"

definition lin_plus :: "('a::{zero, one, plus, times}) linexpr \<Rightarrow> 'a linexpr \<Rightarrow> 'a linexpr" where
  "lin_plus this rhs = multAdd 1 rhs this"

definition lin_minus :: "('a::{zero, one, plus, times, uminus}) linexpr \<Rightarrow> 'a linexpr \<Rightarrow> 'a linexpr" where
  "lin_minus this rhs = multAdd (- 1) rhs this"

definition lin_times :: "('a::times) \<Rightarrow> 'a linexpr \<Rightarrow> 'a linexpr" where
  "lin_times a this = this\<lparr>lconstant := lconstant this * a, coeffs := map (\<lambda>c. c * a) (coeffs this)\<rparr>"

definition lin_remove :: "int \<Rightarrow> 'a linexpr \<Rightarrow> 'a linexpr result" where
  "lin_remove i this =
     (if i < 0 \<or> i \<ge> int (length (lvars this)) then Inl (Throw ''invalid arguments'')
      else Inr (this\<lparr>coeffs := take (nat i) (coeffs this) @ drop (Suc (nat i)) (coeffs this),
                     lvars := take (nat i) (lvars this) @ drop (Suc (nat i)) (lvars this)\<rparr>))"

definition lin_clear :: "('a::zero) linexpr" where
  "lin_clear = \<lparr>lconstant = 0, coeffs = [], lvars = []\<rparr>"

text \<open>\<^verbatim>\<open>getValue\<close> at given values of the variables, and the class invariant.\<close>

definition lin_val :: "(nat \<Rightarrow> 'a::comm_ring_1) \<Rightarrow> 'a linexpr \<Rightarrow> 'a" where
  "lin_val x l = foldl (\<lambda>value (c, i). value + c * x i) (lconstant l) (zip (coeffs l) (lvars l))"

definition lin_ok :: "'a linexpr \<Rightarrow> bool" where
  "lin_ok l \<longleftrightarrow> length (coeffs l) = length (lvars l)"

lemma foldl_sum:
  "foldl (\<lambda>value (c, i). value + c * x i) a cs = a + (\<Sum>(c, i)\<leftarrow>cs. c * x i :: 'a::comm_ring_1)"
  by (induction cs arbitrary: a) (auto simp: algebra_simps)

lemma lin_val_sum: "lin_val x l = lconstant l + (\<Sum>(c, i)\<leftarrow>zip (coeffs l) (lvars l). c * x i)"
  by (simp add: lin_val_def foldl_sum)

lemma zip_map_scale: "(\<Sum>(c, i)\<leftarrow>zip (map f cs) is. c * x i) = (\<Sum>(c, i)\<leftarrow>zip cs is. f c * x i)"
  by (induction cs "is" rule: list_induct2') auto

lemma sum_scale: "(\<Sum>(c, i)\<leftarrow>cs. m * c * x i) = m * (\<Sum>(c, i)\<leftarrow>cs. c * x i :: 'a::comm_ring_1)"
  by (induction cs) (auto simp: algebra_simps)

lemma lin_const_ok [simp]: "lin_ok (lin_const c)" "lin_val x (lin_const c) = c"
  by (simp_all add: lin_ok_def lin_const_def lin_val_def)

lemma lin_var_ok [simp]: "lin_ok (lin_var i)" "lin_val x (lin_var i) = x i"
  by (simp_all add: lin_ok_def lin_var_def lin_val_def)

lemma multAdd_ok:
  fixes l l' :: "'a::comm_ring_1 linexpr"
  assumes "lin_ok l" and "lin_ok l'"
  shows "lin_ok (multAdd m l l')" and "lin_val x (multAdd m l l') = lin_val x l' + m * lin_val x l"
proof -
  show "lin_ok (multAdd m l l')" using assms by (simp add: multAdd_def lin_ok_def)
  show "lin_val x (multAdd m l l') = lin_val x l' + m * lin_val x l"
    using assms by (auto simp: multAdd_def lin_ok_def lin_val_sum zip_map_scale sum_scale distrib_left add.assoc add.left_commute)
qed

lemma lin_plus_ok:
  fixes l l' :: "'a::comm_ring_1 linexpr"
  assumes "lin_ok l" and "lin_ok l'"
  shows "lin_ok (lin_plus l l')" and "lin_val x (lin_plus l l') = lin_val x l + lin_val x l'"
  using multAdd_ok[OF assms(2,1), where m = 1] by (simp_all add: lin_plus_def)

lemma lin_times_ok:
  fixes l :: "'a::comm_ring_1 linexpr"
  assumes "lin_ok l"
  shows "lin_ok (lin_times a l)" and "lin_val x (lin_times a l) = lin_val x l * a"
proof -
  show "lin_ok (lin_times a l)" using assms by (simp add: lin_times_def lin_ok_def)
  have "(\<Sum>(c, i)\<leftarrow>zip (coeffs l) (lvars l). c * a * x i) = (\<Sum>(c, i)\<leftarrow>zip (coeffs l) (lvars l). c * x i) * a"
    using sum_scale[of a x] by (simp add: mult.commute mult.left_commute)
  then show "lin_val x (lin_times a l) = lin_val x l * a"
    by (simp add: lin_times_def lin_val_sum zip_map_scale algebra_simps)
qed

subsection \<open>Polynomials as linear expressions\<close>

text \<open>
  \<^verbatim>\<open>eval_sym_GRB\<close> is the value of a polynomial all of whose symbols are substituted; a
  symbol that is not is read as 1 (the program then prints a warning).
\<close>

fun eval_sym_GRB :: "(int \<times> ('a::{zero, plus, times, power})) list \<Rightarrow> 'a multinomial \<Rightarrow> 'a" where
  "eval_sym_GRB sub_map (MConst s c) = c"
| "eval_sym_GRB sub_map (MNode s k m) =
     foldl (\<lambda>ans (e, temp).
         if e = 0 then ans + temp
         else (case mp_find sub_map (id_key (get_id k)) of
                 None \<Rightarrow> ans + temp
               | Some v \<Rightarrow> ans + temp * v ^ unat e)) 0
       (map (\<lambda>(e, p). (e, eval_sym_GRB sub_map p)) m)"

text \<open>One summand of \<^verbatim>\<open>print_sym_GRB\<close>; \<open>rec\<close> is the recursive translation of the coefficient \<open>p\<close>.\<close>

definition grb_term :: "nat list \<Rightarrow> (int \<times> 'a) list \<Rightarrow> symbol \<Rightarrow> u16 \<Rightarrow> ('a::{zero, one, plus, times, power}) multinomial
    \<Rightarrow> 'a linexpr result \<Rightarrow> 'a linexpr result" where
  "grb_term e_GRB sub_map k e p rec =
     (if e = 0 then rec
      else
        (case mp_find sub_map (id_key (get_id k)) of
           None \<Rightarrow>
             if unat (get_id k) < length e_GRB
             then Inr (lin_times (eval_sym_GRB sub_map p) (lin_var (e_GRB ! unat (get_id k))))
             else Inl Undefined
         | Some v \<Rightarrow> bindR rec (\<lambda>temp. Inr (lin_times (v ^ unat e) temp))))"

fun print_sym_GRB :: "nat list \<Rightarrow> (int \<times> 'a) list \<Rightarrow> ('a::{zero, one, plus, times, power}) multinomial \<Rightarrow> 'a linexpr result" where
  "print_sym_GRB e_GRB sub_map (MConst s c) = Inr (lin_const c)"
| "print_sym_GRB e_GRB sub_map (MNode s k m) =
     foldR (\<lambda>(e, p, rec) ans. bindR (grb_term e_GRB sub_map k e p rec) (\<lambda>t. Inr (lin_plus ans t)))
       (map (\<lambda>(e, p). (e, p, print_sym_GRB e_GRB sub_map p)) m) (lin_const 0)"

text \<open>The point that the substitution and the values of the remaining variables describe.\<close>

definition grb_val :: "nat list \<Rightarrow> (int \<times> 'a) list \<Rightarrow> (nat \<Rightarrow> 'a) \<Rightarrow> u32 \<Rightarrow> 'a" where
  "grb_val e_GRB sub_map x i =
     (case mp_find sub_map (id_key i) of None \<Rightarrow> x (e_GRB ! unat i) | Some v \<Rightarrow> v)"

text \<open>The symbols in \<open>T\<close> are the unknowns, all others are substituted.\<close>

definition split_syms :: "nat list \<Rightarrow> (int \<times> 'a) list \<Rightarrow> u32 set \<Rightarrow> 'a multinomial \<Rightarrow> bool" where
  "split_syms e_GRB sub_map T p \<longleftrightarrow>
     (\<forall>k \<in> set (symbols p). unat (get_id k) < length e_GRB
        \<and> (get_id k \<in> T \<longleftrightarrow> mp_find sub_map (id_key (get_id k)) = None))"

lemma split_syms_child: "split_syms e sub_map T (MNode s k m) \<Longrightarrow> (ex, p) \<in> set m \<Longrightarrow> split_syms e sub_map T p"
  by (auto simp: split_syms_def)

lemma foldl_msum:
  assumes "\<And>e q a. (e, q) \<in> set m \<Longrightarrow> f a (e, q) = a + g e q"
  shows "foldl f (a :: 'a::comm_monoid_add) m = a + msum g m"
  using assms by (induction m arbitrary: a) (auto simp: ac_simps)

lemma eval_sym_GRB_eval:
  fixes p :: "'a::comm_ring_1 multinomial"
  assumes "tdeg_le T 0 p" and "split_syms e sub_map T p"
  shows "eval_sym_GRB sub_map p = eval (grb_val e sub_map x) p"
  using assms
proof (induction p rule: multinomial_induct)
  case (Node s k m)
  let ?v = "grb_val e sub_map x"
  have ih: "eval_sym_GRB sub_map q = eval ?v q" if "(ex, q) \<in> set m" for ex q
    using tdeg.good_child[OF Node.prems(1) that] split_syms_child[OF Node.prems(2) that] Node.IH[OF that]
    by (auto split: if_splits)
  have T: "get_id k \<in> T \<longleftrightarrow> mp_find sub_map (id_key (get_id k)) = None"
    using Node.prems(2) by (simp add: split_syms_def)
  have "foldl (\<lambda>ans (e, temp). if e = 0 then ans + temp
         else (case mp_find sub_map (id_key (get_id k)) of None \<Rightarrow> ans + temp | Some v \<Rightarrow> ans + temp * v ^ unat e)) 0
       (map (\<lambda>(e, p). (e, eval_sym_GRB sub_map p)) m)
     = 0 + msum (\<lambda>ex t. if ex = 0 then t else ?v (get_id k) ^ unat ex * t) (map (\<lambda>(e, p). (e, eval_sym_GRB sub_map p)) m)"
  proof (rule foldl_msum)
    fix ex t a assume "(ex, t) \<in> set (map (\<lambda>(e, p). (e, eval_sym_GRB sub_map p)) m)"
    then obtain q where q: "(ex, q) \<in> set m" by auto
    have "ex = 0 \<or> get_id k \<notin> T" using tdeg.good_child[OF Node.prems(1) q] by (auto simp: unat_eq_0)
    then show "(case (ex, t) of (e, temp) \<Rightarrow> if e = 0 then a + temp
         else (case mp_find sub_map (id_key (get_id k)) of None \<Rightarrow> a + temp | Some v \<Rightarrow> a + temp * v ^ unat e))
       = a + (if ex = 0 then t else ?v (get_id k) ^ unat ex * t)"
      using T by (auto simp: grb_val_def mult.commute)
  qed
  also have "\<dots> = msum (\<lambda>ex q. ?v (get_id k) ^ unat ex * eval ?v q) m"
    using ih by (auto simp: msum_map_snd intro!: msum_cong)
  finally show ?case by simp
qed simp

lemma foldR_lin_sum:
  fixes h :: "u16 \<Rightarrow> 'a::comm_ring_1 multinomial \<Rightarrow> 'a"
  assumes "lin_ok a" and "\<And>ex q. (ex, q) \<in> set m \<Longrightarrow> \<exists>t. g ex q = Inr t \<and> lin_ok t \<and> lin_val x t = h ex q"
  shows "\<exists>l. foldR (\<lambda>(ex, q) ans. bindR (g ex q) (\<lambda>t. Inr (lin_plus ans t))) m a = Inr l
           \<and> lin_ok l \<and> lin_val x l = lin_val x a + msum h m"
  using assms
proof (induction m arbitrary: a)
  case (Cons y m)
  obtain ex q where y: "y = (ex, q)" by force
  from Cons.prems(2)[of ex q] obtain t where t: "g ex q = Inr t" "lin_ok t" "lin_val x t = h ex q" by (auto simp: y)
  note p = lin_plus_ok[OF Cons.prems(1) t(2)]
  from Cons.IH[OF p(1)] Cons.prems(2) obtain l where
    "foldR (\<lambda>(ex, q) ans. bindR (g ex q) (\<lambda>t. Inr (lin_plus ans t))) m (lin_plus a t) = Inr l"
    "lin_ok l" "lin_val x l = lin_val x (lin_plus a t) + msum h m" by (metis list.set_intros(2))
  then show ?case by (simp add: y t p(2) algebra_simps)
qed simp

lemma foldR_map: "foldR f (map g xs) s = foldR (\<lambda>x. f (g x)) xs s"
  by (induction xs arbitrary: s) (auto simp: bindR_def split: sum.splits)

lemma print_sym_GRB_eval:
  fixes p :: "'a::comm_ring_1 multinomial"
  assumes "tdeg_le T 1 p" and "split_syms e sub_map T p"
  shows "\<exists>l. print_sym_GRB e sub_map p = Inr l \<and> lin_ok l \<and> lin_val x l = eval (grb_val e sub_map x) p"
  using assms
proof (induction p rule: multinomial_induct)
  case (Node s k m)
  let ?v = "grb_val e sub_map x"
  let ?g = "\<lambda>ex q. grb_term e sub_map k ex q (print_sym_GRB e sub_map q)"
  have k: "unat (get_id k) < length e" "get_id k \<in> T \<longleftrightarrow> mp_find sub_map (id_key (get_id k)) = None"
    using Node.prems(2) by (simp_all add: split_syms_def)
  have "\<exists>t. ?g ex q = Inr t \<and> lin_ok t \<and> lin_val x t = ?v (get_id k) ^ unat ex * eval ?v q" if q: "(ex, q) \<in> set m" for ex q
  proof -
    note ch = tdeg.good_child[OF Node.prems(1) q] and sp = split_syms_child[OF Node.prems(2) q]
    show ?thesis
    proof (cases "ex = 0 \<or> get_id k \<notin> T")
      case True
      then have "tdeg_le T 1 q" using ch by auto
      from Node.IH[OF q this sp] obtain l where "print_sym_GRB e sub_map q = Inr l" "lin_ok l" "lin_val x l = eval ?v q" by blast
      with True k(2) show ?thesis by (auto simp: grb_term_def lin_times_ok grb_val_def mult.commute)
    next
      case False
      then have "0 < unat ex" "unat ex \<le> 1" "tdeg_le T (1 - unat ex) q" using ch by (auto simp: unat_gt_0)
      then have ex: "unat ex = 1" and q0: "tdeg_le T 0 q" by auto
      have "lin_val x (lin_times (eval_sym_GRB sub_map q) (lin_var (e ! unat (get_id k)))) = ?v (get_id k) * eval ?v q"
        using False k(2) eval_sym_GRB_eval[OF q0 sp, of x] by (simp add: lin_times_ok grb_val_def)
      with False k ex show ?thesis by (auto simp: grb_term_def lin_times_ok)
    qed
  qed
  from foldR_lin_sum[where g = ?g and m = m and a = "lin_const 0" and x = x, OF _ this] show ?case
    by (auto simp: foldR_map case_prod_unfold)
qed auto

subsection \<open>The linear query\<close>

datatype grb_sense = GE | LE

datatype grb_status = OPTIMAL | OTHER_STATUS

text \<open>
  The branch \<^verbatim>\<open>"GRB"\<close>: one variable per entry of the table, bounded below by 0, one
  constraint per inequality and two per equation, and a zero objective.  The optimizer gets
  the number of variables and the constraints \<^verbatim>\<open>e >= 0\<close>, \<^verbatim>\<open>e <= 0\<close>.
\<close>

type_synonym 'a optimizer = "nat \<Rightarrow> ('a linexpr \<times> grb_sense) list \<Rightarrow> grb_status"

definition grb_constraints :: "nat \<Rightarrow> (int \<times> 'a) list \<Rightarrow> ('a::{zero, one, plus, times, power}) solver
    \<Rightarrow> ('a linexpr \<times> grb_sense) list result" where
  "grb_constraints n sub_map s =
     bindR (mapR (print_sym_GRB [0..<n] sub_map) (ineq_list s)) (\<lambda>is.
     bindR (mapR (print_sym_GRB [0..<n] sub_map) (eq_list s)) (\<lambda>es.
       Inr (map (\<lambda>e. (e, GE)) is @ concat (map (\<lambda>e. [(e, GE), (e, LE)]) es))))"

definition solve_GRB :: "('a::{zero, one, plus, times, power}) optimizer \<Rightarrow> 'b vars \<Rightarrow> (int \<times> 'a) list \<Rightarrow> 'a solver \<Rightarrow> bool result" where
  "solve_GRB optimize v sub_map s =
     bindR (grb_constraints (vars_sz v) sub_map s) (\<lambda>cs. Inr (optimize (vars_sz v) cs = OPTIMAL))"

fun lin_holds :: "(nat \<Rightarrow> 'a::linordered_idom) \<Rightarrow> 'a linexpr \<times> grb_sense \<Rightarrow> bool" where
  "lin_holds x (l, GE) = (0 \<le> lin_val x l)"
| "lin_holds x (l, LE) = (lin_val x l \<le> 0)"

text \<open>
  What the program relies on: the status \<^verbatim>\<open>OPTIMAL\<close> of a model with a constant objective
  means that its constraints have a solution with non-negative variables.
\<close>

definition feasible :: "nat \<Rightarrow> (('a::linordered_idom) linexpr \<times> grb_sense) list \<Rightarrow> bool" where
  "feasible n cs \<longleftrightarrow> (\<exists>x. (\<forall>i < n. 0 \<le> x i) \<and> (\<forall>c \<in> set cs. lin_holds x c))"

definition optimizer_ok :: "('a::linordered_idom) optimizer \<Rightarrow> bool" where
  "optimizer_ok optimize \<longleftrightarrow> (\<forall>n cs. optimize n cs = OPTIMAL \<longleftrightarrow> feasible n cs)"

text \<open>The store is linear in the symbols the substitution leaves open.\<close>

definition grb_linear :: "nat \<Rightarrow> (int \<times> 'a) list \<Rightarrow> u32 set \<Rightarrow> ('a::linordered_idom) solver \<Rightarrow> bool" where
  "grb_linear n sub_map T s \<longleftrightarrow>
     (\<forall>p \<in> set (store_polys s). tdeg_le T 1 p \<and> split_syms [0..<n] sub_map T p)"

definition sat_at :: "(u32 \<Rightarrow> 'a::linordered_idom) \<Rightarrow> 'a solver \<Rightarrow> bool" where
  "sat_at \<tau> s \<longleftrightarrow> (\<forall>q \<in> set (eq_list s). eval \<tau> q = 0) \<and> (\<forall>q \<in> set (ineq_list s). 0 \<le> eval \<tau> q)"

lemma mapR_print_GRB:
  fixes ps :: "'a::linordered_idom multinomial list"
  assumes "\<And>p. p \<in> set ps \<Longrightarrow> tdeg_le T 1 p \<and> split_syms e sub_map T p"
  shows "\<exists>ls. mapR (print_sym_GRB e sub_map) ps = Inr ls
           \<and> (\<forall>x. map (lin_val x) ls = map (eval (grb_val e sub_map x)) ps)"
  using assms
proof (induction ps)
  case (Cons p ps)
  from Cons.prems[of p] have p: "tdeg_le T 1 p" "split_syms e sub_map T p" by auto
  from print_sym_GRB_eval[OF p] obtain l where l: "print_sym_GRB e sub_map p = Inr l" by blast
  have v: "lin_val x l = eval (grb_val e sub_map x) p" for x using print_sym_GRB_eval[OF p, of x] l by auto
  obtain ls where ls: "mapR (print_sym_GRB e sub_map) ps = Inr ls"
    and vs: "\<And>x. map (lin_val x) ls = map (eval (grb_val e sub_map x)) ps"
    using Cons.IH[OF Cons.prems] by auto
  have "mapR (print_sym_GRB e sub_map) (p # ps) = Inr (l # ls)" using l ls by simp
  moreover have "map (lin_val x) (l # ls) = map (eval (grb_val e sub_map x)) (p # ps)" for x using v vs by simp
  ultimately show ?case by blast
qed simp

lemma all_map_iff: "map f xs = map g ys \<Longrightarrow> (\<forall>x \<in> set xs. P (f x)) \<longleftrightarrow> (\<forall>y \<in> set ys. P (g y))"
  by (metis (mono_tags, lifting) image_eqI image_iff list.set_map)

lemma solve_GRB_spec:
  fixes s :: "'a::linordered_idom solver"
  assumes lin: "grb_linear (vars_sz v) sub_map T s" and opt: "optimizer_ok optimize"
  shows "\<exists>b. solve_GRB optimize v sub_map s = Inr b
           \<and> (b \<longleftrightarrow> (\<exists>x. (\<forall>i < vars_sz v. 0 \<le> x i) \<and> sat_at (grb_val [0..<vars_sz v] sub_map x) s))"
proof -
  let ?n = "vars_sz v"
  from lin have polys: "\<And>p. p \<in> set (eq_list s) \<union> set (ineq_list s) \<Longrightarrow> tdeg_le T 1 p \<and> split_syms [0..<?n] sub_map T p"
    by (auto simp: grb_linear_def store_polys_def)
  then obtain ls is' where ls: "mapR (print_sym_GRB [0..<?n] sub_map) (eq_list s) = Inr ls"
      "\<And>x. map (lin_val x) ls = map (eval (grb_val [0..<?n] sub_map x)) (eq_list s)"
    and is': "mapR (print_sym_GRB [0..<?n] sub_map) (ineq_list s) = Inr is'"
      "\<And>x. map (lin_val x) is' = map (eval (grb_val [0..<?n] sub_map x)) (ineq_list s)"
    using mapR_print_GRB[of "eq_list s" T "[0..<?n]" sub_map] mapR_print_GRB[of "ineq_list s" T "[0..<?n]" sub_map]
    by (metis UnCI)
  let ?cs = "map (\<lambda>e. (e, GE)) is' @ concat (map (\<lambda>e. [(e, GE), (e, LE)]) ls)"
  have cs: "grb_constraints ?n sub_map s = Inr ?cs" using ls(1) is'(1) by (simp add: grb_constraints_def)
  have "(\<forall>c \<in> set ?cs. lin_holds x c) \<longleftrightarrow> (\<forall>l \<in> set is'. 0 \<le> lin_val x l) \<and> (\<forall>l \<in> set ls. lin_val x l = 0)" for x
    by (auto simp: ball_Un order_antisym_conv)
  also have "\<dots> x \<longleftrightarrow> sat_at (grb_val [0..<?n] sub_map x) s" for x
    using all_map_iff[OF is'(2), of "\<lambda>y. 0 \<le> y" x] all_map_iff[OF ls(2), of "\<lambda>y. y = 0" x] by (auto simp: sat_at_def)
  finally have "feasible ?n ?cs \<longleftrightarrow> (\<exists>x. (\<forall>i < ?n. 0 \<le> x i) \<and> sat_at (grb_val [0..<?n] sub_map x) s)"
    by (simp add: feasible_def)
  with cs opt show ?thesis by (simp add: solve_GRB_def optimizer_ok_def)
qed

end
