(* ===== verification/Bounding_Box.thy ===== *)
theory Bounding_Box
  imports Gurobi
begin

text \<open>
  The class \<^verbatim>\<open>bounding_box\<close> of \<^verbatim>\<open>include/approximation.hpp\<close> and
  \<^verbatim>\<open>src/approximation.cpp\<close>: an axis-parallel box with its processing state and the
  verdicts of the constraints.  Its operations split, round, intersect and query boxes.
  Coordinates are finite doubles, taken as the rational numbers they are; sums and halves
  are exact.
\<close>

record bounding_box =
  coords :: "(double \<times> double) list"
  curr_state :: int
  curr_state_vec :: "int list"
  confidence :: int

definition box_new :: "(double \<times> double) list \<Rightarrow> bounding_box" where
  "box_new acoords = \<lparr>coords = acoords, curr_state = 0, curr_state_vec = [], confidence = 0\<rparr>"

text \<open>The points of a box.\<close>

definition in_coords :: "(double \<times> double) list \<Rightarrow> double list \<Rightarrow> bool" where
  "in_coords cs xs \<longleftrightarrow> list_all2 (\<lambda>(l, u) x. l \<le> x \<and> x \<le> u) cs xs"

abbreviation in_box :: "bounding_box \<Rightarrow> double list \<Rightarrow> bool" where
  "in_box b \<equiv> in_coords (coords b)"

subsection \<open>Rounding and validity\<close>

text \<open>The literal \<^verbatim>\<open>0.0001\<close> is the double nearest to it.\<close>

definition tick :: double where
  "tick = 7378697629483821 / 2 ^ 66"

definition round_coord :: "int \<Rightarrow> double \<times> double \<Rightarrow> double \<times> double" where
  "round_coord type c =
     (let l = of_int \<lceil>fst c\<rceil> in
      if snd c - of_int \<lfloor>snd c\<rfloor> < tick \<and> of_int \<lceil>l\<rceil> = (of_int \<lfloor>snd c\<rfloor> :: double) \<and> False then (l, l - 1)
      else if \<bar>snd c - of_int \<lfloor>snd c\<rfloor>\<bar> \<le> tick \<and> type = 0 then (l, of_int \<lfloor>snd c\<rfloor> - 1)
      else (l, of_int \<lfloor>snd c\<rfloor>))"

definition round_box :: "int \<Rightarrow> bounding_box \<Rightarrow> bounding_box" where
  "round_box type b = b\<lparr>coords := map (round_coord type) (coords b)\<rparr>"

definition not_valid :: "bounding_box \<Rightarrow> bool" where
  "not_valid b = list_ex (\<lambda>c. snd c < fst c) (coords b)"

subsection \<open>Splitting\<close>

text \<open>
  \<^verbatim>\<open>divide\<close> returns the new box and the box itself, which keeps the other half unless
  \<^verbatim>\<open>retain\<close>; a direction out of range is undefined.
\<close>

definition divide :: "int \<Rightarrow> int \<Rightarrow> bool \<Rightarrow> bounding_box \<Rightarrow> (bounding_box \<times> bounding_box) result" where
  "divide dir type retain b =
     (if 0 \<le> dir \<and> nat dir < length (coords b) then
        let d = nat dir; c = coords b ! d; temp = (snd c + fst c) * (1 / 2) in
        if type = 0 then
          Inr (box_new ((coords b)[d := (fst c, temp)]),
               if \<not> retain then b\<lparr>coords := (coords b)[d := (temp, snd c)]\<rparr> else b)
        else
          Inr (box_new ((coords b)[d := (temp, snd c)]),
               if \<not> retain then b\<lparr>coords := (coords b)[d := (fst c, temp)]\<rparr> else b)
      else Inl Undefined)"

definition modify :: "int \<Rightarrow> int \<Rightarrow> bounding_box \<Rightarrow> bounding_box result" where
  "modify dir type b =
     (if 0 \<le> dir \<and> nat dir < length (coords b) then
        let d = nat dir; c = coords b ! d; temp = (snd c + fst c) * (1 / 2) in
        Inr (b\<lparr>coords := (coords b)[d := (if type = 0 then (fst c, temp) else (temp, snd c))]\<rparr>)
      else Inl Undefined)"

definition len :: "int \<Rightarrow> bounding_box \<Rightarrow> double result" where
  "len dir b =
     (if 0 \<le> dir \<and> nat dir < length (coords b)
      then Inr (snd (coords b ! nat dir) - fst (coords b ! nat dir)) else Inl Undefined)"

definition norm_box :: "bounding_box \<Rightarrow> double" where
  "norm_box b = fold (\<lambda>c ans. max ans (snd c - fst c)) (coords b) (- 1)"

text \<open>The direction chosen before a split: the first of the longest sides.\<close>

definition longest_step :: "bounding_box \<Rightarrow> nat \<Rightarrow> int \<times> double \<Rightarrow> (int \<times> double) result" where
  "longest_step b dir = (\<lambda>(idx, mx_len).
     bindR (len (int dir) b) (\<lambda>l. Inr (if mx_len < l then (int dir, l) else (idx, mx_len))))"

definition longest :: "nat \<Rightarrow> bounding_box \<Rightarrow> int result" where
  "longest n_dir b = bindR (foldR (longest_step b) [0..<n_dir] (- 1, - 1)) (\<lambda>(idx, mx_len). Inr idx)"

subsection \<open>State vectors and confidence\<close>

definition init_curr_state_vec :: "nat \<Rightarrow> bounding_box \<Rightarrow> bounding_box" where
  "init_curr_state_vec n b = b\<lparr>curr_state_vec := replicate n 0\<rparr>"

text \<open>The copying overload asserts that the vector is empty.\<close>

definition copy_state_vec :: "int list \<Rightarrow> bounding_box \<Rightarrow> bounding_box result" where
  "copy_state_vec v b =
     (if curr_state_vec b = [] then Inr (b\<lparr>curr_state_vec := v\<rparr>) else Inl (Throw ''assert''))"

text \<open>
  \<^verbatim>\<open>recompute_confidence\<close> compares the signed sum with the unsigned size: a negative sum is
  converted to a huge number.
\<close>

definition recompute_confidence :: "bounding_box \<Rightarrow> bounding_box result" where
  "recompute_confidence b =
     (if curr_state_vec b = [] then Inl (Throw ''assert'')
      else
        (let s = sum_list (curr_state_vec b) in
         Inr (if (word_of_int s :: 64 word) \<ge> of_nat (length (curr_state_vec b)) - 1
              then b\<lparr>confidence := 1\<rparr> else b)))"

subsection \<open>Intersection\<close>

fun intersect_coords :: "(double \<times> double) list \<Rightarrow> (double \<times> double) list \<Rightarrow> (double \<times> double) list option result" where
  "intersect_coords [] cs = Inr (Some cs)"
| "intersect_coords (t # ts) [] = Inl Undefined"
| "intersect_coords (t # ts) (c # cs) =
     (let c' = (max (fst c) (fst t), min (snd c) (snd t)) in
      if snd c' \<le> fst c' then Inr None
      else bindR (intersect_coords ts cs) (\<lambda>r. Inr (map_option ((#) c') r)))"

definition intersect :: "bounding_box \<Rightarrow> bounding_box \<Rightarrow> bounding_box option result" where
  "intersect this b = bindR (intersect_coords (coords this) (coords b)) (\<lambda>r. Inr (map_option box_new r))"

subsection \<open>Lemmas on single coordinates\<close>

lemma in_coords_update:
  assumes "d < length cs"
  shows "in_coords (cs[d := (l, u)]) xs \<longleftrightarrow>
     length xs = length cs \<and> (\<forall>i < length cs. i \<noteq> d \<longrightarrow> fst (cs ! i) \<le> xs ! i \<and> xs ! i \<le> snd (cs ! i))
     \<and> l \<le> xs ! d \<and> xs ! d \<le> u"
  using assms by (auto simp: in_coords_def list_all2_conv_all_nth nth_list_update case_prod_unfold)

lemma in_coords_nth:
  "in_coords cs xs \<longleftrightarrow> length xs = length cs \<and> (\<forall>i < length cs. fst (cs ! i) \<le> xs ! i \<and> xs ! i \<le> snd (cs ! i))"
  by (auto simp: in_coords_def list_all2_conv_all_nth case_prod_unfold)

lemma divide_Inr:
  assumes "divide dir type False b = Inr (n, b')"
  shows "in_box b xs \<Longrightarrow> in_box n xs \<or> in_box b' xs"
    and "\<forall>c \<in> set (coords b). fst c \<le> snd c \<Longrightarrow> in_box n xs \<or> in_box b' xs \<Longrightarrow> in_box b xs"
proof -
  from assms obtain d where d: "d = nat dir" "d < length (coords b)" by (auto simp: divide_def split: if_splits)
  obtain l u where c: "coords b ! d = (l, u)" by force
  let ?m = "(u + l) * (1 / 2)" and ?L = "(coords b)[d := (l, (u + l) * (1 / 2))]" and ?R = "(coords b)[d := ((u + l) * (1 / 2), u)]"
  have nb: "coords n = ?L \<and> coords b' = ?R \<or> coords n = ?R \<and> coords b' = ?L"
    using assms c d by (auto simp: divide_def Let_def box_new_def split: if_splits)
  have "(coords b)[d := (l, u)] = coords b" using c by (metis list_update_id)
  then have whole: "in_coords (coords b) xs \<longleftrightarrow> in_coords ((coords b)[d := (l, u)]) xs" by simp
  note upd = in_coords_update[OF d(2)]
  show "in_box n xs \<or> in_box b' xs" if "in_box b xs"
    using that nb unfolding whole upd by (elim disjE) (auto simp: upd)
  assume v: "\<forall>c \<in> set (coords b). fst c \<le> snd c"
  then have "l \<le> u" using nth_mem[OF d(2)] c by fastforce
  then have "l \<le> ?m" "?m \<le> u" by simp_all
  then show "in_box b xs" if "in_box n xs \<or> in_box b' xs"
    using that nb unfolding whole upd by (elim disjE) (auto simp: upd)
qed

lemma divide_total:
  assumes "0 \<le> dir" and "nat dir < length (coords b)"
  shows "\<exists>n b'. divide dir type retain b = Inr (n, b')"
  using assms by (simp add: divide_def Let_def)

lemma divide_keeps:
  assumes "divide dir type retain b = Inr (n, b')"
  shows "length (coords n) = length (coords b)" and "length (coords b') = length (coords b)"
    and "curr_state_vec b' = curr_state_vec b" and "confidence b' = confidence b" and "curr_state_vec n = []" and "confidence n = 0"
  using assms by (auto simp: divide_def Let_def box_new_def split: if_splits)

lemma divide_valid:
  assumes "divide dir type False b = Inr (n, b')" and "\<forall>c \<in> set (coords b). fst c \<le> snd c"
  shows "\<forall>c \<in> set (coords n) \<union> set (coords b'). fst c \<le> snd c"
proof -
  from assms(1) obtain d where d: "d = nat dir" "d < length (coords b)" by (auto simp: divide_def split: if_splits)
  obtain l u where c: "coords b ! d = (l, u)" by force
  then have "l \<le> u" using assms(2) nth_mem[OF d(2)] by fastforce
  moreover have "set (coords n) \<union> set (coords b')
      \<subseteq> insert (l, (u + l) * (1 / 2)) (insert ((u + l) * (1 / 2), u) (set (coords b)))"
    using assms(1) c d by (auto simp: divide_def Let_def box_new_def split: if_splits dest!: set_update_subset_insert[THEN subsetD])
  ultimately show ?thesis using assms(2) by fastforce
qed

subsection \<open>Integer points\<close>

definition int_point :: "double list \<Rightarrow> bool" where
  "int_point xs \<longleftrightarrow> (\<forall>x \<in> set xs. \<exists>i. x = of_int i)"

lemma round_coord_1: "round_coord 1 c = (of_int \<lceil>fst c\<rceil>, of_int \<lfloor>snd c\<rfloor>)"
  by (simp add: round_coord_def Let_def)

lemma round_box_int_points:
  assumes "int_point xs"
  shows "in_box (round_box 1 b) xs \<longleftrightarrow> in_box b xs"
proof -
  have "of_int \<lceil>l\<rceil> \<le> x \<longleftrightarrow> l \<le> x" "x \<le> of_int \<lfloor>l\<rfloor> \<longleftrightarrow> x \<le> l" if "x \<in> set xs" for x l
    using that assms by (auto simp: int_point_def ceiling_le_iff le_floor_iff)
  then show ?thesis by (auto simp: in_coords_nth round_box_def round_coord_1)
qed

lemma in_coords_Cons: "in_coords ((l, u) # cs) xs \<longleftrightarrow> (\<exists>y ys. xs = y # ys \<and> l \<le> y \<and> y \<le> u \<and> in_coords cs ys)"
  by (auto simp: in_coords_def list_all2_Cons1)

lemma not_valid_empty: "not_valid b \<longleftrightarrow> (\<forall>xs. \<not> in_box b xs)"
proof -
  have "list_ex (\<lambda>c. snd c < fst c) cs \<longleftrightarrow> (\<forall>xs. \<not> in_coords cs xs)" for cs
  proof (induction cs)
    case Nil
    have "in_coords [] []" by (simp add: in_coords_def)
    then show ?case by auto
  next
    case (Cons c cs)
    obtain l u where c: "c = (l, u)" by force
    show ?case using Cons.IH unfolding c by (auto simp: in_coords_Cons not_le intro: order_refl)
  qed
  then show ?thesis by (simp add: not_valid_def)
qed

subsection \<open>Intersection, longest side, confidence\<close>

lemma intersect_coords_spec:
  assumes "length ts = length cs"
  shows "\<exists>r. intersect_coords ts cs = Inr r
     \<and> (\<forall>is. r = Some is \<longrightarrow> length is = length cs \<and> (\<forall>xs. in_coords is xs \<longleftrightarrow> in_coords ts xs \<and> in_coords cs xs))
     \<and> (r = None \<longrightarrow> (\<exists>i < length cs. min (snd (cs ! i)) (snd (ts ! i)) \<le> max (fst (cs ! i)) (fst (ts ! i))))"
  using assms
proof (induction ts cs rule: intersect_coords.induct)
  case (1 cs)
  then show ?case by (simp add: in_coords_def)
next
  case (3 t ts c cs)
  let ?c = "(max (fst c) (fst t), min (snd c) (snd t))"
  obtain l u l' u' where tc: "t = (l, u)" "c = (l', u')" by force
  show ?case
  proof (cases "snd ?c \<le> fst ?c")
    case True
    then show ?thesis by (intro exI[of _ None]) (auto simp: Let_def intro!: exI[of _ 0])
  next
    case False
    with 3 obtain r where r: "intersect_coords ts cs = Inr r"
      "\<And>is. r = Some is \<Longrightarrow> length is = length cs \<and> (\<forall>xs. in_coords is xs \<longleftrightarrow> in_coords ts xs \<and> in_coords cs xs)"
      "r = None \<Longrightarrow> \<exists>i < length cs. min (snd (cs ! i)) (snd (ts ! i)) \<le> max (fst (cs ! i)) (fst (ts ! i))" by auto
    have "intersect_coords (t # ts) (c # cs) = Inr (map_option ((#) ?c) r)" using False r(1) by (simp add: Let_def)
    moreover have "length is = length (c # cs) \<and> (\<forall>xs. in_coords is xs \<longleftrightarrow> in_coords (t # ts) xs \<and> in_coords (c # cs) xs)"
      if "map_option ((#) ?c) r = Some is" for "is"
      using that r(2) by (auto simp: in_coords_Cons tc)
    moreover have "\<exists>i < length (c # cs). min (snd ((c # cs) ! i)) (snd ((t # ts) ! i)) \<le> max (fst ((c # cs) ! i)) (fst ((t # ts) ! i))"
      if "map_option ((#) ?c) r = None"
      using that r(3) by auto
    ultimately show ?thesis by blast
  qed
qed simp

lemma longest_fold:
  assumes "n \<le> length (coords b)"
  shows "\<exists>idx mx. foldR (longest_step b) [0..<n] (- 1, - 1) = Inr (idx, mx)
     \<and> mx = fold (\<lambda>c ans. max ans (snd c - fst c)) (take n (coords b)) (- 1)
     \<and> (idx = - 1 \<and> mx = - 1 \<or> 0 \<le> idx \<and> nat idx < n \<and> mx = snd (coords b ! nat idx) - fst (coords b ! nat idx))"
  using assms
proof (induction n)
  case (Suc n)
  then obtain idx mx where ih: "foldR (longest_step b) [0..<n] (- 1, - 1) = Inr (idx, mx)"
    "mx = fold (\<lambda>c ans. max ans (snd c - fst c)) (take n (coords b)) (- 1)"
    "idx = - 1 \<and> mx = - 1 \<or> 0 \<le> idx \<and> nat idx < n \<and> mx = snd (coords b ! nat idx) - fst (coords b ! nat idx)" by auto
  let ?l = "snd (coords b ! n) - fst (coords b ! n)"
  have "len (int n) b = Inr ?l" using Suc.prems by (simp add: len_def)
  then have "foldR (longest_step b) [0..<Suc n] (- 1, - 1) = Inr (if mx < ?l then (int n, ?l) else (idx, mx))"
    by (simp add: foldR_append ih(1) longest_step_def)
  moreover have "take (Suc n) (coords b) = take n (coords b) @ [coords b ! n]" using Suc.prems by (simp add: take_Suc_conv_app_nth)
  ultimately show ?case using ih(2,3) by (auto simp: max_def)
qed simp

lemma longest_spec:
  assumes "c \<in> set (coords b)" and "fst c \<le> snd c"
  shows "\<exists>idx. longest (length (coords b)) b = Inr idx \<and> 0 \<le> idx \<and> nat idx < length (coords b)
     \<and> snd (coords b ! nat idx) - fst (coords b ! nat idx) = norm_box b"
proof -
  from longest_fold[of "length (coords b)" b] obtain idx mx where
    r: "foldR (longest_step b) [0..<length (coords b)] (- 1, - 1) = Inr (idx, mx)" and mx: "mx = norm_box b"
    and alt: "idx = - 1 \<and> mx = - 1 \<or> 0 \<le> idx \<and> nat idx < length (coords b) \<and> mx = snd (coords b ! nat idx) - fst (coords b ! nat idx)"
    by (auto simp: norm_box_def)
  have "c \<in> set cs \<Longrightarrow> snd c - fst c \<le> fold (\<lambda>c ans. max ans (snd c - fst c)) cs a" for cs a
  proof (induction cs arbitrary: a)
    case (Cons x cs)
    have "a \<le> fold (\<lambda>c ans. max ans (snd c - fst c)) cs a" for a
      by (induction cs arbitrary: a) (auto intro: order_trans[OF max.cobounded1])
    then show ?case using Cons by (auto intro: order_trans[OF max.cobounded2])
  qed simp
  from this[OF assms(1), of "- 1"] have "0 \<le> mx" using assms(2) by (simp add: mx norm_box_def)
  with alt r mx show ?thesis by (auto simp: longest_def)
qed

text \<open>For verdicts 0 and 1, confidence is granted exactly when at most one verdict is missing.\<close>

lemma recompute_confidence_spec:
  assumes "curr_state_vec b \<noteq> []" and "set (curr_state_vec b) \<subseteq> {0, 1}" and "length (curr_state_vec b) < 2 ^ 63"
  shows "recompute_confidence b =
     Inr (if length (filter (\<lambda>v. v = 0) (curr_state_vec b)) \<le> 1 then b\<lparr>confidence := 1\<rparr> else b)"
proof -
  let ?v = "curr_state_vec b"
  have sum: "sum_list vs = int (length vs) - int (length (filter (\<lambda>v. v = 0) vs))" if "set vs \<subseteq> {0, 1}" for vs :: "int list"
    using that by (induction vs) auto
  let ?z = "length (filter (\<lambda>v. v = 0) ?v)" and ?n = "length ?v"
  have zn: "?z \<le> ?n" by simp
  have "sum_list ?v = int (?n - ?z)" using sum[OF assms(2)] zn by simp
  then have w: "(word_of_int (sum_list ?v) :: 64 word) = of_nat (?n - ?z)" by simp
  have n1: "of_nat ?n - 1 = (of_nat (?n - 1) :: 64 word)" using assms(1) by (simp add: of_nat_diff Suc_le_eq)
  have "unat (of_nat k :: 64 word) = k" if "k \<le> ?n" for k using that assms(3) by (simp add: unat_of_nat)
  then have "(of_nat (?n - 1) :: 64 word) \<le> of_nat (?n - ?z) \<longleftrightarrow> ?n - 1 \<le> ?n - ?z"
    by (simp only: word_le_nat_alt diff_le_self)
  also have "\<dots> \<longleftrightarrow> ?z \<le> 1" using zn assms(1) by (cases ?n) auto
  finally show ?thesis using assms(1) by (simp add: recompute_confidence_def Let_def w n1)
qed

end
