(* ===== verification/Linked_List.thy ===== *)
theory Linked_List
  imports Prelude
begin

text \<open>
  The classes \<^verbatim>\<open>ll_node\<close> and \<^verbatim>\<open>ll\<close> of \<^verbatim>\<open>include/approximation.hpp\<close>: a doubly linked
  list of boxes with a head and a tail pointer.  The nodes live in a heap from addresses to
  nodes, \<^verbatim>\<open>NULL\<close> is \<open>None\<close>.  A node owns the box it points to: no operation ever hands one
  box to two nodes, so the box is stored in the node.  Each operation runs under the list's
  own \<^verbatim>\<open>data_mutex\<close> from its first to its last access and is one step of the model.

  \<open>linked l as\<close> says that the list \<open>l\<close> is the chain of the addresses \<open>as\<close> in both directions;
  the operations are characterised by what they do to \<open>as\<close>, first for the heap and then as
  the laws of the locale \<open>box_chain\<close>, on which the algorithms that walk and rearrange the list
  rest.
\<close>

named_theorems chain_laws \<open>effect of the list operations on the chain of addresses\<close>

type_synonym addr = nat

record 'b ll_node =
  nbox :: 'b
  nxt :: "addr option"
  parent :: "addr option"

record 'b ll =
  HEAD :: "addr option"
  TAIL :: "addr option"
  heap :: "addr \<Rightarrow> 'b ll_node option"
  brk :: addr

definition node_new :: "'b \<Rightarrow> 'b ll_node" where
  "node_new ab = \<lparr>nbox = ab, nxt = None, parent = None\<rparr>"

text \<open>\<^verbatim>\<open>new ll_node\<close> takes the next unused address.\<close>

definition ll_alloc :: "'b ll_node \<Rightarrow> 'b ll \<Rightarrow> addr \<times> 'b ll" where
  "ll_alloc nd l = (brk l, l\<lparr>heap := (heap l)(brk l \<mapsto> nd), brk := Suc (brk l)\<rparr>)"

definition ll_get :: "'b ll \<Rightarrow> addr \<Rightarrow> 'b ll_node result" where
  "ll_get l a = ofopt (heap l a)"

definition ll_put :: "addr \<Rightarrow> ('b ll_node \<Rightarrow> 'b ll_node) \<Rightarrow> 'b ll \<Rightarrow> 'b ll result" where
  "ll_put a f l = bindR (ll_get l a) (\<lambda>nd. Inr (l\<lparr>heap := (heap l)(a \<mapsto> f nd)\<rparr>))"

text \<open>Access through a pointer; a null pointer is undefined.\<close>

definition ptr :: "addr option \<Rightarrow> addr result" where
  "ptr p = ofopt p"

definition ll_empty :: "'b ll" where
  "ll_empty = \<lparr>HEAD = None, TAIL = None, heap = Map.empty, brk = 0\<rparr>"

definition ll_new :: "'b \<Rightarrow> 'b ll" where
  "ll_new ahead =
     (let (a, l) = ll_alloc (node_new ahead) ll_empty in l\<lparr>HEAD := Some a, TAIL := Some a\<rparr>)"

definition add_node :: "'b \<Rightarrow> 'b ll \<Rightarrow> 'b ll result" where
  "add_node b l =
     (let (to_add, l1) = ll_alloc (node_new b) l in
      if HEAD l1 = None then Inr (l1\<lparr>HEAD := Some to_add, TAIL := Some to_add\<rparr>)
      else
        bindR (ptr (TAIL l1)) (\<lambda>t.
        bindR (ll_put t (\<lambda>nd. nd\<lparr>nxt := Some to_add\<rparr>) l1) (\<lambda>l2.
        bindR (ll_put to_add (\<lambda>nd. nd\<lparr>parent := TAIL l2\<rparr>) l2) (\<lambda>l3.
        Inr (l3\<lparr>TAIL := Some to_add\<rparr>)))))"

definition emplace_node :: "addr \<Rightarrow> 'b ll \<Rightarrow> (addr \<times> 'b ll) result" where
  "emplace_node n l =
     bindR (ll_get l n) (\<lambda>nd.
     case nxt nd of
       None \<Rightarrow> Inr (n, l)
     | Some ans \<Rightarrow>
         bindR (ll_put ans (\<lambda>x. x\<lparr>parent := parent nd\<rparr>) l) (\<lambda>l1.
         bindR (case parent nd of
                  None \<Rightarrow> Inr (l1\<lparr>HEAD := Some ans\<rparr>)
                | Some p \<Rightarrow> ll_put p (\<lambda>x. x\<lparr>nxt := Some ans\<rparr>) l1) (\<lambda>l2.
         bindR (ptr (TAIL l2)) (\<lambda>t.
         bindR (ll_put t (\<lambda>x. x\<lparr>nxt := Some n\<rparr>) l2) (\<lambda>l3.
         bindR (ll_put n (\<lambda>x. x\<lparr>parent := TAIL l3\<rparr>) l3) (\<lambda>l4.
         bindR (ll_put n (\<lambda>x. x\<lparr>nxt := None\<rparr>) (l4\<lparr>TAIL := Some n\<rparr>)) (\<lambda>l5.
         Inr (ans, l5))))))))"

definition remove :: "addr \<Rightarrow> 'b ll \<Rightarrow> (addr option \<times> 'b ll) result" where
  "remove n l =
     bindR (ll_get l n) (\<lambda>nd.
     case nxt nd of
       None \<Rightarrow>
         (let l1 = l\<lparr>TAIL := parent nd\<rparr> in
          case TAIL l1 of
            None \<Rightarrow> Inr (None, l1\<lparr>HEAD := None\<rparr>)
          | Some t \<Rightarrow> bindR (ll_put t (\<lambda>x. x\<lparr>nxt := None\<rparr>) l1) (\<lambda>l2. Inr (None, l2)))
     | Some ans \<Rightarrow>
         (case parent nd of
            None \<Rightarrow>
              bindR (ll_put ans (\<lambda>x. x\<lparr>parent := None\<rparr>) (l\<lparr>HEAD := Some ans\<rparr>)) (\<lambda>l1. Inr (Some ans, l1))
          | Some par \<Rightarrow>
              bindR (ll_put par (\<lambda>x. x\<lparr>nxt := Some ans\<rparr>) l) (\<lambda>l1.
              bindR (ll_put ans (\<lambda>x. x\<lparr>parent := Some par\<rparr>) l1) (\<lambda>l2. Inr (Some ans, l2)))))"

definition is_empty :: "'b ll \<Rightarrow> bool" where
  "is_empty l \<longleftrightarrow> HEAD l = None \<or> TAIL l = None"

text \<open>
  Reading and writing a box through its node, and the successor of a node.  A loop
  \<^verbatim>\<open>while(curr != NULL) { \<dots> curr = curr->next; }\<close> gets the number of allocated nodes as
  fuel; running out of it is the loop that never ends.
\<close>

definition box_at :: "'b ll \<Rightarrow> addr \<Rightarrow> 'b result" where
  "box_at l a = bindR (ll_get l a) (\<lambda>nd. Inr (nbox nd))"

definition set_box :: "addr \<Rightarrow> 'b \<Rightarrow> 'b ll \<Rightarrow> 'b ll result" where
  "set_box a b l = ll_put a (\<lambda>nd. nd\<lparr>nbox := b\<rparr>) l"

definition succ_of :: "'b ll \<Rightarrow> addr \<Rightarrow> addr option result" where
  "succ_of l a = bindR (ll_get l a) (\<lambda>nd. Inr (nxt nd))"

fun ll_walk :: "nat \<Rightarrow> (addr \<Rightarrow> 'b ll \<times> 's \<Rightarrow> ('b ll \<times> 's) run) \<Rightarrow> addr option \<Rightarrow> 'b ll \<times> 's \<Rightarrow> ('b ll \<times> 's) run" where
  "ll_walk fuel f None s = Some (Inr s)"
| "ll_walk 0 f (Some a) s = None"
| "ll_walk (Suc fuel) f (Some a) s =
     bindO (f a s) (\<lambda>s'. bindO (Some (succ_of (fst s') a)) (\<lambda>p. ll_walk fuel f p s'))"

subsection \<open>Chains of addresses\<close>

definition first :: "'a list \<Rightarrow> 'a option \<Rightarrow> 'a option" where
  "first as q = (case as of [] \<Rightarrow> q | a # _ \<Rightarrow> Some a)"

definition final :: "'a option \<Rightarrow> 'a list \<Rightarrow> 'a option" where
  "final p as = (if as = [] then p else Some (last as))"

lemma first_simps [simp]: "first [] q = q" "first (a # as) q = Some a"
  by (simp_all add: first_def)

lemma final_simps [simp]: "final p [] = p" "final p (a # as) = final (Some a) as" "final p (as @ [a]) = Some a"
  by (simp_all add: final_def)

lemma first_Some [simp]: "first xs (Some t) \<noteq> None" "\<exists>y. first xs (Some t) = Some y"
  by (cases xs; simp)+

lemma first_append [simp]: "first (xs @ ys) q = first xs (first ys q)"
  by (cases xs) auto

lemma final_append [simp]: "final p (xs @ ys) = final (final p xs) ys"
  by (simp add: final_def)

text \<open>A segment whose first node has the parent \<open>p\<close> and whose last one the successor \<open>q\<close>.\<close>

fun dseg :: "(addr \<Rightarrow> 'b ll_node option) \<Rightarrow> addr option \<Rightarrow> addr list \<Rightarrow> addr option \<Rightarrow> bool" where
  "dseg h p [] q = True"
| "dseg h p (a # as) q = (\<exists>nd. h a = Some nd \<and> parent nd = p \<and> nxt nd = first as q \<and> dseg h (Some a) as q)"

lemma dseg_append [simp]: "dseg h p (xs @ ys) q \<longleftrightarrow> dseg h p xs (first ys q) \<and> dseg h (final p xs) ys q"
  by (induction xs arbitrary: p) auto

lemma dseg_frame: "a \<notin> set as \<Longrightarrow> dseg (h(a \<mapsto> nd)) p as q = dseg h p as q"
  by (induction as arbitrary: p) auto

lemma dseg_in_heap: "dseg h p as q \<Longrightarrow> a \<in> set as \<Longrightarrow> \<exists>nd. h a = Some nd"
  by (induction as arbitrary: p) auto

definition linked :: "'b ll \<Rightarrow> addr list \<Rightarrow> bool" where
  "linked l as \<longleftrightarrow> distinct as \<and> (\<forall>a. heap l a \<noteq> None \<longrightarrow> a < brk l) \<and> dseg (heap l) None as None
     \<and> HEAD l = first as None \<and> TAIL l = final None as"

lemma linked_in_heap: "linked l as \<Longrightarrow> a \<in> set as \<Longrightarrow> \<exists>nd. heap l a = Some nd"
  by (auto simp: linked_def dest: dseg_in_heap)

lemma linked_brk: "linked l as \<Longrightarrow> a \<in> set as \<Longrightarrow> a < brk l"
  using linked_in_heap by (fastforce simp: linked_def)

text \<open>The list splits at a node; this is the shape all operations start from.\<close>

lemma linked_split:
  assumes "linked l (xs @ n # ys)"
  obtains nd where "heap l n = Some nd" "parent nd = final None xs" "nxt nd = first ys None"
    "dseg (heap l) None xs (Some n)" "dseg (heap l) (Some n) ys None"
  using assms by (auto simp: linked_def)

lemma dseg_last_next:
  assumes "dseg h p (xs @ [t]) q" and "t \<notin> set xs"
  shows "\<exists>nd. h t = Some nd \<and> dseg (h(t \<mapsto> nd\<lparr>nxt := q'\<rparr>)) p (xs @ [t]) q'"
  using assms by (auto simp: dseg_frame)

lemma dseg_first_parent:
  assumes "dseg h p (a # ys) q" and "a \<notin> set ys"
  shows "\<exists>nd. h a = Some nd \<and> dseg (h(a \<mapsto> nd\<lparr>parent := p'\<rparr>)) p' (a # ys) q"
  using assms by (auto simp: dseg_frame)

subsection \<open>The operations on chains\<close>

definition cells :: "'b ll \<Rightarrow> addr \<Rightarrow> 'b option" where
  "cells l a = map_option nbox (heap l a)"

text \<open>The boxes of a list, in order.\<close>

definition boxes :: "'b ll \<Rightarrow> addr list \<Rightarrow> 'b list" where
  "boxes l as = map (\<lambda>a. the (cells l a)) as"

lemmas ll_defs = ll_alloc_def ll_get_def ll_put_def ptr_def node_new_def

lemma linked_None: "linked l as \<Longrightarrow> brk l \<le> a \<Longrightarrow> heap l a = None"
  by (auto simp: linked_def dest: leD)

lemma linked_ll_new: "linked (ll_new b) [0]" "cells (ll_new b) = [0 \<mapsto> b]"
  by (auto simp: ll_new_def ll_empty_def ll_defs linked_def cells_def fun_eq_iff)

lemma linked_ll_empty: "linked ll_empty []" "cells ll_empty = Map.empty"
  by (auto simp: ll_empty_def linked_def cells_def)

lemma add_node_linked:
  assumes "linked l as"
  shows "\<exists>l'. add_node b l = Inr l' \<and> linked l' (as @ [brk l]) \<and> cells l' = (cells l)(brk l \<mapsto> b) \<and> brk l' = Suc (brk l)"
proof -
  have fresh: "heap l (brk l) = None" "brk l \<notin> set as" using assms linked_None linked_brk by fastforce+
  have lt: "\<And>a nd. heap l a = Some nd \<Longrightarrow> a < brk l" using assms by (auto simp: linked_def)
  show ?thesis
  proof (cases as rule: rev_cases)
    case Nil
    then show ?thesis using assms fresh lt
      by (auto simp: add_node_def ll_defs linked_def cells_def less_Suc_eq intro!: ext)
  next
    case (snoc xs t)
    then show ?thesis using assms fresh lt
      by (auto simp: add_node_def ll_defs linked_def cells_def less_Suc_eq dseg_frame intro!: ext)
  qed
qed

lemma remove_linked:
  assumes "linked l (xs @ n # ys)"
  shows "\<exists>l'. remove n l = Inr (first ys None, l') \<and> linked l' (xs @ ys) \<and> cells l' = cells l \<and> brk l' = brk l"
proof -
  have lt: "\<And>a nd. heap l a = Some nd \<Longrightarrow> a < brk l" using assms by (auto simp: linked_def)
  show ?thesis
  proof (cases ys)
    case Nil
    then show ?thesis using assms lt
      by (cases xs rule: rev_cases) (auto simp: remove_def ll_defs linked_def cells_def dseg_frame intro!: ext)
  next
    case (Cons y zs)
    then show ?thesis using assms lt
      by (cases xs rule: rev_cases) (auto simp: remove_def ll_defs linked_def cells_def dseg_frame intro!: ext)
  qed
qed

lemma emplace_linked:
  assumes "linked l (xs @ n # ys)"
  shows "\<exists>l'. emplace_node n l = Inr (the (first (ys @ [n]) None), l') \<and> linked l' (xs @ ys @ [n]) \<and> cells l' = cells l \<and> brk l' = brk l"
proof (cases ys)
  case Nil
  then show ?thesis using assms by (auto simp: emplace_node_def ll_defs linked_def)
next
  case (Cons y zs)
  have lt: "\<And>a nd. heap l a = Some nd \<Longrightarrow> a < brk l" using assms by (auto simp: linked_def)
  show ?thesis
  proof (cases zs rule: rev_cases)
    case Nil
    then show ?thesis using assms lt Cons
      by (cases xs rule: rev_cases) (auto simp: emplace_node_def ll_defs linked_def cells_def dseg_frame intro!: ext)
  next
    case (snoc us t)
    then show ?thesis using assms lt Cons
      by (cases xs rule: rev_cases) (auto simp: emplace_node_def ll_defs linked_def cells_def dseg_frame intro!: ext)
  qed
qed

lemma box_at_linked: "cells l a = Some b \<Longrightarrow> box_at l a = Inr b"
  by (auto simp: box_at_def ll_get_def cells_def)

lemma set_box_linked:
  assumes "linked l as" and "cells l a \<noteq> None"
  shows "\<exists>l'. set_box a b l = Inr l' \<and> linked l' as \<and> cells l' = (cells l)(a \<mapsto> b) \<and> brk l' = brk l"
proof -
  from assms(2) obtain nd where nd: "heap l a = Some nd" by (auto simp: cells_def)
  have "dseg ((heap l)(a \<mapsto> nd\<lparr>nbox := b\<rparr>)) p as q = dseg (heap l) p as q" for p q
    by (induction as arbitrary: p) (auto simp: nd)
  with assms(1) nd show ?thesis by (auto simp: set_box_def ll_defs linked_def cells_def)
qed

lemma succ_of_linked: "linked l (xs @ a # ys) \<Longrightarrow> succ_of l a = Inr (first ys None)"
  by (auto simp: succ_of_def ll_get_def linked_def)

lemma is_empty_linked: "linked l as \<Longrightarrow> is_empty l \<longleftrightarrow> as = []"
  by (cases as) (auto simp: is_empty_def linked_def final_def)

lemma linked_length: "linked l as \<Longrightarrow> length as \<le> brk l"
  using linked_brk[of l as] distinct_card[of as] card_mono[of "{..<brk l}" "set as"]
  by (auto simp: linked_def)

lemma linked_in_cells: "linked l as \<Longrightarrow> a \<in> set as \<Longrightarrow> cells l a \<noteq> None"
  using linked_in_heap by (fastforce simp: cells_def)

lemma linked_distinct: "linked l as \<Longrightarrow> distinct as"
  by (simp add: linked_def)

lemma linked_fresh: "linked l as \<Longrightarrow> cells l (brk l) = None"
  using linked_None[of l as "brk l"] by (simp add: cells_def)

text \<open>A walk whose body keeps the chain visits exactly its nodes, in order.\<close>

lemma ll_walk_fold:
  assumes "linked l (xs @ ys)" and "length ys \<le> fuel"
    and "\<And>a l s l' s'. a \<in> set ys \<Longrightarrow> linked l (xs @ ys) \<Longrightarrow> f a (l, s) = Some (Inr (l', s')) \<Longrightarrow> linked l' (xs @ ys)"
  shows "ll_walk fuel f (first ys None) (l, s) = foldO f ys (l, s)"
  using assms
proof (induction ys arbitrary: fuel xs l s)
  case (Cons a ys)
  from Cons.prems(2) obtain k where k: "fuel = Suc k" "length ys \<le> k" by (cases fuel) auto
  have "bindO (Some (succ_of (fst r) a)) (\<lambda>p. ll_walk k f p r) = foldO f ys r" if "f a (l, s) = Some (Inr r)" for r
  proof -
    obtain l' s' where r: "r = (l', s')" by force
    have l': "linked l' (xs @ a # ys)" by (rule Cons.prems(3)[OF _ Cons.prems(1)]) (use that r in auto)
    have "ll_walk k f (first ys None) (l', s') = foldO f ys (l', s')"
    proof (rule Cons.IH[of l' "xs @ [a]"])
      show "linked l2 ((xs @ [a]) @ ys)"
        if "b \<in> set ys" "linked l1 ((xs @ [a]) @ ys)" "f b (l1, s1) = Some (Inr (l2, s2))" for b l1 s1 l2 s2
        using Cons.prems(3)[of b l1 s1 l2 s2] that by simp
    qed (use l' k in auto)
    then show ?thesis using succ_of_linked[OF l'] by (simp add: r)
  qed
  then show ?case by (auto simp: k intro: bindO_cong)
qed simp

subsection \<open>The list as a sequence\<close>

text \<open>
  What the algorithms rely on: the operations act on the chain of addresses as appending,
  deleting and moving to the end act on a list, and touch no box but the one they are
  given.
\<close>

locale box_chain =
  fixes linked :: "'l \<Rightarrow> addr list \<Rightarrow> bool" and cells :: "'l \<Rightarrow> addr \<Rightarrow> 'b option"
    and add :: "'b \<Rightarrow> 'l \<Rightarrow> 'l result" and emplace :: "addr \<Rightarrow> 'l \<Rightarrow> (addr \<times> 'l) result"
    and rem :: "addr \<Rightarrow> 'l \<Rightarrow> (addr option \<times> 'l) result"
    and get :: "'l \<Rightarrow> addr \<Rightarrow> 'b result" and put :: "addr \<Rightarrow> 'b \<Rightarrow> 'l \<Rightarrow> 'l result" and after :: "'l \<Rightarrow> addr \<Rightarrow> addr option result"
  assumes distinct_chain: "linked l as \<Longrightarrow> distinct as"
    and in_cells: "linked l as \<Longrightarrow> a \<in> set as \<Longrightarrow> cells l a \<noteq> None"
    and add_law: "linked l as \<Longrightarrow> \<exists>l' a. add b l = Inr l' \<and> linked l' (as @ [a]) \<and> cells l' = (cells l)(a \<mapsto> b) \<and> cells l a = None"
    and emplace_law: "linked l (xs @ n # ys) \<Longrightarrow>
          \<exists>l'. emplace n l = Inr (the (first (ys @ [n]) None), l') \<and> linked l' (xs @ ys @ [n]) \<and> cells l' = cells l"
    and rem_law: "linked l (xs @ n # ys) \<Longrightarrow> \<exists>l'. rem n l = Inr (first ys None, l') \<and> linked l' (xs @ ys) \<and> cells l' = cells l"
    and get_law: "cells l a = Some b \<Longrightarrow> get l a = Inr b"
    and put_law: "linked l as \<Longrightarrow> cells l a \<noteq> None \<Longrightarrow> \<exists>l'. put a b l = Inr l' \<and> linked l' as \<and> cells l' = (cells l)(a \<mapsto> b)"
    and after_law: "linked l (xs @ a # ys) \<Longrightarrow> after l a = Inr (first ys None)"
begin

text \<open>Replacing a box by its two halves: the node moves to the end, the new half follows it.\<close>

lemma split_law:
  assumes "linked l (xs @ n # ys)"
  shows "\<exists>l0 l1 l2 a. put n b1 l = Inr l0 \<and> emplace n l0 = Inr (the (first (ys @ [n]) None), l1) \<and> add b2 l1 = Inr l2
     \<and> linked l2 (xs @ ys @ [n, a]) \<and> cells l2 = (cells l)(n \<mapsto> b1, a \<mapsto> b2) \<and> cells l a = None"
proof -
  obtain l0 where l0: "put n b1 l = Inr l0" "linked l0 (xs @ n # ys)" "cells l0 = (cells l)(n \<mapsto> b1)"
    using put_law[OF assms in_cells[OF assms], of n b1] by auto
  obtain l1 where l1: "emplace n l0 = Inr (the (first (ys @ [n]) None), l1)" "linked l1 (xs @ ys @ [n])" "cells l1 = cells l0"
    using emplace_law[OF l0(2)] by blast
  obtain l2 a where l2: "add b2 l1 = Inr l2" "linked l2 ((xs @ ys @ [n]) @ [a])" "cells l2 = (cells l1)(a \<mapsto> b2)" "cells l1 a = None"
    using add_law[OF l1(2), of b2] by blast
  have "cells l a = None" using l2(4) l1(3) l0(3) by (auto split: if_splits)
  with l0 l1 l2 show ?thesis by auto
qed

lemma keep_law:
  assumes "linked l (xs @ n # ys)"
  shows "\<exists>l'. put n b l = Inr l' \<and> after l' n = Inr (first ys None) \<and> linked l' (xs @ n # ys) \<and> cells l' = (cells l)(n \<mapsto> b)"
  using put_law[OF assms in_cells[OF assms], of n b] after_law by fastforce

lemma head_box:
  assumes "linked l (xs @ n # ys)"
  shows "\<exists>b. cells l n = Some b \<and> get l n = Inr b"
  using in_cells[OF assms, of n] get_law by auto

end

interpretation fr: box_chain linked cells add_node emplace_node remove box_at set_box succ_of
proof
  show "\<exists>l' a. add_node b l = Inr l' \<and> linked l' (as @ [a]) \<and> cells l' = (cells l)(a \<mapsto> b) \<and> cells l a = None"
    if "linked l as" for l :: "'a ll" and as b
    using add_node_linked[OF that] linked_fresh[OF that] by blast
  show "\<exists>l'. emplace_node n l = Inr (the (first (ys @ [n]) None), l') \<and> linked l' (xs @ ys @ [n]) \<and> cells l' = cells l"
    if "linked l (xs @ n # ys)" for l :: "'a ll" and xs n ys
    using emplace_linked[OF that] by blast
  show "\<exists>l'. remove n l = Inr (first ys None, l') \<and> linked l' (xs @ ys) \<and> cells l' = cells l"
    if "linked l (xs @ n # ys)" for l :: "'a ll" and xs n ys
    using remove_linked[OF that] by blast
  show "\<exists>l'. set_box a b l = Inr l' \<and> linked l' as \<and> cells l' = (cells l)(a \<mapsto> b)"
    if "linked l as" "cells l a \<noteq> None" for l :: "'a ll" and as a b
    using set_box_linked[OF that] by blast
qed (auto intro: linked_distinct box_at_linked succ_of_linked dest: linked_in_cells)

text \<open>
  C37: The linked list.  On a list whose nodes are chained in both directions, \<^verbatim>\<open>add_node\<close>
  appends a new node, \<^verbatim>\<open>remove\<close> unlinks a node and returns its successor, and
  \<^verbatim>\<open>emplace_node\<close> moves a node to the end and returns its successor, or the node itself
  when it was last; none of them meets a null pointer, the chain stays closed in both
  directions with the right head and tail, and no other box changes.
\<close>

theorem ll_operations_refine:
  assumes "linked l (xs @ n # ys)"
  shows "(\<exists>l'. add_node b l = Inr l' \<and> linked l' (xs @ n # ys @ [brk l]) \<and> cells l' = (cells l)(brk l \<mapsto> b))
    \<and> (\<exists>l'. remove n l = Inr (first ys None, l') \<and> linked l' (xs @ ys) \<and> cells l' = cells l)
    \<and> (\<exists>l'. emplace_node n l = Inr (hd (ys @ [n]), l') \<and> linked l' (xs @ ys @ [n]) \<and> cells l' = cells l)"
proof (intro conjI)
  show "\<exists>l'. add_node b l = Inr l' \<and> linked l' (xs @ n # ys @ [brk l]) \<and> cells l' = (cells l)(brk l \<mapsto> b)"
    using add_node_linked[OF assms, of b] by auto
  show "\<exists>l'. remove n l = Inr (first ys None, l') \<and> linked l' (xs @ ys) \<and> cells l' = cells l"
    using fr.rem_law[OF assms] .
  show "\<exists>l'. emplace_node n l = Inr (hd (ys @ [n]), l') \<and> linked l' (xs @ ys @ [n]) \<and> cells l' = cells l"
    using fr.emplace_law[OF assms] by (cases ys) auto
qed

theorem ll_operations_refine_witness:
  "\<exists>l l'. add_node CHR ''b'' (ll_new CHR ''a'') = Inr l \<and> emplace_node 0 l = Inr (1, l') \<and> linked l' [1, 0]"
proof -
  have l: "linked (ll_new CHR ''a'') ([] @ 0 # [])" using linked_ll_new(1) by simp
  have brk: "brk (ll_new CHR ''a'') = 1" by (simp add: ll_new_def ll_alloc_def ll_empty_def)
  from ll_operations_refine[OF l, of "CHR ''b''"] obtain l1 where
    l1: "add_node CHR ''b'' (ll_new CHR ''a'') = Inr l1" "linked l1 ([] @ 0 # [1])" by (auto simp: brk)
  from ll_operations_refine[OF l1(2), of undefined] l1(1) show ?thesis by auto
qed

end
