(* ===== verification/Trie.thy ===== *)
theory Trie
  imports Bounding_Box Linked_List
begin

text \<open>
  The class \<^verbatim>\<open>trie_node\<close> of \<^verbatim>\<open>include/approximation.hpp\<close>: a tree of halvings of a root box.
  A path is a vector of non-zero integers, \<open>i + 1\<close> for the upper and \<open>-(i + 1)\<close> for the
  lower half in direction \<open>i\<close>.  Pointers to children are optional subtrees (no subtree is
  shared).  The vectors \<^verbatim>\<open>next_left\<close>, \<^verbatim>\<open>next_right\<close> have \<^verbatim>\<open>n_dir\<close> entries from the constructor
  on (\<open>trie_ok\<close>).  A path and an offset into it are the rest of the path.
\<close>

datatype trie_node = Trie (n_dir: nat) (is_leaf: bool) (next_left: "trie_node option list") (next_right: "trie_node option list")

definition trie_new :: "nat \<Rightarrow> trie_node" where
  "trie_new n = Trie n True (replicate n None) (replicate n None)"

definition child_or_new :: "nat \<Rightarrow> trie_node option \<Rightarrow> trie_node" where
  "child_or_new n c = (case c of Some t \<Rightarrow> t | None \<Rightarrow> trie_new n)"

text \<open>The index a path entry selects; 0 selects \<^verbatim>\<open>next_left[-1]\<close>, which is undefined.\<close>

definition dir_idx :: "int \<Rightarrow> 'a list \<Rightarrow> nat result" where
  "dir_idx d xs = (let i = (if 0 < d then d - 1 else - d - 1) in
     if 0 \<le> i \<and> nat i < length xs then Inr (nat i) else Inl Undefined)"

fun add_child :: "int list \<Rightarrow> trie_node \<Rightarrow> trie_node result" where
  "add_child [] t = Inr t"
| "add_child (d # path) (Trie n leaf L R) =
     (if 0 < d then
        bindR (dir_idx d R) (\<lambda>idx.
        bindR (add_child path (child_or_new n (R ! idx))) (\<lambda>c. Inr (Trie n False L (R[idx := Some c]))))
      else
        bindR (dir_idx d L) (\<lambda>idx.
        bindR (add_child path (child_or_new n (L ! idx))) (\<lambda>c. Inr (Trie n False (L[idx := Some c]) R))))"

lemma trie_child_size:
  "i < length R \<Longrightarrow> R ! i = Some c \<Longrightarrow> size c < size (Trie n leaf L R)"
  "i < length L \<Longrightarrow> L ! i = Some c \<Longrightarrow> size c < size (Trie n leaf L R)"
proof -
  have "size c < Suc (size_list (size_option size) xs)" if "i < length xs" "xs ! i = Some c" for xs :: "trie_node option list"
  proof -
    from that have "Some c \<in> set xs" by (metis nth_mem)
    then have "size_option size (Some c) \<le> size_list (size_option size) xs" by (rule size_list_estimation') simp
    then show ?thesis by simp
  qed
  from this[of R] this[of L] show "i < length R \<Longrightarrow> R ! i = Some c \<Longrightarrow> size c < size (Trie n leaf L R)"
    "i < length L \<Longrightarrow> L ! i = Some c \<Longrightarrow> size c < size (Trie n leaf L R)" by fastforce+
qed

text \<open>
  \<^verbatim>\<open>remove_child\<close> returns whether the node has become a leaf.  The recursion into a left child
  passes the same offset on, the one into a right child the next.
\<close>

definition no_children :: "trie_node option list \<Rightarrow> trie_node option list \<Rightarrow> bool" where
  "no_children L R \<longleftrightarrow> list_all (\<lambda>p. p = None) R \<and> list_all (\<lambda>p. p = None) L"

definition leaf_test :: "trie_node \<Rightarrow> bool \<times> trie_node" where
  "leaf_test t = (if no_children (next_left t) (next_right t)
     then (True, Trie (n_dir t) True (next_left t) (next_right t)) else (False, t))"

function (sequential) remove_child :: "int list \<Rightarrow> trie_node \<Rightarrow> (bool \<times> trie_node) result" where
  "remove_child [] t = Inr (True, t)"
| "remove_child (d # path) (Trie n leaf L R) =
     (if 0 < d then
        bindR (dir_idx d R) (\<lambda>idx.
        case R ! idx of
          None \<Rightarrow> Inr (False, Trie n leaf L R)
        | Some c \<Rightarrow> bindR (if idx < length R then remove_child path c else Inl Undefined) (\<lambda>(gone, c').
            Inr (leaf_test (Trie n leaf L (R[idx := if gone then None else Some c'])))))
      else
        bindR (dir_idx d L) (\<lambda>idx.
        case L ! idx of
          None \<Rightarrow> Inr (False, Trie n leaf L R)
        | Some c \<Rightarrow> bindR (if idx < length L then remove_child (d # path) c else Inl Undefined) (\<lambda>(gone, c').
            Inr (leaf_test (Trie n leaf (L[idx := if gone then None else Some c']) R)))))"
  by pat_completeness auto
termination
  by (relation "measure (\<lambda>(p, t). size t)") (use trie_child_size in \<open>fastforce+\<close>)

text \<open>\<^verbatim>\<open>str_to_path\<close>: the digits gathered so far are never cleared.\<close>

fun str_path_loop :: "string \<Rightarrow> string \<Rightarrow> int list \<Rightarrow> int list result" where
  "str_path_loop [] cur ans = Inr ans"
| "str_path_loop (c # s) cur ans =
     (if c = CHR ''l'' then bindR (stoi cur) (\<lambda>n. str_path_loop s cur (ans @ [- n]))
      else if c = CHR ''r'' then bindR (stoi cur) (\<lambda>n. str_path_loop s cur (ans @ [n]))
      else str_path_loop s (cur @ [c]) ans)"

definition str_to_path :: "string \<Rightarrow> int \<Rightarrow> int list result" where
  "str_to_path s type = str_path_loop s [] (if type = 1 then [0] else [])"

text \<open>
  \<^verbatim>\<open>optimize\<close> changes the tree while it runs, so the depth of the recursion is given by
  fuel.  A set of strings is the list of its elements in insertion order.
\<close>

definition opt_share :: "nat \<Rightarrow> string \<Rightarrow> trie_node \<Rightarrow> trie_node result" where
  "opt_share i s t =
     bindR (str_to_path s 1) (\<lambda>pth.
     bindR (remove_child (pth[0 := int i + 1]) t) (\<lambda>(g1, t1).
     bindR (remove_child (pth[0 := - (int i + 1)]) t1) (\<lambda>(g2, t2).
     add_child (tl pth) t2)))"

definition opt_merge :: "nat \<Rightarrow> string list \<Rightarrow> string list \<Rightarrow> string list \<times> trie_node \<Rightarrow> (string list \<times> trie_node) result" where
  "opt_merge i l r st =
     bindR (foldR (\<lambda>s (ans, t).
        if s \<in> set r then bindR (opt_share i s t) (\<lambda>t'. Inr (List.insert s ans, t'))
        else Inr (List.insert (nat_to_string (i + 1) @ ''l'' @ s) ans, t)) l st)
     (foldR (\<lambda>s (ans, t).
        if s \<in> set l then Inr (ans, t)
        else Inr (List.insert (nat_to_string (i + 1) @ ''r'' @ s) ans, t)) r)"

definition set_left :: "nat \<Rightarrow> trie_node \<Rightarrow> trie_node \<Rightarrow> trie_node" where
  "set_left i c t = Trie (n_dir t) (is_leaf t) ((next_left t)[i := Some c]) (next_right t)"

definition set_right :: "nat \<Rightarrow> trie_node \<Rightarrow> trie_node \<Rightarrow> trie_node" where
  "set_right i c t = Trie (n_dir t) (is_leaf t) (next_left t) ((next_right t)[i := Some c])"

fun trie_optimize :: "nat \<Rightarrow> trie_node \<Rightarrow> (string list \<times> trie_node) run"
  and trie_optimize_dirs :: "nat \<Rightarrow> nat list \<Rightarrow> string list \<times> trie_node \<Rightarrow> (string list \<times> trie_node) run" where
  "trie_optimize 0 t = None"
| "trie_optimize (Suc fuel) t = trie_optimize_dirs fuel [0..<n_dir t] ([], t)"
| "trie_optimize_dirs fuel [] st = Some (Inr st)"
| "trie_optimize_dirs fuel (i # is) (ans, t) =
     (case (next_left t ! i, next_right t ! i) of
        (Some l, Some r) \<Rightarrow>
          bindO (trie_optimize fuel l) (\<lambda>(ls, l').
          bindO (trie_optimize fuel r) (\<lambda>(rs, r').
          bindO (Some (opt_merge i ls rs (ans, set_right i r' (set_left i l' t)))) (trie_optimize_dirs fuel is)))
      | _ \<Rightarrow> trie_optimize_dirs fuel is (ans, t))"

fun get_grids :: "trie_node \<Rightarrow> string list" where
  "get_grids (Trie n leaf L R) =
     (let ls = map (map_option get_grids) L; rs = map (map_option get_grids) R in
      remdups (concat (map (\<lambda>i.
        (case ls ! i of None \<Rightarrow> [] | Some g \<Rightarrow> map (\<lambda>s. nat_to_string (i + 1) @ ''l'' @ s) g) @
        (case rs ! i of None \<Rightarrow> [] | Some g \<Rightarrow> map (\<lambda>s. nat_to_string (i + 1) @ ''r'' @ s) g)) [0..<n])))"

text \<open>
  \<^verbatim>\<open>get_ll\<close> appends the box of every leaf to a list.  The bounds are halved on the way down
  and restored by doubling.
\<close>

definition get_ll_half :: "bool \<Rightarrow> nat \<Rightarrow> ((double \<times> double) list \<Rightarrow> bounding_box ll \<Rightarrow> bounding_box ll result) option
    \<Rightarrow> (double \<times> double) list \<times> bounding_box ll \<Rightarrow> ((double \<times> double) list \<times> bounding_box ll) result" where
  "get_ll_half right i g st =
     (case g of
        None \<Rightarrow> Inr st
      | Some get \<Rightarrow>
          (case st of (cs, l) \<Rightarrow>
            if i < length cs then
              (let lo = fst (cs ! i); hi = snd (cs ! i); mid = (lo + hi) * (1 / 2) in
               if right then bindR (get (cs[i := (mid, hi)]) l) (\<lambda>l'. Inr (cs[i := (2 * mid - hi, hi)], l'))
               else bindR (get (cs[i := (lo, mid)]) l) (\<lambda>l'. Inr (cs[i := (lo, 2 * mid - lo)], l')))
            else Inl Undefined))"

fun get_ll :: "trie_node \<Rightarrow> (double \<times> double) list \<Rightarrow> bounding_box ll \<Rightarrow> bounding_box ll result" where
  "get_ll (Trie n leaf L R) =
     (let ls = map (map_option get_ll) L; rs = map (map_option get_ll) R in
      (\<lambda>cs l.
        if leaf then add_node (box_new cs) l
        else bindR (foldR (\<lambda>i st. bindR (get_ll_half False i (ls ! i) st) (get_ll_half True i (rs ! i))) [0..<n] (cs, l))
               (\<lambda>st. Inr (snd st))))"

text \<open>\<^verbatim>\<open>find\<close>; \<open>pos_of\<close> is \<^verbatim>\<open>std::find\<close>, the length standing for \<^verbatim>\<open>end()\<close>.\<close>

definition pos_of :: "'a \<Rightarrow> 'a list \<Rightarrow> nat" where
  "pos_of x xs = length (takeWhile (\<lambda>y. y \<noteq> x) xs)"

definition find_dir :: "nat \<Rightarrow> int list \<Rightarrow> (int list \<Rightarrow> bool) option \<Rightarrow> (int list \<Rightarrow> bool) option \<Rightarrow> bool" where
  "find_dir i ctx fl fr =
     (let itr_left = pos_of (- (int i + 1)) ctx; itr_right = pos_of (int i + 1) ctx;
          absent = (itr_left = length ctx \<and> itr_right = length ctx);
          rest = dropWhile (\<lambda>d. \<bar>d\<bar> < int i + 1) ctx in
      (case fl of None \<Rightarrow> False
        | Some f \<Rightarrow> if absent then f rest else itr_left < itr_right \<and> f (drop (itr_left + 1) ctx))
      \<or> (case fr of None \<Rightarrow> False
        | Some f \<Rightarrow> if absent then f rest else itr_right < itr_left \<and> f (drop (itr_right + 1) ctx)))"

fun trie_find :: "trie_node \<Rightarrow> int list \<Rightarrow> bool" where
  "trie_find (Trie n leaf L R) =
     (let ls = map (map_option trie_find) L; rs = map (map_option trie_find) R in
      (\<lambda>ctx. ctx = [] \<or> leaf \<or> list_ex (\<lambda>i. find_dir i ctx (ls ! i) (rs ! i)) [0..<n]))"

text \<open>
  \<^verbatim>\<open>get_path\<close>: in each direction the bounds are halved towards the box.  For a box without
  extent outside the bounds the loop does not end.
\<close>

partial_function (option) path_dir :: "int \<Rightarrow> double \<times> double \<Rightarrow> double \<Rightarrow> double \<Rightarrow> int list option" where
  [code]: "path_dir i c l r =
     (if r - l > 2 * (snd c - fst c) \<and> (\<bar>l - fst c\<bar> \<ge> tick \<or> \<bar>r - snd c\<bar> \<ge> tick) then
        (let m_g = (l + r) / 2 in
         if m_g \<le> fst c then Option.bind (path_dir i c m_g r) (\<lambda>p. Some ((i + 1) # p))
         else Option.bind (path_dir i c l m_g) (\<lambda>p. Some (- (i + 1) # p)))
      else Some [])"

fun path_dirs :: "nat list \<Rightarrow> (double \<times> double) list \<Rightarrow> (double \<times> double) list \<Rightarrow> int list run" where
  "path_dirs [] cs bounds = Some (Inr [])"
| "path_dirs (i # is) cs bounds =
     (if i < length bounds \<and> i < length cs then
        bindO (map_option Inr (path_dir (int i) (cs ! i) (fst (bounds ! i)) (snd (bounds ! i)))) (\<lambda>p.
        bindO (path_dirs is cs bounds) (\<lambda>q. Some (Inr (p @ q))))
      else Some (Inl Undefined))"

definition get_path :: "(double \<times> double) list \<Rightarrow> (double \<times> double) list \<Rightarrow> nat \<Rightarrow> int list run" where
  "get_path cs bounds n_d = path_dirs [0..<n_d] cs bounds"

text \<open>Tries of the boxes of a list, and the lists of the leaves of a trie.\<close>

definition insert_box :: "nat \<Rightarrow> (double \<times> double) list \<Rightarrow> addr \<Rightarrow> bounding_box ll \<times> trie_node \<Rightarrow> (bounding_box ll \<times> trie_node) run" where
  "insert_box n bounds a st =
     (case st of (l, t) \<Rightarrow>
       bindO (Some (box_at l a)) (\<lambda>b.
       bindO (get_path (coords b) bounds n) (\<lambda>pth.
       bindO (Some (add_child pth t)) (\<lambda>t'. Some (Inr (l, t'))))))"

definition make_trie :: "bounding_box ll \<Rightarrow> nat \<Rightarrow> (double \<times> double) list \<Rightarrow> trie_node run" where
  "make_trie l n bounds =
     bindO (ll_walk (brk l) (insert_box n bounds) (HEAD l) (l, trie_new n)) (\<lambda>st. Some (Inr (snd st)))"

fun depth :: "trie_node \<Rightarrow> nat" where
  "depth (Trie n leaf L R) = Suc (foldr max (map (case_option 0 depth) (L @ R)) 0)"

definition clean_ll :: "bounding_box ll \<Rightarrow> nat \<Rightarrow> (double \<times> double) list \<Rightarrow> bounding_box ll run" where
  "clean_ll old_list n bounds =
     bindO (make_trie old_list n bounds) (\<lambda>t.
     bindO (trie_optimize (depth t) t) (\<lambda>st.
     Some (get_ll (snd st) bounds ll_empty)))"

definition trie_union :: "trie_node option \<Rightarrow> trie_node option \<Rightarrow> (double \<times> double) list \<Rightarrow> trie_node option run" where
  "trie_union n1 n2 coord =
     (case (n1, n2) of
        (None, _) \<Rightarrow> Some (Inr n2)
      | (_, None) \<Rightarrow> Some (Inr n1)
      | (Some t1, Some t2) \<Rightarrow>
          bindO (Some (bindR (get_ll t1 coord ll_empty) (get_ll t2 coord))) (\<lambda>l.
          bindO (make_trie l (length coord) coord) (\<lambda>t. Some (Inr (Some t)))))"

text \<open>The descendant reached by going right (type 0) or left in one direction as far as possible.\<close>

fun child :: "nat \<Rightarrow> int \<Rightarrow> trie_node \<Rightarrow> trie_node option" where
  "child i type (Trie n leaf L R) =
     (let cl = map (map_option (child i type)) L ! i; cr = map (map_option (child i type)) R ! i in
      if type = 0 then (case cr of Some c \<Rightarrow> c | None \<Rightarrow> if cl \<noteq> None then None else Some (Trie n leaf L R))
      else (case cl of Some c \<Rightarrow> c | None \<Rightarrow> if cr \<noteq> None then None else Some (Trie n leaf L R)))"

definition node_count :: "trie_node \<Rightarrow> nat" where
  "node_count t = length (filter (\<lambda>c. c \<noteq> None) (next_left t)) + length (filter (\<lambda>c. c \<noteq> None) (next_right t))"

subsection \<open>The class invariant\<close>

fun trie_ok :: "trie_node \<Rightarrow> bool" where
  "trie_ok (Trie n leaf L R) \<longleftrightarrow> length L = n \<and> length R = n \<and> (leaf \<longleftrightarrow> no_children L R)
     \<and> list_all (\<lambda>c. case c of None \<Rightarrow> True | Some t \<Rightarrow> trie_ok t \<and> n_dir t = n) (L @ R)"

lemma trie_ok_child:
  assumes "trie_ok (Trie n leaf L R)" and "Some c \<in> set (L @ R)"
  shows "trie_ok c" and "n_dir c = n"
  using assms by (auto simp: list_all_iff split: option.splits)

lemma trie_ok_new [simp]: "trie_ok (trie_new n)" "n_dir (trie_new n) = n" "is_leaf (trie_new n)"
  by (auto simp: trie_new_def no_children_def list_all_iff)

definition path_ok :: "nat \<Rightarrow> int list \<Rightarrow> bool" where
  "path_ok n p \<longleftrightarrow> (\<forall>d \<in> set p. d \<noteq> 0 \<and> \<bar>d\<bar> \<le> int n)"

lemma path_ok_simps [simp]: "path_ok n []" "path_ok n (d # p) \<longleftrightarrow> d \<noteq> 0 \<and> \<bar>d\<bar> \<le> int n \<and> path_ok n p"
  "path_ok n (p @ q) \<longleftrightarrow> path_ok n p \<and> path_ok n q"
  by (auto simp: path_ok_def)

text \<open>The subtree at the end of a path, where there is one.\<close>

definition kid :: "int \<Rightarrow> trie_node \<Rightarrow> trie_node option" where
  "kid d t = (let xs = (if 0 < d then next_right t else next_left t) in
     case dir_idx d xs of Inl _ \<Rightarrow> None | Inr i \<Rightarrow> xs ! i)"

fun subtrie :: "int list \<Rightarrow> trie_node \<Rightarrow> trie_node option" where
  "subtrie [] t = Some t"
| "subtrie (d # p) t = Option.bind (kid d t) (subtrie p)"

lemma dir_idx_ok:
  assumes "d \<noteq> 0" and "\<bar>d\<bar> \<le> int (length xs)"
  shows "dir_idx d xs = Inr (nat (\<bar>d\<bar> - 1))" and "nat (\<bar>d\<bar> - 1) < length xs"
  using assms by (auto simp: dir_idx_def Let_def)

lemma kid_alt: "kid d t = (let xs = (if 0 < d then next_right t else next_left t) in
    if d \<noteq> 0 \<and> \<bar>d\<bar> \<le> int (length xs) then xs ! nat (\<bar>d\<bar> - 1) else None)"
  by (auto simp: kid_def Let_def dir_idx_def)

lemma kid_in: "kid d (Trie n leaf L R) = Some c \<Longrightarrow> Some c \<in> set (L @ R)"
  by (auto simp: kid_def Let_def dir_idx_def split: if_splits) (metis nth_mem)+

lemma kid_ok:
  assumes "trie_ok t" and "kid d t = Some c"
  shows "trie_ok c" and "n_dir c = n_dir t" and "size c < size t"
proof -
  obtain n leaf L R where t: "t = Trie n leaf L R" by (cases t)
  with assms show "trie_ok c" "n_dir c = n_dir t" using trie_ok_child kid_in by (metis trie_node.sel(1))+
  from kid_in assms(2) t have "Some c \<in> set (L @ R)" by simp
  then obtain i where "i < length L \<and> L ! i = Some c \<or> i < length R \<and> R ! i = Some c"
    by (auto simp: in_set_conv_nth)
  then show "size c < size t" using trie_child_size t by auto
qed

lemma leaf_no_kid: "trie_ok t \<Longrightarrow> is_leaf t \<Longrightarrow> kid d t = None"
  by (cases t) (auto simp: kid_def Let_def no_children_def list_all_iff dir_idx_def)

text \<open>
  One step of \<^verbatim>\<open>add_child\<close>: the branch of the path is replaced, all others stay.
\<close>

lemma add_child_Cons:
  assumes "trie_ok t" and "d \<noteq> 0" and "\<bar>d\<bar> \<le> int (n_dir t)"
    and c: "add_child path (child_or_new (n_dir t) (kid d t)) = Inr c" "trie_ok c" "n_dir c = n_dir t"
  shows "\<exists>t'. add_child (d # path) t = Inr t' \<and> trie_ok t' \<and> n_dir t' = n_dir t \<and> \<not> is_leaf t'
     \<and> (\<forall>e. kid e t' = (if e = d then Some c else kid e t))"
proof -
  obtain n leaf L R where t: "t = Trie n leaf L R" by (cases t)
  have len: "length L = n" "length R = n" using assms(1) t by auto
  let ?i = "nat (\<bar>d\<bar> - 1)"
  have i: "?i < n" "dir_idx d L = Inr ?i" "dir_idx d R = Inr ?i"
    using dir_idx_ok[of d L] dir_idx_ok[of d R] assms(2,3) len t by simp_all
  have same: "e = d" if "0 < e \<longleftrightarrow> 0 < d" "nat (\<bar>e\<bar> - 1) = ?i" "e \<noteq> 0" for e using that assms(2) by auto
  have upd: "list_all (\<lambda>c. case c of None \<Rightarrow> True | Some t \<Rightarrow> trie_ok t \<and> n_dir t = n) (xs[?i := Some c])"
    if "list_all (\<lambda>c. case c of None \<Rightarrow> True | Some t \<Rightarrow> trie_ok t \<and> n_dir t = n) xs" for xs
    using that c(2,3) t by (auto simp: list_all_iff dest!: set_update_subset_insert[THEN subsetD])
  have some: "\<not> list_all (\<lambda>p. p = None) (xs[?i := Some c])" if "length xs = n" for xs
    using set_update_memI[of ?i xs "Some c"] i(1) that by (auto simp: list_all_iff)
  show ?thesis
  proof (cases "0 < d")
    case True
    have k: "kid d t = R ! ?i" using True i by (simp add: kid_def t)
    let ?t = "Trie n False L (R[?i := Some c])"
    have "add_child (d # path) t = Inr ?t" using True i c(1) k by (simp add: t)
    moreover have "trie_ok ?t" using assms(1) len upd[of R] some[of R]
      by (simp add: t no_children_def)
    moreover have "kid e ?t = (if e = d then Some c else kid e t)" for e
      using True i len same[of e]
      by (auto simp: kid_alt t nth_list_update)
    ultimately show ?thesis by (auto simp: t)
  next
    case False
    have k: "kid d t = L ! ?i" using False i by (simp add: kid_def t)
    let ?t = "Trie n False (L[?i := Some c]) R"
    have "add_child (d # path) t = Inr ?t" using False i c(1) k by (simp add: t)
    moreover have "trie_ok ?t" using assms(1) len upd[of L] some[of L]
      by (simp add: t no_children_def)
    moreover have "kid e ?t = (if e = d then Some c else kid e t)" for e
      using False i len same[of e] assms(2)
      by (auto simp: kid_alt t nth_list_update)
    ultimately show ?thesis by (auto simp: t)
  qed
qed

lemma add_child_spec:
  assumes "trie_ok t" and "path_ok (n_dir t) p"
  shows "\<exists>t'. add_child p t = Inr t' \<and> trie_ok t' \<and> n_dir t' = n_dir t
     \<and> (\<forall>q. subtrie q t' \<noteq> None \<longleftrightarrow> subtrie q t \<noteq> None \<or> (\<exists>r. p = q @ r))"
  using assms
proof (induction p arbitrary: t)
  case Nil
  have "subtrie q t \<noteq> None" if "q = []" for q using that by simp
  with Nil show ?case by auto
next
  case (Cons d p)
  let ?k = "child_or_new (n_dir t) (kid d t)"
  have "trie_ok ?k \<and> n_dir ?k = n_dir t"
    using Cons.prems(1) kid_ok by (auto simp: child_or_new_def split: option.splits)
  with Cons obtain c where c: "add_child p ?k = Inr c" "trie_ok c" "n_dir c = n_dir t"
    and sub: "\<And>q. subtrie q c \<noteq> None \<longleftrightarrow> subtrie q ?k \<noteq> None \<or> (\<exists>r. p = q @ r)" by (metis path_ok_simps(2))
  from add_child_Cons[OF Cons.prems(1) _ _ c] Cons.prems(2) obtain t' where
    t': "add_child (d # p) t = Inr t'" "trie_ok t'" "n_dir t' = n_dir t" and kid: "\<And>e. kid e t' = (if e = d then Some c else kid e t)" by auto
  have new: "kid e (trie_new m) = None" for e m by (simp add: leaf_no_kid)
  have "subtrie q t' \<noteq> None \<longleftrightarrow> subtrie q t \<noteq> None \<or> (\<exists>r. d # p = q @ r)" for q
  proof (cases q)
    case (Cons e q')
    show ?thesis
    proof (cases "e = d")
      case True
      then have "subtrie q t' \<noteq> None \<longleftrightarrow> subtrie q' ?k \<noteq> None \<or> (\<exists>r. p = q' @ r)" using sub[of q'] Cons by (simp add: kid)
      also have "\<dots> \<longleftrightarrow> subtrie q t \<noteq> None \<or> (\<exists>r. d # p = q @ r)"
        using Cons True by (cases "kid d t"; cases q') (auto simp: child_or_new_def new)
      finally show ?thesis .
    qed (use Cons in \<open>simp add: kid\<close>)
  qed simp
  with t' show ?case by blast
qed

text \<open>
  \<^verbatim>\<open>trie_node::add_child\<close>.  On a well-formed trie and a path within its directions the
  insertion is defined, keeps the invariant, and the nodes of the result are those of the
  trie and the prefixes of the path, no others.
\<close>

theorem add_child_nodes:
  assumes "trie_ok t" and "path_ok (n_dir t) p"
  shows "\<exists>t'. add_child p t = Inr t' \<and> trie_ok t' \<and> n_dir t' = n_dir t
     \<and> {q. subtrie q t' \<noteq> None} = {q. subtrie q t \<noteq> None} \<union> {q. \<exists>r. p = q @ r}"
  using add_child_spec[OF assms] by (auto simp: set_eq_iff)

theorem add_child_nodes_witness:
  "\<exists>t'. add_child [1, -2] (trie_new 2) = Inr t' \<and> trie_ok t' \<and> subtrie [1] t' \<noteq> None"
proof -
  have "path_ok (n_dir (trie_new 2)) [1, -2]" by simp
  from add_child_nodes[OF trie_ok_new(1) this] obtain t' where
    t': "add_child [1, -2] (trie_new 2) = Inr t'" "trie_ok t'"
    and q: "{q. subtrie q t' \<noteq> None} = {q. subtrie q (trie_new 2) \<noteq> None} \<union> {q. \<exists>r. [1, -2 :: int] = q @ r}" by auto
  have "[1] \<in> {q. \<exists>r. [1, -2 :: int] = q @ r}" by simp
  with q have "subtrie [1] t' \<noteq> None" by blast
  with t' show ?thesis by blast
qed

subsection \<open>\<^verbatim>\<open>optimize\<close> and \<^verbatim>\<open>get_grids\<close>\<close>

lemma depth_child:
  assumes "Some c \<in> set (L @ R)"
  shows "depth c < depth (Trie n leaf L R)"
proof -
  have "x \<in> set xs \<Longrightarrow> x \<le> foldr max xs 0" for x and xs :: "nat list" by (induction xs) auto
  moreover have "depth c \<in> set (map (case_option 0 depth) (L @ R))" using assms by force
  ultimately have "depth c \<le> foldr max (map (case_option 0 depth) (L @ R)) 0" by blast
  then show ?thesis by (simp only: depth.simps less_Suc_eq_le)
qed

lemma set_back: "next_left t ! i = Some l \<Longrightarrow> next_right t ! i = Some r \<Longrightarrow> set_right i r (set_left i l t) = t"
  by (cases t) (simp add: set_right_def set_left_def list_update_same_conv, metis list_update_beyond list_update_id not_le)

lemma optimize_noop:
  assumes "trie_ok t" and "depth t \<le> fuel"
  shows "trie_optimize fuel t = Some (Inr ([], t))"
  using assms
proof (induction fuel arbitrary: t)
  case 0
  then show ?case by (cases t) simp
next
  case (Suc fuel)
  have "trie_optimize_dirs fuel is ([], t) = Some (Inr ([], t))" if "set is \<subseteq> {..<n_dir t}" for "is"
    using that
  proof (induction "is")
    case (Cons i "is")
    have sub: "trie_optimize fuel c = Some (Inr ([], c))" if "next_left t ! i = Some c \<or> next_right t ! i = Some c" for c
    proof -
      have "Some c \<in> set (next_left t @ next_right t)"
        using that Cons.prems Suc.prems(1) by (cases t) (auto, (metis nth_mem)+)
      then show ?thesis using Suc trie_ok_child depth_child by (cases t) (metis less_Suc_eq_le order_less_le_trans trie_node.sel(3,4))
    qed
    show ?case
    proof (cases "next_left t ! i")
      case None
      with Cons show ?thesis by simp
    next
      case (Some l)
      note l = Some
      show ?thesis
      proof (cases "next_right t ! i")
        case (Some r)
        then show ?thesis using l sub[of l] sub[of r] set_back[OF l Some] Cons by (simp add: opt_merge_def)
      qed (use Cons l in simp)
    qed
  qed simp
  then show ?case by (simp add: subset_eq)
qed

text \<open>
  \<^verbatim>\<open>trie_node::optimize\<close> never finds anything to merge.  The set of paths it returns is
  empty for every trie, because a leaf contributes none, so it leaves every trie as it is:
  two sibling leaves are not joined.
\<close>

theorem optimize_keeps_trie:
  assumes "trie_ok t"
  shows "trie_optimize (depth t) t = Some (Inr ([], t))"
  using optimize_noop[OF assms order_refl] .

theorem optimize_keeps_trie_witness:
  "\<exists>t. bindR (add_child [1] (trie_new 1)) (add_child [-1]) = Inr t
     \<and> trie_optimize (depth t) t = Some (Inr ([], t)) \<and> node_count t = 2"
proof -
  define t where "t = Trie 1 False [Some (trie_new 1)] [Some (trie_new 1)]"
  have "trie_ok t" by (simp add: t_def no_children_def)
  from optimize_keeps_trie[OF this] show ?thesis
    by (intro exI[of _ t]) (simp add: t_def trie_new_def dir_idx_def child_or_new_def node_count_def)
qed

subsection \<open>Paths of boxes\<close>

text \<open>
  The boxes of the search come from the bounds by halving; \<open>True\<close> takes the upper half.
\<close>

definition halve :: "double \<times> double \<Rightarrow> bool \<Rightarrow> double \<times> double" where
  "halve c up = (let m = (fst c + snd c) / 2 in if up then (m, snd c) else (fst c, m))"

definition steps_in :: "nat \<Rightarrow> bool list \<Rightarrow> int list" where
  "steps_in i ups = map (\<lambda>up. if up then int i + 1 else - (int i + 1)) ups"

lemma halve_bounds:
  assumes "fst c < snd c"
  shows "fst (halve c up) < snd (halve c up)" and "fst c \<le> fst (halve c up)" and "snd (halve c up) \<le> snd c"
  using assms by (auto simp: halve_def Let_def field_simps)

lemma foldl_halve_less: "fst c < snd c \<Longrightarrow> fst (foldl halve c ups) < snd (foldl halve c ups)"
  by (induction ups arbitrary: c) (simp_all add: halve_bounds)

lemma foldl_halve_within:
  assumes "fst c < snd c"
  shows "fst c \<le> fst (foldl halve c ups) \<and> snd (foldl halve c ups) \<le> snd c"
  using assms
proof (induction ups arbitrary: c)
  case (Cons up ups)
  then show ?case using halve_bounds[OF Cons.prems, of up] Cons.IH[of "halve c up"] by (simp, linarith)
qed simp

lemma path_dir_halves:
  assumes "fst b < snd b"
  shows "\<exists>k \<le> length ups. path_dir (int i) (foldl halve b ups) (fst b) (snd b) = Some (steps_in i (take k ups))"
  using assms
proof (induction ups arbitrary: b)
  case Nil
  then show ?case by (subst path_dir.simps) (simp add: steps_in_def)
next
  case (Cons up ups)
  let ?c = "foldl halve b (up # ups)" and ?b = "halve b up"
  have b': "fst ?b < snd ?b" using Cons.prems by (auto simp: halve_def Let_def field_simps)
  note c = foldl_halve_less[OF b', of ups] foldl_halve_within[OF b', of ups]
  show ?case
  proof (cases "snd b - fst b > 2 * (snd ?c - fst ?c) \<and> (\<bar>fst b - fst ?c\<bar> \<ge> tick \<or> \<bar>snd b - snd ?c\<bar> \<ge> tick)")
    case True
    have turn: "(fst b + snd b) / 2 \<le> fst ?c \<longleftrightarrow> up"
    proof (cases up)
      case False
      then have "snd ?c \<le> (fst b + snd b) / 2" using c(2) by (simp add: halve_def Let_def)
      then show ?thesis using False c(1) by simp
    qed (use c(2) in \<open>simp add: halve_def Let_def\<close>)
    from Cons.IH[OF b'] obtain k where k: "k \<le> length ups"
      "path_dir (int i) (foldl halve ?b ups) (fst ?b) (snd ?b) = Some (steps_in i (take k ups))" by blast
    then have "path_dir (int i) ?c (fst b) (snd b) = Some (steps_in i (take (Suc k) (up # ups)))"
      using True turn by (subst path_dir.simps) (auto simp: Let_def halve_def steps_in_def)
    with k(1) show ?thesis by (intro exI[of _ "Suc k"]) simp
  next
    case False
    then have "path_dir (int i) ?c (fst b) (snd b) = Some []" by (subst path_dir.simps) auto
    then show ?thesis by (intro exI[of _ 0]) (simp add: steps_in_def)
  qed
qed

lemma path_dirs_halves:
  assumes "\<And>i. i \<in> set is \<Longrightarrow> i < length bounds \<and> i < length cs \<and> fst (bounds ! i) < snd (bounds ! i)
      \<and> cs ! i = foldl halve (bounds ! i) (ups i)"
  shows "\<exists>k. (\<forall>i. k i \<le> length (ups i)) \<and> path_dirs is cs bounds = Some (Inr (concat (map (\<lambda>i. steps_in i (take (k i) (ups i))) is)))"
proof -
  have "\<forall>i. \<exists>k \<le> length (ups i). i \<in> set is \<longrightarrow>
      path_dir (int i) (cs ! i) (fst (bounds ! i)) (snd (bounds ! i)) = Some (steps_in i (take k (ups i)))"
    using path_dir_halves assms by (metis le0)
  then obtain k where k: "\<And>i. k i \<le> length (ups i)"
    "\<And>i. i \<in> set is \<Longrightarrow> path_dir (int i) (cs ! i) (fst (bounds ! i)) (snd (bounds ! i)) = Some (steps_in i (take (k i) (ups i)))"
    by metis
  have "path_dirs is cs bounds = Some (Inr (concat (map (\<lambda>i. steps_in i (take (k i) (ups i))) is)))"
    using k(2) assms by (induction "is") auto
  with k(1) show ?thesis by blast
qed

text \<open>
  \<^verbatim>\<open>trie_node::get_path\<close>.  For a box that comes from the bounds by halving them in some
  directions, the loop ends and the path lists, direction by direction, an initial part of
  the halvings: the cell the path describes contains the box.
\<close>

theorem get_path_prefix:
  assumes "n_d \<le> length bounds" and "n_d \<le> length cs"
    and "\<forall>i < n_d. fst (bounds ! i) < snd (bounds ! i) \<and> cs ! i = foldl halve (bounds ! i) (ups i)"
  shows "\<exists>k. (\<forall>i. k i \<le> length (ups i))
     \<and> get_path cs bounds n_d = Some (Inr (concat (map (\<lambda>i. steps_in i (take (k i) (ups i))) [0..<n_d])))
     \<and> (\<forall>i < n_d. fst (foldl halve (bounds ! i) (take (k i) (ups i))) \<le> fst (cs ! i)
           \<and> snd (cs ! i) \<le> snd (foldl halve (bounds ! i) (take (k i) (ups i))))"
proof -
  from path_dirs_halves[of "[0..<n_d]" bounds cs ups] assms obtain k where
    k: "\<forall>i. k i \<le> length (ups i)" "get_path cs bounds n_d = Some (Inr (concat (map (\<lambda>i. steps_in i (take (k i) (ups i))) [0..<n_d])))"
    by (auto simp: get_path_def)
  have "fst (foldl halve c (take j us)) \<le> fst (foldl halve c us) \<and> snd (foldl halve c us) \<le> snd (foldl halve c (take j us))"
    if "fst c < snd c" for c j us
    using foldl_halve_within[OF foldl_halve_less[OF that, of "take j us"], of "drop j us"]
    by (simp flip: foldl_append)
  with k assms(3) show ?thesis by auto
qed

theorem get_path_prefix_witness:
  "\<exists>p. get_path [(4, 6)] [(0, 8)] 1 = Some (Inr p)"
proof -
  have "\<forall>i < 1. fst ([(0 :: double, 8)] ! i) < snd ([(0 :: double, 8)] ! i)
      \<and> [(4, 6)] ! i = foldl halve ([(0 :: double, 8)] ! i) [True, False]"
    by (simp add: halve_def)
  from get_path_prefix[OF _ _ this] show ?thesis by force
qed

text \<open>
  Boxes of different sizes in one trie.  The path of the box \<open>[0, 4]\<close> within \<open>[0, 8]\<close> is
  empty and a prefix of the path of \<open>[4, 6]\<close>; inserting the second makes the node of the
  first an inner node, and the quarter \<open>[0, 2]\<close> of the first box is then not found.
\<close>

theorem make_trie_loses_box:
  "\<exists>l t. add_node (box_new [(4, 6)]) (ll_new (box_new [(0, 4)])) = Inr l \<and> make_trie l 1 [(0, 8)] = Some (Inr t)
     \<and> get_path [(0, 2)] [(0, 8)] 1 = Some (Inr [- 1]) \<and> \<not> trie_find t [- 1]"
proof -
  let ?l = "case add_node (box_new [(4, 6)]) (ll_new (box_new [(0, 4)])) of Inr l \<Rightarrow> l | Inl _ \<Rightarrow> ll_empty"
  let ?t = "Trie 1 False [None] [Some (Trie 1 True [None] [None])]"
  have "\<not> isl (add_node (box_new [(4, 6)]) (ll_new (box_new [(0, 4)])))" by code_simp
  then have l: "add_node (box_new [(4, 6)]) (ll_new (box_new [(0, 4)])) = Inr ?l" by (auto split: sum.splits)
  have "make_trie ?l 1 [(0, 8)] = Some (Inr ?t)" by code_simp
  moreover have "get_path [(0, 2)] [(0, 8)] 1 = Some (Inr [- 1])" by code_simp
  moreover have "\<not> trie_find ?t [- 1]" by code_simp
  ultimately show ?thesis using l by blast
qed

end
