(* ===== verification/Box_Query.thy ===== *)
theory Box_Query
  imports Bounding_Box "HOL-Library.Product_Lexorder"
begin

text \<open>
  Queries on boxes: \<^verbatim>\<open>bounding_box::substitute\<close> puts the bounds of a box for the templates
  of a prepared store and asks a solver; \<^verbatim>\<open>make_smt_query\<close> asks for a point of the box.
  The second half is the certificate theorem for the way the drivers set their systems up:
  a positive answer of the linear solver proves the conclusion on the whole box.
\<close>

type_synonym id_map = "((int \<times> int) \<times> int) list"

text \<open>\<^verbatim>\<open>id_map[std::make_pair(i, j)]\<close>, 0 for a missing key.\<close>

definition id_at :: "id_map \<Rightarrow> int \<times> int \<Rightarrow> int" where
  "id_at id_map k = (case mp_find id_map k of None \<Rightarrow> 0 | Some i \<Rightarrow> i)"

definition box_sub_map :: "id_map \<Rightarrow> bounding_box \<Rightarrow> sub_map" where
  "box_sub_map id_map b =
     mp_sets (concat (map (\<lambda>(i, c). [(id_at id_map (int i, 0), fst c), (id_at id_map (int i, 1), snd c)])
        (enumerate 0 (coords b)))) []"

text \<open>
  With \<^verbatim>\<open>type_\<close> 0 the linear solver is asked, with 1 z3; any other value first replaces the
  equations and inequalities of the store by the equations of the box.
\<close>

definition pin_eq :: "double vars \<Rightarrow> int \<times> double \<Rightarrow> double solver \<Rightarrow> double solver result" where
  "pin_eq v = (\<lambda>(i, x) s.
     bindR (if 0 \<le> i then var_at v (nat i) else Inl Undefined) (\<lambda>p.
     bindR (ofopt (add_c p (- 1 * x))) (\<lambda>q. Inr (add_constr q False s))))"

definition box_substitute :: "double optimizer \<Rightarrow> (zform list \<Rightarrow> check_result) \<Rightarrow> double vars \<Rightarrow> id_map \<Rightarrow> int
    \<Rightarrow> bounding_box \<Rightarrow> double solver \<Rightarrow> (bool \<times> double solver) result" where
  "box_substitute optimize check v id_map typ b s =
     (let m = box_sub_map id_map b in
      if typ = 0 then bindR (solve_GRB optimize v m s) (\<lambda>r. Inr (r, s))
      else if typ = 1 then solve_z3 check v m s
      else bindR (foldR (pin_eq v) m (empty_constraints s)) (solve_z3 check v m))"

definition make_smt_query :: "(zform list \<Rightarrow> check_result) \<Rightarrow> double expr list \<Rightarrow> double solver \<Rightarrow> bounding_box \<Rightarrow> bool result" where
  "make_smt_query check e_check s b = smt_query check e_check (coords b) s"

subsection \<open>The systems of the drivers\<close>

text \<open>
  A driver declares \<open>n\<close> program variables, then a group \<open>t\<close> of \<open>2 * n\<close> templates for the
  lower and upper bounds, and gives each core the hypotheses \<^verbatim>\<open>v[i] + v(t,i)*-1\<close> and
  \<^verbatim>\<open>v(t,i+n) + v[i]*-1\<close>.  The identifiers of the templates go into \<^verbatim>\<open>id_map\<close>.
\<close>

definition lower_hyp :: "('a::{zero, one, plus, times, uminus}) vars \<Rightarrow> string \<Rightarrow> nat \<Rightarrow> 'a multinomial result" where
  "lower_hyp v t i =
     bindR (var_at v i) (\<lambda>x. bindR (var_in_group v t i) (\<lambda>y. ofopt (Option.bind (mult_c y (- 1)) (add x))))"

definition upper_hyp :: "nat \<Rightarrow> ('a::{zero, one, plus, times, uminus}) vars \<Rightarrow> string \<Rightarrow> nat \<Rightarrow> 'a multinomial result" where
  "upper_hyp n v t i =
     bindR (var_at v i) (\<lambda>x. bindR (var_in_group v t (i + n)) (\<lambda>y. ofopt (Option.bind (mult_c x (- 1)) (add y))))"

definition driver_hyps :: "nat \<Rightarrow> ('a::{zero, one, plus, times, uminus}) vars \<Rightarrow> string \<Rightarrow> 'a multinomial list result" where
  "driver_hyps n v t =
     bindR (mapR (\<lambda>i. bindR (lower_hyp v t i) (\<lambda>l. bindR (upper_hyp n v t i) (\<lambda>u. Inr [l, u]))) [0..<n])
       (\<lambda>ls. Inr (concat ls))"

definition driver_core :: "nat \<Rightarrow> int \<Rightarrow> ('a::{zero, one, plus, times, uminus}) multinomial \<Rightarrow> 'a vars \<Rightarrow> string
    \<Rightarrow> 'a handelman_core result" where
  "driver_core n d r v t =
     bindR (driver_hyps n v t) (\<lambda>ls. Inr (set_max_degree d (add_rhs r (fold add_lhs ls (core_new v)))))"

definition driver_ids :: "nat \<Rightarrow> id_map" where
  "driver_ids n = mp_sets (concat (map (\<lambda>i. [((int i, 0), int (n + i)), ((int i, 1), int (n + n + i))]) [0..<n])) []"

definition driver_vars :: "nat \<Rightarrow> string \<Rightarrow> ('a::{zero, one}) vars \<Rightarrow> bool" where
  "driver_vars n t v \<longleftrightarrow>
     vars_ok v \<and> n + n + n \<le> length (var_arr v) \<and> n + n + n < 2 ^ 31
     \<and> (\<forall>i k. i < length (var_arr v) \<longrightarrow> var_arr v ! i = new_symbol k True \<longrightarrow> (is_template k \<longleftrightarrow> n \<le> i))
     \<and> (\<forall>i < n + n. mp_find (vmp v) (t @ ''_'' @ nat_to_string i) = Some (n + i))"

text \<open>The two hypotheses as polynomials: the program variable is outermost.\<close>

abbreviation lin2 :: "symbol \<Rightarrow> symbol \<Rightarrow> 'a \<Rightarrow> 'a \<Rightarrow> ('a::zero) multinomial" where
  "lin2 x y a b \<equiv> MNode False x [(0, MNode False y [(0, MConst False 0), (1, MConst False b)]), (1, MConst False a)]"

lemma simplify_lin: "b \<noteq> 0 \<Longrightarrow> simplify (MNode False y [(0, MConst False 0), (1, MConst False b)]) = MNode False y [(0, MConst False 0), (1, MConst False b)]"
  by (simp add: simplify_def is_zero_def new_const_def)

lemma neg_symbol: "mult_c (new_symbol y True :: 'a::linordered_idom multinomial) (- 1)
    = Some (MNode False y [(0, MConst False 0), (1, MConst False (- 1))])"
  by (simp add: new_symbol_def new_const_def simplify_lin)

lemma lower_poly:
  assumes "get_id x < get_id y"
  shows "Option.bind (mult_c (new_symbol y True) (- 1)) (add (new_symbol x True)) = Some (lin2 x y 1 (- 1 :: 'a::linordered_idom))"
  using assms unfolding neg_symbol by (simp add: new_symbol_def new_const_def symbol_gt_def symbol_lt_def)

lemma upper_poly:
  assumes "get_id x < get_id y"
  shows "Option.bind (mult_c (new_symbol x True) (- 1)) (add (new_symbol y True)) = Some (lin2 x y (- 1 :: 'a::linordered_idom) 1)"
  using assms unfolding neg_symbol by (simp add: new_symbol_def new_const_def symbol_gt_def symbol_lt_def simplify_lin)

lemma lin2_props:
  assumes "get_id x < get_id y" and "a \<noteq> 0" and "b \<noteq> (0 :: 'a::linordered_idom)"
  shows "wf_poly (kept (lin2 x y a b))" and "exps_le 1 (kept (lin2 x y a b))" and "symbols (kept (lin2 x y a b)) = [x, y]"
    and "eval \<rho> (kept (lin2 x y a b)) = a * \<rho> (get_id x) + b * \<rho> (get_id y)"
    and "\<not> is_template x \<Longrightarrow> get_degree False (kept (lin2 x y a b)) = 1"
  using assms by (simp_all add: kept_def mp_ok_def mp_keys_def)

text \<open>The symbol at a position of the table.\<close>

definition sym_at :: "'a vars \<Rightarrow> nat \<Rightarrow> symbol" where
  "sym_at v i = (case var_arr v ! i of MNode s k m \<Rightarrow> k | MConst s c \<Rightarrow> \<lparr>get_id = 0, is_template = False\<rparr>)"

lemma sym_at_props:
  assumes "driver_vars n t v" and "i < length (var_arr v)"
  shows "var_arr v ! i = new_symbol (sym_at v i) True" and "unat (get_id (sym_at v i)) = i"
    and "is_template (sym_at v i) \<longleftrightarrow> n \<le> i"
proof -
  from assms obtain k where k: "var_arr v ! i = new_symbol k True" "unat (get_id k) = i"
    by (auto simp: driver_vars_def vars_ok_def)
  then have "sym_at v i = k" by (simp add: sym_at_def new_symbol_def)
  with k assms show "var_arr v ! i = new_symbol (sym_at v i) True" "unat (get_id (sym_at v i)) = i"
    "is_template (sym_at v i) \<longleftrightarrow> n \<le> i" by (auto simp: driver_vars_def)
qed

lemma sym_at_less:
  assumes "driver_vars n t v" and "i < j" and "j < length (var_arr v)"
  shows "get_id (sym_at v i) < get_id (sym_at v j)"
  using sym_at_props(2)[OF assms(1), of i] sym_at_props(2)[OF assms(1), of j] assms(2,3) by (simp add: word_less_nat_alt)

definition lower_of :: "nat \<Rightarrow> ('a::linordered_idom) vars \<Rightarrow> nat \<Rightarrow> 'a multinomial" where
  "lower_of n v i = lin2 (sym_at v i) (sym_at v (n + i)) 1 (- 1)"

definition upper_of :: "nat \<Rightarrow> ('a::linordered_idom) vars \<Rightarrow> nat \<Rightarrow> 'a multinomial" where
  "upper_of n v i = lin2 (sym_at v i) (sym_at v (n + n + i)) (- 1) 1"

lemma driver_hyp_polys:
  fixes v :: "'a::linordered_idom vars"
  assumes dv: "driver_vars n t v" and i: "i < n"
  shows "lower_hyp v t i = Inr (lower_of n v i)" and "upper_hyp n v t i = Inr (upper_of n v i)"
proof -
  have len: "n + n + n \<le> length (var_arr v)" using dv by (simp add: driver_vars_def)
  have at: "var_at v j = Inr (new_symbol (sym_at v j) True)" if "j < n + n + n" for j
    using that len sym_at_props(1)[OF dv, of j] by (simp add: var_at_def)
  have grp: "var_in_group v t j = Inr (new_symbol (sym_at v (n + j)) True)" if "j < n + n" for j
    using that dv at[of "n + j"] by (simp add: var_in_group_def Let_def driver_vars_def)
  have "get_id (sym_at v i) < get_id (sym_at v (n + i))" by (rule sym_at_less[OF dv]) (use i len in simp_all)
  from lower_poly[OF this] show "lower_hyp v t i = Inr (lower_of n v i)"
    using i by (simp add: lower_hyp_def at grp lower_of_def)
  have "get_id (sym_at v i) < get_id (sym_at v (n + n + i))" by (rule sym_at_less[OF dv]) (use i len in simp_all)
  from upper_poly[OF this] show "upper_hyp n v t i = Inr (upper_of n v i)"
    using i by (simp add: upper_hyp_def at grp upper_of_def add.commute add.left_commute)
qed

lemma mapR_Inr_map: "(\<And>x. x \<in> set xs \<Longrightarrow> f x = Inr (g x)) \<Longrightarrow> mapR f xs = Inr (map g xs)"
  by (induction xs) auto

lemma driver_hyps_spec:
  "driver_vars n t v \<Longrightarrow> driver_hyps n v t = Inr (concat (map (\<lambda>i. [lower_of n v i, upper_of n v i]) [0..<n]))"
  unfolding driver_hyps_def by (subst mapR_Inr_map[where g = "\<lambda>i. [lower_of n v i, upper_of n v i]"]) (auto simp: driver_hyp_polys)

lemma fold_add_lhs: "fold add_lhs ls c = c\<lparr>lhs := lhs c @ map kept ls\<rparr>"
  by (induction ls arbitrary: c) (simp_all add: add_lhs_def)

lemma driver_core_spec:
  assumes "driver_vars n t v" and "d \<noteq> 0"
  shows "\<exists>c. driver_core n d r v t = Inr c \<and> slv c = solver_new v \<and> max_deg c = d \<and> rhs_arr c = [kept r]
     \<and> set (lhs c) = kept ` (\<Union>i < n. {lower_of n v i, upper_of n v i})"
  using assms by (simp add: driver_core_def driver_hyps_spec set_max_degree_def add_rhs_def fold_add_lhs core_new_def
      atLeast0LessThan)

text \<open>
  A core is often constructed before another one is prepared: the table has then grown
  between its construction from \<open>v0\<close> and its preparation with \<open>v\<close>.
\<close>

definition same_base :: "nat \<Rightarrow> 'a vars \<Rightarrow> 'a vars \<Rightarrow> bool" where
  "same_base n v0 v \<longleftrightarrow> (\<forall>i < n + n + n. var_arr v0 ! i = var_arr v ! i)"

lemma same_base_refl [simp]: "same_base n v v"
  by (simp add: same_base_def)

lemma same_base_hyps:
  assumes "same_base n v0 v"
  shows "(\<Union>i < n. {lower_of n v0 i, upper_of n v0 i}) = (\<Union>i < n. {lower_of n v i, upper_of n v i})"
proof -
  have "sym_at v0 i = sym_at v i" if "i < n + n + n" for i using assms that by (simp add: same_base_def sym_at_def)
  then show ?thesis by (intro SUP_cong) (simp_all add: lower_of_def upper_of_def)
qed

lemma driver_core_parts:
  assumes "driver_vars n t v0" and "same_base n v0 v" and "0 < d" and "driver_core n d r v0 t = Inr c"
  shows "slv c = solver_new v0" and "max_deg c = d" and "rhs_arr c = [kept r]"
    and "set (lhs c) = kept ` (\<Union>i < n. {lower_of n v i, upper_of n v i})"
  using driver_core_spec[OF assms(1), of d r] assms(3,4) same_base_hyps[OF assms(2)] by auto

lemma driver_core_wf:
  fixes r :: "'a::linordered_idom multinomial"
  assumes dv0: "driver_vars n t v0" "same_base n v0 v" and dv: "driver_vars n t v"
    and r: "wf_poly r" "over n n r" and d: "0 < d" "d < 2 ^ 15" and c: "driver_core n d r v0 t = Inr c"
  shows "core_wf n (n + n + n) 1 c v"
proof -
  let ?N = "n + n + n"
  note cs = driver_core_parts(2-4)[OF dv0 d(1) c]
  have len: "?N \<le> length (var_arr v)" and v: "vars_ok v" using dv by (simp_all add: driver_vars_def)
  have lhs: "exps_le 1 l \<and> get_degree False l = 1 \<and> wf_poly l \<and> over n ?N l" if "l \<in> set (lhs c)" for l
  proof -
    from that cs(3) obtain i where i: "i < n" and l: "l \<in> {kept (lower_of n v i), kept (upper_of n v i)}" by auto
    have ids: "get_id (sym_at v i) < get_id (sym_at v (n + i))" "get_id (sym_at v i) < get_id (sym_at v (n + n + i))"
      by (rule sym_at_less[OF dv], use i len in simp_all)+
    note p = sym_at_props(2,3)[OF dv, of i] sym_at_props(2,3)[OF dv, of "n + i"] sym_at_props(2,3)[OF dv, of "n + n + i"]
    have "over n ?N (kept (lower_of n v i))" "over n ?N (kept (upper_of n v i))"
      using i len p by (auto simp: over_def lower_of_def upper_of_def kept_def)
    then show ?thesis using l i len p lin2_props(1,2,5)[OF ids(1), of 1 "- 1"] lin2_props(1,2,5)[OF ids(2), of "- 1" 1]
      by (auto simp: lower_of_def upper_of_def)
  qed
  have "over n ?N (kept r)" "wf_poly (kept r)" using r len by (auto simp: over_def kept_def)
  with lhs cs v len d show ?thesis by (auto simp: core_wf_def)
qed

subsection \<open>The certificate theorem\<close>

lemma id_at_driver:
  assumes "i < n"
  shows "id_at (driver_ids n) (int i, 0) = int (n + i)" and "id_at (driver_ids n) (int i, 1) = int (n + n + i)"
proof -
  let ?kvs = "concat (map (\<lambda>i. [((int i, 0 :: int), int (n + i)), ((int i, 1), int (n + n + i))]) [0..<n])"
  have "mp_find (driver_ids n) (int i, 0) = Some (int (n + i))" "mp_find (driver_ids n) (int i, 1) = Some (int (n + n + i))"
    unfolding driver_ids_def using assms by (intro mp_find_sets_unique; force)+
  then show "id_at (driver_ids n) (int i, 0) = int (n + i)" "id_at (driver_ids n) (int i, 1) = int (n + n + i)"
    by (simp_all add: id_at_def)
qed

lemma box_sub_map_driver:
  assumes len: "length (coords b) = n"
  shows "i < n \<Longrightarrow> mp_find (box_sub_map (driver_ids n) b) (int (n + i)) = Some (fst (coords b ! i))"
    and "i < n \<Longrightarrow> mp_find (box_sub_map (driver_ids n) b) (int (n + n + i)) = Some (snd (coords b ! i))"
    and "k < int n \<or> int (n + n + n) \<le> k \<Longrightarrow> mp_find (box_sub_map (driver_ids n) b) k = None"
proof -
  let ?kvs = "concat (map (\<lambda>(i, c). [(id_at (driver_ids n) (int i, 0), fst c), (id_at (driver_ids n) (int i, 1), snd c)])
        (enumerate 0 (coords b)))"
  have mem: "(k, x) \<in> set ?kvs \<longleftrightarrow>
      (\<exists>j < n. k = int (n + j) \<and> x = fst (coords b ! j) \<or> k = int (n + n + j) \<and> x = snd (coords b ! j))" for k x
  proof -
    have "(k, x) \<in> set ?kvs \<longleftrightarrow> (\<exists>(j, c) \<in> set (enumerate 0 (coords b)).
        (k, x) = (id_at (driver_ids n) (int j, 0), fst c) \<or> (k, x) = (id_at (driver_ids n) (int j, 1), snd c))"
      by (simp add: case_prod_unfold)
    also have "\<dots> \<longleftrightarrow> (\<exists>j < n. (k, x) = (id_at (driver_ids n) (int j, 0), fst (coords b ! j))
        \<or> (k, x) = (id_at (driver_ids n) (int j, 1), snd (coords b ! j)))"
      unfolding Bex_enumerate len ..
    finally show ?thesis by (auto simp: id_at_driver)
  qed
  show "mp_find (box_sub_map (driver_ids n) b) (int (n + i)) = Some (fst (coords b ! i))" if "i < n"
    unfolding box_sub_map_def by (rule mp_find_sets_unique) (use that in \<open>auto simp only: mem, auto\<close>)
  show "mp_find (box_sub_map (driver_ids n) b) (int (n + n + i)) = Some (snd (coords b ! i))" if "i < n"
    unfolding box_sub_map_def by (rule mp_find_sets_unique) (use that in \<open>auto simp only: mem, auto\<close>)
  show "mp_find (box_sub_map (driver_ids n) b) k = None" if "k < int n \<or> int (n + n + n) \<le> k"
  proof -
    have "k \<notin> fst ` set ?kvs" using that mem by fastforce
    then show ?thesis by (simp add: box_sub_map_def mp_find_sets_absent)
  qed
qed

lemma id_key_shift: "id_key i = (uint i + 2147483648) mod 4294967296 - 2147483648"
proof -
  have "sint i = signed_take_bit 31 (uint i)" by (simp add: sint_uint)
  also have "\<dots> = take_bit 32 (uint i + 2 ^ 31) - 2 ^ 31" using signed_take_bit_eq_take_bit_shift[of 31 "uint i"] by simp
  finally show ?thesis by (simp only: id_key_def take_bit_eq_mod) simp
qed

lemma uint_bounds: "0 \<le> uint i" "uint i < 4294967296" for i :: u32
  using uint_ge_0[of i] uint_bounded[of i] by simp_all

lemma id_key_small:
  assumes "unat i < 2 ^ 31"
  shows "id_key i = int (unat i)"
proof -
  have "unat i < 2147483648" using assms by simp
  then have "uint i < 2147483648" unfolding uint_nat by linarith
  then have "(uint i + 2147483648) mod 4294967296 = uint i + 2147483648"
    using uint_bounds(1)[of i] by (intro mod_pos_pos_trivial) linarith+
  then show ?thesis unfolding id_key_shift by (simp add: uint_bounds)
qed

lemma id_key_large:
  assumes "2 ^ 31 \<le> unat i"
  shows "id_key i < 0"
proof -
  have "2147483648 \<le> unat i" using assms by simp
  then have "2147483648 \<le> uint i" unfolding uint_nat by linarith
  then have "(uint i + 2147483648) mod 4294967296 = uint i + 2147483648 - 4294967296"
    using uint_bounds(2)[of i] by (subst mod_pos_geq) (linarith, linarith, rule mod_pos_pos_trivial, linarith+)
  then show ?thesis using uint_bounds(2)[of i] unfolding id_key_shift by linarith
qed

text \<open>
  The prepared store of a driver core is linear once a box is substituted: the bounds of the
  box replace the templates of the group, the other templates stay as unknowns.
\<close>

lemma driver_split:
  fixes n :: nat
  assumes len: "length (coords b) = n" and n: "n + n + n < 2 ^ 31" and i: "n \<le> unat i"
  shows "i \<in> from_pos (n + n + n) \<longleftrightarrow> mp_find (box_sub_map (driver_ids n) b) (id_key i) = None"
proof (cases "unat i < n + n + n")
  case True
  then have key: "id_key i = int (unat i)" using n by (intro id_key_small) simp
  have "mp_find (box_sub_map (driver_ids n) b) (int (unat i)) \<noteq> None"
  proof (cases "unat i < n + n")
    case True
    with box_sub_map_driver(1)[OF len, of "unat i - n"] i show ?thesis by simp
  next
    case False
    with box_sub_map_driver(2)[OF len, of "unat i - (n + n)"] True show ?thesis by simp
  qed
  with True key show ?thesis by simp
next
  case False
  have "id_key i < 0 \<or> int (n + n + n) \<le> id_key i"
  proof (cases "unat i < 2 ^ 31")
    case True
    have "int (n + n + n) \<le> int (unat i)" using False by linarith
    with id_key_small[OF True] show ?thesis by simp
  next
    case False
    then show ?thesis using id_key_large[of i] by simp
  qed
  then have "mp_find (box_sub_map (driver_ids n) b) (id_key i) = None"
    by (intro box_sub_map_driver(3)[OF len]) auto
  with False show ?thesis by simp
qed

lemma driver_store_linear:
  fixes c :: "double handelman_core"
  assumes post: "rhs_post n (n + n + n) c' R (v, s) (v', s') xs es" and s: "eq_list s = []" "ineq_list s = []"
    and len: "length (coords b) = n" and n: "n + n + n < 2 ^ 31" and m: "length (var_arr v') \<le> m"
  shows "grb_linear m (box_sub_map (driver_ids n) b) (from_pos (n + n + n)) s'"
  unfolding grb_linear_def
proof
  fix p assume p: "p \<in> set (store_polys s')"
  have "\<exists>q. p = stored q \<and> tdeg_le (from_pos (n + n + n)) 1 q
      \<and> (\<forall>k \<in> set (symbols q). n \<le> unat (get_id k) \<and> unat (get_id k) < length (var_arr v'))"
  proof -
    from p s post consider q where "p = stored q" "q \<in> set es" | x where "p = stored x" "x \<in> set xs"
      by (auto simp: store_polys_def rhs_post_def)
    then show ?thesis
    proof cases
      case (2 x)
      with post obtain k where k: "x = new_symbol k True" "n + n + n \<le> unat (get_id k)" "x \<in> set (var_arr v')"
        by (auto simp: rhs_post_def)
      moreover have "unat (get_id k) < length (var_arr v')" using post k vars_ok_entry[of v' k] by (auto simp: rhs_post_def)
      ultimately show ?thesis using 2 tdeg_le_new_symbol by (intro exI[of _ x]) auto
    qed (use post in \<open>auto simp: rhs_post_def\<close>)
  qed
  then obtain q where q: "p = stored q" "tdeg_le (from_pos (n + n + n)) 1 q"
    and ids: "\<And>k. k \<in> set (symbols q) \<Longrightarrow> n \<le> unat (get_id k) \<and> unat (get_id k) < length (var_arr v')" by blast
  have "tdeg_le (from_pos (n + n + n)) 1 p" using q by (simp add: stored_def tdeg.good_assign tdeg.good_set_save)
  moreover have "split_syms [0..<m] (box_sub_map (driver_ids n) b) (from_pos (n + n + n)) p"
    unfolding split_syms_def q(1) symbols_stored using ids driver_split[OF len n] m by fastforce
  ultimately show "tdeg_le (from_pos (n + n + n)) 1 p \<and> split_syms [0..<m] (box_sub_map (driver_ids n) b) (from_pos (n + n + n)) p"
    by blast
qed

text \<open>The hypotheses of a driver core hold where every variable lies between its bounds.\<close>

lemma driver_lhs_nonneg:
  fixes v :: "'a::linordered_idom vars"
  assumes dv: "driver_vars n t v" and l: "l \<in> kept ` (\<Union>i < n. {lower_of n v i, upper_of n v i})"
    and between: "\<And>i. i < n \<Longrightarrow> \<rho> (get_id (sym_at v (n + i))) \<le> \<rho> (get_id (sym_at v i))
        \<and> \<rho> (get_id (sym_at v i)) \<le> \<rho> (get_id (sym_at v (n + n + i)))"
  shows "0 \<le> eval \<rho> l"
proof -
  from l obtain i where i: "i < n" and l: "l = kept (lower_of n v i) \<or> l = kept (upper_of n v i)" by auto
  have "n + n + n \<le> length (var_arr v)" using dv by (simp add: driver_vars_def)
  then have ids: "get_id (sym_at v i) < get_id (sym_at v (n + i))" "get_id (sym_at v i) < get_id (sym_at v (n + n + i))"
    using i by (intro sym_at_less[OF dv]; simp)+
  show ?thesis
    using l lin2_props(4)[OF ids(1), of 1 "- 1 :: 'a" \<rho>] lin2_props(4)[OF ids(2), of "- 1 :: 'a" 1 \<rho>] between[OF i]
    by (auto simp: lower_of_def upper_of_def)
qed

text \<open>
  The query a driver system answers: it is defined for every box, and a positive answer is a
  certificate.
\<close>

lemma driver_query:
  fixes r :: "double multinomial"
  assumes dv0: "driver_vars n t v0" "same_base n v0 v" and dv: "driver_vars n t v"
    and r: "wf_poly r" "over n n r" and d: "0 < d" "d < 2 ^ 15"
    and c: "driver_core n d r v0 t = Inr c" and run: "core_prepare c v = Some (Inr (c', v'))"
    and later: "vars_sz v' \<le> vars_sz v2" and opt: "optimizer_ok optimize" and len: "length (coords b) = n"
  shows "\<exists>ans. box_substitute optimize check v2 (driver_ids n) 0 b (slv c') = Inr (ans, slv c')
     \<and> (ans \<longrightarrow> (\<forall>xs. in_box b xs \<longrightarrow> (\<exists>y. substitute xs r = Some y \<and> 0 \<le> y)))"
proof -
  let ?N = "n + n + n" and ?sub = "box_sub_map (driver_ids n) b" and ?e = "[0..<vars_sz v2]"
  note wf = driver_core_wf[OF dv0 dv r d c]
  have n: "?N < 2 ^ 31" "?N \<le> length (var_arr v)" using dv by (simp_all add: driver_vars_def)
  note cs = driver_core_parts(1,3,4)[OF dv0 d(1) c]
  from core_prepare_spec[OF wf] run obtain ys es where
    post: "rhs_post n ?N (make_deg_arr c) (set (rhs_arr c)) (v, slv c) (v', slv c') ys es" by auto
  have "grb_linear (vars_sz v2) ?sub (from_pos ?N) (slv c')"
    by (rule driver_store_linear[OF post _ _ len n(1)]) (use later in \<open>simp_all add: cs(1) solver_new_def vars_sz_def\<close>)
  from solve_GRB_spec[OF this opt] obtain ans where ans: "solve_GRB optimize v2 ?sub (slv c') = Inr ans"
    and sat: "ans \<Longrightarrow> \<exists>x. sat_at (grb_val ?e ?sub x) (slv c')" by blast
  have "\<exists>y. substitute xs r = Some y \<and> 0 \<le> y" if inside: "in_box b xs" and ans for xs
  proof -
    from sat[OF that(2)] obtain x where x: "sat_at (grb_val ?e ?sub x) (slv c')" by blast
    let ?\<tau> = "grb_val ?e ?sub x" and ?\<rho> = "\<lambda>i. if unat i < n then xs ! unat i else grb_val ?e ?sub x i"
    have xs: "length xs = n" "\<And>i. i < n \<Longrightarrow> fst (coords b ! i) \<le> xs ! i \<and> xs ! i \<le> snd (coords b ! i)"
      using inside len by (auto simp: in_coords_nth)
    have low: "?\<tau> (get_id (sym_at v (n + i))) = fst (coords b ! i)" and up: "?\<tau> (get_id (sym_at v (n + n + i))) = snd (coords b ! i)"
      if i: "i < n" for i
      using i n sym_at_props(2)[OF dv, of "n + i"] sym_at_props(2)[OF dv, of "n + n + i"] box_sub_map_driver(1,2)[OF len i]
      by (simp_all add: grb_val_def id_key_small)
    have "0 \<le> eval ?\<rho> l" if "l \<in> set (lhs c)" for l
    proof (rule driver_lhs_nonneg[OF dv that[unfolded cs(3)]])
      fix i assume i: "i < n"
      note p = sym_at_props(2)[OF dv, of i] sym_at_props(2)[OF dv, of "n + i"] sym_at_props(2)[OF dv, of "n + n + i"]
      show "?\<rho> (get_id (sym_at v (n + i))) \<le> ?\<rho> (get_id (sym_at v i))
          \<and> ?\<rho> (get_id (sym_at v i)) \<le> ?\<rho> (get_id (sym_at v (n + n + i)))"
        using low[OF i] up[OF i] xs(2)[OF i] i n(2) p by simp
    qed
    then have "0 \<le> eval ?\<rho> (kept r)"
      using x by (intro prepared_sound[OF wf run, where \<tau> = ?\<tau>]) (auto simp: sat_at_def cs(2))
    moreover have "eval ?\<rho> r = eval (\<lambda>i. xs ! unat i) r"
      by (rule eval_cong) (use r(2) in \<open>auto simp: over_def ret_id_arr_symbols\<close>)
    moreover have "substitute xs r = Some (eval (\<lambda>i. xs ! unat i) r)"
      by (rule substitute_eval) (use r(2) xs(1) in \<open>auto simp: over_def ret_id_arr_symbols\<close>)
    ultimately show ?thesis by (simp add: kept_def)
  qed
  with ans show ?thesis by (auto simp: box_substitute_def Let_def)
qed


text \<open>A driver system with one program variable, the conclusion \<open>x \<ge> 0\<close> and the box \<open>[2, 3]\<close>.\<close>

definition dr_vars :: "double vars" where
  "dr_vars = (case bindR (vars_new 1 0) (\<lambda>v. bindR (add_var_group v 2 True ''t'') (\<lambda>(name, w). Inr w)) of
     Inl err \<Rightarrow> \<lparr>var_arr = [], vmp = [], NUM_SYMBOLS = 0\<rparr> | Inr w \<Rightarrow> w)"

definition dr_rhs :: "double multinomial" where
  "dr_rhs = new_symbol \<lparr>get_id = 0, is_template = False\<rparr> True"

definition dr_box :: bounding_box where
  "dr_box = box_new [(2, 3)]"

definition dr_prepared :: "((double solver \<times> nat) result) option" where
  "dr_prepared =
     (case driver_core 1 1 dr_rhs dr_vars ''t'' of
        Inl err \<Rightarrow> None
      | Inr c \<Rightarrow> map_option (map_sum id (\<lambda>(c', v'). (slv c', vars_sz v'))) (core_prepare c dr_vars))"

definition dr_point :: "nat \<Rightarrow> double" where
  "dr_point i = (if i = 3 then 1 else if i = 5 then 2 else 0)"

definition ideal_optimizer :: "double optimizer" where
  "ideal_optimizer n cs = (if feasible n cs then OPTIMAL else OTHER_STATUS)"

lemma ideal_optimizer_ok: "optimizer_ok ideal_optimizer"
  by (simp add: optimizer_ok_def ideal_optimizer_def)

lemma dr_prepared_feasible:
  "case dr_prepared of
      Some (Inr (s, m)) \<Rightarrow> m = 6 \<and>
        (case grb_constraints 6 (box_sub_map (driver_ids 1) dr_box) s of
           Inr cs \<Rightarrow> list_all (lin_holds dr_point) cs | Inl err \<Rightarrow> False)
    | _ \<Rightarrow> False"
  by code_simp

lemma dr_vars_ok: "driver_vars 1 ''t'' dr_vars"
proof -
  have v: "dr_vars = \<lparr>var_arr = [new_symbol \<lparr>get_id = 0, is_template = False\<rparr> True,
       new_symbol \<lparr>get_id = 1, is_template = True\<rparr> True, new_symbol \<lparr>get_id = 2, is_template = True\<rparr> True],
     vmp = [(''t_0'', 1), (''t_1'', 2), (''var_0'', 0)], NUM_SYMBOLS = 3\<rparr>"
    by code_simp
  have "nat_to_string 0 = ''0''" "nat_to_string (Suc 0) = ''1''" by (subst nat_to_string.simps, simp)+
  then have "mp_find (vmp dr_vars) (''t'' @ ''_'' @ nat_to_string i) = Some (1 + i)" if "i < 2" for i
    using that by (cases i) (simp_all add: v less_2_cases_iff)
  moreover have "vars_ok dr_vars" by (auto simp: vars_ok_def v less_Suc_eq nth_Cons' split: if_splits)
  moreover have "is_template k \<longleftrightarrow> 1 \<le> i" if "i < 3" "var_arr dr_vars ! i = new_symbol k True" for i k
    using that by (auto simp: v less_Suc_eq numeral_3_eq_3)
  ultimately show ?thesis by (simp add: driver_vars_def v)
qed


end
