(* ===== verification/Search.thy ===== *)
theory Search
  imports Trie Box_Query
begin

text \<open>
  The sequential search of \<^verbatim>\<open>src/approximation.cpp\<close>: the class
  \<^verbatim>\<open>fragmentation_intersection\<close> with \<^verbatim>\<open>run_iters\<close>, the list-wide passes
  (\<^verbatim>\<open>ll::recompute_confidence\<close>, \<^verbatim>\<open>recompute_confidence(e_check)\<close>, \<^verbatim>\<open>color_code\<close>,
  \<^verbatim>\<open>operation\<close>) and the single-solver class \<^verbatim>\<open>fragmentation\<close>.

  A search keeps a list of boxes and a pointer to the first box that still has to be looked
  at.  One round asks the solvers about that box, and then drops it, keeps it, or replaces it
  by its halves at the end of the list.  Log and console output is not modelled.  A solver
  object is the pair of its variable table and its store; \<open>query\<close> is the call
  \<^verbatim>\<open>box().substitute(solver, id_map, type)\<close>.
\<close>

type_synonym solver_obj = "double vars \<times> double solver"

type_synonym 's query = "'s \<Rightarrow> bounding_box \<Rightarrow> (bool \<times> 's) result"

definition query_of :: "double optimizer \<Rightarrow> (zform list \<Rightarrow> check_result) \<Rightarrow> id_map \<Rightarrow> int \<Rightarrow> solver_obj query" where
  "query_of optimize check id_map typ s b =
     bindR (box_substitute optimize check (fst s) id_map typ b (snd s)) (\<lambda>(r, s'). Inr (r, (fst s, s')))"

subsection \<open>One box\<close>

text \<open>
  The loop over the solvers.  It ends with \<^verbatim>\<open>found\<close> (2: every constraint holds on the box, 1:
  undecided, 0: some constraint fails on the whole box) or with the exception the \<^verbatim>\<open>catch\<close>
  clause receives; verdicts noted before the exception stay in the box.
\<close>

datatype try_result = Completed int | Caught string

definition note_verdict :: "nat \<Rightarrow> int \<Rightarrow> bounding_box \<Rightarrow> bounding_box" where
  "note_verdict i v b = b\<lparr>curr_state_vec := (curr_state_vec b)[i := v]\<rparr>"

fun examine :: "'s query \<Rightarrow> nat list \<Rightarrow> int \<Rightarrow> bounding_box \<times> 's list \<times> 's list
    \<Rightarrow> (try_result \<times> bounding_box \<times> 's list \<times> 's list) result" where
  "examine query [] found (b, ps, ns) = Inr (Completed found, b, ps, ns)"
| "examine query (i # is) found (b, ps, ns) =
     (if length (curr_state_vec b) \<le> i \<or> length ps \<le> i then Inl Undefined
      else if 0 < curr_state_vec b ! i then examine query is found (b, ps, ns)
      else
        (case query (ps ! i) b of
           Inl (Throw msg) \<Rightarrow> Inr (Caught msg, b, ps, ns)
         | Inl Undefined \<Rightarrow> Inl Undefined
         | Inr (yes, s) \<Rightarrow>
             if yes then examine query is found (note_verdict i 1 b, ps[i := s], ns)
             else if length ns \<le> i then Inl Undefined
             else
               (case query (ns ! i) b of
                  Inl (Throw msg) \<Rightarrow> Inr (Caught msg, b, ps[i := s], ns)
                | Inl Undefined \<Rightarrow> Inl Undefined
                | Inr (no, s') \<Rightarrow>
                    if no then Inr (Completed 0, note_verdict i (- 1) b, ps[i := s], ns[i := s'])
                    else examine query is (if found = 2 then 1 else found) (b, ps[i := s], ns[i := s']))))"

text \<open>The two halves of a box along its longest side, with the verdicts copied.\<close>

definition split_box :: "nat \<Rightarrow> bounding_box \<Rightarrow> (bounding_box \<times> bounding_box) result" where
  "split_box n b =
     bindR (longest n b) (\<lambda>idx.
     bindR (divide idx 0 False b) (\<lambda>(nb, b').
     bindR (copy_state_vec (curr_state_vec b') nb) (\<lambda>nb'. Inr (nb', b'))))"

datatype fate = Dropped | Kept | Halved bounding_box

definition decide :: "double \<Rightarrow> nat \<Rightarrow> int \<Rightarrow> bounding_box \<Rightarrow> (fate \<times> bounding_box) result" where
  "decide vol_limit n found b =
     (if found = 2 then Inr (Kept, b\<lparr>confidence := 1\<rparr>)
      else if found = 1 then
        if norm_box b < vol_limit then bindR (recompute_confidence b) (\<lambda>b'. Inr (Kept, b'))
        else bindR (split_box n b) (\<lambda>(nb, b'). Inr (Halved nb, b'))
      else Inr (Dropped, b))"

definition in_trie :: "trie_node option \<Rightarrow> (double \<times> double) list \<Rightarrow> bounding_box \<Rightarrow> bool run" where
  "in_trie trie bounds b =
     (case trie of
        None \<Rightarrow> Some (Inr True)
      | Some t \<Rightarrow> bindO (get_path (coords b) bounds (Trie.n_dir t)) (\<lambda>path. Some (Inr (trie_find t path))))"

subsection \<open>\<^verbatim>\<open>fragmentation_intersection\<close>\<close>

record 's fragmentation_intersection =
  s_pos :: "'s list"
  s_neg :: "'s list"
  n_dirs :: nat
  curr_box :: "addr option"
  frags :: "bounding_box ll"

definition frag_new :: "(double \<times> double) list \<Rightarrow> 's list \<Rightarrow> 's list \<Rightarrow> 's fragmentation_intersection result" where
  "frag_new acoords as_pos as_neg =
     (if length as_pos = length as_neg then
        let l = ll_new (init_curr_state_vec (length as_pos) (box_new acoords)) in
        Inr \<lparr>s_pos = as_pos, s_neg = as_neg, n_dirs = length acoords, curr_box = HEAD l, frags = l\<rparr>
      else Inl (Throw ''assert''))"

text \<open>The list after a decision on the current box.\<close>

definition settle :: "double \<Rightarrow> addr \<Rightarrow> int \<Rightarrow> bounding_box \<Rightarrow> 's fragmentation_intersection \<Rightarrow> 's fragmentation_intersection result" where
  "settle vol_limit n found b st =
     bindR (decide vol_limit (n_dirs st) found b) (\<lambda>(fate, b').
     bindR (set_box n b' (frags st)) (\<lambda>l.
     case fate of
       Dropped \<Rightarrow> bindR (remove n l) (\<lambda>(c, l'). Inr (st\<lparr>curr_box := c, frags := l'\<rparr>))
     | Kept \<Rightarrow> bindR (succ_of l n) (\<lambda>c. Inr (st\<lparr>curr_box := c, frags := l\<rparr>))
     | Halved nb \<Rightarrow>
         bindR (emplace_node n l) (\<lambda>(c, l1).
         bindR (add_node nb l1) (\<lambda>l2. Inr (st\<lparr>curr_box := Some c, frags := l2\<rparr>)))))"

text \<open>An exception ends the process with \<^verbatim>\<open>exit(0)\<close> after the box has been settled.\<close>

datatype 'a progress = Running 'a | Exited 'a

definition iter_step :: "'s query \<Rightarrow> double \<Rightarrow> trie_node option \<Rightarrow> (double \<times> double) list \<Rightarrow> addr
    \<Rightarrow> 's fragmentation_intersection \<Rightarrow> 's fragmentation_intersection progress run" where
  "iter_step query vol_limit trie bounds n st =
     bindO (Some (box_at (frags st) n)) (\<lambda>b.
     bindO (in_trie trie bounds b) (\<lambda>present.
     if \<not> present then
       bindO (Some (remove n (frags st))) (\<lambda>(c, l). Some (Inr (Running (st\<lparr>curr_box := c, frags := l\<rparr>))))
     else
       bindO (Some (examine query [0..<length (s_pos st)] 2 (b, s_pos st, s_neg st))) (\<lambda>(r, b', ps, ns).
       let st' = st\<lparr>s_pos := ps, s_neg := ns\<rparr> in
       case r of
         Completed found \<Rightarrow> bindO (Some (settle vol_limit n found b' st')) (\<lambda>st''. Some (Inr (Running st'')))
       | Caught msg \<Rightarrow> bindO (Some (settle vol_limit n 1 b' st')) (\<lambda>st''. Some (Inr (Exited st''))))))"

fun iters_loop :: "'s query \<Rightarrow> double \<Rightarrow> trie_node option \<Rightarrow> (double \<times> double) list \<Rightarrow> nat
    \<Rightarrow> 's fragmentation_intersection \<Rightarrow> 's fragmentation_intersection progress run" where
  "iters_loop query vol_limit trie bounds 0 st = Some (Inr (Running st))"
| "iters_loop query vol_limit trie bounds (Suc k) st =
     (case curr_box st of
        None \<Rightarrow> Some (Inr (Running st))
      | Some n \<Rightarrow>
          bindO (iter_step query vol_limit trie bounds n st) (\<lambda>r.
          case r of
            Exited st' \<Rightarrow> Some (Inr (Exited st'))
          | Running st' \<Rightarrow> iters_loop query vol_limit trie bounds k st'))"

definition confidence_pass :: "addr \<Rightarrow> bounding_box ll \<times> unit \<Rightarrow> (bounding_box ll \<times> unit) run" where
  "confidence_pass a s =
     Some (bindR (box_at (fst s) a) (\<lambda>b. bindR (recompute_confidence b) (\<lambda>b'. bindR (set_box a b' (fst s)) (\<lambda>l. Inr (l, ())))))"

definition ll_recompute_confidence :: "bounding_box ll \<Rightarrow> bounding_box ll run" where
  "ll_recompute_confidence l = bindO (ll_walk (brk l) confidence_pass (HEAD l) (l, ())) (\<lambda>s. Some (Inr (fst s)))"

definition root_bounds :: "bounding_box ll \<Rightarrow> (double \<times> double) list result" where
  "root_bounds l = (case HEAD l of None \<Rightarrow> Inr [] | Some a \<Rightarrow> bindR (box_at l a) (\<lambda>b. Inr (coords b)))"

definition run_iters_with :: "'s query \<Rightarrow> int \<Rightarrow> double \<Rightarrow> trie_node option \<Rightarrow> 's fragmentation_intersection
    \<Rightarrow> 's fragmentation_intersection progress run" where
  "run_iters_with query iter_limit vol_limit trie st =
     bindO (Some (root_bounds (frags st))) (\<lambda>bounds.
     bindO (iters_loop query vol_limit trie bounds (nat iter_limit) st) (\<lambda>r.
     case r of
       Exited st' \<Rightarrow> Some (Inr (Exited st'))
     | Running st' \<Rightarrow>
         bindO (ll_recompute_confidence (frags st')) (\<lambda>l. Some (Inr (Running (st'\<lparr>frags := l, curr_box := None\<rparr>))))))"

definition run_iters :: "double optimizer \<Rightarrow> (zform list \<Rightarrow> check_result) \<Rightarrow> id_map \<Rightarrow> int \<Rightarrow> double \<Rightarrow> trie_node option
    \<Rightarrow> solver_obj fragmentation_intersection \<Rightarrow> solver_obj fragmentation_intersection progress run" where
  "run_iters optimize check id_map = run_iters_with (query_of optimize check id_map 3)"

end
