(* ===== verification/Search_Laws.thy ===== *)
theory Search_Laws
  imports Search
begin

text \<open>
  The laws of one round of the search.  \<open>answers n query Q G\<close> is what the search relies on
  from a solver object: as long as it is in one of the states \<open>G\<close>, a positive answer for a box
  with \<open>n\<close> sides means that \<open>Q\<close> holds on the whole box; the call may throw, and is never
  undefined.  The locale \<open>judges\<close> states this for the positive and the negative solver of each
  of \<open>k\<close> constraints, and derives what examining and deciding a box does.
\<close>

definition answers :: "nat \<Rightarrow> 's query \<Rightarrow> (double list \<Rightarrow> bool) \<Rightarrow> 's set \<Rightarrow> bool" where
  "answers n query Q G \<longleftrightarrow>
     (\<forall>s \<in> G. \<forall>b. length (coords b) = n \<longrightarrow>
        (case query s b of
           Inl err \<Rightarrow> err \<noteq> Undefined
         | Inr (r, s') \<Rightarrow> s' \<in> G \<and> (r \<longrightarrow> (\<forall>x. in_box b x \<longrightarrow> Q x))))"

lemma answersE:
  assumes "answers n query Q G" and "s \<in> G" and "length (coords b) = n"
  obtains msg where "query s b = Inl (Throw msg)"
    | r s' where "query s b = Inr (r, s')" "s' \<in> G" "r \<Longrightarrow> \<forall>x. in_box b x \<longrightarrow> Q x"
proof -
  have "case query s b of Inl err \<Rightarrow> err \<noteq> Undefined | Inr (r, s') \<Rightarrow> s' \<in> G \<and> (r \<longrightarrow> (\<forall>x. in_box b x \<longrightarrow> Q x))"
    using assms by (auto simp: answers_def)
  then show thesis using that by (cases "query s b") (auto split: sum.splits prod.splits elim: cxx_error.exhaust)
qed

text \<open>
  The invariant of a box: its shape, and that the verdicts are certificates.  A box is
  marked confident only when at most one verdict is missing.
\<close>

definition missing :: "bounding_box \<Rightarrow> nat" where
  "missing b = length (filter (\<lambda>v. v = 0) (curr_state_vec b))"

definition certified :: "(nat \<Rightarrow> double list \<Rightarrow> bool) \<Rightarrow> nat \<Rightarrow> nat \<Rightarrow> bounding_box \<Rightarrow> bool" where
  "certified P n k b \<longleftrightarrow> length (coords b) = n \<and> length (curr_state_vec b) = k \<and> 0 < n \<and> 0 < k \<and> k < 2 ^ 63
     \<and> set (curr_state_vec b) \<subseteq> {0, 1}
     \<and> (\<forall>i < k. curr_state_vec b ! i = 1 \<longrightarrow> (\<forall>x. in_box b x \<longrightarrow> P i x))
     \<and> confidence b \<in> {0, 1} \<and> (confidence b = 1 \<longrightarrow> missing b \<le> 1)"

text \<open>What makes a box need no further work: it is not empty, and all verdicts are there or it is small.\<close>

definition settled :: "double \<Rightarrow> bounding_box \<Rightarrow> bool" where
  "settled vol_limit b \<longleftrightarrow> \<not> not_valid b \<and> (norm_box b < vol_limit \<or> confidence b = 1 \<and> missing b = 0)"

lemma not_valid_alt: "\<not> not_valid b \<longleftrightarrow> (\<forall>c \<in> set (coords b). fst c \<le> snd c)"
  by (auto simp: not_valid_def list_ex_iff not_less)

lemma certified_nth: "certified P n k b \<Longrightarrow> i < k \<Longrightarrow> curr_state_vec b ! i = 0 \<or> curr_state_vec b ! i = 1"
  using nth_mem[of i "curr_state_vec b"] by (auto simp: certified_def simp del: nth_mem)

lemma missing_0: "missing b = 0 \<longleftrightarrow> (\<forall>i < length (curr_state_vec b). curr_state_vec b ! i \<noteq> 0)"
  by (auto simp: missing_def filter_empty_conv in_set_conv_nth)

lemma certified_coords:
  assumes "certified P n k b" and "coords b' = coords b" and "curr_state_vec b' = curr_state_vec b" and "confidence b' \<in> {0, 1}"
    and "confidence b' = 1 \<longrightarrow> missing b \<le> 1"
  shows "certified P n k b'"
  using assms by (auto simp: certified_def missing_def)

lemma missing_le_1:
  assumes "certified P n k b" and "missing b \<le> 1" and "in_box b x"
  shows "\<exists>j. \<forall>i < k. i \<noteq> j \<longrightarrow> P i x"
proof -
  let ?v = "curr_state_vec b"
  have "i = j" if "i < k" "j < k" "?v ! i = 0" "?v ! j = 0" for i j
  proof (rule ccontr)
    assume "i \<noteq> j"
    have "card {m. m < length ?v \<and> ?v ! m = 0} \<le> 1" using assms(2) by (simp add: missing_def length_filter_conv_card)
    moreover have "{i, j} \<subseteq> {m. m < length ?v \<and> ?v ! m = 0}" using that assms(1) by (auto simp: certified_def)
    ultimately have "card {i, j} \<le> 1" using card_mono[of "{m. m < length ?v \<and> ?v ! m = 0}" "{i, j}"] by simp
    with \<open>i \<noteq> j\<close> show False by simp
  qed
  then obtain j where j: "\<And>i. i < k \<Longrightarrow> ?v ! i = 0 \<Longrightarrow> i = j" by metis
  have "P i x" if "i < k" "i \<noteq> j" for i
    using certified_nth[OF assms(1) that(1)] j[OF that(1)] that assms(1,3) by (auto simp: certified_def)
  then show ?thesis by blast
qed

subsection \<open>The work left in a box\<close>

text \<open>
  \<open>level vol s\<close> is the number of halvings that take a side of length \<open>s\<close> below \<open>vol\<close>, \<open>pot vol b\<close>
  the number of boxes that splitting \<open>b\<close> down to that size can produce in all.
\<close>

definition level :: "double \<Rightarrow> double \<Rightarrow> nat" where
  "level vol s = (LEAST j. s < vol * 2 ^ j)"

definition sides :: "double \<Rightarrow> bounding_box \<Rightarrow> nat" where
  "sides vol b = (\<Sum>c\<leftarrow>coords b. level vol (snd c - fst c))"

definition pot :: "double \<Rightarrow> bounding_box \<Rightarrow> nat" where
  "pot vol b = 2 ^ Suc (sides vol b) - 1"

lemma level_ex:
  fixes vol s :: double
  assumes "0 < vol"
  shows "\<exists>j. s < vol * 2 ^ j"
proof -
  obtain m where "s / vol < of_nat m" using reals_Archimedean2[of "of_rat (s / vol)"]
    by (metis of_rat_less of_rat_of_nat_eq)
  also have "\<dots> < 2 ^ m" by (metis of_nat_less_two_power)
  finally show ?thesis using assms by (auto simp: field_simps)
qed

lemma level_half:
  assumes "0 < vol" and "vol \<le> s"
  shows "level vol s = Suc (level vol (s / 2))"
proof -
  have "level vol s = Suc (LEAST j. s < vol * 2 ^ Suc j)"
    unfolding level_def
  proof (rule Least_Suc)
    show "s < vol * 2 ^ (LEAST j. s < vol * 2 ^ j)" using level_ex[OF assms(1), of s] by (rule LeastI_ex)
  qed (use assms in simp)
  also have "(LEAST j. s < vol * 2 ^ Suc j) = level vol (s / 2)"
    unfolding level_def by (rule arg_cong[where f = Least]) (simp add: fun_eq_iff field_simps)
  finally show ?thesis .
qed

lemma pot_pos: "0 < pot vol b"
  using one_less_power[of "2 :: nat" "Suc (sides vol b)"] by (simp add: pot_def)

lemma pot_coords: "coords b' = coords b \<Longrightarrow> pot vol b' = pot vol b"
  by (simp add: pot_def sides_def)

lemma sides_update:
  assumes "d < length cs"
  shows "(\<Sum>c\<leftarrow>cs[d := y]. f c) + f (cs ! d) = (\<Sum>c\<leftarrow>cs. f c) + (f y :: nat)"
  using assms
proof (induction cs arbitrary: d)
  case (Cons c cs)
  then show ?case by (cases d) auto
qed simp

lemma divide_sides:
  assumes "divide dir 0 False b = Inr (nb, b')" and "0 < vol" and "vol \<le> snd (coords b ! nat dir) - fst (coords b ! nat dir)"
  shows "Suc (sides vol nb) = sides vol b" and "Suc (sides vol b') = sides vol b"
proof -
  let ?d = "nat dir"
  obtain l u where c: "coords b ! ?d = (l, u)" by force
  have d: "?d < length (coords b)" and nb: "coords nb = (coords b)[?d := (l, (u + l) * (1 / 2))]"
    and b': "coords b' = (coords b)[?d := ((u + l) * (1 / 2), u)]"
    using assms(1) c by (auto simp: divide_def Let_def box_new_def split: if_splits)
  have half: "(u + l) / 2 - l = (u - l) / 2" "u - (u + l) / 2 = (u - l) / 2" by (simp_all add: field_simps)
  have "level vol (u - l) = Suc (level vol ((u - l) / 2))" using level_half[of vol "u - l"] assms(2,3) c by simp
  then show "Suc (sides vol nb) = sides vol b" "Suc (sides vol b') = sides vol b"
    using sides_update[OF d, of "\<lambda>c. level vol (snd c - fst c)" "(l, (u + l) * (1 / 2))"]
      sides_update[OF d, of "\<lambda>c. level vol (snd c - fst c)" "((u + l) * (1 / 2), u)"]
    by (simp_all add: sides_def nb b' c half)
qed

lemma split_pot:
  assumes "Suc (sides vol nb) = sides vol b" and "Suc (sides vol b') = sides vol b"
  shows "pot vol nb + pot vol b' < pot vol b"
proof -
  have "sides vol nb = sides vol b'" "sides vol b = Suc (sides vol b')" using assms by simp_all
  then show ?thesis using one_le_power[of "2 :: nat" "sides vol b'"] by (simp add: pot_def, linarith)
qed

subsection \<open>Judging a box\<close>

locale judges =
  fixes query :: "'s query" and n k :: nat and P N :: "nat \<Rightarrow> double list \<Rightarrow> bool" and GP GN :: "nat \<Rightarrow> 's set"
  assumes pos: "i < k \<Longrightarrow> answers n query (P i) (GP i)"
    and neg: "i < k \<Longrightarrow> answers n query (N i) (GN i)"
begin

definition ready :: "'s list \<Rightarrow> 's list \<Rightarrow> bool" where
  "ready ps ns \<longleftrightarrow> length ps = k \<and> length ns = k \<and> (\<forall>i < k. ps ! i \<in> GP i \<and> ns ! i \<in> GN i)"

lemma ready_upd:
  assumes "ready ps ns"
  shows "s \<in> GP i \<Longrightarrow> ready (ps[i := s]) ns" and "s \<in> GN i \<Longrightarrow> ready ps (ns[i := s])"
  using assms by (auto simp: ready_def) (metis nth_list_update_eq nth_list_update_neq)+

lemma certified_note:
  assumes "certified P n k b" and "i < k" and "confidence b = 0" and "\<forall>x. in_box b x \<longrightarrow> P i x"
  shows "certified P n k (note_verdict i 1 b)"
  using assms by (auto simp: certified_def note_verdict_def nth_list_update dest!: set_update_subset_insert[THEN subsetD])

text \<open>What the loop over the solvers ends with.\<close>

definition verdict :: "bounding_box \<Rightarrow> nat list \<Rightarrow> int \<Rightarrow> try_result \<times> bounding_box \<times> 's list \<times> 's list \<Rightarrow> bool" where
  "verdict b is found = (\<lambda>(r, b', ps', ns'). ready ps' ns' \<and> coords b' = coords b \<and> confidence b' = confidence b
     \<and> (r = Completed 0 \<and> (\<exists>i < k. \<forall>x. in_box b x \<longrightarrow> N i x)
        \<or> certified P n k b' \<and> (\<forall>i < k. curr_state_vec b ! i = 1 \<longrightarrow> curr_state_vec b' ! i = 1)
          \<and> ((\<exists>msg. r = Caught msg) \<or> r = Completed 1
             \<or> found = 2 \<and> r = Completed 2 \<and> (\<forall>i \<in> set is. curr_state_vec b' ! i = 1))))"

lemma examine_spec:
  assumes "certified P n k b" and "confidence b = 0" and "ready ps ns" and "set is \<subseteq> {..<k}" and "found = 1 \<or> found = 2"
  shows "\<exists>res. examine query is found (b, ps, ns) = Inr res \<and> verdict b is found res"
  using assms
proof (induction "is" arbitrary: found b ps ns)
  case Nil
  then show ?case by (auto simp: verdict_def)
next
  case (Cons i "is")
  have i: "i < k" and is': "set is \<subseteq> {..<k}" using Cons.prems(4) by auto
  have lens: "length (curr_state_vec b) = k" "length ps = k" "length ns = k" "ps ! i \<in> GP i" "ns ! i \<in> GN i" "length (coords b) = n"
    using Cons.prems(1,3) i by (auto simp: certified_def ready_def)
  show ?case
  proof (cases "curr_state_vec b ! i = 1")
    case True
    from Cons.IH[OF Cons.prems(1-3) is' Cons.prems(5)] obtain res where
      "examine query is found (b, ps, ns) = Inr res" "verdict b is found res" by blast
    then show ?thesis using True i lens by (auto simp: verdict_def)
  next
    case False
    then have v0: "curr_state_vec b ! i = 0" using certified_nth[OF Cons.prems(1) i] by simp
    from pos[OF i] lens(4,6) show ?thesis
    proof (cases rule: answersE)
      case (1 msg)
      then show ?thesis using v0 i lens Cons.prems by (auto simp: verdict_def)
    next
      case (2 r s)
      show ?thesis
      proof (cases r)
        case True
        let ?b = "note_verdict i 1 b"
        have cb: "certified P n k ?b" by (rule certified_note[OF Cons.prems(1) i Cons.prems(2)]) (use 2 True in simp)
        have "confidence ?b = 0" using Cons.prems(2) by (simp add: note_verdict_def)
        from Cons.IH[OF cb this ready_upd(1)[OF Cons.prems(3) 2(2)] is' Cons.prems(5)] obtain res where
          res: "examine query is found (?b, ps[i := s], ns) = Inr res" "verdict ?b is found res" by blast
        have "in_box ?b = in_box b" "coords ?b = coords b" "confidence ?b = confidence b"
          "curr_state_vec ?b ! j = (if j = i then 1 else curr_state_vec b ! j)" if "j < k" for j
          using that lens(1) by (simp_all add: note_verdict_def nth_list_update)
        then have "verdict b (i # is) found res"
          using res(2) i unfolding verdict_def by (auto split: prod.splits)
        with res(1) show ?thesis using 2(1) True v0 i lens by simp
      next
        case False
        note p = 2 and r = False
        from neg[OF i] lens(5,6) show ?thesis
        proof (cases rule: answersE)
          case (1 msg)
          then show ?thesis using p r v0 i lens Cons.prems ready_upd(1)[OF Cons.prems(3) p(2)] by (auto simp: verdict_def)
        next
          case (2 no s')
          have rd: "ready (ps[i := s]) (ns[i := s'])" using ready_upd p(2) 2(2) Cons.prems(3) by blast
          show ?thesis
          proof (cases no)
            case True
            then show ?thesis using p r v0 i lens 2 rd by (auto simp: verdict_def note_verdict_def)
          next
            case False
            have "\<exists>res. examine query is 1 (b, ps[i := s], ns[i := s']) = Inr res \<and> verdict b is 1 res"
              by (rule Cons.IH) (use Cons.prems rd is' in auto)
            then obtain res where res: "examine query is 1 (b, ps[i := s], ns[i := s']) = Inr res" "verdict b is 1 res" by blast
            then have "verdict b (i # is) found res" by (auto simp: verdict_def)
            moreover have "(if found = 2 then 1 else found) = 1" using Cons.prems(5) by auto
            ultimately show ?thesis using res(1) p(1) r 2(1) False v0 i lens by simp
          qed
        qed
      qed
    qed
  qed
qed

text \<open>The halves of a box that is not small cover it and inherit its verdicts.\<close>

lemma split_box_spec:
  assumes b: "certified P n k b" "\<not> not_valid b" "confidence b = 0"
  shows "\<exists>nb b'. split_box n b = Inr (nb, b') \<and> certified P n k nb \<and> certified P n k b' \<and> \<not> not_valid nb \<and> \<not> not_valid b'
     \<and> confidence nb = 0 \<and> confidence b' = 0 \<and> (\<forall>x. in_box b x \<longleftrightarrow> in_box nb x \<or> in_box b' x)
     \<and> (\<forall>vol. 0 < vol \<longrightarrow> vol \<le> norm_box b \<longrightarrow> pot vol nb + pot vol b' < pot vol b)"
proof -
  have len: "length (coords b) = n" "0 < n" using b(1) by (simp_all add: certified_def)
  have valid: "\<forall>c \<in> set (coords b). fst c \<le> snd c" using b(2) by (simp add: not_valid_alt)
  have "coords b ! 0 \<in> set (coords b)" using len by simp
  with valid longest_spec[of "coords b ! 0" b] obtain idx where
    idx: "longest n b = Inr idx" "0 \<le> idx" "nat idx < length (coords b)"
    and side: "snd (coords b ! nat idx) - fst (coords b ! nat idx) = norm_box b" by (auto simp: len)
  obtain nb b' where d: "divide idx 0 False b = Inr (nb, b')" using divide_total[OF idx(2,3)] by blast
  note keeps = divide_keeps[OF d] and cover = divide_Inr[OF d] and v = divide_valid[OF d valid]
  let ?nb = "nb\<lparr>curr_state_vec := curr_state_vec b'\<rparr>"
  have inb: "in_box b x \<longleftrightarrow> in_box nb x \<or> in_box b' x" for x using cover valid by blast
  have run: "split_box n b = Inr (?nb, b')" using idx(1) d keeps(5) by (simp add: split_box_def copy_state_vec_def)
  have "certified P n k ?nb" "certified P n k b'"
    using b(1,3) keeps len inb by (auto simp: certified_def missing_def)
  moreover have "\<not> not_valid ?nb" "\<not> not_valid b'" using v by (auto simp: not_valid_alt)
  moreover have "pot vol ?nb + pot vol b' < pot vol b" if "0 < vol" "vol \<le> norm_box b" for vol
  proof (rule split_pot)
    show "Suc (sides vol ?nb) = sides vol b" "Suc (sides vol b') = sides vol b"
      using divide_sides[OF d that(1)] that(2) side by (simp_all add: sides_def)
  qed
  ultimately show ?thesis using run keeps b(3) inb by auto
qed

lemma recompute_spec:
  assumes "certified P n k b"
  shows "\<exists>b'. recompute_confidence b = Inr b' \<and> certified P n k b' \<and> coords b' = coords b \<and> curr_state_vec b' = curr_state_vec b
    \<and> (confidence b' = confidence b \<or> confidence b' = 1)"
proof -
  have "recompute_confidence b = Inr (if missing b \<le> 1 then b\<lparr>confidence := 1\<rparr> else b)"
    using recompute_confidence_spec[of b] assms by (auto simp: certified_def missing_def)
  then show ?thesis using assms by (auto intro: certified_coords)
qed

definition settlement :: "double \<Rightarrow> int \<Rightarrow> bounding_box \<Rightarrow> fate \<times> bounding_box \<Rightarrow> bool" where
  "settlement vol_limit found b = (\<lambda>(fate, b'). case fate of
       Dropped \<Rightarrow> found = 0
     | Kept \<Rightarrow> certified P n k b' \<and> coords b' = coords b \<and> curr_state_vec b' = curr_state_vec b
         \<and> (norm_box b < vol_limit \<or> found = 2 \<and> confidence b' = 1)
     | Halved nb \<Rightarrow> certified P n k nb \<and> certified P n k b' \<and> \<not> not_valid nb \<and> \<not> not_valid b' \<and> confidence nb = 0 \<and> confidence b' = 0
         \<and> (\<forall>x. in_box b x \<longleftrightarrow> in_box nb x \<or> in_box b' x) \<and> (0 < vol_limit \<longrightarrow> pot vol_limit nb + pot vol_limit b' < pot vol_limit b))"

lemma decide_spec:
  assumes "found = 0 \<or> certified P n k b \<and> (found = 1 \<or> found = 2 \<and> missing b = 0)" and "\<not> not_valid b" and "confidence b = 0"
  shows "\<exists>res. decide vol_limit n found b = Inr res \<and> settlement vol_limit found b res"
proof -
  consider "found = 0" | "found = 1" "certified P n k b" "norm_box b < vol_limit" | "found = 1" "certified P n k b" "\<not> norm_box b < vol_limit"
    | "found = 2" "certified P n k b" "missing b = 0" using assms(1) by (auto simp del: not_less)
  then show ?thesis
  proof cases
    case 1
    then show ?thesis by (simp add: decide_def settlement_def)
  next
    case 2
    with recompute_spec[of b] show ?thesis by (auto simp: decide_def settlement_def)
  next
    case 3
    with split_box_spec[of b] assms show ?thesis by (auto simp: decide_def settlement_def)
  next
    case 4
    then show ?thesis by (auto simp: decide_def settlement_def intro: certified_coords)
  qed
qed

lemma verdict_found:
  assumes "verdict b [0..<k] 2 (r, b', ps, ns)" and "r = Completed f \<or> (\<exists>msg. r = Caught msg) \<and> f = 1"
  shows "f = 0 \<or> certified P n k b' \<and> (f = 1 \<or> f = 2 \<and> missing b' = 0)"
proof -
  have "missing b' = 0" if "certified P n k b'" "\<forall>i \<in> set [0..<k]. curr_state_vec b' ! i = 1"
    using that by (auto simp: missing_0 certified_def)
  then show ?thesis using assms by (auto simp: verdict_def)
qed

end

end
