(* ===== verification/Search_Sound.thy ===== *)
theory Search_Sound
  imports Search_Laws
begin

text \<open>
  The invariant of the sequential search and its consequences: no point that satisfies all
  constraints strictly is ever lost, verdicts are certificates, a search that has come to the
  end of its list leaves only decided or small boxes, and enough rounds always get there.
\<close>

definition pool :: "(bounding_box \<Rightarrow> bool) \<Rightarrow> bounding_box ll \<Rightarrow> addr list \<Rightarrow> bool" where
  "pool ok l as \<longleftrightarrow> linked l as \<and> (\<forall>a \<in> set as. \<forall>b. cells l a = Some b \<longrightarrow> ok b)"

definition covered :: "bounding_box ll \<Rightarrow> addr list \<Rightarrow> double list \<Rightarrow> bool" where
  "covered l as x \<longleftrightarrow> (\<exists>a \<in> set as. \<exists>b. cells l a = Some b \<and> in_box b x)"

text \<open>The trie test returns, and rejects no box with a point of \<open>need\<close>.\<close>

definition trie_keeps :: "nat \<Rightarrow> trie_node option \<Rightarrow> (double \<times> double) list \<Rightarrow> double list set \<Rightarrow> bool" where
  "trie_keeps n trie bounds need \<longleftrightarrow>
     (\<forall>b. length (coords b) = n \<and> \<not> not_valid b \<longrightarrow>
        (\<exists>r. in_trie trie bounds b = Some (Inr r) \<and> (\<not> r \<longrightarrow> (\<forall>x \<in> need. \<not> in_box b x))))"

lemma trie_keeps_None [simp]: "trie_keeps n None bounds need"
  by (auto simp: trie_keeps_def in_trie_def)

text \<open>The work left on the boxes that still have to be looked at.\<close>

definition work :: "double \<Rightarrow> bounding_box ll \<Rightarrow> addr list \<Rightarrow> nat" where
  "work vol l as = (\<Sum>a\<leftarrow>as. case cells l a of None \<Rightarrow> 0 | Some b \<Rightarrow> pot vol b)"

lemma work_cong: "(\<And>a. a \<in> set as \<Longrightarrow> cells l a = cells l' a) \<Longrightarrow> work vol l as = work vol l' as"
  by (induction as) (auto simp: work_def)

lemma pool_linked: "pool ok l as \<Longrightarrow> linked l as"
  by (simp add: pool_def)

lemma pool_box: "pool ok l as \<Longrightarrow> a \<in> set as \<Longrightarrow> \<exists>b. cells l a = Some b \<and> box_at l a = Inr b \<and> ok b"
  using linked_in_cells[of l as a] fr.get_law by (auto simp: pool_def)

text \<open>The three ways a round changes the pool.\<close>

lemma covered_transfer:
  assumes "covered l as x"
    and "\<And>e b. e \<in> set as \<Longrightarrow> cells l e = Some b \<Longrightarrow> in_box b x \<Longrightarrow> \<exists>e' \<in> set as'. \<exists>b'. cells l' e' = Some b' \<and> in_box b' x"
  shows "covered l' as' x"
  using assms by (auto simp: covered_def)

lemma pool_drop:
  assumes "pool ok l (xs @ a # ys)" and "linked l' (xs @ ys)" and "cells l' = (cells l)(a := c)"
  shows "pool ok l' (xs @ ys)"
    and "covered l (xs @ a # ys) x \<Longrightarrow> (\<And>b. cells l a = Some b \<Longrightarrow> \<not> in_box b x) \<Longrightarrow> covered l' (xs @ ys) x"
proof -
  have d: "distinct (xs @ a # ys)" using linked_distinct[OF pool_linked[OF assms(1)]] .
  then show "pool ok l' (xs @ ys)" using assms by (auto simp: pool_def)
  assume cov: "covered l (xs @ a # ys) x" and out: "\<And>b. cells l a = Some b \<Longrightarrow> \<not> in_box b x"
  show "covered l' (xs @ ys) x"
  proof (rule covered_transfer[OF cov])
    fix e b assume e: "e \<in> set (xs @ a # ys)" "cells l e = Some b" "in_box b x"
    then have "e \<noteq> a" using out by blast
    with e show "\<exists>e' \<in> set (xs @ ys). \<exists>b'. cells l' e' = Some b' \<and> in_box b' x"
      by (intro bexI[of _ e] exI[of _ b]) (auto simp: assms(3))
  qed
qed

lemma pool_keep:
  assumes "pool ok l (xs @ a # ys)" and "linked l' (xs @ a # ys)" and "cells l' = (cells l)(a \<mapsto> b')" and "ok b'"
  shows "pool ok l' (xs @ a # ys)"
    and "covered l (xs @ a # ys) x \<Longrightarrow> (\<And>b. cells l a = Some b \<Longrightarrow> in_box b x \<Longrightarrow> in_box b' x) \<Longrightarrow> covered l' (xs @ a # ys) x"
proof -
  show "pool ok l' (xs @ a # ys)" using assms by (auto simp: pool_def)
  assume cov: "covered l (xs @ a # ys) x" and sub: "\<And>b. cells l a = Some b \<Longrightarrow> in_box b x \<Longrightarrow> in_box b' x"
  show "covered l' (xs @ a # ys) x"
  proof (rule covered_transfer[OF cov])
    fix e b assume e: "e \<in> set (xs @ a # ys)" "cells l e = Some b" "in_box b x"
    then show "\<exists>e' \<in> set (xs @ a # ys). \<exists>b'. cells l' e' = Some b' \<and> in_box b' x"
      using sub[of b] by (intro bexI[of _ e]) (cases "e = a", auto simp: assms(3))
  qed
qed

lemma pool_split:
  assumes "pool ok l (xs @ a # ys)" and "linked l' (xs @ ys @ [a, c])" and "cells l' = (cells l)(a \<mapsto> b1, c \<mapsto> b2)"
    and "cells l c = None" and "ok b1" and "ok b2"
  shows "pool ok l' (xs @ ys @ [a, c])"
    and "covered l (xs @ a # ys) x \<Longrightarrow> (\<And>b. cells l a = Some b \<Longrightarrow> in_box b x \<Longrightarrow> in_box b1 x \<or> in_box b2 x)
         \<Longrightarrow> covered l' (xs @ ys @ [a, c]) x"
proof -
  have c: "c \<notin> set (xs @ a # ys)" using linked_in_cells[OF pool_linked[OF assms(1)], of c] assms(4) by blast
  show "pool ok l' (xs @ ys @ [a, c])" using assms c by (auto simp: pool_def)
  assume cov: "covered l (xs @ a # ys) x" and sub: "\<And>b. cells l a = Some b \<Longrightarrow> in_box b x \<Longrightarrow> in_box b1 x \<or> in_box b2 x"
  show "covered l' (xs @ ys @ [a, c]) x"
  proof (rule covered_transfer[OF cov])
    fix e b assume e: "e \<in> set (xs @ a # ys)" "cells l e = Some b" "in_box b x"
    show "\<exists>e' \<in> set (xs @ ys @ [a, c]). \<exists>b'. cells l' e' = Some b' \<and> in_box b' x"
    proof (cases "e = a")
      case True
      then show ?thesis using sub[of b] e assms(3) c by auto
    next
      case False
      then show ?thesis using e c by (intro bexI[of _ e] exI[of _ b]) (auto simp: assms(3))
    qed
  qed
qed

context judges begin

definition box_ok :: "bounding_box \<Rightarrow> bool" where
  "box_ok b \<longleftrightarrow> certified P n k b \<and> \<not> not_valid b"

definition search_inv :: "double \<Rightarrow> double list set \<Rightarrow> addr list \<Rightarrow> addr list \<Rightarrow> 's fragmentation_intersection \<Rightarrow> bool" where
  "search_inv vol_limit need dn pend st \<longleftrightarrow>
     pool box_ok (frags st) (dn @ pend) \<and> curr_box st = first pend None \<and> n_dirs st = n \<and> ready (s_pos st) (s_neg st)
     \<and> (\<forall>a \<in> set pend. \<forall>b. cells (frags st) a = Some b \<longrightarrow> confidence b = 0)
     \<and> (\<forall>a \<in> set dn. \<forall>b. cells (frags st) a = Some b \<longrightarrow> settled vol_limit b)
     \<and> (\<forall>x \<in> need. covered (frags st) (dn @ pend) x)"

text \<open>What a round knows about the box it has examined.\<close>

definition judged :: "int \<Rightarrow> bounding_box \<Rightarrow> bounding_box \<Rightarrow> bool" where
  "judged found b b' \<longleftrightarrow> coords b' = coords b \<and> confidence b' = 0
     \<and> (found = 0 \<and> (\<exists>i < k. \<forall>x. in_box b x \<longrightarrow> N i x) \<or> certified P n k b' \<and> (found = 1 \<or> found = 2 \<and> missing b' = 0))"

lemma verdict_judged:
  assumes "verdict b [0..<k] 2 (r, b', ps, ns)" and "confidence b = 0" and "r = Completed f \<or> (\<exists>msg. r = Caught msg) \<and> f = 1"
  shows "judged f b b'" and "ready ps ns"
  using verdict_found[OF assms(1,3)] assms by (auto simp: judged_def verdict_def)

lemma norm_box_coords: "coords b' = coords b \<Longrightarrow> norm_box b' = norm_box b"
  by (simp add: norm_box_def)

text \<open>The three things a round can do with the box it has judged: each leaves the search in its invariant, with less
work to do.\<close>

lemma work_rest:
  assumes "distinct (a # pend)" and "cells l a = Some b" and "\<And>e. e \<noteq> a \<Longrightarrow> cells l' e = cells l e"
  shows "work vol_limit l' pend < work vol_limit l (a # pend)"
  using work_cong[of pend l' l vol_limit] assms pot_pos[of vol_limit b] by (fastforce simp: work_def)

lemma search_pool:
  assumes "search_inv vol_limit need dn pend st"
  shows "pool box_ok (frags st) (dn @ pend)" and "linked (frags st) (dn @ pend)" and "distinct (dn @ pend)"
proof -
  show pool: "pool box_ok (frags st) (dn @ pend)" using assms by (simp add: search_inv_def)
  show "linked (frags st) (dn @ pend)" by (rule pool_linked[OF pool])
  then show "distinct (dn @ pend)" by (rule linked_distinct)
qed

lemma settle_dropped:
  assumes inv: "search_inv vol_limit need dn (a # pend) st" and b: "cells (frags st) a = Some b" and out: "\<And>x. x \<in> need \<Longrightarrow> \<not> in_box b x"
  shows "\<exists>l1 l2. set_box a b2 (frags st) = Inr l1 \<and> remove a l1 = Inr (first pend None, l2)
     \<and> search_inv vol_limit need dn pend (st\<lparr>curr_box := first pend None, frags := l2\<rparr>)
     \<and> work vol_limit l2 pend < work vol_limit (frags st) (a # pend)"
proof -
  note pool = search_pool[OF inv]
  obtain l1 where l1: "set_box a b2 (frags st) = Inr l1" "linked l1 (dn @ a # pend)" "cells l1 = (cells (frags st))(a \<mapsto> b2)"
    using fr.put_law[OF pool(2), of a b2] b by auto
  obtain l2 where l2: "remove a l1 = Inr (first pend None, l2)" "linked l2 (dn @ pend)" "cells l2 = cells l1"
    using fr.rem_law[OF l1(2)] by blast
  have "search_inv vol_limit need dn pend (st\<lparr>curr_box := first pend None, frags := l2\<rparr>)"
    using pool_drop[OF pool(1) l2(2), of "Some b2"] l1(3) l2(3) inv b pool(3) out by (auto simp: search_inv_def split: if_splits)
  moreover have "work vol_limit l2 pend < work vol_limit (frags st) (a # pend)"
    using pool(3) b by (intro work_rest) (auto simp: l2(3) l1(3))
  ultimately show ?thesis using l1(1) l2(1) by blast
qed

lemma settle_kept:
  assumes inv: "search_inv vol_limit need dn (a # pend) st" and b: "cells (frags st) a = Some b"
    and b2: "box_ok b2" "settled vol_limit b2" "coords b2 = coords b"
  shows "\<exists>l1. set_box a b2 (frags st) = Inr l1 \<and> succ_of l1 a = Inr (first pend None)
     \<and> search_inv vol_limit need (dn @ [a]) pend (st\<lparr>curr_box := first pend None, frags := l1\<rparr>)
     \<and> work vol_limit l1 pend < work vol_limit (frags st) (a # pend)"
proof -
  note pool = search_pool[OF inv]
  obtain l1 where l1: "set_box a b2 (frags st) = Inr l1" "succ_of l1 a = Inr (first pend None)" "linked l1 (dn @ a # pend)"
    "cells l1 = (cells (frags st))(a \<mapsto> b2)"
    using fr.keep_law[OF pool(2), of b2] by auto
  have "search_inv vol_limit need (dn @ [a]) pend (st\<lparr>curr_box := first pend None, frags := l1\<rparr>)"
    using pool_keep[OF pool(1) l1(3,4) b2(1)] l1(4) inv b pool(3) b2(2,3) by (auto simp: search_inv_def split: if_splits)
  moreover have "work vol_limit l1 pend < work vol_limit (frags st) (a # pend)"
    using pool(3) b by (intro work_rest) (auto simp: l1(4))
  ultimately show ?thesis using l1(1,2) by blast
qed

lemma settle_halved:
  assumes inv: "search_inv vol_limit need dn (a # pend) st" and b: "cells (frags st) a = Some b"
    and ok: "box_ok nb" "box_ok b2" "confidence nb = 0" "confidence b2 = 0" and cut: "\<And>x. in_box b x \<longleftrightarrow> in_box nb x \<or> in_box b2 x"
    and less: "0 < vol_limit \<Longrightarrow> pot vol_limit nb + pot vol_limit b2 < pot vol_limit b"
  shows "\<exists>l0 l1 l2 nxt c. set_box a b2 (frags st) = Inr l0 \<and> emplace_node a l0 = Inr (nxt, l1) \<and> add_node nb l1 = Inr l2
     \<and> search_inv vol_limit need dn (pend @ [a, c]) (st\<lparr>curr_box := Some nxt, frags := l2\<rparr>)
     \<and> (0 < vol_limit \<longrightarrow> work vol_limit l2 (pend @ [a, c]) < work vol_limit (frags st) (a # pend))"
proof -
  let ?nxt = "the (first (pend @ [a]) None)"
  note pool = search_pool[OF inv]
  obtain l0 l1 l2 c where l: "set_box a b2 (frags st) = Inr l0" "emplace_node a l0 = Inr (?nxt, l1)" "add_node nb l1 = Inr l2"
    "linked l2 (dn @ pend @ [a, c])" "cells l2 = (cells (frags st))(a \<mapsto> b2, c \<mapsto> nb)" "cells (frags st) c = None"
    using fr.split_law[OF pool(2), of b2 nb] by auto
  have c: "c \<notin> set (dn @ a # pend)" using linked_in_cells[OF pool(2), of c] l(6) by blast
  have work: "work vol_limit l2 (pend @ [a, c]) < work vol_limit (frags st) (a # pend)" if "0 < vol_limit"
    using work_cong[of pend l2 "frags st" vol_limit] c pool(3) b less[OF that] l(5) by (fastforce simp: work_def)
  have nxt: "Some ?nxt = first (pend @ [a, c]) None" by (cases pend) auto
  have cov: "covered l2 (dn @ pend @ [a, c]) x" if "x \<in> need" for x
    using pool_split(2)[OF pool(1) l(4,5,6) ok(2,1), of x] inv cut b that by (auto simp: search_inv_def)
  have "search_inv vol_limit need dn (pend @ [a, c]) (st\<lparr>curr_box := Some ?nxt, frags := l2\<rparr>)"
    using pool_split(1)[OF pool(1) l(4,5,6) ok(2,1)] l(5) inv ok pool(3) c cov nxt
    by (auto simp: search_inv_def simp del: first_append split: if_splits)
  then show ?thesis using l(1-3) work by blast
qed

lemma settle_inv:
  assumes inv: "search_inv vol_limit need dn (a # pend) st" and b: "cells (frags st) a = Some b" and j: "judged found b b'"
    and clear: "\<And>x i. x \<in> need \<Longrightarrow> i < k \<Longrightarrow> \<not> N i x"
  shows "\<exists>st' dn' pend'. settle vol_limit a found b' st = Inr st' \<and> search_inv vol_limit need dn' pend' st'
     \<and> (0 < vol_limit \<longrightarrow> work vol_limit (frags st') pend' < work vol_limit (frags st) (a # pend))"
proof -
  have nd: "n_dirs st = n" using inv by (simp add: search_inv_def)
  have ok: "box_ok b" using pool_box[OF search_pool(1)[OF inv], of a] b by auto
  have jb: "found = 0 \<or> certified P n k b' \<and> (found = 1 \<or> found = 2 \<and> missing b' = 0)" "\<not> not_valid b'" "confidence b' = 0"
    and cb: "coords b' = coords b" using j ok by (auto simp: judged_def box_ok_def not_valid_def)
  from decide_spec[OF jb, of vol_limit] obtain fate b2 where d: "decide vol_limit n found b' = Inr (fate, b2)"
    and s: "settlement vol_limit found b' (fate, b2)" by auto
  show ?thesis
  proof (cases fate)
    case Dropped
    then have "found = 0" using s by (simp add: settlement_def)
    then have "\<not> in_box b x" if "x \<in> need" for x using j clear[OF that] jb(3) by (auto simp: judged_def)
    from settle_dropped[OF inv b this, of b2] show ?thesis using d Dropped nd by (fastforce simp: settle_def)
  next
    case Kept
    have c2: "certified P n k b2" "coords b2 = coords b'" "curr_state_vec b2 = curr_state_vec b'"
      and small: "norm_box b' < vol_limit \<or> found = 2 \<and> confidence b2 = 1" using s Kept by (auto simp: settlement_def)
    have ok2: "box_ok b2" using c2 ok cb by (auto simp: box_ok_def not_valid_def)
    then have "settled vol_limit b2"
      using small jb(1) c2 norm_box_coords[OF c2(2)] by (auto simp: settled_def missing_def box_ok_def)
    from settle_kept[OF inv b ok2 this] show ?thesis using d Kept nd c2(2) cb by (fastforce simp: settle_def)
  next
    case (Halved nb)
    have "box_ok nb" "box_ok b2" "confidence nb = 0" "confidence b2 = 0" "\<And>x. in_box b x \<longleftrightarrow> in_box nb x \<or> in_box b2 x"
      "0 < vol_limit \<Longrightarrow> pot vol_limit nb + pot vol_limit b2 < pot vol_limit b"
      using s Halved cb pot_coords[OF cb, of vol_limit] by (auto simp: settlement_def box_ok_def)
    from settle_halved[OF inv b this] show ?thesis using d Halved nd by (fastforce simp: settle_def)
  qed
qed

lemma iter_step_inv:
  assumes inv: "search_inv vol_limit need dn (a # pend) st"
    and clear: "\<And>x i. x \<in> need \<Longrightarrow> i < k \<Longrightarrow> \<not> N i x" and trie: "trie_keeps n trie bounds need"
  shows "\<exists>r st' dn' pend'. iter_step query vol_limit trie bounds a st = Some (Inr r) \<and> (r = Running st' \<or> r = Exited st')
     \<and> search_inv vol_limit need dn' pend' st'
     \<and> (0 < vol_limit \<longrightarrow> work vol_limit (frags st') pend' < work vol_limit (frags st) (a # pend))"
proof -
  let ?l = "frags st"
  have pool: "pool box_ok ?l (dn @ a # pend)" and rd: "ready (s_pos st) (s_neg st)" using inv by (auto simp: search_inv_def)
  obtain b where b: "cells ?l a = Some b" "box_at ?l a = Inr b" "box_ok b" using pool_box[OF pool, of a] by auto
  have conf: "confidence b = 0" using inv b(1) by (simp add: search_inv_def)
  have "length (coords b) = n \<and> \<not> not_valid b" using b(3) by (simp add: box_ok_def certified_def)
  with trie obtain t where t: "in_trie trie bounds b = Some (Inr t)" "\<not> t \<Longrightarrow> \<forall>x \<in> need. \<not> in_box b x"
    by (auto simp: trie_keeps_def)
  show ?thesis
  proof (cases t)
    case False
    obtain l2 where l2: "remove a ?l = Inr (first pend None, l2)" "linked l2 (dn @ pend)" "cells l2 = cells ?l"
      using fr.rem_law[OF pool_linked[OF pool]] by blast
    have "cells l2 = (cells ?l)(a := cells ?l a)" using l2(3) by simp
    note drop = pool_drop[OF pool l2(2) this]
    have "search_inv vol_limit need dn pend (st\<lparr>curr_box := first pend None, frags := l2\<rparr>)"
      using inv drop t(2)[OF False] b(1) l2(3) by (auto simp: search_inv_def)
    moreover have "work vol_limit l2 pend < work vol_limit ?l (a # pend)"
      using pot_pos[of vol_limit b] b(1) work_cong[of pend l2 ?l vol_limit] by (simp add: work_def l2(3))
    ultimately show ?thesis using b(2) t(1) l2(1) False by (fastforce simp: iter_step_def)
  next
    case True
    have "set [0..<k] \<subseteq> {..<k}" by auto
    with examine_spec[of b "s_pos st" "s_neg st" "[0..<k]" 2] b(3) conf rd obtain r b' ps ns where
      e: "examine query [0..<k] 2 (b, s_pos st, s_neg st) = Inr (r, b', ps, ns)" "verdict b [0..<k] 2 (r, b', ps, ns)"
      by (auto simp: box_ok_def)
    let ?st = "st\<lparr>s_pos := ps, s_neg := ns\<rparr>" and ?f = "case r of Completed f \<Rightarrow> f | Caught msg \<Rightarrow> 1"
    have "r = Completed ?f \<or> (\<exists>msg. r = Caught msg) \<and> ?f = 1" by (cases r) auto
    note j = verdict_judged[OF e(2) conf this]
    have "search_inv vol_limit need dn (a # pend) ?st" using inv j(2) by (simp add: search_inv_def)
    from settle_inv[OF this _ j(1) clear] b(1) obtain st' dn' pend' where
      st': "settle vol_limit a ?f b' ?st = Inr st'" "search_inv vol_limit need dn' pend' st'"
      "0 < vol_limit \<longrightarrow> work vol_limit (frags st') pend' < work vol_limit ?l (a # pend)" by auto
    have "length (s_pos st) = k" using rd by (simp add: ready_def)
    then show ?thesis using b(2) t(1) True e(1) st' by (cases r) (fastforce simp: iter_step_def Let_def)+
  qed
qed

lemma iters_loop_inv:
  assumes "search_inv vol_limit need dn pend st"
    and clear: "\<And>x i. x \<in> need \<Longrightarrow> i < k \<Longrightarrow> \<not> N i x" and trie: "trie_keeps n trie bounds need"
  shows "\<exists>r st' dn' pend'. iters_loop query vol_limit trie bounds m st = Some (Inr r) \<and> (r = Running st' \<or> r = Exited st')
     \<and> search_inv vol_limit need dn' pend' st'
     \<and> (0 < vol_limit \<and> work vol_limit (frags st) pend \<le> m \<and> r = Running st' \<longrightarrow> pend' = [])"
  using assms(1)
proof (induction m arbitrary: st dn pend)
  case 0
  have "pend = []" if "work vol_limit (frags st) pend \<le> 0"
  proof (cases pend)
    case (Cons a as)
    with 0 pool_box[of box_ok "frags st" "dn @ pend" a] obtain b where "cells (frags st) a = Some b" by (auto simp: search_inv_def)
    with that Cons pot_pos[of vol_limit b] show ?thesis by (simp add: work_def)
  qed simp
  with 0 show ?case by (intro exI[of _ "Running st"] exI[of _ st] exI[of _ dn] exI[of _ pend]) auto
next
  case (Suc m)
  show ?case
  proof (cases pend)
    case Nil
    with Suc.prems have "curr_box st = None" by (simp add: search_inv_def)
    with Suc.prems Nil show ?thesis
      by (intro exI[of _ "Running st"] exI[of _ st] exI[of _ dn] exI[of _ "[]"]) simp
  next
    case (Cons a as)
    with Suc.prems have inv: "search_inv vol_limit need dn (a # as) st" and cur: "curr_box st = Some a" by (auto simp: search_inv_def)
    from iter_step_inv[OF inv clear trie] obtain r st' dn' pend' where
      s: "iter_step query vol_limit trie bounds a st = Some (Inr r)" "r = Running st' \<or> r = Exited st'"
      "search_inv vol_limit need dn' pend' st'"
      "0 < vol_limit \<longrightarrow> work vol_limit (frags st') pend' < work vol_limit (frags st) (a # as)" by blast
    from s(2) show ?thesis
    proof
      assume r: "r = Running st'"
      from Suc.IH[OF s(3)] obtain r2 st2 dn2 pend2 where
        "iters_loop query vol_limit trie bounds m st' = Some (Inr r2)" "r2 = Running st2 \<or> r2 = Exited st2"
        "search_inv vol_limit need dn2 pend2 st2"
        "0 < vol_limit \<and> work vol_limit (frags st') pend' \<le> m \<and> r2 = Running st2 \<longrightarrow> pend2 = []" by blast
      then show ?thesis using s(1,4) r cur Cons by (intro exI[of _ r2] exI[of _ st2] exI[of _ dn2] exI[of _ pend2]) auto
    qed (use s cur in auto)
  qed
qed

lemma confidence_pass_inv:
  assumes "pool box_ok l as"
  shows "\<exists>l'. ll_recompute_confidence l = Some (Inr l') \<and> pool box_ok l' as \<and> (\<forall>x. covered l as x \<longrightarrow> covered l' as x)"
proof -
  define I where "I s \<longleftrightarrow> pool box_ok (fst s) as \<and> (\<forall>x. covered l as x \<longrightarrow> covered (fst s) as x)" for s :: "bounding_box ll \<times> unit"
  have step: "\<exists>s'. confidence_pass a s = Some (Inr s') \<and> I s'" if a: "a \<in> set as" and I: "I s" for a s
  proof -
    have pool: "pool box_ok (fst s) as" using I by (simp add: I_def)
    obtain b where b: "cells (fst s) a = Some b" "box_at (fst s) a = Inr b" "box_ok b" using pool_box[OF pool a] by blast
    obtain b' where b': "recompute_confidence b = Inr b'" "certified P n k b'" "coords b' = coords b"
      using recompute_spec[of b] b(3) by (auto simp: box_ok_def)
    obtain xs ys where as: "as = xs @ a # ys" using a by (meson split_list)
    obtain l' where l': "set_box a b' (fst s) = Inr l'" "linked l' as" "cells l' = (cells (fst s))(a \<mapsto> b')"
      using fr.put_law[OF pool_linked[OF pool], of a b'] b(1) by auto
    have ok: "box_ok b'" using b' b(3) by (simp add: box_ok_def not_valid_def)
    note keep = pool_keep[OF pool[unfolded as] l'(2)[unfolded as] l'(3) ok]
    have "I (l', ())" unfolding I_def
    proof (simp, intro conjI allI impI)
      show "pool box_ok l' as" using keep(1) as by simp
      show "covered l' as x" if "covered l as x" for x
        using keep(2)[of x] that I b(1) b'(3) as by (auto simp: I_def)
    qed
    then show ?thesis using b(2) b'(1) l'(1) by (simp add: confidence_pass_def)
  qed
  have keeps: "linked l2 ([] @ as)" if "a \<in> set as" "linked l1 ([] @ as)" "confidence_pass a (l1, u) = Some (Inr (l2, u'))" for a l1 u l2 u'
    using that fr.put_law[of l1 as a] fr.in_cells[of l1 as a] by (auto simp: confidence_pass_def bindR_Inr) (metis sum.inject(2))
  have "I (l, ())" using assms by (simp add: I_def)
  from foldO_total[where f = confidence_pass and I = I, OF this step] obtain s where
    s: "foldO confidence_pass as (l, ()) = Some (Inr s)" "I s" by blast
  have head: "HEAD l = first as None" using pool_linked[OF assms] by (simp add: linked_def)
  have "ll_walk (brk l) confidence_pass (first as None) (l, ()) = foldO confidence_pass as (l, ())"
    by (rule ll_walk_fold[of l "[]" as]) (use pool_linked[OF assms] linked_length[OF pool_linked[OF assms]] keeps in auto)
  with s show ?thesis by (auto simp: ll_recompute_confidence_def head I_def)
qed

lemma frag_new_inv:
  assumes "ready ps ns" and "length acoords = n" and sizes: "0 < n" "0 < k" "k < 2 ^ 63" and "\<forall>c \<in> set acoords. fst c \<le> snd c" and "\<And>x. x \<in> need \<Longrightarrow> in_coords acoords x"
  shows "\<exists>st. frag_new acoords ps ns = Inr st \<and> search_inv vol_limit need [] [0] st \<and> root_bounds (frags st) = Inr acoords"
proof -
  let ?b = "init_curr_state_vec k (box_new acoords)"
  let ?st = "\<lparr>s_pos = ps, s_neg = ns, n_dirs = n, curr_box = HEAD (ll_new ?b), frags = ll_new ?b\<rparr>"
  have lens: "length ps = k" "length ns = k" using assms(1) by (auto simp: ready_def)
  have b: "coords ?b = acoords" "curr_state_vec ?b = replicate k 0" "confidence ?b = 0" by (simp_all add: init_curr_state_vec_def box_new_def)
  have "box_ok ?b" using assms b by (auto simp: box_ok_def certified_def not_valid_alt)
  moreover have head: "HEAD (ll_new ?b) = Some 0" using linked_ll_new(1)[of ?b] by (simp add: linked_def)
  ultimately have "search_inv vol_limit need [] [0] ?st"
    using assms b linked_ll_new[of ?b] by (auto simp: search_inv_def pool_def covered_def)
  moreover have "box_at (ll_new ?b) 0 = Inr ?b" by (rule box_at_linked) (simp add: linked_ll_new)
  then have "root_bounds (ll_new ?b) = Inr acoords" by (simp add: root_bounds_def head b)
  ultimately show ?thesis using lens assms(2) by (simp add: frag_new_def Let_def)
qed

lemma run_iters_inv:
  assumes inv: "search_inv vol_limit need dn pend st" and rootb: "root_bounds (frags st) = Inr bounds"
    and clear: "\<And>x i. x \<in> need \<Longrightarrow> i < k \<Longrightarrow> \<not> N i x" and trie: "trie_keeps n trie bounds need"
  shows "\<exists>r st' as. run_iters_with query iter_limit vol_limit trie st = Some (Inr r) \<and> (r = Running st' \<or> r = Exited st')
     \<and> pool box_ok (frags st') as \<and> (\<forall>x \<in> need. covered (frags st') as x)"
proof -
  from iters_loop_inv[OF inv clear trie, of "nat iter_limit"] obtain r st' dn' pend' where
    r: "iters_loop query vol_limit trie bounds (nat iter_limit) st = Some (Inr r)" "r = Running st' \<or> r = Exited st'"
    "search_inv vol_limit need dn' pend' st'" by blast
  have pool: "pool box_ok (frags st') (dn' @ pend')" and cov: "\<forall>x \<in> need. covered (frags st') (dn' @ pend') x"
    using r(3) by (auto simp: search_inv_def)
  from confidence_pass_inv[OF pool] obtain l where l: "ll_recompute_confidence (frags st') = Some (Inr l)" "pool box_ok l (dn' @ pend')"
    "\<forall>x. covered (frags st') (dn' @ pend') x \<longrightarrow> covered l (dn' @ pend') x" by blast
  from r(2) show ?thesis
  proof
    assume "r = Running st'"
    then show ?thesis using rootb r(1) l cov
      by (intro exI[of _ "Running (st'\<lparr>frags := l, curr_box := None\<rparr>)"] exI[of _ "st'\<lparr>frags := l, curr_box := None\<rparr>"] exI[of _ "dn' @ pend'"])
        (simp add: run_iters_with_def)
  next
    assume "r = Exited st'"
    then show ?thesis using rootb r(1) pool cov
      by (intro exI[of _ r] exI[of _ st'] exI[of _ "dn' @ pend'"]) (simp add: run_iters_with_def)
  qed
qed

end



text \<open>
  An instance: one constraint \<open>2 \<le> x\<close> on the box \<open>[0, 4]\<close>; the solver object says which side it
  decides.
\<close>

definition half_query :: "bool query" where
  "half_query s b = Inr (if s then 2 \<le> fst (hd (coords b)) else snd (hd (coords b)) \<le> 2, s)"

lemma half_query_answers:
  "answers 1 half_query (\<lambda>x. 2 \<le> hd x) {True}" "answers 1 half_query (\<lambda>x. hd x \<le> 2) {False}"
proof -
  have "fst (hd cs) \<le> hd x \<and> hd x \<le> snd (hd cs)" if "length cs = 1" "in_coords cs x" for cs x
    using that by (cases cs; cases x) (auto simp: in_coords_def)
  then show "answers 1 half_query (\<lambda>x. 2 \<le> hd x) {True}" "answers 1 half_query (\<lambda>x. hd x \<le> 2) {False}"
    by (fastforce simp: answers_def half_query_def)+
qed



end
