(* ===== verification/Box_Lists.thy ===== *)
theory Box_Lists
  imports Search_Sound
begin

text \<open>
  The functions on whole lists of boxes in \<^verbatim>\<open>src/approximation.cpp\<close> and
  \<^verbatim>\<open>include/approximation.hpp\<close>: \<^verbatim>\<open>operation\<close> (intersection of two lists), \<^verbatim>\<open>color_code\<close>
  (marking the boxes of a list with the solvers of another system), the overload of
  \<^verbatim>\<open>fragmentation_intersection::recompute_confidence\<close> that asks z3 for a point in each doubtful box,
  and the class \<^verbatim>\<open>fragmentation\<close>, the search for a single constraint.
\<close>

subsection \<open>Intersection of two lists\<close>

definition mark_pair :: "bounding_box \<Rightarrow> bounding_box \<Rightarrow> bounding_box \<Rightarrow> bounding_box" where
  "mark_pair b1 b2 c = c\<lparr>confidence := if confidence b1 = 0 \<and> confidence b2 = 0 then 0 else 1\<rparr>"

definition op_inner :: "bounding_box \<Rightarrow> addr \<Rightarrow> bounding_box ll \<times> bounding_box ll \<Rightarrow> (bounding_box ll \<times> bounding_box ll) run" where
  "op_inner b1 a2 = (\<lambda>(l2, ans).
     Some (bindR (box_at l2 a2) (\<lambda>b2.
           bindR (intersect b1 b2) (\<lambda>r.
           case r of
             None \<Rightarrow> Inr (l2, ans)
           | Some c \<Rightarrow> bindR (add_node (mark_pair b1 b2 c) ans) (\<lambda>ans'. Inr (l2, ans'))))))"

definition op_outer :: "bounding_box ll \<Rightarrow> addr \<Rightarrow> bounding_box ll \<times> bounding_box ll \<Rightarrow> (bounding_box ll \<times> bounding_box ll) run" where
  "op_outer l2 a1 = (\<lambda>(l1, ans).
     bindO (Some (box_at l1 a1)) (\<lambda>b1.
     bindO (ll_walk (brk l2) (op_inner b1) (HEAD l2) (l2, ans)) (\<lambda>s. Some (Inr (l1, snd s)))))"

text \<open>The parameter \<^verbatim>\<open>type\<close> is not used.\<close>

definition operation :: "bounding_box ll \<Rightarrow> bounding_box ll \<Rightarrow> int \<Rightarrow> bounding_box ll run" where
  "operation l1 l2 type = bindO (ll_walk (brk l1) (op_outer l2) (HEAD l1) (l1, ll_empty)) (\<lambda>s. Some (Inr (snd s)))"

subsection \<open>Colouring\<close>

text \<open>
  The loop over the constraints for one box, with the number of constraints that stay open.
  An exception of a solver leaves the function.
\<close>

fun color_loop :: "'s query \<Rightarrow> nat list \<Rightarrow> int \<Rightarrow> bounding_box \<times> 's list \<times> 's list \<Rightarrow> (int \<times> bounding_box \<times> 's list \<times> 's list) result" where
  "color_loop query [] fail (b, ps, ns) = Inr (fail, b, ps, ns)"
| "color_loop query (i # is) fail (b, ps, ns) =
     (if length ps \<le> i then Inl Undefined
      else
        bindR (query (ps ! i) b) (\<lambda>(yes, s).
        if yes then
          if fail > 1 then Inr (fail, b\<lparr>confidence := 0\<rparr>, ps[i := s], ns)
          else color_loop query is fail (b, ps[i := s], ns)
        else if length ns \<le> i then Inl Undefined
        else
          bindR (query (ns ! i) b) (\<lambda>(no, s').
          if no then Inr (fail, b\<lparr>confidence := - 1\<rparr>, ps[i := s], ns[i := s'])
          else if fail + 1 > 1 then Inr (fail + 1, b\<lparr>confidence := 0\<rparr>, ps[i := s], ns[i := s'])
          else color_loop query is (fail + 1) (b, ps[i := s], ns[i := s']))))"

definition color_box :: "'s query \<Rightarrow> bounding_box \<times> 's list \<times> 's list \<Rightarrow> (bounding_box \<times> 's list \<times> 's list) result" where
  "color_box query = (\<lambda>(b, ps, ns).
     bindR (color_loop query [0..<length ps] 0 (b, ps, ns)) (\<lambda>(fail, b', ps', ns').
     Inr (if fail \<le> 1 \<and> 0 \<le> confidence b' then b'\<lparr>confidence := 1\<rparr> else b', ps', ns')))"

definition color_step :: "'s query \<Rightarrow> addr \<Rightarrow> bounding_box ll \<times> 's list \<times> 's list \<Rightarrow> (bounding_box ll \<times> 's list \<times> 's list) run" where
  "color_step query a = (\<lambda>(l, ps, ns).
     Some (bindR (box_at l a) (\<lambda>b.
           bindR (color_box query (b, ps, ns)) (\<lambda>(b', ps', ns').
           bindR (set_box a b' l) (\<lambda>l'. Inr (l', ps', ns'))))))"

definition color_code_with :: "'s query \<Rightarrow> 's list \<Rightarrow> 's list \<Rightarrow> bounding_box ll \<Rightarrow> (bounding_box ll \<times> 's list \<times> 's list) run" where
  "color_code_with query eq_pos eq_neg list = ll_walk (brk list) (color_step query) (HEAD list) (list, eq_pos, eq_neg)"

definition color_code :: "double optimizer \<Rightarrow> (zform list \<Rightarrow> check_result) \<Rightarrow> id_map \<Rightarrow> solver_obj list \<Rightarrow> solver_obj list
    \<Rightarrow> bounding_box ll \<Rightarrow> (bounding_box ll \<times> solver_obj list \<times> solver_obj list) run" where
  "color_code optimize check id_map = color_code_with (query_of optimize check id_map 0)"

subsection \<open>Walks that can remove the node they are at\<close>

fun ll_visit :: "nat \<Rightarrow> (addr \<Rightarrow> 'b ll \<times> 's \<Rightarrow> (addr option \<times> 'b ll \<times> 's) run) \<Rightarrow> addr option \<Rightarrow> 'b ll \<times> 's \<Rightarrow> ('b ll \<times> 's) run" where
  "ll_visit fuel f None s = Some (Inr s)"
| "ll_visit 0 f (Some a) s = None"
| "ll_visit (Suc fuel) f (Some a) s = bindO (f a s) (\<lambda>(c, s'). ll_visit fuel f c s')"

text \<open>
  \<^verbatim>\<open>recompute_confidence(e_check)\<close> keeps the boxes that were confident already and those in which
  z3 finds a point, and removes the others.  Its two counters only go to the log.
\<close>

definition smt_pass :: "(zform list \<Rightarrow> check_result) \<Rightarrow> double expr list \<Rightarrow> solver_obj list
    \<Rightarrow> addr \<Rightarrow> bounding_box ll \<times> int \<times> int \<Rightarrow> (addr option \<times> bounding_box ll \<times> int \<times> int) run" where
  "smt_pass check e_check ps a = (\<lambda>(l, num_smt_calls_made, num_grids).
     Some (bindR (box_at l a) (\<lambda>b.
       if confidence b = 0 then
         if ps = [] then Inl Undefined
         else
           bindR (make_smt_query check e_check (snd (ps ! 0)) b) (\<lambda>yes.
           if yes then
             bindR (set_box a (b\<lparr>confidence := 1\<rparr>) l) (\<lambda>l'.
             bindR (succ_of l' a) (\<lambda>c. Inr (c, l', num_smt_calls_made + 1, num_grids + 1)))
           else bindR (remove a l) (\<lambda>(c, l'). Inr (c, l', num_smt_calls_made + 1, num_grids + 1)))
       else bindR (succ_of l a) (\<lambda>c. Inr (c, l, num_smt_calls_made, num_grids + 1)))))"

definition recompute_confidence_smt :: "(zform list \<Rightarrow> check_result) \<Rightarrow> double expr list \<Rightarrow> solver_obj fragmentation_intersection
    \<Rightarrow> (solver_obj fragmentation_intersection \<times> int \<times> int) run" where
  "recompute_confidence_smt check e_check st =
     bindO (ll_visit (brk (frags st)) (smt_pass check e_check (s_pos st)) (HEAD (frags st)) (frags st, 0, 0)) (\<lambda>(l, calls, grids).
     Some (Inr (st\<lparr>frags := l\<rparr>, calls, grids)))"

subsection \<open>The search for one constraint\<close>

record 's fragmentation =
  sol :: 's
  sol_neg :: 's
  dirs :: nat
  cur :: "addr option"
  parts :: "bounding_box ll"

definition fragmentation_new :: "(double \<times> double) list \<Rightarrow> 's \<Rightarrow> 's \<Rightarrow> 's fragmentation" where
  "fragmentation_new acoords as as_neg =
     (let l = ll_new (box_new acoords) in \<lparr>sol = as, sol_neg = as_neg, dirs = length acoords, cur = HEAD l, parts = l\<rparr>)"

text \<open>
  One round.  After a certificate the current box is advanced first, and it is the next box
  whose confidence is set.
\<close>

definition fragment_step :: "'s query \<Rightarrow> double \<Rightarrow> addr \<Rightarrow> 's fragmentation \<Rightarrow> 's fragmentation result" where
  "fragment_step query vol_limit a st =
     bindR (box_at (parts st) a) (\<lambda>b.
     bindR (query (sol st) b) (\<lambda>(yes, s).
     if yes then
       bindR (succ_of (parts st) a) (\<lambda>c.
       bindR (ptr c) (\<lambda>c'.
       bindR (box_at (parts st) c') (\<lambda>nb.
       bindR (set_box c' (nb\<lparr>confidence := 1\<rparr>) (parts st)) (\<lambda>l. Inr (st\<lparr>sol := s, cur := c, parts := l\<rparr>)))))
     else
       bindR (query (sol_neg st) b) (\<lambda>(no, s').
       if no then bindR (remove a (parts st)) (\<lambda>(c, l). Inr (st\<lparr>sol := s, sol_neg := s', cur := c, parts := l\<rparr>))
       else if norm_box b < vol_limit then
         bindR (succ_of (parts st) a) (\<lambda>c. Inr (st\<lparr>sol := s, sol_neg := s', cur := c\<rparr>))
       else
         bindR (longest (dirs st) b) (\<lambda>idx.
         bindR (divide idx 0 False b) (\<lambda>(nb, b').
         bindR (set_box a b' (parts st)) (\<lambda>l0.
         bindR (emplace_node a l0) (\<lambda>(c, l1).
         bindR (add_node nb l1) (\<lambda>l2. Inr (st\<lparr>sol := s, sol_neg := s', cur := Some c, parts := l2\<rparr>)))))))))"

fun fragment_loop :: "'s query \<Rightarrow> double \<Rightarrow> nat \<Rightarrow> 's fragmentation \<Rightarrow> 's fragmentation result" where
  "fragment_loop query vol_limit 0 st = Inr st"
| "fragment_loop query vol_limit (Suc k) st =
     (case cur st of
        None \<Rightarrow> Inr st
      | Some a \<Rightarrow> bindR (fragment_step query vol_limit a st) (fragment_loop query vol_limit k))"

text \<open>The second loop looks at the boxes that are left, without splitting.\<close>

definition prune_step :: "'s query \<Rightarrow> addr \<Rightarrow> bounding_box ll \<times> 's \<times> 's \<Rightarrow> (addr option \<times> bounding_box ll \<times> 's \<times> 's) run" where
  "prune_step query a = (\<lambda>(l, s, sn).
     Some (bindR (box_at l a) (\<lambda>b.
           bindR (query s b) (\<lambda>(yes, s').
           if yes then bindR (succ_of l a) (\<lambda>c. Inr (c, l, s', sn))
           else
             bindR (query sn b) (\<lambda>(no, sn').
             if no then bindR (remove a l) (\<lambda>(c, l'). Inr (c, l', s', sn'))
             else bindR (succ_of l a) (\<lambda>c. Inr (c, l, s', sn')))))))"

definition fragmentation_run_iters :: "'s query \<Rightarrow> int \<Rightarrow> double \<Rightarrow> 's fragmentation \<Rightarrow> 's fragmentation run" where
  "fragmentation_run_iters query iter_limit vol_limit st =
     bindO (Some (fragment_loop query vol_limit (nat iter_limit) st)) (\<lambda>st1.
     bindO (ll_visit (brk (parts st1)) (prune_step query) (cur st1) (parts st1, sol st1, sol_neg st1)) (\<lambda>(l, s, sn).
     Some (Inr (st1\<lparr>sol := s, sol_neg := sn, cur := None, parts := l\<rparr>))))"

end
