(* ===== verification/Driver_Search.thy ===== *)
theory Driver_Search
  imports Search_Sound
begin

text \<open>
  The solvers the drivers hand to a search answer as the search expects: a store prepared by
  a Handelman core for a conclusion \<open>r\<close> says yes to a box only if \<open>r\<close> is non-negative on it.
  This instantiates the laws of \<open>judges\<close> for the linear queries (\<^verbatim>\<open>type_\<close> 0) of the threaded
  searches and joins the certificate theorem of a single box with the searches.
\<close>

definition nonneg_at :: "double multinomial \<Rightarrow> double list \<Rightarrow> bool" where
  "nonneg_at r x \<longleftrightarrow> (\<exists>y. substitute x r = Some y \<and> 0 \<le> y)"

text \<open>
  The solver objects a driver can have prepared for the conclusion \<open>r\<close>: the store is the one
  of the core after \<^verbatim>\<open>solve\<close>, the variable table may have grown since, and between the
  construction of the core and its preparation.
\<close>

definition driver_solvers :: "double optimizer \<Rightarrow> nat \<Rightarrow> double multinomial \<Rightarrow> solver_obj set" where
  "driver_solvers optimize n r = {(v2, s). optimizer_ok optimize \<and> wf_poly r \<and> over n n r
     \<and> (\<exists>t v0 v d c c' v'. driver_vars n t v0 \<and> same_base n v0 v \<and> driver_vars n t v \<and> 0 < d \<and> d < 2 ^ 15
          \<and> driver_core n d r v0 t = Inr c \<and> core_prepare c v = Some (Inr (c', v')) \<and> vars_sz v' \<le> vars_sz v2 \<and> s = slv c')}"

lemma driver_solversI:
  assumes "optimizer_ok optimize" "wf_poly r" "over n n r" "driver_vars n t v0" "same_base n v0 v" "driver_vars n t v"
    "0 < d" "d < 2 ^ 15" "driver_core n d r v0 t = Inr c" "core_prepare c v = Some (Inr (c', v'))" "vars_sz v' \<le> vars_sz v2"
  shows "(v2, slv c') \<in> driver_solvers optimize n r"
  unfolding driver_solvers_def mem_Collect_eq prod.case using assms by blast

lemma driver_solvers_query:
  assumes "s \<in> driver_solvers optimize n r" and "length (coords b) = n"
  shows "\<exists>ans. query_of optimize check (driver_ids n) 0 s b = Inr (ans, s) \<and> (ans \<longrightarrow> (\<forall>x. in_box b x \<longrightarrow> nonneg_at r x))"
proof -
  obtain v2 st where s: "s = (v2, st)" by force
  with assms(1) obtain t v0 v d c c' v' where d: "driver_vars n t v0" "same_base n v0 v" "driver_vars n t v" "wf_poly r" "over n n r"
    "0 < d" "d < 2 ^ 15" "driver_core n d r v0 t = Inr c"
    "core_prepare c v = Some (Inr (c', v'))" "vars_sz v' \<le> vars_sz v2" "optimizer_ok optimize" "st = slv c'"
    by (auto simp: driver_solvers_def)
  from driver_query[OF d(1-11) assms(2), of check] obtain ans where
    "box_substitute optimize check v2 (driver_ids n) 0 b (slv c') = Inr (ans, slv c')"
    "ans \<longrightarrow> (\<forall>x. in_box b x \<longrightarrow> nonneg_at r x)" by (auto simp: nonneg_at_def)
  then show ?thesis by (simp add: query_of_def s d(12))
qed

lemma driver_solvers_answer: "answers n (query_of optimize check (driver_ids n) 0) (nonneg_at r) (driver_solvers optimize n r)"
proof -
  have "case query_of optimize check (driver_ids n) 0 s b of Inl err \<Rightarrow> err \<noteq> Undefined
      | Inr (ans, s') \<Rightarrow> s' \<in> driver_solvers optimize n r \<and> (ans \<longrightarrow> (\<forall>x. in_box b x \<longrightarrow> nonneg_at r x))"
    if "s \<in> driver_solvers optimize n r" "length (coords b) = n" for s b
    using driver_solvers_query[OF that, of check] that(1) by auto
  then show ?thesis by (simp add: answers_def)
qed

interpretation drv: judges "query_of optimize check (driver_ids n) 0" n k "\<lambda>i. nonneg_at (rs i)" "\<lambda>i. nonneg_at (qs i)"
    "\<lambda>i. driver_solvers optimize n (rs i)" "\<lambda>i. driver_solvers optimize n (qs i)"
  for optimize check n k rs qs
  by unfold_locales (rule driver_solvers_answer)+

text \<open>The solver of the one-variable system of \<open>box_certificate_witness\<close>.\<close>

definition dr_obj :: solver_obj where
  "dr_obj = (case driver_core 1 1 dr_rhs dr_vars ''t'' of
      Inl err \<Rightarrow> (dr_vars, solver_new dr_vars)
    | Inr c \<Rightarrow> (case core_prepare c dr_vars of Some (Inr (c', v')) \<Rightarrow> (v', slv c') | _ \<Rightarrow> (dr_vars, solver_new dr_vars)))"

lemma dr_obj_in: "dr_obj \<in> driver_solvers ideal_optimizer 1 dr_rhs"
proof -
  obtain c where c: "driver_core 1 1 dr_rhs dr_vars ''t'' = Inr c" using driver_core_spec[OF dr_vars_ok, of 1 dr_rhs] by auto
  from dr_prepared_feasible[unfolded dr_prepared_def c] obtain c' v' where run: "core_prepare c dr_vars = Some (Inr (c', v'))"
    by (auto simp: map_sum_def split: option.splits sum.splits)
  have "dr_obj = (v', slv c')" unfolding dr_obj_def c by (simp add: run)
  moreover have "wf_poly dr_rhs" "over 1 1 dr_rhs" by (simp_all add: dr_rhs_def over_def)
  ultimately show ?thesis
    using driver_solversI[OF ideal_optimizer_ok _ _ dr_vars_ok same_base_refl dr_vars_ok _ _ c run order_refl] by simp
qed

end
