(* ===== verification/Box_Lists_Sound.thy ===== *)
theory Box_Lists_Sound
  imports Box_Lists Driver_Search
begin

text \<open>
  What the functions on whole lists do: \<open>operation\<close> builds the list of the pairwise intersections,
  \<open>color_code\<close> marks boxes according to certificates, \<open>recompute_confidence_smt\<close> keeps the boxes
  with a solution, and the search for one constraint loses no point, but dereferences a null
  pointer when the last box of its list gets a certificate.
\<close>

lemma boxes_append [simp]: "boxes l (xs @ ys) = boxes l xs @ boxes l ys"
  by (simp add: boxes_def)

lemma boxes_simps [simp]: "boxes l [] = []" "boxes l (a # as) = the (cells l a) # boxes l as"
  by (simp_all add: boxes_def)

lemma boxes_cong: "(\<And>a. a \<in> set as \<Longrightarrow> cells l a = cells l' a) \<Longrightarrow> boxes l as = boxes l' as"
  by (simp add: boxes_def)

lemma covered_boxes: "linked l as \<Longrightarrow> covered l as x \<longleftrightarrow> (\<exists>b \<in> set (boxes l as). in_box b x)"
proof
  show "\<exists>b \<in> set (boxes l as). in_box b x" if "covered l as x" using that by (force simp: covered_def boxes_def)
  show "covered l as x" if "linked l as" "\<exists>b \<in> set (boxes l as). in_box b x"
    using that linked_in_cells[OF that(1)] by (auto simp: covered_def boxes_def) (metis option.sel)
qed

lemma boxes_set: "linked l as \<Longrightarrow> b \<in> set (boxes l as) \<Longrightarrow> \<exists>a \<in> set as. cells l a = Some b"
  using linked_in_cells[of l as] by (fastforce simp: boxes_def)

lemma boxes_at: "linked l as \<Longrightarrow> a \<in> set as \<Longrightarrow> \<exists>b. cells l a = Some b \<and> box_at l a = Inr b \<and> b \<in> set (boxes l as)"
  using fr.in_cells[of l as a] fr.get_law[of l a] by (force simp: boxes_def)

text \<open>Appending a box to a list.\<close>

lemma add_node_boxes:
  assumes "linked l as"
  shows "\<exists>l' a. add_node b l = Inr l' \<and> linked l' (as @ [a]) \<and> boxes l' (as @ [a]) = boxes l as @ [b]"
proof -
  from fr.add_law[OF assms, of b] obtain l' a where l': "add_node b l = Inr l'" "linked l' (as @ [a])"
    "cells l' = (cells l)(a \<mapsto> b)" "cells l a = None" by blast
  have "a \<notin> set as" using linked_distinct[OF l'(2)] by simp
  then have "boxes l' as = boxes l as" by (intro boxes_cong) (auto simp: l'(3))
  with l' show ?thesis by auto
qed

subsection \<open>Intersection of lists\<close>

definition meet :: "bounding_box \<Rightarrow> bounding_box \<Rightarrow> bounding_box list" where
  "meet b1 b2 = (case intersect b1 b2 of Inr (Some c) \<Rightarrow> [mark_pair b1 b2 c] | _ \<Rightarrow> [])"

lemma intersect_flat:
  assumes "length ts = length cs" and "d \<in> set cs" and "snd d \<le> fst d"
  shows "intersect_coords ts cs = Inr None"
  using assms
proof (induction ts cs rule: intersect_coords.induct)
  case (3 t ts c cs)
  show ?case
  proof (cases "d = c")
    case True
    then have "min (snd c) (snd t) \<le> max (fst c) (fst t)" using 3(4) by (simp add: min_def max_def)
    then show ?thesis by (simp add: Let_def)
  qed (use 3 in \<open>simp add: Let_def\<close>)
qed simp_all

text \<open>Points inside a box, off its faces.\<close>

definition inside :: "bounding_box \<Rightarrow> double list \<Rightarrow> bool" where
  "inside b x \<longleftrightarrow> list_all2 (\<lambda>c v. fst c < v \<and> v < snd c) (coords b) x"

lemma meet_spec:
  assumes "length (coords b1) = length (coords b2)"
  shows "\<exists>r. intersect b1 b2 = Inr r" and "c \<in> set (meet b1 b2) \<Longrightarrow> in_box c x \<longleftrightarrow> in_box b1 x \<and> in_box b2 x"
    and "inside b1 x \<Longrightarrow> inside b2 x \<Longrightarrow> meet b1 b2 \<noteq> []"
proof -
  from intersect_coords_spec[OF assms] obtain r where r: "intersect_coords (coords b1) (coords b2) = Inr r"
    "\<And>is xs. r = Some is \<Longrightarrow> in_coords is xs \<longleftrightarrow> in_coords (coords b1) xs \<and> in_coords (coords b2) xs"
    "r = None \<Longrightarrow> \<exists>i < length (coords b2). min (snd (coords b2 ! i)) (snd (coords b1 ! i)) \<le> max (fst (coords b2 ! i)) (fst (coords b1 ! i))"
    by blast
  show "\<exists>r. intersect b1 b2 = Inr r" using r(1) by (simp add: intersect_def)
  show "in_box c x \<longleftrightarrow> in_box b1 x \<and> in_box b2 x" if "c \<in> set (meet b1 b2)"
    using that r(2) by (cases r) (auto simp: meet_def intersect_def r(1) mark_pair_def box_new_def)
  assume ins: "inside b1 x" "inside b2 x"
  have "r \<noteq> None"
  proof
    assume "r = None"
    from r(3)[OF this] obtain i where i: "i < length (coords b2)"
      "min (snd (coords b2 ! i)) (snd (coords b1 ! i)) \<le> max (fst (coords b2 ! i)) (fst (coords b1 ! i))" by blast
    have "fst (coords b1 ! i) < x ! i \<and> x ! i < snd (coords b1 ! i)" "fst (coords b2 ! i) < x ! i \<and> x ! i < snd (coords b2 ! i)"
      using ins i(1) assms by (auto simp: inside_def list_all2_conv_all_nth)
    with i(2) show False by (auto simp: min_def max_def split: if_splits)
  qed
  then show "meet b1 b2 \<noteq> []" by (auto simp: meet_def intersect_def r(1))
qed

lemma meet_in: "c \<in> set (meet b1 b2) \<Longrightarrow> length (coords b1) = length (coords b2) \<Longrightarrow> in_box c x \<longleftrightarrow> in_box b1 x \<and> in_box b2 x"
  using meet_spec(2) by blast

lemma inside_in_box: "inside b x \<Longrightarrow> in_box b x"
  by (auto simp: inside_def in_coords_nth list_all2_conv_all_nth less_imp_le)

lemma op_inner_fold:
  assumes "linked ans cs" and "linked l2 bs'" and "set bs \<subseteq> set bs'"
    and "\<forall>b \<in> set (boxes l2 bs'). length (coords b) = length (coords b1)"
  shows "\<exists>ans' cs'. foldO (op_inner b1) bs (l2, ans) = Some (Inr (l2, ans')) \<and> linked ans' cs'
     \<and> boxes ans' cs' = boxes ans cs @ concat (map (meet b1) (boxes l2 bs))"
  using assms
proof (induction bs arbitrary: ans cs)
  case (Cons a bs)
  obtain b2 where b2: "cells l2 a = Some b2" "box_at l2 a = Inr b2" "length (coords b1) = length (coords b2)"
    using boxes_at[OF Cons.prems(2), of a] Cons.prems(3,4) by auto
  obtain r where r: "intersect b1 b2 = Inr r" using meet_spec(1)[OF b2(3)] by blast
  have "\<exists>ans1 cs1. op_inner b1 a (l2, ans) = Some (Inr (l2, ans1)) \<and> linked ans1 cs1 \<and> boxes ans1 cs1 = boxes ans cs @ meet b1 b2"
  proof (cases r)
    case None
    then show ?thesis using b2(2) r Cons.prems(1) by (auto simp: op_inner_def meet_def)
  next
    case (Some c)
    then show ?thesis using b2(2) r add_node_boxes[OF Cons.prems(1), of "mark_pair b1 b2 c"] by (force simp: op_inner_def meet_def)
  qed
  then obtain ans1 cs1 where s: "op_inner b1 a (l2, ans) = Some (Inr (l2, ans1))" "linked ans1 cs1" "boxes ans1 cs1 = boxes ans cs @ meet b1 b2" by blast
  from Cons.IH[OF s(2)] Cons.prems(2-4) show ?case using s(1,3) b2(1) by simp
qed auto

lemma op_inner_keeps: "op_inner b1 a (l2, ans) = Some (Inr (l2', ans')) \<Longrightarrow> l2' = l2"
  by (auto simp: op_inner_def bindR_Inr split: option.splits)

lemma op_outer_fold:
  assumes "linked ans cs" and "linked l1 as'" and "set as \<subseteq> set as'" and "linked l2 bs"
    and "\<forall>b \<in> set (boxes l1 as') \<union> set (boxes l2 bs). length (coords b) = n"
  shows "\<exists>ans' cs'. foldO (op_outer l2) as (l1, ans) = Some (Inr (l1, ans')) \<and> linked ans' cs'
     \<and> boxes ans' cs' = boxes ans cs @ concat (map (\<lambda>b1. concat (map (meet b1) (boxes l2 bs))) (boxes l1 as))"
  using assms
proof (induction as arbitrary: ans cs)
  case (Cons a as)
  obtain b1 where b1: "cells l1 a = Some b1" "box_at l1 a = Inr b1" "b1 \<in> set (boxes l1 as')"
    using boxes_at[OF Cons.prems(2), of a] Cons.prems(3) by auto
  have same: "\<forall>b \<in> set (boxes l2 bs). length (coords b) = length (coords b1)" using Cons.prems(5) b1(3) by simp
  have head: "HEAD l2 = first bs None" using Cons.prems(4) by (simp add: linked_def)
  have "ll_walk (brk l2) (op_inner b1) (first bs None) (l2, ans) = foldO (op_inner b1) bs (l2, ans)"
    by (rule ll_walk_fold[of l2 "[]"]) (use Cons.prems(4) linked_length[OF Cons.prems(4)] in \<open>auto dest: op_inner_keeps\<close>)
  moreover obtain ans1 cs1 where s: "foldO (op_inner b1) bs (l2, ans) = Some (Inr (l2, ans1))" "linked ans1 cs1"
    "boxes ans1 cs1 = boxes ans cs @ concat (map (meet b1) (boxes l2 bs))"
    using op_inner_fold[OF Cons.prems(1,4) order_refl same] by blast
  ultimately have "op_outer l2 a (l1, ans) = Some (Inr (l1, ans1))" using b1(2) by (simp add: op_outer_def head)
  moreover obtain ans2 cs2 where "foldO (op_outer l2) as (l1, ans1) = Some (Inr (l1, ans2))" "linked ans2 cs2"
    "boxes ans2 cs2 = boxes ans1 cs1 @ concat (map (\<lambda>b1. concat (map (meet b1) (boxes l2 bs))) (boxes l1 as))"
    using Cons.IH[OF s(2) Cons.prems(2) _ Cons.prems(4,5)] Cons.prems(3) by auto
  ultimately show ?case using s(3) b1(1) by auto
qed auto

lemma operation_boxes:
  assumes l1: "linked l1 as" and l2: "linked l2 bs"
    and dims: "\<forall>b \<in> set (boxes l1 as) \<union> set (boxes l2 bs). length (coords b) = n"
  shows "\<exists>ans cs. operation l1 l2 type = Some (Inr ans) \<and> linked ans cs
     \<and> boxes ans cs = concat (map (\<lambda>b1. concat (map (meet b1) (boxes l2 bs))) (boxes l1 as))
     \<and> (\<forall>x. covered ans cs x \<longrightarrow> covered l1 as x \<and> covered l2 bs x)
     \<and> (\<forall>x. (\<exists>b1 \<in> set (boxes l1 as). inside b1 x) \<and> (\<exists>b2 \<in> set (boxes l2 bs). inside b2 x) \<longrightarrow> covered ans cs x)"
proof -
  have walk: "ll_walk (brk l1) (op_outer l2) (first as None) (l1, ll_empty) = foldO (op_outer l2) as (l1, ll_empty)"
    by (rule ll_walk_fold[of l1 "[]"]) (use l1 linked_length[OF l1] in \<open>auto simp: op_outer_def bindO_Inr\<close>)
  from op_outer_fold[OF linked_ll_empty(1) l1 order_refl l2 dims] obtain ans cs where
    r: "foldO (op_outer l2) as (l1, ll_empty) = Some (Inr (l1, ans))" "linked ans cs"
    "boxes ans cs = concat (map (\<lambda>b1. concat (map (meet b1) (boxes l2 bs))) (boxes l1 as))" by auto
  have "HEAD l1 = first as None" using l1 by (simp add: linked_def)
  then have "operation l1 l2 type = Some (Inr ans)" using walk r(1) by (simp add: operation_def)
  moreover have "covered l1 as x \<and> covered l2 bs x" if "covered ans cs x" for x
    using that meet_in dims unfolding covered_boxes[OF r(2)] covered_boxes[OF l1] covered_boxes[OF l2] r(3) by auto
  moreover have "covered ans cs x" if "b1 \<in> set (boxes l1 as)" "b2 \<in> set (boxes l2 bs)" "inside b1 x" "inside b2 x" for b1 b2 x
  proof -
    from meet_spec(3)[of b1 b2 x] that dims obtain c where "c \<in> set (meet b1 b2)" by (metis UnI1 UnI2 list.set_intros(1) neq_Nil_conv)
    moreover from meet_in[OF this] that dims have "in_box c x" by (auto dest: inside_in_box)
    ultimately show ?thesis using that(1,2) unfolding covered_boxes[OF r(2)] r(3) by auto
  qed
  ultimately show ?thesis using r(2,3) by blast
qed

text \<open>
  C30: Intersection of two lists of boxes.  On two lists of boxes of the same dimension, \<^verbatim>\<open>operation\<close>
  returns a list of the pairwise intersections in order, marked confident when one of the two
  boxes is.  A point in a box of the result is in boxes of both lists, and a point inside a box of
  each list, off the faces, is in a box of the result.
\<close>

theorem operation_correct:
  assumes l1: "linked l1 as" and l2: "linked l2 bs"
    and dims: "\<forall>b \<in> set (boxes l1 as) \<union> set (boxes l2 bs). length (coords b) = n"
  shows "\<exists>ans cs. operation l1 l2 type = Some (Inr ans) \<and> linked ans cs
     \<and> boxes ans cs = concat (map (\<lambda>b1. concat (map (meet b1) (boxes l2 bs))) (boxes l1 as))
     \<and> (\<forall>x. covered ans cs x \<longrightarrow> covered l1 as x \<and> covered l2 bs x)
     \<and> (\<forall>x. (\<exists>b1 \<in> set (boxes l1 as). inside b1 x) \<and> (\<exists>b2 \<in> set (boxes l2 bs). inside b2 x) \<longrightarrow> covered ans cs x)"
  using assms by (rule operation_boxes)

theorem operation_correct_witness:
  "\<exists>ans cs. operation (ll_new (box_new [(0, 2)])) (ll_new (box_new [(1, 3)])) 0 = Some (Inr ans) \<and> linked ans cs \<and> covered ans cs [3 / 2]"
proof -
  have l: "linked (ll_new (box_new c)) [0]" "boxes (ll_new (box_new c)) [0] = [box_new c]" for c
    using linked_ll_new[of "box_new c"] by simp_all
  have "\<forall>b \<in> set (boxes (ll_new (box_new [(0, 2)])) [0]) \<union> set (boxes (ll_new (box_new [(1, 3)])) [0]). length (coords b) = 1"
    unfolding l(2) by (simp add: box_new_def)
  from operation_correct[OF l(1) l(1) this, of 0] obtain ans cs where
    r: "operation (ll_new (box_new [(0, 2)])) (ll_new (box_new [(1, 3)])) 0 = Some (Inr ans)" "linked ans cs"
    and cov: "\<And>x. inside (box_new [(0, 2)]) x \<and> inside (box_new [(1, 3)]) x \<Longrightarrow> covered ans cs x" unfolding l(2) by auto
  have "covered ans cs [3 / 2]" by (rule cov) (simp add: inside_def box_new_def)
  with r show ?thesis by blast
qed

text \<open>
  C34: The integer search leaves boxes without extent in some direction, down to single points, and
  \<^verbatim>\<open>operation\<close> (flag 2 of a driver) drops them: a point that lies in no box of the second list with
  an extent in every direction is in no box of the result, even if both lists have it.
\<close>

theorem operation_drops_flat:
  assumes l1: "linked l1 as" and l2: "linked l2 bs"
    and dims: "\<forall>b \<in> set (boxes l1 as) \<union> set (boxes l2 bs). length (coords b) = n"
    and flat: "\<forall>b \<in> set (boxes l2 bs). in_box b x \<longrightarrow> (\<exists>c \<in> set (coords b). snd c \<le> fst c)"
  shows "\<exists>ans cs. operation l1 l2 type = Some (Inr ans) \<and> linked ans cs \<and> \<not> covered ans cs x"
proof -
  from operation_boxes[OF l1 l2 dims] obtain ans cs where r: "operation l1 l2 type = Some (Inr ans)" "linked ans cs"
    "boxes ans cs = concat (map (\<lambda>b1. concat (map (meet b1) (boxes l2 bs))) (boxes l1 as))" by blast
  have "False" if "b1 \<in> set (boxes l1 as)" "b2 \<in> set (boxes l2 bs)" "c \<in> set (meet b1 b2)" "in_box c x" for b1 b2 c
  proof -
    have len: "length (coords b1) = length (coords b2)" using dims that(1,2) by simp
    have "in_box b2 x" using meet_spec(2)[OF len that(3)] that(4) by blast
    with flat that(2) obtain d where d: "d \<in> set (coords b2)" "snd d \<le> fst d" by blast
    have "intersect_coords (coords b1) (coords b2) = Inr None" by (rule intersect_flat[OF len d])
    then show False using that(3) by (simp add: meet_def intersect_def)
  qed
  then have "\<not> covered ans cs x" unfolding covered_boxes[OF r(2)] r(3) by auto
  with r show ?thesis by blast
qed

theorem operation_drops_flat_witness:
  "\<exists>ans cs. operation (ll_new (box_new [(0, 5)])) (ll_new (box_new [(2, 2)])) 0 = Some (Inr ans) \<and> linked ans cs \<and> \<not> covered ans cs [2]"
proof -
  have l: "linked (ll_new (box_new c)) [0]" "boxes (ll_new (box_new c)) [0] = [box_new c]" for c
    using linked_ll_new[of "box_new c"] by simp_all
  show ?thesis
    by (rule operation_drops_flat[OF l(1) l(1), where n = 1]) (simp_all only: l(2), simp_all add: box_new_def)
qed

subsection \<open>Colouring\<close>

text \<open>
  Solvers that never throw and do not change, as those of the linear queries.
\<close>

locale steady_judges = judges +
  assumes steady_pos: "i < k \<Longrightarrow> s \<in> GP i \<Longrightarrow> length (coords b) = n \<Longrightarrow> \<exists>r. query s b = Inr (r, s)"
    and steady_neg: "i < k \<Longrightarrow> s \<in> GN i \<Longrightarrow> length (coords b) = n \<Longrightarrow> \<exists>r. query s b = Inr (r, s)"
begin

lemma ask_pos:
  assumes "ready ps ns" and "i < k" and "length (coords b) = n"
  shows "\<exists>r. query (ps ! i) b = Inr (r, ps ! i) \<and> (r \<longrightarrow> (\<forall>x. in_box b x \<longrightarrow> P i x))"
proof -
  have s: "ps ! i \<in> GP i" using assms by (simp add: ready_def)
  from steady_pos[OF assms(2) s assms(3)] obtain r where r: "query (ps ! i) b = Inr (r, ps ! i)" by blast
  from pos[OF assms(2)] s assms(3) show ?thesis by (cases rule: answersE) (use r in auto)
qed

lemma ask_neg:
  assumes "ready ps ns" and "i < k" and "length (coords b) = n"
  shows "\<exists>r. query (ns ! i) b = Inr (r, ns ! i) \<and> (r \<longrightarrow> (\<forall>x. in_box b x \<longrightarrow> N i x))"
proof -
  have s: "ns ! i \<in> GN i" using assms by (simp add: ready_def)
  from steady_neg[OF assms(2) s assms(3)] obtain r where r: "query (ns ! i) b = Inr (r, ns ! i)" by blast
  from neg[OF assms(2)] s assms(3) show ?thesis by (cases rule: answersE) (use r in auto)
qed

text \<open>A box is coloured \<open>-1\<close> with a refuted constraint, 1 with at most one constraint open.\<close>

definition colored :: "bounding_box \<Rightarrow> bounding_box \<Rightarrow> bool" where
  "colored b b' \<longleftrightarrow> b' = b\<lparr>confidence := confidence b'\<rparr> \<and> confidence b' \<in> {- 1, 0, 1}
     \<and> (confidence b' = - 1 \<longrightarrow> (\<exists>i < k. \<forall>x. in_box b x \<longrightarrow> N i x))
     \<and> (confidence b' = 1 \<longrightarrow> (\<exists>j. \<forall>i < k. i \<noteq> j \<longrightarrow> (\<forall>x. in_box b x \<longrightarrow> P i x)))"

lemma color_loop_spec:
  assumes "ready ps ns" and "length (coords b) = n" and "set is \<subseteq> {..<k}" and "fail = 0 \<or> fail = 1"
  shows "\<exists>fail' b'. color_loop query is fail (b, ps, ns) = Inr (fail', b', ps, ns)
     \<and> (b' = b\<lparr>confidence := - 1\<rparr> \<and> (\<exists>i < k. \<forall>x. in_box b x \<longrightarrow> N i x)
        \<or> b' = b\<lparr>confidence := 0\<rparr> \<and> 1 < fail'
        \<or> b' = b \<and> fail \<le> fail' \<and> fail' \<le> 1
          \<and> (\<exists>j. \<forall>i \<in> set is. fail' = fail \<or> i \<noteq> j \<longrightarrow> (\<forall>x. in_box b x \<longrightarrow> P i x)))"
  using assms(3,4)
proof (induction "is" arbitrary: fail)
  case (Cons i "is")
  have i: "i < k" "length ps = k" "length ns = k" using Cons.prems assms(1) by (auto simp: ready_def)
  obtain yes where yes: "query (ps ! i) b = Inr (yes, ps ! i)" "yes \<Longrightarrow> \<forall>x. in_box b x \<longrightarrow> P i x"
    using ask_pos[OF assms(1) i(1) assms(2)] by blast
  obtain no where no: "query (ns ! i) b = Inr (no, ns ! i)" "no \<Longrightarrow> \<forall>x. in_box b x \<longrightarrow> N i x"
    using ask_neg[OF assms(1) i(1) assms(2)] by blast
  consider "yes" | "\<not> yes" "no" | "\<not> yes" "\<not> no" "fail = 1" | "\<not> yes" "\<not> no" "fail = 0" using Cons.prems(2) by blast
  then show ?case
  proof cases
    case 1
    have "color_loop query (i # is) fail (b, ps, ns) = color_loop query is fail (b, ps, ns)"
      using yes(1) 1 i Cons.prems(2) by auto
    with Cons.IH[of fail] Cons.prems yes(2)[OF 1] show ?thesis by (elim exE conjE disjE) auto
  next
    case 4
    have "color_loop query (i # is) fail (b, ps, ns) = color_loop query is 1 (b, ps, ns)"
      using yes(1) no(1) 4 i by simp
    with Cons.IH[of 1] Cons.prems 4(3) show ?thesis by (elim exE conjE disjE) (auto intro: exI[of _ i])
  qed (use yes no i in auto)
qed auto

lemma color_box_spec:
  assumes "ready ps ns" and "length (coords b) = n" and "0 \<le> confidence b"
  shows "\<exists>b'. color_box query (b, ps, ns) = Inr (b', ps, ns) \<and> colored b b'"
proof -
  have k: "length ps = k" using assms(1) by (simp add: ready_def)
  from color_loop_spec[OF assms(1,2), of "[0..<k]" 0] obtain fail' b' where
    r: "color_loop query [0..<k] 0 (b, ps, ns) = Inr (fail', b', ps, ns)"
    and alt: "b' = b\<lparr>confidence := - 1\<rparr> \<and> (\<exists>i < k. \<forall>x. in_box b x \<longrightarrow> N i x) \<or> b' = b\<lparr>confidence := 0\<rparr> \<and> 1 < fail'
        \<or> b' = b \<and> 0 \<le> fail' \<and> fail' \<le> 1 \<and> (\<exists>j. \<forall>i \<in> set [0..<k]. fail' = 0 \<or> i \<noteq> j \<longrightarrow> (\<forall>x. in_box b x \<longrightarrow> P i x))"
    by (auto simp: lessThan_atLeast0)
  have run: "color_box query (b, ps, ns) = Inr (if fail' \<le> 1 \<and> 0 \<le> confidence b' then b'\<lparr>confidence := 1\<rparr> else b', ps, ns)"
    using r by (simp add: color_box_def k)
  let ?b = "if fail' \<le> 1 \<and> 0 \<le> confidence b' then b'\<lparr>confidence := 1\<rparr> else b'"
  from alt have "colored b ?b"
  proof (elim disjE conjE)
    assume "b' = b\<lparr>confidence := - 1\<rparr>" and "\<exists>i < k. \<forall>x. in_box b x \<longrightarrow> N i x"
    then show ?thesis by (simp add: colored_def)
  next
    assume "b' = b\<lparr>confidence := 0\<rparr>" and "1 < fail'"
    then show ?thesis by (simp add: colored_def)
  next
    assume b': "b' = b" "fail' \<le> 1" and "\<exists>j. \<forall>i \<in> set [0..<k]. fail' = 0 \<or> i \<noteq> j \<longrightarrow> (\<forall>x. in_box b x \<longrightarrow> P i x)"
    then obtain j where "\<forall>i \<in> set [0..<k]. fail' = 0 \<or> i \<noteq> j \<longrightarrow> (\<forall>x. in_box b x \<longrightarrow> P i x)" by blast
    then have "\<forall>i < k. i \<noteq> j \<longrightarrow> (\<forall>x. in_box b x \<longrightarrow> P i x)" by simp
    then have "\<exists>j. \<forall>i < k. i \<noteq> j \<longrightarrow> (\<forall>x. in_box b x \<longrightarrow> P i x)" by blast
    then show ?thesis using assms(3) b' by (simp add: colored_def)
  qed
  with run show ?thesis by blast
qed

lemma color_code_chain:
  assumes "ready ps ns" and "linked l as" and "\<forall>b \<in> set (boxes l as). length (coords b) = n \<and> 0 \<le> confidence b"
  shows "\<exists>l'. color_code_with query ps ns l = Some (Inr (l', ps, ns)) \<and> linked l' as \<and> list_all2 colored (boxes l as) (boxes l' as)"
proof -
  define I where "I ys s \<longleftrightarrow> linked (fst s) as \<and> snd s = (ps, ns) \<and> (\<forall>a \<in> set as.
      if a \<in> set ys then colored (the (cells l a)) (the (cells (fst s) a)) else cells (fst s) a = cells l a)"
    for ys and s :: "bounding_box ll \<times> 'a list \<times> 'a list"
  have step: "\<exists>s'. color_step query a s = Some (Inr s') \<and> I (ys @ [a]) s'" if I: "I ys s" and a: "a \<in> set as" "a \<notin> set ys" for ys a s
  proof -
    obtain l1 where s: "s = (l1, ps, ns)" and l1: "linked l1 as" "cells l1 a = cells l a" using I a by (cases s) (auto simp: I_def)
    obtain b where b: "cells l a = Some b" "b \<in> set (boxes l as)" using boxes_at[OF assms(2) a(1)] by blast
    obtain b' where b': "color_box query (b, ps, ns) = Inr (b', ps, ns)" "colored b b'"
      using color_box_spec[OF assms(1)] assms(3) b(2) by blast
    obtain l2 where l2: "set_box a b' l1 = Inr l2" "linked l2 as" "cells l2 = (cells l1)(a \<mapsto> b')"
      using fr.put_law[OF l1(1), of a b'] b(1) l1(2) by auto
    have "box_at l1 a = Inr b" using fr.get_law l1(2) b(1) by simp
    then have "color_step query a s = Some (Inr (l2, ps, ns))" using b'(1) l2(1) by (simp add: color_step_def s)
    moreover have "I (ys @ [a]) (l2, ps, ns)" using I l2(2,3) b'(2) b(1) s by (auto simp: I_def)
    ultimately show ?thesis by blast
  qed
  have all: "\<exists>s'. foldO (color_step query) zs s = Some (Inr s') \<and> I as s'" if "I ys s" "as = ys @ zs" for ys zs s
    using that
  proof (induction zs arbitrary: ys s)
    case (Cons a zs)
    have "a \<notin> set ys" "a \<in> set as" using linked_distinct[OF assms(2)] Cons.prems(2) by auto
    from step[OF Cons.prems(1) this(2,1)] obtain s1 where "color_step query a s = Some (Inr s1)" "I (ys @ [a]) s1" by blast
    with Cons.IH[of "ys @ [a]" s1] Cons.prems(2) show ?case by simp
  qed auto
  have "I [] (l, ps, ns)" using assms(2) by (simp add: I_def)
  from all[OF this, of as] obtain s' where s': "foldO (color_step query) as (l, ps, ns) = Some (Inr s')" "I as s'" by auto
  moreover obtain l' where "s' = (l', ps, ns)" using s'(2) by (cases s') (simp add: I_def)
  ultimately have l': "foldO (color_step query) as (l, ps, ns) = Some (Inr (l', ps, ns))" "I as (l', ps, ns)" by simp_all
  have "linked l2 ([] @ as)" if "a \<in> set as" "linked l1 ([] @ as)" "color_step query a (l1, u) = Some (Inr (l2, u'))" for a l1 u l2 u'
    using that fr.put_law[of l1 as a] fr.in_cells[of l1 as a] by (auto simp: color_step_def bindR_Inr split: prod.splits) (metis sum.inject(2))
  then have "ll_walk (brk l) (color_step query) (first as None) (l, ps, ns) = foldO (color_step query) as (l, ps, ns)"
    by (intro ll_walk_fold[of l "[]" as]) (use assms(2) linked_length[OF assms(2)] in auto)
  then have "color_code_with query ps ns l = Some (Inr (l', ps, ns))"
    using l'(1) assms(2) by (simp add: color_code_with_def linked_def)
  then show ?thesis using l'(2) by (auto simp: I_def boxes_def list_all2_conv_all_nth)
qed

end

interpretation drs: steady_judges "query_of optimize check (driver_ids n) 0" n k "\<lambda>i. nonneg_at (rs i)" "\<lambda>i. nonneg_at (qs i)"
    "\<lambda>i. driver_solvers optimize n (rs i)" "\<lambda>i. driver_solvers optimize n (qs i)"
  for optimize check n k rs qs
  by unfold_locales (use driver_solvers_query in blast)+

text \<open>
  Colouring.  With the solvers of driver systems \<open>rs\<close> (and \<open>qs\<close> on the negative side),
  \<^verbatim>\<open>color_code\<close> returns, leaves the chain and the solvers as they are and changes only the
  confidence of the boxes: it becomes -1, 0 or 1, -1 only where one of the \<open>qs\<close> is non-negative on the
  whole box, and 1 only where all \<open>rs\<close> but at most one are.
\<close>

theorem color_code_correct:
  assumes "length ns = length ps" and "\<forall>i < length ps. ps ! i \<in> driver_solvers optimize n (rs i) \<and> ns ! i \<in> driver_solvers optimize n (qs i)"
    and "linked l as" and "\<forall>b \<in> set (boxes l as). length (coords b) = n \<and> 0 \<le> confidence b"
  shows "\<exists>l'. color_code optimize check (driver_ids n) ps ns l = Some (Inr (l', ps, ns)) \<and> linked l' as
     \<and> list_all2 (\<lambda>b b'. b' = b\<lparr>confidence := confidence b'\<rparr> \<and> confidence b' \<in> {- 1, 0, 1}
         \<and> (confidence b' = - 1 \<longrightarrow> (\<exists>i < length ps. \<forall>x. in_box b x \<longrightarrow> nonneg_at (qs i) x))
         \<and> (confidence b' = 1 \<longrightarrow> (\<exists>j. \<forall>i < length ps. i \<noteq> j \<longrightarrow> (\<forall>x. in_box b x \<longrightarrow> nonneg_at (rs i) x))))
       (boxes l as) (boxes l' as)"
proof -
  have "drv.ready (length ps) optimize n rs qs ps ns" using assms(1,2) by (simp add: drv.ready_def)
  from drs.color_code_chain[OF this assms(3,4), of check] show ?thesis
    unfolding color_code_def drs.colored_def .
qed

theorem color_code_correct_witness:
  "\<exists>l' b'. color_code ideal_optimizer (\<lambda>_. Unknown) (driver_ids 1) [dr_obj] [dr_obj] (ll_new (box_new [(2, 3)])) = Some (Inr (l', [dr_obj], [dr_obj]))
     \<and> boxes l' [0] = [b'] \<and> coords b' = [(2, 3)] \<and> confidence b' \<in> {- 1, 0, 1}"
proof -
  let ?l = "ll_new (box_new [(2, 3)])"
  have l: "linked ?l [0]" "boxes ?l [0] = [box_new [(2, 3)]]" using linked_ll_new[of "box_new [(2, 3)]"] by simp_all
  have d: "\<forall>b \<in> set (boxes ?l [0]). length (coords b) = 1 \<and> 0 \<le> confidence b" unfolding l(2) by (simp add: box_new_def)
  have ps: "length [dr_obj] = length [dr_obj]"
    "\<forall>i < length [dr_obj]. [dr_obj] ! i \<in> driver_solvers ideal_optimizer 1 dr_rhs \<and> [dr_obj] ! i \<in> driver_solvers ideal_optimizer 1 dr_rhs"
    using dr_obj_in by simp_all
  from color_code_correct[OF ps(1) ps(2) l(1) d, of "\<lambda>_. Unknown"] obtain l' where
    l': "color_code ideal_optimizer (\<lambda>_. Unknown) (driver_ids 1) [dr_obj] [dr_obj] ?l = Some (Inr (l', [dr_obj], [dr_obj]))"
    and b: "list_all2 (\<lambda>b b'. b' = b\<lparr>confidence := confidence b'\<rparr> \<and> confidence b' \<in> {- 1, 0, 1}) (boxes ?l [0]) (boxes l' [0])"
    by (auto elim!: list_all2_mono)
  from b obtain b' where "boxes l' [0] = [b']" "b' = (box_new [(2, 3)])\<lparr>confidence := confidence b'\<rparr>" "confidence b' \<in> {- 1, 0, 1}"
    unfolding l(2) by (auto simp: list_all2_Cons1)
  moreover from this(2) have "coords b' = [(2, 3)]" by (metis bounding_box.select_convs(1) bounding_box.surjective bounding_box.update_convs(4) box_new_def)
  ultimately show ?thesis using l' by blast
qed

subsection \<open>Doubtful boxes\<close>

text \<open>A visit that keeps or removes each node of the rest of a chain.\<close>

lemma ll_visit_chain:
  assumes "linked l (xs @ ys)" and "length ys \<le> fuel" and "I xs ys l s"
    and step: "\<And>xs a ys l s. I xs (a # ys) l s \<Longrightarrow> linked l (xs @ a # ys) \<Longrightarrow>
      \<exists>l' s' kept. f a (l, s) = Some (Inr (first ys None, l', s')) \<and> linked l' ((xs @ kept) @ ys) \<and> I (xs @ kept) ys l' s'"
  shows "\<exists>l' s' zs. ll_visit fuel f (first ys None) (l, s) = Some (Inr (l', s')) \<and> linked l' zs \<and> I zs [] l' s'"
  using assms(1-3)
proof (induction ys arbitrary: fuel xs l s)
  case (Cons a ys)
  from Cons.prems(2) obtain m where m: "fuel = Suc m" "length ys \<le> m" by (cases fuel) auto
  from step[OF Cons.prems(3,1)] obtain l' s' kept where s: "f a (l, s) = Some (Inr (first ys None, l', s'))"
    "linked l' ((xs @ kept) @ ys)" "I (xs @ kept) ys l' s'" by blast
  from Cons.IH[OF s(2) m(2) s(3)] show ?case by (simp add: m s(1))
qed auto

definition mark_found :: "bounding_box \<Rightarrow> bounding_box" where
  "mark_found b = (if confidence b = 0 then b\<lparr>confidence := 1\<rparr> else b)"

lemma smt_pass_chain:
  assumes l: "linked l as" and ps: "ps \<noteq> []"
    and ask: "\<And>b. b \<in> set (boxes l as) \<Longrightarrow> make_smt_query check e_check (snd (ps ! 0)) b = Inr (ans b)"
  shows "\<exists>l' zs. ll_visit (brk l) (smt_pass check e_check ps) (HEAD l) (l, 0, 0)
        = Some (Inr (l', int (length (filter (\<lambda>b. confidence b = 0) (boxes l as))), int (length as)))
      \<and> linked l' zs \<and> boxes l' zs = map mark_found (filter (\<lambda>b. confidence b \<noteq> 0 \<or> ans b) (boxes l as))"
proof -
  define I where "I xs ys l1 s \<longleftrightarrow> (\<exists>us. as = us @ ys \<and> boxes l1 ys = boxes l ys
      \<and> boxes l1 xs = map mark_found (filter (\<lambda>b. confidence b \<noteq> 0 \<or> ans b) (boxes l us))
      \<and> s = (int (length (filter (\<lambda>b. confidence b = 0) (boxes l us))), int (length us)))" for xs ys l1 s
  have "\<exists>l' s' kept. smt_pass check e_check ps a (l1, s) = Some (Inr (first ys None, l', s'))
      \<and> linked l' ((xs @ kept) @ ys) \<and> I (xs @ kept) ys l' s'" if I: "I xs (a # ys) l1 s" and l1: "linked l1 (xs @ a # ys)" for xs a ys l1 s
  proof -
    obtain us where us: "as = us @ a # ys" "boxes l1 (a # ys) = boxes l (a # ys)"
      "boxes l1 xs = map mark_found (filter (\<lambda>b. confidence b \<noteq> 0 \<or> ans b) (boxes l us))"
      "s = (int (length (filter (\<lambda>b. confidence b = 0) (boxes l us))), int (length us))" using I by (auto simp: I_def)
    obtain b where b: "cells l1 a = Some b" "box_at l1 a = Inr b" using boxes_at[OF l1, of a] by auto
    then have bl: "the (cells l a) = b" and a: "a \<notin> set xs" "a \<notin> set ys" using us(2) linked_distinct[OF l1] by auto
    have as': "as = (us @ [a]) @ ys" using us(1) by simp
    have ask: "make_smt_query check e_check (snd (ps ! 0)) b = Inr (ans b)" by (rule ask) (simp add: us(1) bl)
    note next_node = fr.after_law[OF l1]
    consider "confidence b \<noteq> 0" | "confidence b = 0" "ans b" | "confidence b = 0" "\<not> ans b" by blast
    then show ?thesis
    proof cases
      case 1
      then have "I (xs @ [a]) ys l1 (fst s, snd s + 1)" unfolding I_def
        using us b(1) bl by (intro exI[of _ "us @ [a]"]) (auto simp: mark_found_def)
      then show ?thesis using 1 b(2) next_node l1 us(4) by (intro exI[of _ l1] exI[of _ "(fst s, snd s + 1)"] exI[of _ "[a]"]) (simp add: smt_pass_def)
    next
      case 2
      obtain l2 where l2: "set_box a (b\<lparr>confidence := 1\<rparr>) l1 = Inr l2" "succ_of l2 a = Inr (first ys None)" "linked l2 (xs @ a # ys)"
        "cells l2 = (cells l1)(a \<mapsto> b\<lparr>confidence := 1\<rparr>)" using fr.keep_law[OF l1] by blast
      have "boxes l2 xs = boxes l1 xs" "boxes l2 ys = boxes l1 ys" using a by (auto simp: l2(4) intro!: boxes_cong)
      then have "I (xs @ [a]) ys l2 (fst s + 1, snd s + 1)" unfolding I_def
        using us b(1) bl 2 l2(4) by (intro exI[of _ "us @ [a]"]) (auto simp: mark_found_def)
      then show ?thesis using 2 b(2) ask l2 us(4) ps
        by (intro exI[of _ l2] exI[of _ "(fst s + 1, snd s + 1)"] exI[of _ "[a]"]) (simp add: smt_pass_def)
    next
      case 3
      obtain l2 where l2: "remove a l1 = Inr (first ys None, l2)" "linked l2 (xs @ ys)" "cells l2 = cells l1" using fr.rem_law[OF l1] by blast
      have "boxes l2 xs = boxes l1 xs" "boxes l2 ys = boxes l1 ys" by (auto simp: l2(3) intro!: boxes_cong)
      then have "I (xs @ []) ys l2 (fst s + 1, snd s + 1)" unfolding I_def
        using us b(1) bl 3 by (intro exI[of _ "us @ [a]"]) auto
      then show ?thesis using 3 b(2) ask l2 us(4) ps
        by (intro exI[of _ l2] exI[of _ "(fst s + 1, snd s + 1)"] exI[of _ "[]"]) (simp add: smt_pass_def)
    qed
  qed
  moreover have "I [] as l (0, 0)" by (simp add: I_def)
  ultimately have "\<exists>l' s' zs. ll_visit (brk l) (smt_pass check e_check ps) (first as None) (l, 0, 0) = Some (Inr (l', s')) \<and> linked l' zs \<and> I zs [] l' s'"
    by (intro ll_visit_chain[where xs = "[]"]) (use l linked_length[OF l] in auto)
  moreover have "HEAD l = first as None" using l by (simp add: linked_def)
  ultimately show ?thesis by (auto simp: I_def)
qed

text \<open>A valuation inside a box, and one that satisfies a list of expressions.\<close>

definition val_in :: "(double \<times> double) list \<Rightarrow> (u32 \<Rightarrow> real) \<Rightarrow> bool" where
  "val_in cs \<rho> \<longleftrightarrow> (\<forall>i < length cs. of_rat (fst (cs ! i)) \<le> \<rho> (of_nat i) \<and> \<rho> (of_nat i) \<le> of_rat (snd (cs ! i)))"

definition solves :: "double expr list \<Rightarrow> (u32 \<Rightarrow> real) \<Rightarrow> bool" where
  "solves e_check \<rho> \<longleftrightarrow> (\<forall>e \<in> set e_check. \<forall>p. deref e = Inr p \<longrightarrow> 0 \<le> real_eval \<rho> p)"

definition query_ok :: "double solver \<Rightarrow> double expr list \<Rightarrow> (double \<times> double) list \<Rightarrow> bool" where
  "query_ok s e_check cs \<longleftrightarrow> e_ok s \<and> length cs \<le> length (e_list s) \<and> length cs < 2 ^ 32
     \<and> (\<forall>c \<in> set cs. round6 (fst c) = fst c \<and> round6 (snd c) = snd c)
     \<and> (\<forall>e \<in> set e_check. \<exists>p. deref e = Inr p \<and> exact6 [] p \<and> in_range (length (e_list s)) p)"

lemma bound_forms_meaning:
  assumes "e_ok s" and "i < length (e_list s)" and "i < 2 ^ 32" and "round6 (fst c) = fst c" and "round6 (snd c) = snd c"
  shows "\<exists>fs. bound_forms (e_list s) i c = Inr fs
     \<and> (\<forall>\<chi>. (\<forall>f \<in> set fs. zholds \<chi> f) \<longleftrightarrow> of_rat (fst c) \<le> id_val \<chi> (of_nat i) \<and> id_val \<chi> (of_nat i) \<le> of_rat (snd c))"
proof -
  have "e_list s ! i = var_name i" using assms(1,2) unfolding e_ok_def by (metis add_0 diff_zero length_map length_upt nth_map nth_upt)
  moreover have "unat (of_nat i :: u32) = i" using assms(3) by (simp add: unat_of_nat)
  ultimately show ?thesis using assms(2,4,5) by (auto simp: bound_forms_def id_val_def)
qed

lemma bounds_meaning:
  assumes "e_ok s" and "n + length cs \<le> length (e_list s)" and "n + length cs < 2 ^ 32"
    and "\<forall>c \<in> set cs. round6 (fst c) = fst c \<and> round6 (snd c) = snd c"
  shows "\<exists>bs. mapR (\<lambda>(i, c). bound_forms (e_list s) i c) (enumerate n cs) = Inr bs
     \<and> (\<forall>\<chi>. (\<forall>f \<in> set (concat bs). zholds \<chi> f) \<longleftrightarrow>
          (\<forall>i < length cs. of_rat (fst (cs ! i)) \<le> id_val \<chi> (of_nat (n + i)) \<and> id_val \<chi> (of_nat (n + i)) \<le> of_rat (snd (cs ! i))))"
  using assms(2-4)
proof (induction cs arbitrary: n)
  case (Cons c cs)
  from bound_forms_meaning[OF assms(1), of n c] Cons.prems obtain fs where
    fs: "bound_forms (e_list s) n c = Inr fs" "\<And>\<chi>. (\<forall>f \<in> set fs. zholds \<chi> f) \<longleftrightarrow> of_rat (fst c) \<le> id_val \<chi> (of_nat n) \<and> id_val \<chi> (of_nat n) \<le> of_rat (snd c)" by auto
  from Cons.IH[of "Suc n"] Cons.prems obtain bs where bs: "mapR (\<lambda>(i, c). bound_forms (e_list s) i c) (enumerate (Suc n) cs) = Inr bs"
    "\<And>\<chi>. (\<forall>f \<in> set (concat bs). zholds \<chi> f) \<longleftrightarrow>
          (\<forall>i < length cs. of_rat (fst (cs ! i)) \<le> id_val \<chi> (of_nat (Suc n + i)) \<and> id_val \<chi> (of_nat (Suc n + i)) \<le> of_rat (snd (cs ! i)))" by auto
  have "(\<forall>f \<in> set (concat (fs # bs)). zholds \<chi> f) \<longleftrightarrow>
      (\<forall>i < length (c # cs). of_rat (fst ((c # cs) ! i)) \<le> id_val \<chi> (of_nat (n + i)) \<and> id_val \<chi> (of_nat (n + i)) \<le> of_rat (snd ((c # cs) ! i)))" for \<chi>
    using fs(2)[of \<chi>] bs(2)[of \<chi>] by (simp only: concat.simps set_append ball_Un length_Cons All_less_Suc2 nth_Cons_0 nth_Cons_Suc add_0_right add_Suc_right add_Suc)
  moreover have "mapR (\<lambda>(i, c). bound_forms (e_list s) i c) (enumerate n (c # cs)) = Inr (fs # bs)" using fs(1) bs(1) by simp
  ultimately show ?case by blast
qed auto

lemma smt_query_forms:
  assumes "query_ok s e_check cs"
  shows "\<exists>fs. (\<forall>check. smt_query check e_check cs s = Inr (check fs = Sat))
     \<and> (\<forall>\<chi>. (\<forall>f \<in> set fs. zholds \<chi> f) \<longleftrightarrow> val_in cs (id_val \<chi>) \<and> solves e_check (id_val \<chi>))"
proof -
  have ok: "e_ok s" using assms by (simp add: query_ok_def)
  from bounds_meaning[OF ok, of 0 cs] assms obtain bs where
    bs: "mapR (\<lambda>(i, c). bound_forms (e_list s) i c) (enumerate 0 cs) = Inr bs" "\<And>\<chi>. (\<forall>f \<in> set (concat bs). zholds \<chi> f) \<longleftrightarrow> val_in cs (id_val \<chi>)"
    by (auto simp: query_ok_def val_in_def)
  let ?f = "\<lambda>poly. bindR (deref poly) (ineq_form (e_list s) [])"
  have each: "\<exists>f. ?f e = Inr f" if e: "e \<in> set e_check" for e
  proof -
    obtain p where p: "deref e = Inr p" "in_range (length (e_list s)) p" using assms e by (auto simp: query_ok_def)
    then have "\<exists>z. print_sym (e_list s) [] p = Inr z" by (intro print_sym_total) (auto simp: in_range_def)
    then show ?thesis using p(1) by (auto simp: ineq_form_def)
  qed
  then obtain ps where ps: "mapR ?f e_check = Inr ps" using mapR_total[of e_check ?f] by blast
  have "(\<forall>f \<in> set ps. zholds \<chi> f) \<longleftrightarrow> solves e_check (id_val \<chi>)" for \<chi>
    unfolding solves_def
  proof (rule mapR_all[OF ps])
    fix e f assume e: "e \<in> set e_check" and f: "?f e = Inr f"
    obtain p where p: "deref e = Inr p" "exact6 [] p" "in_range (length (e_list s)) p" using assms e by (auto simp: query_ok_def)
    then have "ineq_form (e_list s) [] p = Inr f" using f by simp
    from ineq_form_meaning[OF ok this p(2,3)] show "zholds \<chi> f \<longleftrightarrow> (\<forall>p. deref e = Inr p \<longrightarrow> 0 \<le> real_eval (id_val \<chi>) p)"
      using p(1) by simp
  qed
  with bs(2) have "\<forall>\<chi>. (\<forall>f \<in> set (concat bs @ ps). zholds \<chi> f) \<longleftrightarrow> val_in cs (id_val \<chi>) \<and> solves e_check (id_val \<chi>)"
    by (simp only: set_append ball_Un simp_thms)
  moreover have "\<forall>check. smt_query check e_check cs s = Inr (check (concat bs @ ps) = Sat)" using bs(1) ps by (simp add: smt_query_def)
  ultimately show ?thesis by blast
qed

lemma smt_query_answer:
  assumes "query_ok s e_check cs" and "checker_ok check" and "\<And>fs. check fs \<noteq> Unknown"
  shows "smt_query check e_check cs s = Inr (\<exists>\<rho>. val_in cs \<rho> \<and> solves e_check \<rho>)"
proof -
  from smt_query_forms[OF assms(1)] obtain fs where fs: "\<And>check. smt_query check e_check cs s = Inr (check fs = Sat)"
    and m: "\<And>\<chi>. (\<forall>f \<in> set fs. zholds \<chi> f) \<longleftrightarrow> val_in cs (id_val \<chi>) \<and> solves e_check (id_val \<chi>)" by blast
  have "check fs = Sat \<longleftrightarrow> (\<exists>\<chi>. \<forall>f \<in> set fs. zholds \<chi> f)"
    using assms(2,3) check_result.exhaust unfolding checker_ok_def by metis
  also have "\<dots> \<longleftrightarrow> (\<exists>\<rho>. val_in cs \<rho> \<and> solves e_check \<rho>)" unfolding m using id_val_surj by metis
  finally show ?thesis using fs by simp
qed

lemma recompute_smt_run:
  assumes l: "linked (frags st) as" and ps: "s_pos st = s # ss"
    and ans: "\<And>b. b \<in> set (boxes (frags st) as) \<Longrightarrow> smt_query check e_check (coords b) (snd s) = Inr (ans b)"
  shows "\<exists>l' zs. recompute_confidence_smt check e_check st
        = Some (Inr (st\<lparr>frags := l'\<rparr>, int (length (filter (\<lambda>b. confidence b = 0) (boxes (frags st) as))), int (length as)))
     \<and> linked l' zs \<and> boxes l' zs = map mark_found (filter (\<lambda>b. confidence b \<noteq> 0 \<or> ans b) (boxes (frags st) as))"
proof -
  have "s_pos st \<noteq> []" by (simp add: ps)
  from smt_pass_chain[OF l this, of check e_check ans] ans obtain l' zs where
    r: "ll_visit (brk (frags st)) (smt_pass check e_check (s_pos st)) (HEAD (frags st)) (frags st, 0, 0)
        = Some (Inr (l', int (length (filter (\<lambda>b. confidence b = 0) (boxes (frags st) as))), int (length as)))" "linked l' zs"
      "boxes l' zs = map mark_found (filter (\<lambda>b. confidence b \<noteq> 0 \<or> ans b) (boxes (frags st) as))"
    by (auto simp: ps make_smt_query_def)
  have "recompute_confidence_smt check e_check st
      = Some (Inr (st\<lparr>frags := l'\<rparr>, int (length (filter (\<lambda>b. confidence b = 0) (boxes (frags st) as))), int (length as)))"
    by (simp add: recompute_confidence_smt_def r(1))
  with r(2,3) show ?thesis by blast
qed

text \<open>
  C29: The final check with z3.  When z3 decides every query (and the numbers have at most six
  decimals), \<^verbatim>\<open>recompute_confidence(e_check)\<close> leaves exactly the boxes that were confident
  already, unchanged, and those in which the expressions have a common solution, now marked
  confident, in the same order; it counts one query per doubtful box.
\<close>

theorem recompute_confidence_smt_correct:
  assumes l: "linked (frags st) as" and ps: "s_pos st = s # ss" and check: "checker_ok check" "\<forall>fs. check fs \<noteq> Unknown"
    and ok: "\<forall>b \<in> set (boxes (frags st) as). query_ok (snd s) e_check (coords b)"
  shows "\<exists>l' zs. recompute_confidence_smt check e_check st
        = Some (Inr (st\<lparr>frags := l'\<rparr>, int (length (filter (\<lambda>b. confidence b = 0) (boxes (frags st) as))), int (length as)))
     \<and> linked l' zs
     \<and> boxes l' zs = map mark_found (filter (\<lambda>b. confidence b \<noteq> 0 \<or> (\<exists>\<rho>. val_in (coords b) \<rho> \<and> solves e_check \<rho>)) (boxes (frags st) as))"
proof -
  have "smt_query check e_check (coords b) (snd s) = Inr (\<exists>\<rho>. val_in (coords b) \<rho> \<and> solves e_check \<rho>)"
    if "b \<in> set (boxes (frags st) as)" for b
    using smt_query_answer[OF _ check(1)] check(2) ok that by simp
  from recompute_smt_run[OF l ps this] show ?thesis by simp
qed

text \<open>
  The final check after a timeout.  When z3 answers unknown, \<^verbatim>\<open>smt_query\<close> returns false, so
  \<^verbatim>\<open>recompute_confidence(e_check)\<close> removes every doubtful box, whether it has a solution or not.
\<close>

theorem recompute_confidence_smt_unknown:
  assumes l: "linked (frags st) as" and ps: "s_pos st = s # ss"
    and ok: "\<forall>b \<in> set (boxes (frags st) as). query_ok (snd s) e_check (coords b)"
  shows "\<exists>l' zs calls grids. recompute_confidence_smt (\<lambda>_. Unknown) e_check st = Some (Inr (st\<lparr>frags := l'\<rparr>, calls, grids))
     \<and> linked l' zs \<and> boxes l' zs = filter (\<lambda>b. confidence b \<noteq> 0) (boxes (frags st) as)"
proof -
  have "smt_query (\<lambda>_. Unknown) e_check (coords b) (snd s) = Inr False" if "b \<in> set (boxes (frags st) as)" for b
    using smt_query_forms[of "snd s" e_check "coords b"] ok that by auto
  from recompute_smt_run[OF l ps this] obtain l' zs calls grids where
    "recompute_confidence_smt (\<lambda>_. Unknown) e_check st = Some (Inr (st\<lparr>frags := l'\<rparr>, calls, grids))" "linked l' zs"
    "boxes l' zs = map mark_found (filter (\<lambda>b. confidence b \<noteq> 0) (boxes (frags st) as))" by auto
  moreover have "map mark_found (filter (\<lambda>b. confidence b \<noteq> 0) bs) = filter (\<lambda>b. confidence b \<noteq> 0) bs" for bs
    by (rule map_idI) (simp add: mark_found_def)
  ultimately show ?thesis by auto
qed

text \<open>An instance: the box \<open>[2, 3]\<close> and the expression \<open>x\<close>.\<close>

definition sm_expr :: "double expr" where
  "sm_expr = \<lparr>in_mem = False, ptr = Live dr_rhs\<rparr>"

definition sm_state :: "solver_obj fragmentation_intersection" where
  "sm_state = \<lparr>s_pos = [(dr_vars, solver_new dr_vars)], s_neg = [], n_dirs = 1, curr_box = None, frags = ll_new (box_new [(2, 3)])\<rparr>"

definition ideal_checker :: "zform list \<Rightarrow> check_result" where
  "ideal_checker fs = (if \<exists>\<chi>. \<forall>f \<in> set fs. zholds \<chi> f then Sat else Unsat)"

lemma sm_setup:
  shows "linked (frags sm_state) [0]" and "boxes (frags sm_state) [0] = [box_new [(2, 3)]]"
    and "\<forall>b \<in> set (boxes (frags sm_state) [0]). query_ok (snd (dr_vars, solver_new dr_vars)) [sm_expr] (coords b)"
proof -
  show l: "linked (frags sm_state) [0]" and b: "boxes (frags sm_state) [0] = [box_new [(2, 3)]]"
    using linked_ll_new[of "box_new [(2, 3)]"] by (simp_all add: sm_state_def)
  have len: "length (e_list (solver_new dr_vars :: double solver)) = 3" by code_simp
  have "round6 2 = 2" "round6 3 = 3" using round6_of_int[of 2] round6_of_int[of 3] by simp_all
  then show "\<forall>b \<in> set (boxes (frags sm_state) [0]). query_ok (snd (dr_vars, solver_new dr_vars)) [sm_expr] (coords b)"
    unfolding b by (simp add: query_ok_def e_ok_new box_new_def sm_expr_def deref_def dr_rhs_def new_symbol_def new_const_def in_range_def len)
qed

theorem recompute_confidence_smt_correct_witness:
  "\<exists>st calls grids zs b. recompute_confidence_smt ideal_checker [sm_expr] sm_state = Some (Inr (st, calls, grids))
     \<and> boxes (frags st) zs = [b] \<and> confidence b = 1"
proof -
  have c: "checker_ok ideal_checker" "\<forall>fs. ideal_checker fs \<noteq> Unknown" by (auto simp: checker_ok_def ideal_checker_def split: if_splits)
  have sol: "\<exists>\<rho>. val_in [(2, 3)] \<rho> \<and> solves [sm_expr] \<rho>"
    by (intro exI[of _ "\<lambda>_. 2"]) (simp add: val_in_def solves_def sm_expr_def deref_def dr_rhs_def new_symbol_def new_const_def)
  have "s_pos sm_state = [(dr_vars, solver_new dr_vars)]" by (simp add: sm_state_def)
  from recompute_confidence_smt_correct[OF sm_setup(1) this c sm_setup(3)] sol obtain l' zs calls grids where
    "recompute_confidence_smt ideal_checker [sm_expr] sm_state = Some (Inr (sm_state\<lparr>frags := l'\<rparr>, calls, grids))"
    "boxes l' zs = [mark_found (box_new [(2, 3)])]" unfolding sm_setup(2) by (auto simp: box_new_def)
  moreover have "confidence (mark_found (box_new [(2, 3)])) = 1" by (simp add: mark_found_def box_new_def)
  ultimately show ?thesis
    by (intro exI[of _ "sm_state\<lparr>frags := l'\<rparr>"] exI[of _ calls] exI[of _ grids] exI[of _ zs] exI[of _ "mark_found (box_new [(2, 3)])"]) simp
qed

theorem recompute_confidence_smt_unknown_witness:
  "\<exists>st calls grids zs. recompute_confidence_smt (\<lambda>_. Unknown) [sm_expr] sm_state = Some (Inr (st, calls, grids))
     \<and> linked (frags st) zs \<and> boxes (frags st) zs = []"
proof -
  have "s_pos sm_state = [(dr_vars, solver_new dr_vars)]" by (simp add: sm_state_def)
  from recompute_confidence_smt_unknown[OF sm_setup(1) this sm_setup(3)] obtain l' zs calls grids where
    "recompute_confidence_smt (\<lambda>_. Unknown) [sm_expr] sm_state = Some (Inr (sm_state\<lparr>frags := l'\<rparr>, calls, grids))" "linked l' zs"
    "boxes l' zs = []" unfolding sm_setup(2) by (auto simp: box_new_def)
  then show ?thesis by (intro exI[of _ "sm_state\<lparr>frags := l'\<rparr>"]) auto
qed

end
