(* ===== verification/Fragmentation_Sound.thy ===== *)
theory Fragmentation_Sound
  imports Box_Lists_Sound
begin

text \<open>
  The class \<^verbatim>\<open>fragmentation\<close>, the search for a single constraint, with the solvers of the
  drivers: it ends, and when it does not run into its null pointer no point outside the negated
  constraint is lost.  It dereferences the null pointer as soon as the last box of its list gets a
  certificate, since it marks the box after the certified one.
\<close>

context judges begin

definition sound_box :: "bounding_box \<Rightarrow> bool" where
  "sound_box b \<longleftrightarrow> length (coords b) = n \<and> \<not> not_valid b"

definition fragment_inv :: "double list set \<Rightarrow> addr list \<Rightarrow> addr list \<Rightarrow> 's fragmentation \<Rightarrow> bool" where
  "fragment_inv need dn pend st \<longleftrightarrow>
     pool sound_box (parts st) (dn @ pend) \<and> cur st = first pend None \<and> dirs st = n \<and> sol st \<in> GP 0 \<and> sol_neg st \<in> GN 0
     \<and> (\<forall>x \<in> need. covered (parts st) (dn @ pend) x)"

lemma fragment_split:
  assumes "sound_box b" and "0 < n"
  shows "\<exists>idx nb b'. longest n b = Inr idx \<and> divide idx 0 False b = Inr (nb, b') \<and> sound_box nb \<and> sound_box b'
     \<and> (\<forall>x. in_box b x \<longrightarrow> in_box b' x \<or> in_box nb x)"
proof -
  have len: "length (coords b) = n" and valid: "\<forall>c \<in> set (coords b). fst c \<le> snd c" using assms(1) by (simp_all add: sound_box_def not_valid_alt)
  have "coords b ! 0 \<in> set (coords b)" using len assms(2) by simp
  with valid longest_spec[of "coords b ! 0" b] obtain idx where idx: "longest n b = Inr idx" "0 \<le> idx" "nat idx < length (coords b)"
    by (auto simp: len)
  obtain nb b' where d: "divide idx 0 False b = Inr (nb, b')" using divide_total[OF idx(2,3)] by blast
  have "sound_box nb" "sound_box b'" using divide_keeps[OF d] divide_valid[OF d valid] len by (auto simp: sound_box_def not_valid_alt)
  with idx(1) d divide_Inr(1)[OF d] show ?thesis by blast
qed

text \<open>The four ways a round treats the box \<open>a\<close> at the front of the pending ones.\<close>

lemma fragment_pool:
  assumes "fragment_inv need dn pend st"
  shows "pool sound_box (parts st) (dn @ pend)" and "linked (parts st) (dn @ pend)" and "dirs st = n"
    and "\<And>x. x \<in> need \<Longrightarrow> covered (parts st) (dn @ pend) x"
  using assms pool_linked by (auto simp: fragment_inv_def)

lemma fragment_certify:
  assumes inv: "fragment_inv need dn (a # c # cs) st" and s1: "s1 \<in> GP 0"
  shows "\<exists>nb l'. box_at (parts st) c = Inr nb \<and> set_box c (nb\<lparr>confidence := 1\<rparr>) (parts st) = Inr l'
     \<and> fragment_inv need (dn @ [a]) (c # cs) (st\<lparr>sol := s1, cur := Some c, parts := l'\<rparr>)"
proof -
  note pool = fragment_pool[OF inv]
  obtain nb where nb: "cells (parts st) c = Some nb" "box_at (parts st) c = Inr nb" "sound_box nb"
    using pool_box[OF pool(1), of c] by auto
  let ?nb = "nb\<lparr>confidence := 1\<rparr>"
  obtain l' where l': "set_box c ?nb (parts st) = Inr l'" "linked l' (dn @ a # c # cs)" "cells l' = (cells (parts st))(c \<mapsto> ?nb)"
    using fr.put_law[OF pool(2), of c ?nb] nb(1) by auto
  have ok: "sound_box ?nb" using nb(3) by (simp add: sound_box_def not_valid_def)
  have "fragment_inv need (dn @ [a]) (c # cs) (st\<lparr>sol := s1, cur := Some c, parts := l'\<rparr>)"
    using pool_keep[of sound_box "parts st" "dn @ [a]" c cs l', OF _ _ l'(3) ok] pool l'(2) nb(1) s1 inv
    by (auto simp: fragment_inv_def)
  with nb(2) l'(1) show ?thesis by blast
qed

lemma fragment_drop:
  assumes inv: "fragment_inv need dn (a # pend) st" and b: "cells (parts st) a = Some b" and s: "s1 \<in> GP 0" "s2 \<in> GN 0"
    and out: "\<And>x. x \<in> need \<Longrightarrow> \<not> in_box b x"
  shows "\<exists>l'. remove a (parts st) = Inr (first pend None, l')
     \<and> fragment_inv need dn pend (st\<lparr>sol := s1, sol_neg := s2, cur := first pend None, parts := l'\<rparr>)"
proof -
  note pool = fragment_pool[OF inv]
  obtain l' where l': "remove a (parts st) = Inr (first pend None, l')" "linked l' (dn @ pend)" "cells l' = cells (parts st)"
    using fr.rem_law[OF pool(2)] by blast
  have "cells l' = (cells (parts st))(a := cells (parts st) a)" using l'(3) by simp
  from pool_drop[OF pool(1) l'(2) this]
  have "fragment_inv need dn pend (st\<lparr>sol := s1, sol_neg := s2, cur := first pend None, parts := l'\<rparr>)"
    using pool(3,4) b s out by (auto simp: fragment_inv_def)
  with l'(1) show ?thesis by blast
qed

lemma fragment_halve:
  assumes inv: "fragment_inv need dn (a # pend) st" and b: "cells (parts st) a = Some b" and s: "s1 \<in> GP 0" "s2 \<in> GN 0"
    and h: "sound_box nb" "sound_box b'" "\<And>x. in_box b x \<Longrightarrow> in_box b' x \<or> in_box nb x"
  shows "\<exists>l0 l1 l2 nxt c. set_box a b' (parts st) = Inr l0 \<and> emplace_node a l0 = Inr (nxt, l1) \<and> add_node nb l1 = Inr l2
     \<and> fragment_inv need dn (pend @ [a, c]) (st\<lparr>sol := s1, sol_neg := s2, cur := Some nxt, parts := l2\<rparr>)"
proof -
  let ?nxt = "the (first (pend @ [a]) None)"
  note pool = fragment_pool[OF inv]
  obtain l0 l1 l2 c where l: "set_box a b' (parts st) = Inr l0" "emplace_node a l0 = Inr (?nxt, l1)" "add_node nb l1 = Inr l2"
    "linked l2 (dn @ pend @ [a, c])" "cells l2 = (cells (parts st))(a \<mapsto> b', c \<mapsto> nb)" "cells (parts st) c = None"
    using fr.split_law[OF pool(2), of b' nb] by auto
  have nxt: "Some ?nxt = first (pend @ [a, c]) None" by (cases pend) auto
  have cov: "covered l2 (dn @ pend @ [a, c]) x" if "x \<in> need" for x
    using pool_split(2)[OF pool(1) l(4,5,6) h(2,1) pool(4)[OF that]] h(3) b by auto
  have "fragment_inv need dn (pend @ [a, c]) (st\<lparr>sol := s1, sol_neg := s2, cur := Some ?nxt, parts := l2\<rparr>)"
    using pool_split(1)[OF pool(1) l(4,5,6) h(2,1)] cov s pool(3) nxt by (simp add: fragment_inv_def del: first_append)
  with l(1-3) show ?thesis by blast
qed

lemma fragment_refused:
  assumes inv: "fragment_inv need dn (a # pend) st" and k: "k = 1" "0 < n" and clear: "\<forall>x \<in> need. \<not> N 0 x"
    and b: "cells (parts st) a = Some b" "box_at (parts st) a = Inr b" "sound_box b"
    and q: "query (sol st) b = Inr (False, s1)" "s1 \<in> GP 0"
  shows "case fragment_step query vol_limit a st of
      Inl err \<Rightarrow> query (sol_neg st) b = Inl err
    | Inr st' \<Rightarrow> \<exists>dn' pend'. fragment_inv need dn' pend' st'"
proof -
  note pool = fragment_pool[OF inv]
  have "answers n query (N 0) (GN 0)" "sol_neg st \<in> GN 0" "length (coords b) = n"
    using neg[of 0] k inv b(3) by (auto simp: fragment_inv_def sound_box_def)
  then show ?thesis
  proof (cases rule: answersE)
    case (1 msg)
    then show ?thesis using q by (auto simp: fragment_step_def b(2))
  next
    case (2 no s2)
    consider "no" | "\<not> no" "norm_box b < vol_limit" | "\<not> no" "\<not> norm_box b < vol_limit" by blast
    then show ?thesis
    proof cases
      case 1
      then have "\<not> in_box b x" if "x \<in> need" for x using 2(3) clear that by blast
      from fragment_drop[OF inv b(1) q(2) 2(2) this] obtain l' where "remove a (parts st) = Inr (first pend None, l')"
        "fragment_inv need dn pend (st\<lparr>sol := s1, sol_neg := s2, cur := first pend None, parts := l'\<rparr>)" by blast
      then show ?thesis using q 2(1) 1 by (auto simp: fragment_step_def b(2))
    next
      case small: 2
      have "fragment_inv need (dn @ [a]) pend (st\<lparr>sol := s1, sol_neg := s2, cur := first pend None\<rparr>)"
        using inv q(2) 2(2) by (simp add: fragment_inv_def)
      then show ?thesis using q 2(1) small fr.after_law[OF pool(2)] by (auto simp: fragment_step_def b(2))
    next
      case 3
      obtain idx nb b' where h: "longest n b = Inr idx" "divide idx 0 False b = Inr (nb, b')" "sound_box nb" "sound_box b'"
        "\<And>x. in_box b x \<Longrightarrow> in_box b' x \<or> in_box nb x" using fragment_split[OF b(3) k(2)] by blast
      from fragment_halve[OF inv b(1) q(2) 2(2) h(3-5)] obtain l0 l1 l2 nxt c where
        "set_box a b' (parts st) = Inr l0" "emplace_node a l0 = Inr (nxt, l1)" "add_node nb l1 = Inr l2"
        "fragment_inv need dn (pend @ [a, c]) (st\<lparr>sol := s1, sol_neg := s2, cur := Some nxt, parts := l2\<rparr>)" by blast
      then show ?thesis
        using q 2(1) 3 h(1,2) pool(3) by (auto simp: fragment_step_def b(2))
    qed
  qed
qed

lemma fragment_step_inv:
  assumes inv: "fragment_inv need dn (a # pend) st" and k: "k = 1" "0 < n" and clear: "\<forall>x \<in> need. \<not> N 0 x"
  shows "case fragment_step query vol_limit a st of
      Inl err \<Rightarrow> err = Undefined \<or> (\<exists>b. length (coords b) = n \<and> (query (sol st) b = Inl err \<or> query (sol_neg st) b = Inl err))
    | Inr st' \<Rightarrow> \<exists>dn' pend'. fragment_inv need dn' pend' st'"
proof -
  note pool = fragment_pool[OF inv]
  obtain b where b: "cells (parts st) a = Some b" "box_at (parts st) a = Inr b" "sound_box b" using pool_box[OF pool(1), of a] by auto
  have nb: "length (coords b) = n" using b(3) by (simp add: sound_box_def)
  have "answers n query (P 0) (GP 0)" "sol st \<in> GP 0" using pos[of 0] k inv by (auto simp: fragment_inv_def)
  from this nb show ?thesis
  proof (cases rule: answersE)
    case (1 msg)
    then show ?thesis using nb by (auto simp: fragment_step_def b(2))
  next
    case (2 yes s1)
    show ?thesis
    proof (cases yes)
      case False
      with fragment_refused[OF inv k clear b, of s1 vol_limit] 2 nb show ?thesis by (auto split: sum.splits)
    next
      case True
      show ?thesis
      proof (cases pend)
        case Nil
        then show ?thesis using 2(1) True fr.after_law[OF pool(2)] by (simp add: fragment_step_def b(2) ptr_def ofopt_def)
      next
        case (Cons c cs)
        from fragment_certify[OF inv[unfolded Cons] 2(2)] obtain nb l' where "box_at (parts st) c = Inr nb"
          "set_box c (nb\<lparr>confidence := 1\<rparr>) (parts st) = Inr l'"
          "fragment_inv need (dn @ [a]) (c # cs) (st\<lparr>sol := s1, cur := Some c, parts := l'\<rparr>)" by blast
        then show ?thesis
          using 2(1) True fr.after_law[OF pool(2)] Cons by (auto simp: fragment_step_def b(2) ptr_def ofopt_def)
      qed
    qed
  qed
qed

end

context steady_judges begin

lemma fragment_loop_inv:
  assumes "fragment_inv need dn pend st" and k: "k = 1" "0 < n" and clear: "\<forall>x \<in> need. \<not> N 0 x"
  shows "fragment_loop query vol_limit m st = Inl Undefined
     \<or> (\<exists>st' dn' pend'. fragment_loop query vol_limit m st = Inr st' \<and> fragment_inv need dn' pend' st')"
  using assms(1)
proof (induction m arbitrary: st dn pend)
  case (Suc m)
  show ?case
  proof (cases pend)
    case Nil
    with Suc.prems have "cur st = None" by (simp add: fragment_inv_def)
    with Suc.prems show ?thesis by auto
  next
    case (Cons a as)
    with Suc.prems have inv: "fragment_inv need dn (a # as) st" and cur: "cur st = Some a" by (auto simp: fragment_inv_def)
    show ?thesis
    proof (cases "fragment_step query vol_limit a st")
      case (Inl err)
      have "query (sol st) b \<noteq> Inl err \<and> query (sol_neg st) b \<noteq> Inl err" if "length (coords b) = n" for b
        using steady_pos[of 0 "sol st" b] steady_neg[of 0 "sol_neg st" b] inv k that by (auto simp: fragment_inv_def)
      with fragment_step_inv[OF inv k clear, of vol_limit] Inl show ?thesis by (auto simp: cur)
    next
      case (Inr st')
      with fragment_step_inv[OF inv k clear, of vol_limit] Suc.IH show ?thesis by (auto simp: cur)
    qed
  qed
qed auto

lemma prune_inv:
  assumes inv: "fragment_inv need dn pend st" and k: "k = 1" and clear: "\<forall>x \<in> need. \<not> N 0 x"
  shows "\<exists>l' zs. ll_visit (brk (parts st)) (prune_step query) (cur st) (parts st, sol st, sol_neg st) = Some (Inr (l', sol st, sol_neg st))
     \<and> linked l' zs \<and> (\<forall>x \<in> need. covered l' zs x)"
proof -
  define I where "I xs ys l s \<longleftrightarrow> pool sound_box l (xs @ ys) \<and> (\<forall>x \<in> need. covered l (xs @ ys) x) \<and> s = (sol st, sol_neg st)" for xs ys l s
  have start: "I dn pend (parts st) (sol st, sol_neg st)" and cur: "cur st = first pend None" and link: "linked (parts st) (dn @ pend)"
    using inv by (auto simp: I_def fragment_inv_def pool_linked)
  have s: "sol st \<in> GP 0" "sol_neg st \<in> GN 0" using inv by (auto simp: fragment_inv_def)
  have step: "\<exists>l' s' kept. prune_step query a (l, s) = Some (Inr (first ys None, l', s')) \<and> linked l' ((xs @ kept) @ ys) \<and> I (xs @ kept) ys l' s'"
    if I: "I xs (a # ys) l s" and l: "linked l (xs @ a # ys)" for xs a ys l s
  proof -
    have pool: "pool sound_box l (xs @ a # ys)" and cov: "\<And>x. x \<in> need \<Longrightarrow> covered l (xs @ a # ys) x" and s': "s = (sol st, sol_neg st)"
      using I by (auto simp: I_def)
    obtain b where b: "cells l a = Some b" "box_at l a = Inr b" "sound_box b" using pool_box[OF pool, of a] by auto
    have nb: "length (coords b) = n" using b(3) by (simp add: sound_box_def)
    have rd: "ready [sol st] [sol_neg st]" unfolding ready_def using s k by simp
    obtain yes where yes: "query (sol st) b = Inr (yes, sol st)" using ask_pos[OF rd, of 0 b] k nb by auto
    obtain no where no: "query (sol_neg st) b = Inr (no, sol_neg st)" "no \<Longrightarrow> \<forall>x. in_box b x \<longrightarrow> N 0 x"
      using ask_neg[OF rd, of 0 b] k nb by auto
    note next_node = fr.after_law[OF l]
    show ?thesis
    proof (cases "yes \<or> \<not> no")
      case True
      then have "prune_step query a (l, s) = Some (Inr (first ys None, l, s))"
        using b(2) yes no(1) next_node by (auto simp: prune_step_def s')
      then show ?thesis using I l by (intro exI[of _ l] exI[of _ s] exI[of _ "[a]"]) (simp add: I_def)
    next
      case False
      obtain l' where l': "remove a l = Inr (first ys None, l')" "linked l' (xs @ ys)" "cells l' = cells l" using fr.rem_law[OF l] by blast
      have "cells l' = (cells l)(a := cells l a)" using l'(3) by simp
      note drop = pool_drop[OF pool l'(2) this]
      have "\<not> in_box b x" if "x \<in> need" for x using no(2) False clear that by blast
      then have "I (xs @ []) ys l' s" using drop cov b(1) s' by (auto simp: I_def)
      moreover have "prune_step query a (l, s) = Some (Inr (first ys None, l', s))"
        using b(2) yes no(1) False l'(1) by (auto simp: prune_step_def s')
      ultimately show ?thesis using l'(2) by (intro exI[of _ l'] exI[of _ s] exI[of _ "[]"]) simp
    qed
  qed
  have "length pend \<le> brk (parts st)" using linked_length[OF link] by simp
  then have "\<exists>l' s' zs. ll_visit (brk (parts st)) (prune_step query) (first pend None) (parts st, sol st, sol_neg st) = Some (Inr (l', s'))
      \<and> linked l' zs \<and> I zs [] l' s'"
    by (rule ll_visit_chain[where I = I, OF link _ start]) (rule step)
  then show ?thesis unfolding cur by (auto simp: I_def)
qed

end


text \<open>
  C32: The null pointer of \<^verbatim>\<open>fragmentation::run_iters\<close>.  Whenever the round looks at the last box of the
  list and the solver certifies it, the program dereferences the null successor to mark it; in
  particular a search whose root box is certified at once is undefined.
\<close>

theorem fragmentation_last_certified:
  assumes "linked (parts st) (as @ [a])" and "cur st = Some a" and "cells (parts st) a = Some b"
    and "query (sol st) b = Inr (True, s)" and "0 < iter_limit"
  shows "fragmentation_run_iters query iter_limit vol_limit st = Some (Inl Undefined)"
proof -
  have "succ_of (parts st) a = Inr None" using fr.after_law[of "parts st" as a "[]"] assms(1) by simp
  then have "fragment_step query vol_limit a st = Inl Undefined"
    using fr.get_law[OF assms(3)] assms(4) by (simp add: fragment_step_def ptr_def ofopt_def)
  moreover obtain m where "nat iter_limit = Suc m" using assms(5) by (cases "nat iter_limit") auto
  ultimately show ?thesis using assms(2) by (simp add: fragmentation_run_iters_def)
qed


theorem fragmentation_last_certified_witness:
  "fragmentation_run_iters (\<lambda>s b. Inr (True, s)) 5 1 (fragmentation_new [(2, 3)] () ()) = Some (Inl Undefined)"
proof (rule fragmentation_last_certified)
  show "linked (parts (fragmentation_new [(2, 3)] () ())) ([] @ [0])" "cells (parts (fragmentation_new [(2, 3)] () ())) 0 = Some (box_new [(2, 3)])"
    using linked_ll_new[of "box_new [(2, 3)]"] by (simp_all add: fragmentation_new_def Let_def)
  show "cur (fragmentation_new [(2, 3)] () ()) = Some 0" by (simp add: fragmentation_new_def ll_new_def ll_alloc_def ll_empty_def)
qed simp_all

end
