(* ===== verification/Number_Text.thy ===== *)
theory Number_Text
  imports Decimal
begin

text \<open>
  Doubles in the files of the program.  \<^verbatim>\<open>ostream << double\<close> prints six significant digits in the
  default format: fixed when the exponent is between -4 and 5, scientific otherwise, without
  trailing zeros.  \<^verbatim>\<open>std::stod\<close> reads such a text back.  The value that comes back is \<open>sig6 x\<close>, which
  is within \<open>5 * 10\<^sup>-\<^sup>6\<close> of \<open>x\<close> relative to its size.
\<close>

subsection \<open>Six significant digits\<close>

definition ndigits :: "nat \<Rightarrow> nat" where
  "ndigits n = length (nat_to_string n)"

text \<open>The decimal exponent of a number other than 0: \<open>10\<^sup>e \<le> \<bar>x\<bar> < 10\<^sup>e\<^sup>+\<^sup>1\<close>.\<close>

definition dec_exp :: "double \<Rightarrow> int" where
  "dec_exp x =
     (if 1 \<le> \<bar>x\<bar> then int (ndigits (nat \<lfloor>\<bar>x\<bar>\<rfloor>)) - 1
      else - int (ndigits (nat (\<lceil>1 / \<bar>x\<bar>\<rceil> - 1))))"

text \<open>The six digits as a number and the exponent; rounding up to \<open>10\<^sup>6\<close> moves the exponent.\<close>

definition sig_digits :: "double \<Rightarrow> nat \<times> int" where
  "sig_digits x =
     (let e = dec_exp x; m = nat (round_even (\<bar>x\<bar> * 10 powi (5 - e))) in
      if m = 10 ^ 6 then (10 ^ 5, e + 1) else (m, e))"

definition strip_zeros :: "string \<Rightarrow> string" where
  "strip_zeros ds = rev (dropWhile (\<lambda>c. c = CHR ''0'') (rev ds))"

definition with_frac :: "string \<Rightarrow> string \<Rightarrow> string" where
  "with_frac ip fp = (if strip_zeros fp = [] then ip else ip @ ''.'' @ strip_zeros fp)"

definition exp_text :: "int \<Rightarrow> string" where
  "exp_text e = ''e'' @ (if e < 0 then ''-'' else ''+'') @ (if nat \<bar>e\<bar> < 10 then ''0'' else []) @ nat_to_string (nat \<bar>e\<bar>)"

definition show_double :: "double \<Rightarrow> string" where
  "show_double x =
     (if x = 0 then ''0''
      else
        let (m, e) = sig_digits x; ds = pad_digits 6 m in
        (if x < 0 then ''-'' else []) @
        (if 0 \<le> e \<and> e < 6 then with_frac (take (nat e + 1) ds) (drop (nat e + 1) ds)
         else if - 4 \<le> e \<and> e < 0 then with_frac ''0'' (replicate (nat (- e) - 1) CHR ''0'' @ ds)
         else with_frac (take 1 ds) (drop 1 ds) @ exp_text e))"

definition sig6 :: "double \<Rightarrow> double" where
  "sig6 x = (if x = 0 then 0 else let (m, e) = sig_digits x; a = of_nat m * 10 powi (e - 5) in if x < 0 then - a else a)"

subsection \<open>Reading\<close>

text \<open>
  \<^verbatim>\<open>std::stod\<close> on decimal texts: white space, an optional sign, digits with an optional point, an
  optional exponent; what follows is ignored.  The hexadecimal, infinite and not-a-number texts the
  function also accepts do not occur in the files.
\<close>

definition stod_exp :: "string \<Rightarrow> int" where
  "stod_exp t =
     (case t of
        c # u \<Rightarrow>
          if c = CHR ''e'' \<or> c = CHR ''E'' then
            let neg = (case u of d # _ \<Rightarrow> d = CHR ''-'' | [] \<Rightarrow> False);
                w = (case u of d # v \<Rightarrow> if d = CHR ''-'' \<or> d = CHR ''+'' then v else u | [] \<Rightarrow> []);
                ds = takeWhile is_digit w
            in if neg then - int (digits_val ds) else int (digits_val ds)
          else 0
      | [] \<Rightarrow> 0)"

definition stod :: "string \<Rightarrow> double result" where
  "stod s =
     (let s' = dropWhile is_space s;
          neg = (case s' of c # _ \<Rightarrow> c = CHR ''-'' | [] \<Rightarrow> False);
          u = (case s' of c # t \<Rightarrow> if c = CHR ''-'' \<or> c = CHR ''+'' then t else s' | [] \<Rightarrow> []);
          ip = takeWhile is_digit u;
          r = drop (length ip) u;
          fp = (case r of c # t \<Rightarrow> if c = CHR ''.'' then takeWhile is_digit t else [] | [] \<Rightarrow> []);
          r' = (case r of c # t \<Rightarrow> if c = CHR ''.'' then drop (length fp) t else r | [] \<Rightarrow> []);
          a = of_nat (digits_val (ip @ fp)) * 10 powi (stod_exp r' - int (length fp))
      in if ip = [] \<and> fp = [] then Inl (Throw ''stod'') else Inr (if neg then - a else a))"

subsection \<open>The exponent\<close>

lemma ndigits_pos: "0 < ndigits n"
  by (simp add: ndigits_def)

lemma ndigits_bounds: "0 < n \<Longrightarrow> 10 ^ (ndigits n - 1) \<le> n \<and> n < 10 ^ ndigits n"
proof (induction n rule: nat_to_string.induct)
  case (1 n)
  show ?case
  proof (cases "n < 10")
    case True
    then have "ndigits n = 1" by (simp add: ndigits_def nat_to_string.simps)
    with True 1(2) show ?thesis by simp
  next
    case False
    then have d: "0 < n div 10" by (simp add: div_greater_zero_iff)
    have d1: "ndigits n = Suc (ndigits (n div 10))" using False by (subst (1) ndigits_def, subst nat_to_string.simps) (simp add: ndigits_def)
    note ih = 1(1)[OF False d]
    obtain j where j: "ndigits (n div 10) = Suc j" using ndigits_pos[of "n div 10"] by (cases "ndigits (n div 10)") auto
    have "10 ^ j \<le> n div 10" "n div 10 < 10 ^ Suc j" using ih by (simp_all add: j)
    then have "10 * 10 ^ j \<le> n" "n < 10 * 10 ^ Suc j" by (simp_all add: less_eq_div_iff_mult_less_eq div_less_iff_less_mult mult.commute)
    then show ?thesis by (simp add: d1 j)
  qed
qed

lemma dec_exp_bounds:
  assumes "x \<noteq> 0"
  shows "10 powi dec_exp x \<le> \<bar>x\<bar>" and "\<bar>x\<bar> < 10 powi (dec_exp x + 1)"
proof -
  have "10 powi dec_exp x \<le> \<bar>x\<bar> \<and> \<bar>x\<bar> < 10 powi (dec_exp x + 1)"
  proof (cases "1 \<le> \<bar>x\<bar>")
    case True
    let ?n = "nat \<lfloor>\<bar>x\<bar>\<rfloor>"
    have n: "0 < ?n" "of_nat ?n \<le> \<bar>x\<bar>" "\<bar>x\<bar> < of_nat ?n + 1" using True floor_correct[of "\<bar>x\<bar>"] by auto
    obtain j where j: "ndigits ?n = Suc j" using ndigits_pos[of ?n] by (cases "ndigits ?n") auto
    have e: "dec_exp x = int j" using True j by (simp add: dec_exp_def)
    have "10 ^ j \<le> ?n" "?n + 1 \<le> 10 ^ Suc j" using ndigits_bounds[OF n(1)] by (simp_all add: j)
    then have "(of_nat (10 ^ j) :: rat) \<le> of_nat ?n" "(of_nat (?n + 1) :: rat) \<le> of_nat (10 ^ Suc j)" unfolding of_nat_le_iff .
    then have "10 ^ j \<le> \<bar>x\<bar>" "\<bar>x\<bar> < 10 ^ Suc j" using n(2,3) unfolding of_nat_power of_nat_add of_nat_numeral of_nat_1 by linarith+
    moreover have "(10 :: rat) powi (int j + 1) = 10 ^ Suc j" by (metis of_nat_Suc power_int_of_nat add.commute)
    ultimately show ?thesis by (simp add: e)
  next
    case False
    let ?y = "1 / \<bar>x\<bar>"
    let ?n = "nat (\<lceil>?y\<rceil> - 1)"
    have y: "1 < ?y" using False assms by simp
    then have c: "1 < \<lceil>?y\<rceil>" by (simp add: less_ceiling_iff)
    then have "0 \<le> \<lceil>?y\<rceil> - 1" by linarith
    then have n: "0 < ?n" "(of_nat ?n :: rat) = of_int \<lceil>?y\<rceil> - 1" using c by (simp_all add: of_nat_nat)
    have y2: "of_nat ?n < ?y" "?y \<le> of_nat ?n + 1" unfolding n(2) using ceiling_correct[of ?y] by simp_all
    obtain j where j: "ndigits ?n = Suc j" using ndigits_pos[of ?n] by (cases "ndigits ?n") auto
    have e: "dec_exp x = - int (Suc j)" using False j by (simp add: dec_exp_def)
    have "10 ^ j \<le> ?n" "?n + 1 \<le> 10 ^ Suc j" using ndigits_bounds[OF n(1)] by (simp_all add: j)
    then have "(of_nat (10 ^ j) :: rat) \<le> of_nat ?n" "(of_nat (?n + 1) :: rat) \<le> of_nat (10 ^ Suc j)" unfolding of_nat_le_iff .
    then have b: "10 ^ j < ?y" "?y \<le> 10 ^ Suc j" using y2 unfolding of_nat_power of_nat_add of_nat_numeral of_nat_1 by linarith+
    have "1 / 10 ^ Suc j \<le> \<bar>x\<bar>" "\<bar>x\<bar> < 1 / 10 ^ j" using b assms by (simp_all add: field_simps)
    moreover have "(10 :: rat) powi (- int (Suc j)) = 1 / 10 ^ Suc j" "(10 :: rat) powi (- int (Suc j) + 1) = 1 / 10 ^ j"
      by (simp_all add: power_int_minus inverse_eq_divide del: of_nat_Suc) (simp add: power_int_minus inverse_eq_divide)
    ultimately show ?thesis by (simp add: e)
  qed
  then show "10 powi dec_exp x \<le> \<bar>x\<bar>" "\<bar>x\<bar> < 10 powi (dec_exp x + 1)" by simp_all
qed

lemma powi_10_pos: "0 < (10 :: rat) powi i"
  by simp

lemma round_even_range: "\<lfloor>x\<rfloor> \<le> round_even x" "round_even x \<le> \<lfloor>x\<rfloor> + 1"
  by (auto simp: round_even_def Let_def)

lemma round_even_between: "of_int i \<le> x \<Longrightarrow> x \<le> of_int j \<Longrightarrow> i \<le> round_even x \<and> round_even x \<le> j"
proof -
  assume "of_int i \<le> x" and j: "x \<le> of_int j"
  then have "i \<le> \<lfloor>x\<rfloor>" by (simp add: le_floor_iff)
  moreover have "round_even x \<le> j"
  proof (cases "x = of_int j")
    case False
    with j have "\<lfloor>x\<rfloor> < j" by (simp add: floor_less_iff)
    then show ?thesis using round_even_range(2)[of x] by linarith
  qed simp
  ultimately show ?thesis using round_even_range(1)[of x] by linarith
qed

lemma sig_mantissa:
  assumes "x \<noteq> 0" and m: "m = nat (round_even (\<bar>x\<bar> * 10 powi (5 - dec_exp x)))"
  shows "10 ^ 5 \<le> m" and "m \<le> 10 ^ 6" and "\<bar>of_nat m * 10 powi (dec_exp x - 5) - \<bar>x\<bar>\<bar> \<le> \<bar>x\<bar> * (5 / 10 ^ 6)"
proof -
  define t :: rat where "t = 10 powi dec_exp x"
  define z where "z = \<bar>x\<bar> * 10 powi (5 - dec_exp x)"
  have t: "0 < t" "t \<le> \<bar>x\<bar>" "\<bar>x\<bar> < 10 * t" using dec_exp_bounds[OF assms(1)] by (simp_all add: t_def power_int_add)
  have z: "z = \<bar>x\<bar> * (10 ^ 5 / t)" "10 powi (dec_exp x - 5) = t / 10 ^ 5" by (simp_all add: z_def t_def power_int_diff)
  have "10 ^ 5 \<le> z" "z \<le> 10 ^ 6" using t by (simp_all add: z field_simps)
  then have r: "10 ^ 5 \<le> round_even z \<and> round_even z \<le> 10 ^ 6" by (intro round_even_between) simp_all
  then show "10 ^ 5 \<le> m" "m \<le> 10 ^ 6" unfolding m z_def[symmetric] by (simp_all add: nat_le_iff le_nat_iff)
  have "(of_nat m :: rat) = of_int (round_even z)" using r unfolding m z_def[symmetric] by simp
  then have "\<bar>of_nat m - z\<bar> \<le> 1 / 2" using round_even_bounds[of z] unfolding abs_le_iff by linarith
  then have le: "\<bar>of_nat m - z\<bar> * (t / 10 ^ 5) \<le> 1 / 2 * (t / 10 ^ 5)" using t(1) by (intro mult_right_mono) simp_all
  have zt: "z * (t / 10 ^ 5) = \<bar>x\<bar>" using t(1) by (simp add: z(1))
  have "\<bar>of_nat m * (t / 10 ^ 5) - \<bar>x\<bar>\<bar> = \<bar>(of_nat m - z) * (t / 10 ^ 5)\<bar>" unfolding left_diff_distrib zt ..
  also have "\<dots> = \<bar>of_nat m - z\<bar> * (t / 10 ^ 5)" using t(1) by (subst abs_mult) simp
  also note le
  also have "1 / 2 * (t / 10 ^ 5) \<le> \<bar>x\<bar> * (5 / 10 ^ 6)" using t(2) by simp
  finally show "\<bar>of_nat m * 10 powi (dec_exp x - 5) - \<bar>x\<bar>\<bar> \<le> \<bar>x\<bar> * (5 / 10 ^ 6)" unfolding z(2) .
qed

lemma sig_digits_bounds:
  assumes "x \<noteq> 0" and "sig_digits x = (m, e)"
  shows "10 ^ 5 \<le> m" and "m < 10 ^ 6" and "\<bar>of_nat m * 10 powi (e - 5) - \<bar>x\<bar>\<bar> \<le> \<bar>x\<bar> * (5 / 10 ^ 6)"
proof -
  define m0 where "m0 = nat (round_even (\<bar>x\<bar> * 10 powi (5 - dec_exp x)))"
  note b = sig_mantissa[OF assms(1) m0_def]
  have alt: "m0 = 10 ^ 6 \<and> m = 10 ^ 5 \<and> e = dec_exp x + 1 \<or> m0 \<noteq> 10 ^ 6 \<and> m = m0 \<and> e = dec_exp x"
    using assms(2) unfolding sig_digits_def Let_def m0_def[symmetric] by (simp split: if_splits)
  then show "10 ^ 5 \<le> m" "m < 10 ^ 6" using b(1,2) by auto
  have "of_nat m * (10 :: rat) powi (e - 5) = of_nat m0 * 10 powi (dec_exp x - 5)"
    using alt by (elim disjE conjE) (simp_all add: power_int_diff power_int_add)
  with b(3) show "\<bar>of_nat m * 10 powi (e - 5) - \<bar>x\<bar>\<bar> \<le> \<bar>x\<bar> * (5 / 10 ^ 6)" by simp
qed

subsection \<open>Reading back\<close>

lemma digits_val_zeros: "digits_val (ds @ replicate k CHR ''0'') = digits_val ds * 10 ^ k"
  by (induction k) (simp_all add: replicate_append_same[symmetric] digits_val_append digit_val_def flip: append_assoc)

lemma strip_zeros_split: "\<exists>k. ds = strip_zeros ds @ replicate k CHR ''0''"
proof -
  have "rev ds = takeWhile (\<lambda>c. c = CHR ''0'') (rev ds) @ dropWhile (\<lambda>c. c = CHR ''0'') (rev ds)" by simp
  moreover have "takeWhile (\<lambda>c. c = CHR ''0'') (rev ds) = replicate (length (takeWhile (\<lambda>c. c = CHR ''0'') (rev ds))) CHR ''0''"
    by (rule replicate_eqI[symmetric, THEN sym]) (auto dest: set_takeWhileD)
  ultimately have "ds = strip_zeros ds @ rev (replicate (length (takeWhile (\<lambda>c. c = CHR ''0'') (rev ds))) CHR ''0'')"
    unfolding strip_zeros_def by (metis rev_append rev_rev_ident)
  then show ?thesis unfolding rev_replicate by blast
qed

lemma strip_zeros_value:
  "of_nat (digits_val (p @ strip_zeros ds)) * (10 :: rat) powi (i - int (length (strip_zeros ds)))
     = of_nat (digits_val (p @ ds)) * 10 powi (i - int (length ds))"
proof -
  obtain k where k: "ds = strip_zeros ds @ replicate k CHR ''0''" using strip_zeros_split by blast
  have "digits_val (p @ ds) = digits_val (p @ strip_zeros ds) * 10 ^ k"
    by (subst k) (simp only: digits_val_zeros flip: append_assoc)
  moreover have "length ds = length (strip_zeros ds) + k" by (subst k) simp
  ultimately show ?thesis by (simp add: power_int_diff power_int_add)
qed

lemma strip_zeros_subset: "set (strip_zeros ds) \<subseteq> set ds"
  by (auto simp: strip_zeros_def dest: set_dropWhileD)

lemma digit_facts: "is_digit c \<Longrightarrow> c \<noteq> CHR ''-'' \<and> c \<noteq> CHR ''+'' \<and> c \<noteq> CHR ''.'' \<and> c \<noteq> CHR '','' \<and> \<not> is_space c"
  by (auto simp: is_digit_def is_space_def)

text \<open>A text that is cut in the way \<^verbatim>\<open>stod\<close> cuts it.\<close>

lemma stod_parts:
  assumes "ip \<noteq> []" and "list_all is_digit ip" and "list_all is_digit fp"
    and "case ex of c # _ \<Rightarrow> \<not> is_digit c \<and> c \<noteq> CHR ''.'' | [] \<Rightarrow> True"
  shows "stod ((if neg then ''-'' else []) @ ip @ (if fp = [] then [] else ''.'' @ fp) @ ex)
     = Inr (let a = of_nat (digits_val (ip @ fp)) * 10 powi (stod_exp ex - int (length fp)) in if neg then - a else a)"
proof -
  let ?u = "ip @ (if fp = [] then [] else ''.'' @ fp) @ ex"
  obtain c t where ct: "ip = c # t" "is_digit c" using assms(1,2) by (cases ip) auto
  have sp: "\<not> is_space CHR ''-''" "\<not> is_digit CHR ''.''" by (simp_all add: is_space_def is_digit_def)
  have "\<forall>c \<in> set ip. is_digit c" "\<forall>c \<in> set fp. is_digit c" using assms(2,3) by (simp_all add: list_all_iff)
  then have tw: "takeWhile is_digit ?u = ip" "takeWhile is_digit (fp @ ex) = fp"
    using assms(4) sp(2) by (auto simp: takeWhile_append2 split: list.splits)
  have dw: "dropWhile is_space ((if neg then ''-'' else []) @ ?u) = (if neg then ''-'' else []) @ ?u"
    using ct sp digit_facts[OF ct(2)] by auto
  have sg: "(case (if neg then ''-'' else []) @ ?u of c # _ \<Rightarrow> c = CHR ''-'' | [] \<Rightarrow> False) = neg"
    "(case (if neg then ''-'' else []) @ ?u of c # t \<Rightarrow> if c = CHR ''-'' \<or> c = CHR ''+'' then t else (if neg then ''-'' else []) @ ?u | [] \<Rightarrow> []) = ?u"
    using ct digit_facts[OF ct(2)] by auto
  show ?thesis
  proof (cases "fp = []")
    case True
    then show ?thesis unfolding stod_def Let_def dw sg tw using assms(1,4) by (cases ex) auto
  next
    case False
    then show ?thesis unfolding stod_def Let_def dw sg tw using assms(1) tw(2) by simp
  qed
qed

lemma stod_exp_text: "stod_exp (exp_text e) = e"
proof -
  have z: "digits_val (CHR ''0'' # nat_to_string n) = n" "is_digit CHR ''0''" for n
  proof -
    have "digits_val ([CHR ''0''] @ ds) = digits_val ds" for ds
      by (simp add: digits_val_def digit_val_def)
    then show "digits_val (CHR ''0'' # nat_to_string n) = n" by simp
  qed (simp add: is_digit_def)
  obtain c t where ct: "nat_to_string (nat \<bar>e\<bar>) = c # t" "c \<noteq> CHR ''-''" "c \<noteq> CHR ''+''" using nat_to_string_first by blast
  show ?thesis by (auto simp: stod_exp_def exp_text_def z)
qed

lemma stod_with_frac:
  assumes "ip \<noteq> []" and "list_all is_digit ip" and "list_all is_digit fp"
    and "case ex of c # _ \<Rightarrow> \<not> is_digit c \<and> c \<noteq> CHR ''.'' | [] \<Rightarrow> True"
  shows "stod ((if neg then ''-'' else []) @ with_frac ip fp @ ex)
     = Inr (let a = of_nat (digits_val (ip @ fp)) * 10 powi (stod_exp ex - int (length fp)) in if neg then - a else a)"
proof -
  have "list_all is_digit (strip_zeros fp)" using assms(3) strip_zeros_subset[of fp] by (auto simp: list_all_iff)
  note p = stod_parts[OF assms(1,2) this assms(4), of neg]
  have "with_frac ip fp @ ex = ip @ (if strip_zeros fp = [] then [] else ''.'' @ strip_zeros fp) @ ex" by (simp add: with_frac_def)
  then show ?thesis using p unfolding strip_zeros_value by simp
qed

lemma stod_show_double: "stod (show_double x) = Inr (sig6 x)"
proof (cases "x = 0")
  case True
  have "stod ''0'' = Inr 0"
    using stod_parts[of "''0''" "[]" "[]" False] by (simp add: is_digit_def digits_val_def digit_val_def)
  with True show ?thesis by (simp add: show_double_def sig6_def)
next
  case False
  obtain m e where me: "sig_digits x = (m, e)" by force
  let ?ds = "pad_digits 6 m" and ?n = "x < 0"
  note b = sig_digits_bounds[OF False me]
  have ds: "digits_val ?ds = m" "length ?ds = 6" "list_all is_digit ?ds" using digits_val_pad[OF b(2)] pad_digits_digits by simp_all
  have dt: "list_all is_digit (take k ?ds)" "list_all is_digit (drop k ?ds)" for k
    using ds(3) by (auto simp: list_all_iff dest: in_set_takeD in_set_dropD)
  have ne: "?ds \<noteq> []" by (metis length_pad_digits list.size(3) zero_neq_numeral)
  have zero: "digits_val (''0'' @ replicate k CHR ''0'' @ ?ds) = m" for k
  proof -
    have "digits_val (CHR ''0'' # ds) = digits_val ds" for ds by (simp add: digits_val_def digit_val_def)
    then have "digits_val (replicate k CHR ''0'' @ ds) = digits_val ds" for k ds by (induction k) auto
    from this[of "Suc k" ?ds] show ?thesis by (simp add: ds(1))
  qed
  consider (fixed) "0 \<le> e" "e < 6" | (small) "- 4 \<le> e" "e < 0" | (sci) "e < - 4 \<or> 6 \<le> e" by linarith
  then show ?thesis
  proof cases
    case fixed
    have "stod ((if ?n then ''-'' else []) @ with_frac (take (nat e + 1) ?ds) (drop (nat e + 1) ?ds) @ [])
        = Inr (let a = of_nat m * 10 powi (e - 5) in if ?n then - a else a)"
      using fixed ds by (subst stod_with_frac) (simp_all add: dt ne stod_exp_def algebra_simps)
    with fixed False show ?thesis by (simp add: show_double_def sig6_def me Let_def split: if_splits)
  next
    case small
    have r: "list_all is_digit (replicate k CHR ''0'' @ ?ds)" for k
      using ds(3) by (auto simp: list_all_iff) (simp add: is_digit_def)
    have "stod ((if ?n then ''-'' else []) @ with_frac ''0'' (replicate (nat (- e) - 1) CHR ''0'' @ ?ds) @ [])
        = Inr (let a = of_nat m * 10 powi (e - 5) in if ?n then - a else a)"
      using small ds r zero by (subst stod_with_frac) (simp_all add: is_digit_def stod_exp_def of_nat_diff)
    with small False show ?thesis by (simp add: show_double_def sig6_def me Let_def split: if_splits)
  next
    case sci
    have ex: "case exp_text e of c # _ \<Rightarrow> \<not> is_digit c \<and> c \<noteq> CHR ''.'' | [] \<Rightarrow> True" by (simp add: exp_text_def is_digit_def)
    have "stod ((if ?n then ''-'' else []) @ with_frac (take 1 ?ds) (drop 1 ?ds) @ exp_text e)
        = Inr (let a = of_nat m * 10 powi (e - 5) in if ?n then - a else a)"
      using ds by (subst stod_with_frac) (simp_all add: dt ne ex stod_exp_text)
    moreover have "\<not> (0 \<le> e \<and> e < 6)" "\<not> (- 4 \<le> e \<and> e < 0)" using sci by linarith+
    ultimately show ?thesis using False by (auto simp: show_double_def sig6_def me Let_def split: if_splits)
  qed
qed

lemma sig6_close: "\<bar>sig6 x - x\<bar> \<le> \<bar>x\<bar> * (5 / 10 ^ 6)"
proof (cases "x = 0")
  case False
  obtain m e where me: "sig_digits x = (m, e)" by force
  from sig_digits_bounds(3)[OF False me] show ?thesis using False
    by (cases "x < 0") (simp_all add: sig6_def me abs_minus_commute)
qed (simp add: sig6_def)

text \<open>No separator of a file occurs in a number.\<close>

definition plain :: "string \<Rightarrow> bool" where
  "plain s \<longleftrightarrow> s \<noteq> [] \<and> CHR '','' \<notin> set s \<and> CHR 0x0A \<notin> set s"

lemma digits_plain: "list_all is_digit ds \<Longrightarrow> CHR '','' \<notin> set ds \<and> CHR 0x0A \<notin> set ds"
  by (auto simp: list_all_iff is_digit_def)

lemma nat_to_string_plain: "plain (nat_to_string n)"
  using digits_plain[OF nat_to_string_digits] by (simp add: plain_def)

lemma int_to_string_plain: "plain (int_to_string i)"
  using nat_to_string_plain by (auto simp: int_to_string_def plain_def)

lemma with_frac_plain:
  assumes "ip \<noteq> []" and "list_all is_digit ip" and "list_all is_digit fp"
  shows "plain (with_frac ip fp)"
  using digits_plain[OF assms(2)] digits_plain[OF assms(3)] strip_zeros_subset[of fp] assms(1) by (auto simp: plain_def with_frac_def)

lemma show_double_plain: "plain (show_double x)"
proof (cases "x = 0")
  case False
  obtain m e where me: "sig_digits x = (m, e)" by force
  let ?ds = "pad_digits 6 m"
  have ds: "list_all is_digit ?ds" "?ds \<noteq> []" using pad_digits_digits by (simp, metis length_pad_digits list.size(3) zero_neq_numeral)
  then have w: "plain (with_frac (take (Suc k) ?ds) (drop (Suc k) ?ds))" for k
    by (intro with_frac_plain) (auto simp: list_all_iff dest: in_set_takeD in_set_dropD)
  have "plain (with_frac ''0'' (replicate k CHR ''0'' @ ?ds))" for k
    using ds by (intro with_frac_plain) (auto simp: list_all_iff is_digit_def)
  moreover have "plain (t @ exp_text e)" if "plain t" for t
    using that nat_to_string_plain[of "nat \<bar>e\<bar>"] by (auto simp: plain_def exp_text_def)
  moreover have "plain ((if b then ''-'' else []) @ t)" if "plain t" for b t using that by (auto simp: plain_def)
  ultimately show ?thesis using False w w[of 0] by (simp add: show_double_def me Let_def del: append.simps append_Nil)
qed (simp add: show_double_def plain_def)

end
