(* ===== verification/Trace.thy ===== *)
theory Trace
  imports Search Number_Text
begin

text \<open>
  The files of the searches: the result list as comma-separated text (\<^verbatim>\<open>print\<close>), the SMT-LIB text
  of the integer points of a list (\<^verbatim>\<open>smt_code\<close>), and the trace of an interrupted search, written by
  \<^verbatim>\<open>dump_trace\<close> and read back by \<^verbatim>\<open>read_dump_trace\<close> and the constructor of
  \<^verbatim>\<open>fragmentation_intersection\<close> that takes a file name.  Files are their contents: a function that
  writes a file returns the text, one that reads a file gets it as an argument.
\<close>

subsection \<open>Writing a box\<close>

definition comma :: "string \<Rightarrow> string" where
  "comma s = s @ '',''"

definition coord_text :: "double \<times> double \<Rightarrow> string" where
  "coord_text c = comma (show_double (fst c)) @ comma (show_double (snd c))"

definition box_print :: "bounding_box \<Rightarrow> string" where
  "box_print b =
     (if confidence b < 0 then []
      else concat (map coord_text (coords b)) @ int_to_string (confidence b) @ [CHR 0x0A])"

text \<open>The loop over the coordinates of \<^verbatim>\<open>dump_trace\<close> stops after \<^verbatim>\<open>n_to_p\<close> of them.\<close>

fun dump_coords :: "int \<Rightarrow> int \<Rightarrow> (double \<times> double) list \<Rightarrow> string" where
  "dump_coords n_to_p to_p [] = []"
| "dump_coords n_to_p to_p (c # cs) = coord_text c @ (if to_p + 1 = n_to_p then [] else dump_coords n_to_p (to_p + 1) cs)"

definition box_dump :: "int \<Rightarrow> bounding_box \<Rightarrow> string" where
  "box_dump n_to_p b =
     (let n_to_p = (if n_to_p = - 1 then int (length (coords b)) else n_to_p) in
      if confidence b < 0 then []
      else
        comma (int_to_string n_to_p) @ dump_coords n_to_p 0 (coords b) @
        comma (nat_to_string (length (curr_state_vec b))) @ concat (map (\<lambda>v. comma (int_to_string v)) (curr_state_vec b)))"

text \<open>\<^verbatim>\<open>print_dirs\<close>: what goes to the terminal and what is returned.\<close>

definition print_dirs :: "int \<Rightarrow> bounding_box \<Rightarrow> string \<times> string" where
  "print_dirs type b =
     (let to_p = concat (map (\<lambda>c. to_string_d (snd c - fst c) @ '' - '') (coords b)) @ [CHR 0x0A] in
      if type = 0 then (to_p, []) else ([], to_p))"

text \<open>\<^verbatim>\<open>to_string_smt_\<close> converts to \<^verbatim>\<open>int\<close>; a value that does not fit is undefined.\<close>

definition to_string_smt :: "double \<Rightarrow> string result" where
  "to_string_smt x =
     (let t = (if 0 \<le> x then \<lfloor>x\<rfloor> else \<lfloor>- x\<rfloor>) in
      if in_int_range t then
        Inr (if 0 \<le> x then int_to_string t else ''( - '' @ int_to_string t @ '' )'')
      else Inl Undefined)"

definition smt_side :: "bounding_box \<Rightarrow> nat \<Rightarrow> string \<Rightarrow> string result" where
  "smt_side b i ans =
     (if i < length (coords b) then
        bindR (to_string_smt (of_int \<lceil>fst (coords b ! i)\<rceil>)) (\<lambda>l.
        bindR (to_string_smt (of_int \<lfloor>snd (coords b ! i)\<rfloor>)) (\<lambda>u.
        Inr (ans @ ''( and (<= '' @ l @ '' x'' @ nat_to_string i @ '') (>= '' @ u @ '' x'' @ nat_to_string i @ '') ) '')))
      else Inl Undefined)"

definition box_smt_code :: "int \<Rightarrow> bounding_box \<Rightarrow> string result" where
  "box_smt_code idx b = bindR (foldR (smt_side b) [0..<nat idx] ''( and '') (\<lambda>ans. Inr (ans @ '' )''))"

subsection \<open>Writing a list\<close>

definition print_step :: "addr \<Rightarrow> bounding_box ll \<times> string \<Rightarrow> (bounding_box ll \<times> string) run" where
  "print_step a = (\<lambda>(l, out). Some (bindR (box_at l a) (\<lambda>b. Inr (l, out @ box_print b))))"

definition ll_print :: "bounding_box ll \<Rightarrow> string run" where
  "ll_print l = bindO (ll_walk (brk l) print_step (HEAD l) (l, [])) (\<lambda>s. Some (Inr (snd s)))"

definition smt_step :: "int \<Rightarrow> addr \<Rightarrow> bounding_box ll \<times> string \<Rightarrow> (bounding_box ll \<times> string) run" where
  "smt_step idx a = (\<lambda>(l, ans). Some (bindR (box_at l a) (\<lambda>b. bindR (box_smt_code idx b) (\<lambda>t. Inr (l, ans @ t)))))"

definition ll_smt_code :: "int \<Rightarrow> bounding_box ll \<Rightarrow> string run" where
  "ll_smt_code idx l = bindO (ll_walk (brk l) (smt_step idx) (HEAD l) (l, ''( or '')) (\<lambda>s. Some (Inr (snd s @ '' )'')))"

definition dump_step :: "addr option \<Rightarrow> int \<Rightarrow> addr \<Rightarrow> bounding_box ll \<times> string \<Rightarrow> (bounding_box ll \<times> string) run" where
  "dump_step c n_to_p a = (\<lambda>(l, out).
     Some (bindR (box_at l a) (\<lambda>b. Inr (l, out @ box_dump n_to_p b @ (if Some a = c then ''1'' else ''0'') @ [CHR 0x0A]))))"

definition ll_dump_trace :: "addr option \<Rightarrow> int \<Rightarrow> bounding_box ll \<Rightarrow> string run" where
  "ll_dump_trace c n_to_p l = bindO (ll_walk (brk l) (dump_step c n_to_p) (HEAD l) (l, [])) (\<lambda>s. Some (Inr (snd s)))"

subsection \<open>Reading a box\<close>

text \<open>
  The local variables of the parsing constructor.  The members \<^verbatim>\<open>curr_state\<close> and \<^verbatim>\<open>confidence\<close> are
  not initialised by it; \<open>junk\<close> is what the memory held.
\<close>

record parse_state =
  p_coords :: "(double \<times> double) list"
  p_vec :: "int list"
  p_curr :: string
  read_coords :: bool
  num_coords :: int
  curr_coord_id :: int
  l_r :: int
  n_state_vecs :: int

definition put_coord :: "double \<Rightarrow> parse_state \<Rightarrow> parse_state result" where
  "put_coord num st =
     (let i = curr_coord_id st in
      if 0 \<le> i \<and> nat i < length (p_coords st) then
        let c = p_coords st ! nat i;
            st1 = (if l_r st = 0 then st\<lparr>p_coords := (p_coords st)[nat i := (num, snd c)]\<rparr>
                   else st\<lparr>p_coords := (p_coords st)[nat i := (fst c, num)], curr_coord_id := i + 1\<rparr>);
            st2 = st1\<lparr>l_r := 1 - l_r st1\<rparr>
        in Inr (if curr_coord_id st2 = num_coords st2 then st2\<lparr>read_coords := False, curr_coord_id := 0\<rparr> else st2)
      else Inl Undefined)"

definition put_verdict :: "bool \<Rightarrow> int \<Rightarrow> parse_state \<Rightarrow> (parse_state \<times> bool) result" where
  "put_verdict new_s num st =
     bindR (if n_state_vecs st = - 1 then Inr (st\<lparr>n_state_vecs := if new_s then 0 else num\<rparr>)
            else
              let i = curr_coord_id st in
              if 0 \<le> i \<and> nat i < length (p_vec st) then Inr (st\<lparr>p_vec := (p_vec st)[nat i := num], curr_coord_id := i + 1\<rparr>)
              else Inl Undefined)
       (\<lambda>st'. Inr (st', curr_coord_id st' = n_state_vecs st'))"

definition parse_field :: "bool \<Rightarrow> parse_state \<Rightarrow> (parse_state \<times> bool) result" where
  "parse_field new_s st =
     (if num_coords st = - 1 then bindR (stoi (p_curr st)) (\<lambda>i. Inr (st\<lparr>num_coords := i, read_coords := True\<rparr>, False))
      else if read_coords st then
        bindR (stod (p_curr st)) (\<lambda>num. bindR (put_coord num st) (\<lambda>st'. Inr (st', False)))
      else bindR (stoi (p_curr st)) (\<lambda>num. put_verdict new_s num st))"

fun parse_chars :: "bool \<Rightarrow> string \<Rightarrow> parse_state \<Rightarrow> parse_state result" where
  "parse_chars new_s [] st = Inr st"
| "parse_chars new_s (c # cs) st =
     (if c = CHR '','' then
        bindR (parse_field new_s st) (\<lambda>(st', stop). if stop then Inr st' else parse_chars new_s cs (st'\<lparr>p_curr := []\<rparr>))
      else parse_chars new_s cs (st\<lparr>p_curr := p_curr st @ [c]\<rparr>))"

definition parse_box :: "int \<times> int \<Rightarrow> (double \<times> double) list \<Rightarrow> string \<Rightarrow> nat \<Rightarrow> bool \<Rightarrow> bounding_box result" where
  "parse_box junk bounds line n new_s =
     bindR (parse_chars new_s line \<lparr>p_coords = bounds, p_vec = replicate n 0, p_curr = [], read_coords = False, num_coords = - 1,
              curr_coord_id = 0, l_r = 0, n_state_vecs = - 1\<rparr>)
       (\<lambda>st. Inr \<lparr>coords = p_coords st, curr_state = fst junk, curr_state_vec = p_vec st, confidence = snd junk\<rparr>)"

subsection \<open>Reading a list\<close>

text \<open>\<^verbatim>\<open>std::getline\<close> on the rest of a file.\<close>

fun getlines :: "string \<Rightarrow> string \<Rightarrow> string list" where
  "getlines acc [] = (if acc = [] then [] else [acc])"
| "getlines acc (c # cs) = (if c = CHR 0x0A then acc # getlines [] cs else getlines (acc @ [c]) cs)"

definition read_line :: "(nat \<Rightarrow> int \<times> int) \<Rightarrow> (double \<times> double) list \<Rightarrow> nat \<Rightarrow> bool \<Rightarrow> string
    \<Rightarrow> bounding_box ll \<times> addr option \<Rightarrow> (bounding_box ll \<times> addr option) result" where
  "read_line junk bounds n new_s line = (\<lambda>(l, ans).
     if length line < 5 then Inr (l, ans)
     else
       bindR (parse_box (junk (brk l)) bounds line n new_s) (\<lambda>b.
       bindR (add_node b l) (\<lambda>l'.
       bindR (stoi [last line]) (\<lambda>flag. Inr (l', if flag = 1 then TAIL l' else ans)))))"

definition read_dump_trace :: "(nat \<Rightarrow> int \<times> int) \<Rightarrow> string \<Rightarrow> (double \<times> double) list \<Rightarrow> nat \<Rightarrow> bool \<Rightarrow> bounding_box ll
    \<Rightarrow> (bounding_box ll \<times> addr option) result" where
  "read_dump_trace junk file bounds n new_s l =
     bindR (foldR (read_line junk bounds n new_s) (getlines [] file) (l, None)) (\<lambda>(l', ans).
     Inr (l', if new_s then HEAD l' else ans))"

text \<open>
  The constructor that continues a search.  Its assertion compares two vectors that are still
  empty.
\<close>

definition frag_from_file :: "(nat \<Rightarrow> int \<times> int) \<Rightarrow> (double \<times> double) list \<Rightarrow> 's list \<Rightarrow> 's list \<Rightarrow> string \<Rightarrow> bool
    \<Rightarrow> 's fragmentation_intersection result" where
  "frag_from_file junk acoords as_pos as_neg file new_p =
     bindR (read_dump_trace junk file acoords (length as_pos) new_p ll_empty) (\<lambda>(l, c).
     Inr \<lparr>s_pos = as_pos, s_neg = as_neg, n_dirs = length acoords, curr_box = (if c = None then HEAD l else c), frags = l\<rparr>)"

end
