(* ===== verification/Trace_Sound.thy ===== *)
theory Trace_Sound
  imports Trace Box_Lists_Sound
begin

text \<open>
  What a trace preserves.  Reading back the file of an interrupted search gives the same chain of
  boxes with the same verdicts and the same current box; the coordinates come back with six
  significant digits, and the confidence marks do not come back at all.
\<close>

definition sigc :: "double \<times> double \<Rightarrow> double \<times> double" where
  "sigc c = (sig6 (fst c), sig6 (snd c))"

subsection \<open>Parsing by fields\<close>

lemma parse_word: "CHR '','' \<notin> set f \<Longrightarrow> parse_chars new_s (f @ cs) st = parse_chars new_s cs (st\<lparr>p_curr := p_curr st @ f\<rparr>)"
  by (induction f arbitrary: st) (auto simp: append_assoc)

lemma parse_comma:
  assumes "plain f" and "p_curr st = []"
  shows "parse_chars new_s (comma f @ cs) st =
     bindR (parse_field new_s (st\<lparr>p_curr := f\<rparr>)) (\<lambda>(st', stop). if stop then Inr st' else parse_chars new_s cs (st'\<lparr>p_curr := []\<rparr>))"
  using parse_word[of f new_s "'','' @ cs" st] assms by (simp add: comma_def plain_def)

lemma parse_coord:
  assumes st: "p_curr st = []" "read_coords st" "num_coords st = int n" "curr_coord_id st = int i" "l_r st = 0"
    and i: "i < n" "i < length (p_coords st)"
  shows "parse_chars new_s (coord_text c @ cs) st = parse_chars new_s cs
     (let st' = st\<lparr>p_coords := (p_coords st)[i := sigc c], curr_coord_id := int i + 1\<rparr> in
      if Suc i = n then st'\<lparr>read_coords := False, curr_coord_id := 0\<rparr> else st')"
proof -
  let ?s1 = "st\<lparr>p_coords := (p_coords st)[i := (sig6 (fst c), snd (p_coords st ! i))], l_r := 1, p_curr := []\<rparr>"
  have "parse_chars new_s (comma (show_double (fst c)) @ cs') st = parse_chars new_s cs' ?s1" for cs'
    using st i by (subst parse_comma[OF show_double_plain]) (simp_all add: parse_field_def stod_show_double put_coord_def Let_def)
  moreover have "parse_chars new_s (comma (show_double (snd c)) @ cs) ?s1 = parse_chars new_s cs
     (let st' = st\<lparr>p_coords := (p_coords st)[i := sigc c], curr_coord_id := int i + 1\<rparr> in
      if Suc i = n then st'\<lparr>read_coords := False, curr_coord_id := 0\<rparr> else st')"
    using st i by (cases st) (subst parse_comma[OF show_double_plain], auto simp: parse_field_def stod_show_double put_coord_def Let_def sigc_def)
  ultimately show ?thesis by (simp add: coord_text_def)
qed

lemma parse_coords:
  assumes "p_curr st = []" "read_coords st" "num_coords st = int (i + length ds)" "curr_coord_id st = int i" "l_r st = 0"
    and "i + length ds = length (p_coords st)" and "ds \<noteq> []"
  shows "parse_chars new_s (concat (map coord_text ds) @ cs) st = parse_chars new_s cs
     (st\<lparr>p_coords := take i (p_coords st) @ map sigc ds, read_coords := False, curr_coord_id := 0\<rparr>)"
  using assms
proof (induction ds arbitrary: i st)
  case (Cons d ds)
  let ?st' = "st\<lparr>p_coords := (p_coords st)[i := sigc d], curr_coord_id := int i + 1\<rparr>"
  have i: "i < i + length (d # ds)" "i < length (p_coords st)" using Cons.prems(6) by simp_all
  note one = parse_coord[OF Cons.prems(1-5) i, of new_s d]
  have tk: "take (Suc i) ((p_coords st)[i := sigc d]) = take i (p_coords st) @ [sigc d]"
    using i(2) by (simp add: take_Suc_conv_app_nth)
  show ?case
  proof (cases ds)
    case Nil
    then have "(p_coords st)[i := sigc d] = take i (p_coords st) @ [sigc d]" using tk Cons.prems(6) by simp
    with Nil show ?thesis using one by (simp add: Let_def)
  next
    case (Cons e es)
    have "parse_chars new_s (concat (map coord_text ds) @ cs) ?st' = parse_chars new_s cs
        (?st'\<lparr>p_coords := take (Suc i) (p_coords ?st') @ map sigc ds, read_coords := False, curr_coord_id := 0\<rparr>)"
      using Cons.prems local.Cons by (intro Cons.IH) auto
    then show ?thesis using one local.Cons tk by (simp add: Let_def)
  qed
qed simp

lemma parse_verdicts:
  assumes "p_curr st = []" "\<not> read_coords st" "num_coords st \<noteq> - 1" "n_state_vecs st = int (i + length vs)" "curr_coord_id st = int i"
    and "i + length vs = length (p_vec st)" and "vs \<noteq> []" and "\<forall>v \<in> set vs. in_int_range v"
  shows "\<exists>st'. parse_chars False (concat (map (\<lambda>v. comma (int_to_string v)) vs) @ cs) st = Inr st'
     \<and> p_coords st' = p_coords st \<and> p_vec st' = take i (p_vec st) @ vs"
  using assms
proof (induction vs arbitrary: i st)
  case (Cons v vs)
  have i: "i < length (p_vec st)" using Cons.prems(6) by simp
  have tk: "take (Suc i) ((p_vec st)[i := v]) = take i (p_vec st) @ [v]" using i by (simp add: take_Suc_conv_app_nth)
  have v: "stoi (int_to_string v) = Inr v" using stoi_int_to_string Cons.prems(8) by simp
  let ?st' = "st\<lparr>p_vec := (p_vec st)[i := v], curr_coord_id := int i + 1, p_curr := []\<rparr>"
  have one: "parse_chars False (comma (int_to_string v) @ cs') st
      = (if vs = [] then Inr (?st'\<lparr>p_curr := int_to_string v\<rparr>) else parse_chars False cs' ?st')" for cs'
    using Cons.prems(1-5) i by (subst parse_comma[OF int_to_string_plain]) (auto simp: parse_field_def v put_verdict_def Let_def)
  show ?case
  proof (cases "vs = []")
    case True
    then have "(p_vec st)[i := v] = take i (p_vec st) @ [v]" using tk Cons.prems(6) by simp
    with True show ?thesis using one by simp
  next
    case False
    from Cons.IH[of ?st' "Suc i"] Cons.prems False have "\<exists>st'. parse_chars False (concat (map (\<lambda>v. comma (int_to_string v)) vs) @ cs) ?st' = Inr st'
       \<and> p_coords st' = p_coords st \<and> p_vec st' = take (Suc i) ((p_vec st)[i := v]) @ vs" by auto
    then show ?thesis using one False tk by auto
  qed
qed simp

lemma dump_coords_all: "dump_coords (to_p + int (length cs)) to_p cs = concat (map coord_text cs)"
proof (induction cs arbitrary: to_p)
  case (Cons c cs)
  from Cons[of "to_p + 1"] show ?case by (cases cs) (auto simp: algebra_simps)
qed simp

text \<open>A box as it comes back.\<close>

definition reread :: "int \<times> int \<Rightarrow> bounding_box \<Rightarrow> bounding_box" where
  "reread junk b = \<lparr>coords = map sigc (coords b), curr_state = fst junk, curr_state_vec = curr_state_vec b, confidence = snd junk\<rparr>"

definition dumpable :: "nat \<Rightarrow> nat \<Rightarrow> bounding_box \<Rightarrow> bool" where
  "dumpable n k b \<longleftrightarrow> length (coords b) = n \<and> length (curr_state_vec b) = k \<and> 0 \<le> confidence b \<and> (\<forall>v \<in> set (curr_state_vec b). in_int_range v)"

lemma box_dump_alt:
  "0 \<le> confidence b \<Longrightarrow> box_dump (- 1) b = comma (int_to_string (int (length (coords b)))) @ concat (map coord_text (coords b))
     @ comma (nat_to_string (length (curr_state_vec b))) @ concat (map (\<lambda>v. comma (int_to_string v)) (curr_state_vec b))"
  using dump_coords_all[of 0 "coords b"] by (simp add: box_dump_def Let_def)

lemma parse_box_dump:
  assumes "dumpable n k b" and "length bounds = n" and n: "0 < n" "n < 2 ^ 31" "k < 2 ^ 31"
  shows "parse_box junk bounds (box_dump (- 1) b @ flag) k False = Inr (reread junk b)"
proof -
  let ?s0 = "\<lparr>p_coords = bounds, p_vec = replicate k 0, p_curr = [], read_coords = False, num_coords = - 1, curr_coord_id = 0, l_r = 0, n_state_vecs = - 1\<rparr>"
  let ?cs = "coords b" and ?vs = "curr_state_vec b"
  have d: "length ?cs = n" "length ?vs = k" "0 \<le> confidence b" "\<forall>v \<in> set ?vs. in_int_range v" using assms(1) by (auto simp: dumpable_def)
  have num: "stoi (int_to_string (int m)) = Inr (int m)" if "m < 2 ^ 31" for m
    using that stoi_int_to_string[of "int m"] by (simp add: in_int_range_def)
  then have num': "stoi (nat_to_string m) = Inr (int m)" if "m < 2 ^ 31" for m using that[THEN num] by (simp add: int_to_string_def)
  let ?s1 = "?s0\<lparr>num_coords := int n, read_coords := True\<rparr>"
  have p1: "parse_chars False (comma (int_to_string (int n)) @ rest) ?s0 = parse_chars False rest ?s1" for rest
    using num[OF n(2)] by (subst parse_comma[OF int_to_string_plain]) (simp_all add: parse_field_def)
  let ?s2 = "?s1\<lparr>p_coords := map sigc ?cs, read_coords := False\<rparr>"
  have p2: "parse_chars False (concat (map coord_text ?cs) @ rest) ?s1 = parse_chars False rest ?s2" for rest
    using d(1) assms(2) n(1) by (subst parse_coords[where i = 0]) auto
  let ?s3 = "?s2\<lparr>n_state_vecs := int k\<rparr>"
  have p3: "parse_chars False (comma (nat_to_string k) @ rest) ?s2 = (if k = 0 then Inr (?s3\<lparr>p_curr := nat_to_string k\<rparr>) else parse_chars False rest ?s3)" for rest
    using num'[OF n(3)] n(1) by (subst parse_comma[OF nat_to_string_plain]) (auto simp: parse_field_def put_verdict_def)
  have p4: "\<exists>st. parse_chars False (concat (map (\<lambda>v. comma (int_to_string v)) ?vs) @ flag) ?s3 = Inr st \<and> p_coords st = map sigc ?cs \<and> p_vec st = ?vs" if "k \<noteq> 0"
    using parse_verdicts[of ?s3 0 ?vs flag] d that n(1) by auto
  have "\<exists>st. parse_chars False (box_dump (- 1) b @ flag) ?s0 = Inr st \<and> p_coords st = map sigc ?cs \<and> p_vec st = ?vs"
  proof (cases "k = 0")
    case True
    then show ?thesis using p1 p2 p3 d by (simp add: box_dump_alt)
  next
    case False
    then show ?thesis using p1 p2 p3 p4 d by (simp add: box_dump_alt)
  qed
  then show ?thesis by (auto simp: parse_box_def reread_def)
qed

subsection \<open>Traces of lists\<close>

lemma getlines_line: "CHR 0x0A \<notin> set w \<Longrightarrow> getlines acc (w @ CHR 0x0A # rest) = (acc @ w) # getlines [] rest"
  by (induction w arbitrary: acc) auto

lemma getlines_lines: "\<forall>w \<in> set ws. CHR 0x0A \<notin> set w \<Longrightarrow> getlines [] (concat (map (\<lambda>w. w @ [CHR 0x0A]) ws)) = ws"
  by (induction ws) (auto simp: getlines_line)

definition trace_line :: "addr option \<Rightarrow> bounding_box ll \<Rightarrow> addr \<Rightarrow> string" where
  "trace_line c l a = box_dump (- 1) (the (cells l a)) @ (if Some a = c then ''1'' else ''0'')"

lemma ll_dump_lines:
  assumes "linked l as"
  shows "ll_dump_trace c (- 1) l = Some (Inr (concat (map (\<lambda>w. w @ [CHR 0x0A]) (map (trace_line c l) as))))"
proof -
  have "foldO (dump_step c (- 1)) bs (l, out) = Some (Inr (l, out @ concat (map (\<lambda>w. w @ [CHR 0x0A]) (map (trace_line c l) bs))))"
    if "set bs \<subseteq> set as" for bs out
    using that
  proof (induction bs arbitrary: out)
    case (Cons a bs)
    then obtain b where "cells l a = Some b" "box_at l a = Inr b" using boxes_at[OF assms, of a] by auto
    with Cons show ?case by (simp add: dump_step_def trace_line_def)
  qed simp
  moreover have "ll_walk (brk l) (dump_step c (- 1)) (first as None) (l, []) = foldO (dump_step c (- 1)) as (l, [])"
    by (rule ll_walk_fold[of l "[]"]) (use assms linked_length[OF assms] in \<open>auto simp: dump_step_def bindR_Inr\<close>)
  ultimately show ?thesis using assms by (simp add: ll_dump_trace_def linked_def)
qed

lemma box_dump_no_newline: "CHR 0x0A \<notin> set (box_dump (- 1) b)"
proof -
  have c: "CHR 0x0A \<notin> set (comma s)" if "plain s" for s using that by (auto simp: comma_def plain_def)
  have "CHR 0x0A \<notin> set (coord_text d)" for d by (simp add: coord_text_def c[OF show_double_plain])
  then have "0 \<le> confidence b \<Longrightarrow> ?thesis" using c[OF int_to_string_plain] c[OF nat_to_string_plain] by (auto simp: box_dump_alt)
  then show ?thesis by (cases "confidence b < 0") (auto simp: box_dump_def Let_def)
qed

lemma trace_line_long:
  assumes "dumpable n k (the (cells l a))" and "0 < n"
  shows "\<not> length (trace_line c l a) < 5" and "CHR 0x0A \<notin> set (trace_line c l a)"
proof -
  have l: "2 \<le> length (comma s)" if "plain s" for s using that by (cases s) (auto simp: comma_def plain_def)
  obtain d ds where "coords (the (cells l a)) = d # ds" using assms by (cases "coords (the (cells l a))") (auto simp: dumpable_def)
  then have "\<exists>w. trace_line c l a = comma (int_to_string (int n)) @ comma (show_double (fst d)) @ comma (show_double (snd d)) @ w"
    using assms(1) by (auto simp: trace_line_def box_dump_alt dumpable_def coord_text_def)
  moreover note l[OF int_to_string_plain[of "int n"]] l[OF show_double_plain[of "fst d"]] l[OF show_double_plain[of "snd d"]]
  ultimately show "\<not> length (trace_line c l a) < 5" by auto
  show "CHR 0x0A \<notin> set (trace_line c l a)" using box_dump_no_newline by (simp add: trace_line_def)
qed

text \<open>The address that gets the flag 1.\<close>

fun mark_at :: "addr option \<Rightarrow> addr list \<Rightarrow> nat \<Rightarrow> addr option \<Rightarrow> addr option" where
  "mark_at c [] j ans = ans"
| "mark_at c (a # as) j ans = mark_at c as (Suc j) (if Some a = c then Some j else ans)"

lemma mark_at_None: "mark_at None as j ans = ans"
  by (induction as arbitrary: j ans) auto

lemma mark_at_other: "a \<notin> set as \<Longrightarrow> mark_at (Some a) as j ans = ans"
  by (induction as arbitrary: j ans) auto

lemma mark_at_nth: "distinct as \<Longrightarrow> i < length as \<Longrightarrow> mark_at (Some (as ! i)) as j ans = Some (j + i)"
proof (induction as arbitrary: i j ans)
  case (Cons a as)
  then show ?case by (cases i) (auto simp: mark_at_other)
qed simp

lemma add_node_fresh:
  assumes "linked m [0..<j]" and "brk m = j"
  shows "\<exists>m'. add_node b m = Inr m' \<and> linked m' [0..<Suc j] \<and> brk m' = Suc j \<and> boxes m' [0..<Suc j] = boxes m [0..<j] @ [b] \<and> TAIL m' = Some j"
proof -
  from add_node_linked[OF assms(1), of b] assms(2) obtain m' where m': "add_node b m = Inr m'" "linked m' ([0..<j] @ [j])"
    "cells m' = (cells m)(j \<mapsto> b)" "brk m' = Suc j" by auto
  have "boxes m' [0..<j] = boxes m [0..<j]" by (rule boxes_cong) (simp add: m'(3))
  moreover have "TAIL m' = Some j" using m'(2) by (simp add: linked_def)
  ultimately show ?thesis using m' by (intro exI[of _ m']) simp
qed

lemma read_lines:
  assumes n: "length bounds = n" "0 < n" "n < 2 ^ 31" "k < 2 ^ 31"
    and "linked m [0..<j]" and "brk m = j" and "\<forall>a \<in> set bs. dumpable n k (the (cells l a))"
  shows "\<exists>m'. foldR (read_line junk bounds k False) (map (trace_line c l) bs) (m, ans) = Inr (m', mark_at c bs j ans)
     \<and> linked m' [0..<j + length bs]
     \<and> boxes m' [0..<j + length bs] = boxes m [0..<j] @ map (\<lambda>(i, b). reread (junk i) b) (enumerate j (boxes l bs))"
  using assms(5-7)
proof (induction bs arbitrary: m j ans)
  case (Cons a bs)
  let ?b = "the (cells l a)"
  have d: "dumpable n k ?b" using Cons.prems(3) by simp
  from add_node_fresh[OF Cons.prems(1,2), of "reread (junk j) ?b"] obtain m1 where m1: "add_node (reread (junk j) ?b) m = Inr m1"
    "linked m1 [0..<Suc j]" "brk m1 = Suc j" "boxes m1 [0..<Suc j] = boxes m [0..<j] @ [reread (junk j) ?b]" "TAIL m1 = Some j" by blast
  have flag: "stoi ''1'' = Inr 1" "stoi ''0'' = Inr 0" by code_simp+
  have "read_line junk bounds k False (trace_line c l a) (m, ans) = Inr (m1, if Some a = c then Some j else ans)"
    using trace_line_long(1)[OF d n(2), of c] parse_box_dump[OF d n(1-4)] m1(1,5) Cons.prems(2) flag
    by (simp add: read_line_def trace_line_def)
  with Cons.IH[OF m1(2,3), of "if Some a = c then Some j else ans"] Cons.prems(3) m1(4) show ?case by simp
qed auto

lemma trace_back:
  assumes l: "linked l as" and boxes: "\<forall>b \<in> set (boxes l as). dumpable n k b"
    and n: "length acoords = n" "0 < n" "n < 2 ^ 31" "length as_pos = k" "k < 2 ^ 31"
  shows "\<exists>file st. ll_dump_trace c (- 1) l = Some (Inr file) \<and> frag_from_file junk acoords as_pos as_neg file False = Inr st
     \<and> linked (frags st) [0..<length as]
     \<and> boxes (frags st) [0..<length as] = map (\<lambda>(i, b). reread (junk i) b) (enumerate 0 (boxes l as))
     \<and> (\<forall>i < length as. c = Some (as ! i) \<longrightarrow> curr_box st = Some i)
     \<and> (c = None \<longrightarrow> curr_box st = first [0..<length as] None)"
proof -
  let ?file = "concat (map (\<lambda>w. w @ [CHR 0x0A]) (map (trace_line c l) as))"
  have d: "dumpable n k (the (cells l a))" if "a \<in> set as" for a using boxes that by (simp add: boxes_def)
  have lines: "getlines [] ?file = map (trace_line c l) as" by (rule getlines_lines) (use trace_line_long(2)[OF d n(2)] in auto)
  have "linked ll_empty [0..<0]" "brk ll_empty = 0" using linked_ll_empty(1) by (simp_all add: ll_empty_def)
  from read_lines[OF n(1-3,5) this, of as l junk c None] d obtain m where
    m: "foldR (read_line junk acoords k False) (map (trace_line c l) as) (ll_empty, None) = Inr (m, mark_at c as 0 None)"
      "linked m [0..<length as]" "boxes m [0..<length as] = map (\<lambda>(i, b). reread (junk i) b) (enumerate 0 (boxes l as))" by auto
  let ?c = "mark_at c as 0 None"
  let ?st = "\<lparr>s_pos = as_pos, s_neg = as_neg, n_dirs = length acoords, curr_box = (if ?c = None then HEAD m else ?c), frags = m\<rparr>"
  have "frag_from_file junk acoords as_pos as_neg ?file False = Inr ?st"
    unfolding frag_from_file_def read_dump_trace_def lines n(4) m(1) by simp
  moreover have "curr_box ?st = Some i" if "i < length as" "c = Some (as ! i)" for i
    using mark_at_nth[OF linked_distinct[OF l] that(1), of 0 None] that(2) by simp
  moreover have "curr_box ?st = first [0..<length as] None" if "c = None" using m(2) that by (simp add: mark_at_None linked_def)
  moreover have "linked (frags ?st) [0..<length as]" "boxes (frags ?st) [0..<length as] = map (\<lambda>(i, b). reread (junk i) b) (enumerate 0 (boxes l as))"
    using m(2,3) by simp_all
  ultimately show ?thesis using ll_dump_lines[OF l, of c] by blast
qed

text \<open>
  C28: Interrupting and continuing a search.  When the boxes of a list have \<open>n\<close> sides and \<open>k\<close>
  verdicts and none is marked -1, the file \<^verbatim>\<open>dump_trace\<close> writes is accepted by the constructor that
  continues the search, which gets a list of the same length in the same order with the same
  verdicts, each coordinate rounded to six significant digits, and its current box at the same
  place (at the head when there was none); confidence marks are not restored: they are whatever the
  memory held.
\<close>

theorem trace_roundtrip:
  assumes l: "linked l as" and boxes: "\<forall>b \<in> set (boxes l as). dumpable n k b"
    and n: "length acoords = n" "0 < n" "n < 2 ^ 31" "length as_pos = k" "k < 2 ^ 31"
  shows "\<exists>file st. ll_dump_trace c (- 1) l = Some (Inr file) \<and> frag_from_file junk acoords as_pos as_neg file False = Inr st
     \<and> linked (frags st) [0..<length as]
     \<and> boxes (frags st) [0..<length as] = map (\<lambda>(i, b). reread (junk i) b) (enumerate 0 (boxes l as))
     \<and> (\<forall>i < length as. c = Some (as ! i) \<longrightarrow> curr_box st = Some i)
     \<and> (c = None \<longrightarrow> curr_box st = first [0..<length as] None)"
  using assms by (rule trace_back)

theorem trace_roundtrip_witness:
  "\<exists>file st. ll_dump_trace (Some 0) (- 1) (ll_new \<lparr>coords = [(1 / 3, 2)], curr_state = 1, curr_state_vec = [1], confidence = 0\<rparr>) = Some (Inr file)
     \<and> frag_from_file (\<lambda>i. (0, 7)) [(0, 4)] [()] [()] file False = Inr st
     \<and> boxes (frags st) [0] = [\<lparr>coords = [(sig6 (1 / 3), sig6 2)], curr_state = 0, curr_state_vec = [1], confidence = 7\<rparr>] \<and> curr_box st = Some 0"
proof -
  let ?b = "\<lparr>coords = [(1 / 3, 2)], curr_state = 1, curr_state_vec = [1], confidence = 0\<rparr>"
  have l: "linked (ll_new ?b) [0]" "boxes (ll_new ?b) [0] = [?b]" using linked_ll_new[of ?b] by simp_all
  have "\<forall>b \<in> set (boxes (ll_new ?b) [0]). dumpable 1 1 b" unfolding l(2) by (simp add: dumpable_def in_int_range_def)
  from trace_roundtrip[OF l(1) this, of "[(0, 4)]" "[()]" "Some 0" "\<lambda>i. (0, 7)" "[()]"] show ?thesis
    unfolding l(2) by (auto simp: reread_def sigc_def)
qed

text \<open>
  Six digits are not enough.  A box whose only verdict is 1, for the side \<open>[1 + 2\<^sup>-\<^sup>2\<^sup>0, 2]\<close>, comes
  back from its trace as \<open>[1, 2]\<close> with the verdict 1: the verdict now speaks of the point 1, which it
  was never checked for.
\<close>

theorem trace_moves_box:
  "\<exists>file st b. ll_dump_trace None (- 1) (ll_new \<lparr>coords = [(1048577 / 1048576, 2)], curr_state = 0, curr_state_vec = [1], confidence = 0\<rparr>) = Some (Inr file)
     \<and> frag_from_file junk [(0, 4)] [s] [s'] file False = Inr st \<and> boxes (frags st) [0] = [b]
     \<and> curr_state_vec b = [1] \<and> in_box b [1] \<and> \<not> in_coords [(1048577 / 1048576, 2)] [1]"
proof -
  let ?b = "\<lparr>coords = [(1048577 / 1048576, 2)], curr_state = 0, curr_state_vec = [1], confidence = 0\<rparr>"
  have l: "linked (ll_new ?b) [0]" "boxes (ll_new ?b) [0] = [?b]" using linked_ll_new[of ?b] by simp_all
  have d: "dumpable 1 1 ?b" by (simp add: dumpable_def in_int_range_def)
  have nd: "ndigits 1 = 1" "ndigits 2 = 1" by (simp_all add: ndigits_def nat_to_string.simps)
  moreover have fl: "\<lfloor>1048577 / 1048576 :: rat\<rfloor> = 1" "\<lfloor>1048577 / 1048576 * 10 ^ 5 :: rat\<rfloor> = 100000" by (simp_all add: floor_eq_iff)
  ultimately have e: "dec_exp (1048577 / 1048576) = 0" "dec_exp 2 = 0" by (simp_all add: dec_exp_def)
  have "round_even (1048577 / 1048576 * 10 ^ 5) = 100000" unfolding round_even_def fl Let_def by simp
  moreover have "round_even (200000 :: rat) = 200000" using round_even_of_int[of 200000] by simp
  ultimately have "sig6 (1048577 / 1048576) = 1" "sig6 2 = 2" by (simp_all add: sig6_def sig_digits_def e power_int_diff)
  then have rb: "in_coords (map sigc (coords ?b)) [1]" by (simp add: sigc_def in_coords_def)
  have "\<forall>b \<in> set (boxes (ll_new ?b) [0]). dumpable 1 1 b" unfolding l(2) using d by simp
  from trace_back[OF l(1) this, of "[(0, 4)]" "[s]" None junk "[s']"] obtain f st where
    "ll_dump_trace None (- 1) (ll_new ?b) = Some (Inr f)" "frag_from_file junk [(0, 4)] [s] [s'] f False = Inr st"
    "boxes (frags st) [0] = [reread (junk 0) ?b]" unfolding l(2) by auto
  moreover have "curr_state_vec (reread (junk 0) ?b) = [1]" "in_box (reread (junk 0) ?b) [1]" using rb by (simp_all add: reread_def)
  moreover have "\<not> in_coords [(1048577 / 1048576, 2)] [1]" by (simp add: in_coords_def)
  ultimately show ?thesis by blast
qed

end
