(* ===== verification/Core_Solve.thy ===== *)
theory Core_Solve
  imports Handelman
begin

text \<open>
  The ways \<^verbatim>\<open>handelman_core\<close> hands its system to a checker: \<^verbatim>\<open>solver::inc_solve\<close> of
  \<^verbatim>\<open>include/solver.hpp\<close>, which sets all templates to zero and frees those an
  unsatisfiable core names, with \<^verbatim>\<open>get_vars\<close> of \<^verbatim>\<open>src/solver.cpp\<close>; \<^verbatim>\<open>plain_solve\<close> of
  \<^verbatim>\<open>src/handelman_core.cpp\<close>, which writes the implication with quantifiers and no encoding;
  the entry point \<^verbatim>\<open>handelman_core::solve\<close> that chooses between them; and the remaining
  back ends of \<^verbatim>\<open>solver::solve\<close>.
\<close>

subsection \<open>The symbols of a formula\<close>

text \<open>
  \<^verbatim>\<open>e.decl().name().str()\<close> of a leaf: constants carry their own name, z3 calls every real
  numeral \<^verbatim>\<open>Real\<close>.  The number that starts at the fifth character is the position of the
  variable; a failure of \<^verbatim>\<open>substr\<close> or \<^verbatim>\<open>stoi\<close> is caught and yields nothing.
\<close>

definition leaf_var :: "string \<Rightarrow> int list" where
  "leaf_var name =
     (if length name < 4 then []
      else (case stoi (drop 4 name) of Inl err \<Rightarrow> [] | Inr i \<Rightarrow> [i]))"

fun get_vars_term :: "zterm \<Rightarrow> int list" where
  "get_vars_term (ZConst x) = leaf_var x"
| "get_vars_term (ZInt i) = leaf_var ''Real''"
| "get_vars_term (ZRat a b) = leaf_var ''Real''"
| "get_vars_term (ZDec d) = leaf_var ''Real''"
| "get_vars_term (ZAdd s t) = get_vars_term s @ get_vars_term t"
| "get_vars_term (ZSub s t) = get_vars_term s @ get_vars_term t"
| "get_vars_term (ZMul s t) = get_vars_term s @ get_vars_term t"
| "get_vars_term (ZPow t n) = get_vars_term t @ leaf_var ''Real''"

text \<open>A quantified formula is no application: \<^verbatim>\<open>num_args\<close> raises a z3 exception.\<close>

fun get_vars :: "zform \<Rightarrow> int list result" where
  "get_vars (ZEq s t) = Inr (get_vars_term s @ get_vars_term t)"
| "get_vars (ZGe s t) = Inr (get_vars_term s @ get_vars_term t)"
| "get_vars (ZAnd f g) = bindR (get_vars f) (\<lambda>vs. bindR (get_vars g) (\<lambda>ws. Inr (vs @ ws)))"
| "get_vars (ZImplies f g) = bindR (get_vars f) (\<lambda>vs. bindR (get_vars g) (\<lambda>ws. Inr (vs @ ws)))"
| "get_vars (ZForall x f) = Inl (Throw ''z3'')"

subsection \<open>The incremental search\<close>

text \<open>
  A check with named assertions: on failure z3 returns the names of an unsatisfiable core.
\<close>

datatype core_answer = CSat | CUnsat "string list" | CUnknown

type_synonym core_check = "(string \<times> zform) list \<Rightarrow> core_answer"

text \<open>The positions of the templates in the table, in increasing order.\<close>

definition templ_ids :: "'b vars \<Rightarrow> nat list result" where
  "templ_ids v =
     bindR (mapR (var_is_templ v) [0..<vars_sz v]) (\<lambda>bs. Inr (filter (\<lambda>i. bs ! i) [0..<vars_sz v]))"

definition zero_form :: "string list \<Rightarrow> nat \<Rightarrow> zform result" where
  "zero_form e i = (if i < length e then Inr (ZEq (ZConst (e ! i)) (ZDec ''0'')) else Inl Undefined)"

definition cons_variable :: "'b vars \<Rightarrow> string list \<Rightarrow> zform list result" where
  "cons_variable v e = bindR (templ_ids v) (mapR (zero_form e))"

definition cons_fixed :: "double solver \<Rightarrow> zform list result" where
  "cons_fixed s =
     bindR (mapR (\<lambda>a. bindR (print_sym (e_list s) [] a) (\<lambda>t. Inr (ZEq t (ZDec ''0'')))) (eq_list s)) (\<lambda>es.
     bindR (mapR (\<lambda>a. bindR (print_sym (e_list s) [] a) (\<lambda>t. Inr (ZGe t (ZDec ''0'')))) (ineq_list s)) (\<lambda>is.
       Inr (es @ is)))"

text \<open>The assertions of one round: everything fixed, and zero for the templates not freed.\<close>

definition inc_asserts :: "zform list \<Rightarrow> zform list \<Rightarrow> bool list \<Rightarrow> (string \<times> zform) list" where
  "inc_asserts fixed vs is_free =
     map (\<lambda>(i, f). (''e'' @ nat_to_string i, f)) (enumerate 0 fixed)
     @ map (\<lambda>(i, f). (''p'' @ nat_to_string i, f)) (filter (\<lambda>(i, f). \<not> is_free ! i) (enumerate 0 vs))"

type_synonym free_state = "bool list \<times> nat"

definition free_at :: "int \<Rightarrow> free_state \<Rightarrow> free_state result" where
  "free_at i = (\<lambda>(is_free, N_free).
     if 0 \<le> i \<and> nat i < length is_free then
       Inr (if is_free ! nat i then (is_free, N_free) else (is_free[nat i := True], Suc N_free))
     else Inl Undefined)"

text \<open>
  One name of the core: \<^verbatim>\<open>p\<close> and a number frees that template; any other first character
  stands for \<^verbatim>\<open>e\<close>, and frees all variables of the constraint, their positions shifted to
  count templates.
\<close>

definition core_step :: "nat \<Rightarrow> nat \<Rightarrow> zform list \<Rightarrow> string \<Rightarrow> free_state \<Rightarrow> free_state result" where
  "core_step n N_tot fixed name st =
     (case name of
        [] \<Rightarrow> Inl (Throw ''substr'')
      | c # num \<Rightarrow>
          bindR (stoi num) (\<lambda>i.
            if c = CHR ''p'' then free_at i st
            else if 0 \<le> i \<and> nat i < length fixed
            then bindR (get_vars (fixed ! nat i)) (\<lambda>vs. foldR (\<lambda>var. free_at (var - int n + int N_tot)) vs st)
            else Inl Undefined))"

text \<open>
  The loop may run forever (\<open>None\<close>): nothing changes after an unknown answer, nor after a
  core all of whose variables are free.  The result says whether \<^verbatim>\<open>Satisfiable\<close> was found.
\<close>

partial_function (option) inc_loop :: "core_check \<Rightarrow> nat \<Rightarrow> zform list \<Rightarrow> zform list \<Rightarrow> free_state \<Rightarrow> bool run" where
  "inc_loop check n fixed vs st =
     (if snd st < length vs then
        (case check (inc_asserts fixed vs (fst st)) of
           CSat \<Rightarrow> Some (Inr True)
         | CUnsat core \<Rightarrow>
             (case foldR (core_step n (length vs) fixed) core st of
                Inl err \<Rightarrow> Some (Inl err)
              | Inr st' \<Rightarrow> inc_loop check n fixed vs st')
         | CUnknown \<Rightarrow> inc_loop check n fixed vs st)
      else Some (Inr False))"

declare inc_loop.simps [code]

definition inc_solve :: "core_check \<Rightarrow> 'b vars \<Rightarrow> double solver \<Rightarrow> (bool \<times> double solver) run" where
  "inc_solve check v s =
     (let s' = grow_e v s in
      bindO (Some (cons_variable v (e_list s'))) (\<lambda>vs.
      bindO (Some (cons_fixed s')) (\<lambda>fixed.
      bindO (inc_loop check (vars_sz v) fixed vs (replicate (length vs) False, 0)) (\<lambda>b. Some (Inr (b, s'))))))"

subsection \<open>The implication with quantifiers\<close>

text \<open>
  The left-hand side is a conjunction; without hypotheses it stays the real number 0, and
  \<^verbatim>\<open>z3::implies\<close> asserts that its arguments are formulas.
\<close>

definition hyp_form :: "string list \<Rightarrow> double multinomial \<Rightarrow> zform result" where
  "hyp_form e l = bindR (print_sym e [] l) (\<lambda>t. Inr (ZGe t (ZInt 0)))"

definition lhs_impli :: "string list \<Rightarrow> double multinomial list \<Rightarrow> zform option result" where
  "lhs_impli e ls =
     foldR (\<lambda>l acc. bindR (hyp_form e l) (\<lambda>f.
         Inr (Some (case acc of None \<Rightarrow> f | Some g \<Rightarrow> ZAnd g f)))) ls None"

definition close_var :: "'b vars \<Rightarrow> nat \<times> string \<Rightarrow> zform \<Rightarrow> zform result" where
  "close_var v = (\<lambda>(i, x) f. bindR (var_is_templ v i) (\<lambda>t. Inr (if t then f else ZForall x f)))"

definition plain_rhs :: "string list \<Rightarrow> 'b vars \<Rightarrow> zform option \<Rightarrow> double multinomial \<Rightarrow> double solver \<Rightarrow> double solver result" where
  "plain_rhs e v hyps rhs s =
     bindR (hyp_form e rhs) (\<lambda>g.
     case hyps of
       None \<Rightarrow> Inl (Throw ''assert'')
     | Some h \<Rightarrow>
         bindR (foldR (close_var v) (enumerate 0 e) (ZImplies h g)) (\<lambda>f. Inr (add_form f s)))"

definition plain_prepare :: "double handelman_core \<Rightarrow> 'b vars \<Rightarrow> double handelman_core result" where
  "plain_prepare c v =
     bindR (empty_mod_constraints (- 1) (slv c)) (\<lambda>s.
     bindR (lhs_impli (e_list s) (lhs c)) (\<lambda>hyps.
     bindR (foldR (plain_rhs (e_list s) v hyps) (rhs_arr c) s) (\<lambda>s'. Inr (c\<lparr>slv := s'\<rparr>))))"

text \<open>The report is \<open>None\<close> when no checker is called.\<close>

definition plain_solve :: "(zform list \<Rightarrow> check_result) \<Rightarrow> int \<Rightarrow> double handelman_core \<Rightarrow> 'b vars
    \<Rightarrow> (check_result option \<times> double handelman_core) result" where
  "plain_solve check typ c v =
     bindR (plain_prepare c v) (\<lambda>c'.
       if typ = 0 \<or> typ = 1
       then bindR (solve_z3_report check v (slv c')) (\<lambda>(r, s). Inr (Some r, c'\<lparr>slv := s\<rparr>))
       else Inr (None, c'))"

subsection \<open>The entry point\<close>

text \<open>What a call of \<^verbatim>\<open>handelman_core::solve\<close> reports.\<close>

datatype report = Nothing | Answer check_result | Found bool

definition core_solve :: "(zform list \<Rightarrow> check_result) \<Rightarrow> core_check \<Rightarrow> int \<Rightarrow> double handelman_core \<Rightarrow> double vars
    \<Rightarrow> (report \<times> double handelman_core \<times> double vars) run" where
  "core_solve check cores typ c v =
     (if typ = 2 then Some (bindR (plain_solve check typ c v) (\<lambda>(r, c'). Inr (case r of None \<Rightarrow> Nothing | Some a \<Rightarrow> Answer a, c', v)))
      else
        bindO (core_prepare c v) (\<lambda>(c1, v1).
          if typ = 0 then Some (bindR (solve_z3_report check v1 (slv c1)) (\<lambda>(r, s). Inr (Answer r, c1\<lparr>slv := s\<rparr>, v1)))
          else if typ = 1 then bindO (inc_solve cores v1 (slv c1)) (\<lambda>(b, s). Some (Inr (Found b, c1\<lparr>slv := s\<rparr>, v1)))
          else Some (Inr (Nothing, c1, v1))))"

subsection \<open>The remaining back ends\<close>

text \<open>
  \<^verbatim>\<open>solve(silent, "yices")\<close>: as the branch that takes a substitution, with the outcome only
  reported.  The z3 constants are made before the branch is chosen.
\<close>

definition solve_yices_report :: "(zform list \<Rightarrow> check_result) \<Rightarrow> 'b vars \<Rightarrow> double solver \<Rightarrow> (check_result \<times> double solver) result" where
  "solve_yices_report check v s =
     (let s' = grow_e v s in
      bindR (yices_assertions (make_consts (vars_sz v) []) s') (\<lambda>fs. Inr (check fs, s')))"

text \<open>
  The unfinished branch \<^verbatim>\<open>"pgd"\<close> multiplies every constraint with a fresh template and sums
  the products up; no optimiser is called and the sum is dropped.  What stays is the longer
  variable table.  The products consume the stored polynomials, which carry no save flag, so
  the store cannot be used any more and is not part of the result.
\<close>

definition lgr_term :: "double multinomial \<Rightarrow> double expr \<times> double vars \<Rightarrow> (string \<times> double expr \<times> double vars) result" where
  "lgr_term a = (\<lambda>(lgr, v).
     bindR (add_var v True ''additive_template_lgr'') (\<lambda>(ref, v1).
     bindR (var_named v1 ref) (\<lambda>(x, v2).
     bindR (ofopt (mult a x)) (\<lambda>p.
     bindR (expr_add_poly lgr p) (\<lambda>(q, lgr').
     bindR (expr_assign_poly lgr' q) (\<lambda>lgr''. Inr (ref, lgr'', v2)))))))"

definition lgr_step :: "double multinomial \<Rightarrow> double expr \<times> double vars \<Rightarrow> (double expr \<times> double vars) result" where
  "lgr_step a st = bindR (lgr_term a st) (\<lambda>(ref, st'). Inr st')"

definition proj_step :: "double multinomial \<Rightarrow> (double expr \<times> double vars) \<times> int list
    \<Rightarrow> ((double expr \<times> double vars) \<times> int list) result" where
  "proj_step a = (\<lambda>(st, ids).
     bindR (lgr_term a st) (\<lambda>(ref, lgr, v).
     bindR (var_named v ref) (\<lambda>(x, v').
       case x of
         MNode s k m \<Rightarrow> Inr ((lgr, v'), ids @ [id_key (get_id k)])
       | MConst s c \<Rightarrow> Inl Undefined)))"

definition solve_pgd :: "double vars \<Rightarrow> double solver \<Rightarrow> double vars result" where
  "solve_pgd v s =
     bindR (expr_assign_c expr_new 0) (\<lambda>lgr.
     bindR (foldR lgr_step (eq_list s) (lgr, v)) (\<lambda>st.
     bindR (foldR proj_step (ineq_list s) (st, [])) (\<lambda>((lgr', v'), ids). Inr v')))"

end
