(* ===== verification/Core_Solve_Sound.thy ===== *)
theory Core_Solve_Sound
  imports Core_Solve
begin

text \<open>
  What the calls of a checker establish: the answers of the incremental search and when it
  ends, and the meaning of the quantified formulas of \<^verbatim>\<open>plain_solve\<close>.
\<close>

subsection \<open>The variables of a printed polynomial\<close>

lemma stoi_nat: "i < 2 ^ 31 \<Longrightarrow> stoi (nat_to_string i) = Inr (int i)"
  using stoi_int_to_string[of "int i"] by (simp add: int_to_string_def in_int_range_def)

lemma leaf_var_name: "i < 2 ^ 31 \<Longrightarrow> leaf_var (var_name i) = [int i]"
  by (simp add: leaf_var_def var_name_def stoi_nat)

lemma leaf_var_Real [simp]: "leaf_var ''Real'' = []"
  by (simp add: leaf_var_def stoi_def)

definition sym_ids :: "'a multinomial \<Rightarrow> int set" where
  "sym_ids p = (\<lambda>k. int (unat (get_id k))) ` set (symbols p)"

lemma get_vars_foldR:
  assumes "foldR (\<lambda>(ex, r) ans. bindR r (\<lambda>temp. bindR (g ex temp) (\<lambda>t. Inr (ZAdd ans t))))
       (map (\<lambda>(ex, p). (ex, f p)) m) a = Inr z"
    and "\<And>ex p temp t. (ex, p) \<in> set m \<Longrightarrow> f p = Inr temp \<Longrightarrow> g ex temp = Inr t \<Longrightarrow> set (get_vars_term t) \<subseteq> A"
    and "set (get_vars_term a) \<subseteq> A"
  shows "set (get_vars_term z) \<subseteq> A"
  using assms
proof (induction m arbitrary: a)
  case (Cons x m)
  obtain ex p where x: "x = (ex, p)" by force
  from Cons.prems(1) obtain temp t where t: "f p = Inr temp" "g ex temp = Inr t"
    and rest: "foldR (\<lambda>(ex, r) ans. bindR r (\<lambda>temp. bindR (g ex temp) (\<lambda>t. Inr (ZAdd ans t))))
       (map (\<lambda>(ex, p). (ex, f p)) m) (ZAdd a t) = Inr z"
    by (auto simp: x bindR_Inr)
  have a: "set (get_vars_term (ZAdd a t)) \<subseteq> A" using Cons.prems(2)[of ex p] Cons.prems(3) t x by auto
  show ?case by (rule Cons.IH[OF rest Cons.prems(2)]) (simp_all add: a del: get_vars_term.simps)
qed simp

lemma print_sym_vars:
  assumes "print_sym (map var_name [0..<N]) [] p = Inr z" and "N < 2 ^ 31"
  shows "set (get_vars_term z) \<subseteq> sym_ids p"
  using assms
proof (induction p arbitrary: z rule: multinomial_induct)
  case (Node s k m)
  have "set (get_vars_term t) \<subseteq> sym_ids (MNode s k m)"
    if q: "(ex, q) \<in> set m" and temp: "print_sym (map var_name [0..<N]) [] q = Inr temp"
      and t: "sym_factor (map var_name [0..<N]) [] k ex temp = Inr t" for ex q temp t
  proof -
    have "sym_ids q \<subseteq> sym_ids (MNode s k m)" using q by (force simp: sym_ids_def)
    with Node.IH[OF q temp Node.prems(2)] have ih: "set (get_vars_term temp) \<subseteq> sym_ids (MNode s k m)" by blast
    have "int (unat (get_id k)) \<in> sym_ids (MNode s k m)" by (simp add: sym_ids_def)
    with t ih Node.prems(2) show ?thesis
      by (auto simp: sym_factor_def e_at_def bindR_Inr leaf_var_name split: if_splits)
  qed
  then show ?case using Node.prems(1)
    by (intro get_vars_foldR[of "sym_factor (map var_name [0..<N]) [] k" "print_sym (map var_name [0..<N]) []" m "ZInt 0" z]) simp_all
qed simp

subsection \<open>The fixed constraints and the zero templates\<close>

lemma dec_value_0 [simp]: "dec_value ''0'' = 0"
  by code_simp

text \<open>What is asked of a store: few enough exact polynomials over the table.\<close>

definition store_ok :: "'b vars \<Rightarrow> double solver \<Rightarrow> bool" where
  "store_ok v s \<longleftrightarrow>
     e_ok s \<and> length (e_list s) \<le> vars_sz v \<and> vars_sz v < 2 ^ 31 \<and> length (store_polys s) < 2 ^ 31
     \<and> (\<forall>p \<in> set (store_polys s). exact6 [] p \<and> in_range (vars_sz v) p)"

lemma grow_e_names: "store_ok v s \<Longrightarrow> e_list (grow_e v s) = map var_name [0..<vars_sz v]"
proof -
  assume ok: "store_ok v s"
  then obtain k where k: "e_list s = map var_name [0..<k]" by (auto simp: store_ok_def e_ok_def)
  with ok have "k \<le> vars_sz v" by (simp add: store_ok_def)
  with k show ?thesis by (simp add: grow_e_def make_consts_more max_def)
qed

lemma mapR_length: "mapR f xs = Inr ys \<Longrightarrow> length ys = length xs"
  by (simp add: mapR_Inr list_all2_lengthD)

lemma mapR_image: "mapR f xs = Inr ys \<Longrightarrow> y \<in> set ys \<Longrightarrow> \<exists>x \<in> set xs. f x = Inr y"
  by (induction xs arbitrary: ys) (auto simp: bindR_Inr)

lemma print_form_total:
  assumes "store_ok v s" and "p \<in> set (store_polys s)"
  shows "\<exists>z. print_sym (map var_name [0..<vars_sz v]) [] p = Inr z"
  using assms by (intro print_sym_total) (auto simp: store_ok_def in_range_def)

lemma print_form_value:
  assumes "store_ok v s" and "p \<in> set (store_polys s)" and "print_sym (map var_name [0..<vars_sz v]) [] p = Inr z"
  shows "zeval \<chi> z = real_eval (id_val \<chi>) p"
proof -
  have "zeval \<chi> z = real_eval (sub_val [] (id_val \<chi>)) p"
  proof (rule print_sym_value[OF assms(3)])
    show "exact6 [] p" using assms(1,2) by (simp add: store_ok_def)
    show "\<chi> (map var_name [0..<vars_sz v] ! unat (get_id k)) = id_val \<chi> (get_id k)" if "k \<in> set (symbols p)" for k
      using that assms(1,2) by (simp add: store_ok_def in_range_def id_val_def)
  qed
  then show ?thesis by simp
qed

lemma cons_fixed_spec:
  assumes ok: "store_ok v s"
  shows "\<exists>fs. cons_fixed (grow_e v s) = Inr fs \<and> length fs = length (store_polys s)
     \<and> (\<forall>\<chi>. (\<forall>f \<in> set fs. zholds \<chi> f) \<longleftrightarrow> store_holds (id_val \<chi>) s)
     \<and> (\<forall>f \<in> set fs. \<exists>vs p. get_vars f = Inr vs \<and> p \<in> set (store_polys s) \<and> set vs \<subseteq> sym_ids p)"
proof -
  let ?e = "map var_name [0..<vars_sz v]"
  let ?E = "\<lambda>a. bindR (print_sym ?e [] a) (\<lambda>t. Inr (ZEq t (ZDec ''0'')))"
    and ?I = "\<lambda>a. bindR (print_sym ?e [] a) (\<lambda>t. Inr (ZGe t (ZDec ''0'')))"
  note tot = print_form_total[OF ok] and val = print_form_value[OF ok]
  have "\<exists>es. mapR ?E (eq_list s) = Inr es" "\<exists>is. mapR ?I (ineq_list s) = Inr is"
    using tot by (intro mapR_total; force simp: bindR_Inr store_polys_def)+
  then obtain es "is" where es: "mapR ?E (eq_list s) = Inr es" and is': "mapR ?I (ineq_list s) = Inr is" by blast
  have run: "cons_fixed (grow_e v s) = Inr (es @ is)"
    using es is' by (simp add: cons_fixed_def grow_e_names[OF ok]) (simp add: grow_e_def)
  have "(\<forall>f \<in> set es. zholds \<chi> f) \<longleftrightarrow> (\<forall>p \<in> set (eq_list s). real_eval (id_val \<chi>) p = 0)" for \<chi>
    using val[of _ _ \<chi>] by (intro mapR_all[OF es]) (fastforce simp: bindR_Inr store_polys_def)
  moreover have "(\<forall>f \<in> set is. zholds \<chi> f) \<longleftrightarrow> (\<forall>p \<in> set (ineq_list s). real_eval (id_val \<chi>) p \<ge> 0)" for \<chi>
    using val[of _ _ \<chi>] by (intro mapR_all[OF is']) (fastforce simp: bindR_Inr store_polys_def)
  ultimately have m: "(\<forall>f \<in> set (es @ is). zholds \<chi> f) \<longleftrightarrow> store_holds (id_val \<chi>) s" for \<chi>
    by (simp add: store_holds_def ball_Un)
  have "\<exists>vs p. get_vars f = Inr vs \<and> p \<in> set (store_polys s) \<and> set vs \<subseteq> sym_ids p" if "f \<in> set (es @ is)" for f
  proof -
    from that mapR_image[OF es] mapR_image[OF is'] obtain p z where p: "p \<in> set (store_polys s)"
      "print_sym ?e [] p = Inr z" and f: "f = ZEq z (ZDec ''0'') \<or> f = ZGe z (ZDec ''0'')"
      by (fastforce simp: bindR_Inr store_polys_def)
    have "vars_sz v < 2 ^ 31" using ok by (simp add: store_ok_def)
    from print_sym_vars[OF p(2) this] f p(1) show ?thesis by auto
  qed
  with run m mapR_length[OF es] mapR_length[OF is'] show ?thesis by (auto simp: store_polys_def)
qed

text \<open>The shape of table the positions of \<^verbatim>\<open>inc_solve\<close> are computed for: templates come last.\<close>

definition templs_from :: "nat \<Rightarrow> 'b vars \<Rightarrow> bool" where
  "templs_from m v \<longleftrightarrow> m \<le> vars_sz v \<and> (\<forall>i < vars_sz v. var_is_templ v i = Inr (m \<le> i))"

lemma templ_ids_suffix:
  assumes "templs_from m v"
  shows "templ_ids v = Inr [m..<vars_sz v]"
proof -
  have "mapR (var_is_templ v) [0..<vars_sz v] = Inr (map (\<lambda>i. m \<le> i) [0..<vars_sz v])"
    using assms by (auto simp: mapR_Inr templs_from_def list_all2_conv_all_nth)
  moreover have "filter (\<lambda>i. map (\<lambda>i. m \<le> i) [0..<vars_sz v] ! i) [0..<vars_sz v] = filter (\<lambda>i. m \<le> i) [0..<vars_sz v]"
    by (rule filter_cong) auto
  moreover have "filter (\<lambda>i. m \<le> i) [0..<vars_sz v] = [m..<vars_sz v]"
  proof -
    have "[0..<vars_sz v] = [0..<m] @ [m..<vars_sz v]"
      using assms upt_add_eq_append[of 0 m "vars_sz v - m"] by (simp add: templs_from_def)
    then show ?thesis by (simp add: filter_empty_conv)
  qed
  ultimately show ?thesis by (simp add: templ_ids_def)
qed

abbreviation zero_templs :: "nat \<Rightarrow> nat \<Rightarrow> zform list" where
  "zero_templs m n \<equiv> map (\<lambda>i. ZEq (ZConst (var_name i)) (ZDec ''0'')) [m..<n]"

lemma cons_variable_spec:
  assumes "templs_from m v"
  shows "cons_variable v (map var_name [0..<vars_sz v]) = Inr (zero_templs m (vars_sz v))"
  by (auto simp: cons_variable_def templ_ids_suffix[OF assms] mapR_Inr zero_form_def list_all2_conv_all_nth)

subsection \<open>Freeing templates\<close>

definition free_ok :: "nat \<Rightarrow> free_state \<Rightarrow> bool" where
  "free_ok N st \<longleftrightarrow> length (fst st) = N \<and> snd st = length (filter id (fst st))"

definition freed :: "free_state \<Rightarrow> nat set" where
  "freed st = {i. i < length (fst st) \<and> fst st ! i}"

lemma free_ok_card: "free_ok N st \<Longrightarrow> snd st = card (freed st)"
  by (simp add: free_ok_def freed_def length_filter_conv_card)

lemma free_ok_subset: "free_ok N st \<Longrightarrow> freed st \<subseteq> {..<N}"
  by (auto simp: free_ok_def freed_def)

lemma free_ok_start: "free_ok N (replicate N False, 0)"
  by (simp add: free_ok_def)

lemma free_at_spec:
  assumes "free_ok N st" and "0 \<le> i" and "nat i < N"
  shows "\<exists>st'. free_at i st = Inr st' \<and> free_ok N st' \<and> freed st' = insert (nat i) (freed st)"
proof -
  obtain fr k where st: "st = (fr, k)" by force
  let ?i = "nat i"
  have i: "?i < length fr" using assms by (simp add: free_ok_def st)
  show ?thesis
  proof (cases "fr ! ?i")
    case True
    then have "freed st = insert ?i (freed st)" using i by (auto simp: freed_def st)
    with True assms i show ?thesis by (auto simp: free_at_def st free_ok_def)
  next
    case False
    let ?fr = "fr[?i := True]"
    have set: "{j. j < length ?fr \<and> ?fr ! j} = insert ?i {j. j < length fr \<and> fr ! j}"
      using i by (auto simp: nth_list_update split: if_splits)
    have "length (filter id ?fr) = card (insert ?i {j. j < length fr \<and> fr ! j})"
      using set by (simp add: length_filter_conv_card)
    also have "\<dots> = Suc (length (filter id fr))" using False by (simp add: length_filter_conv_card)
    finally have "free_ok N (?fr, Suc k)" using assms(1) by (simp add: free_ok_def st)
    moreover have "free_at i st = Inr (?fr, Suc k)" using assms(2) i False by (simp add: free_at_def st)
    moreover have "freed (?fr, Suc k) = insert ?i (freed st)" using set by (simp add: freed_def st)
    ultimately show ?thesis by blast
  qed
qed

text \<open>The names of a round, and what is known about the constraints behind them.\<close>

lemma inc_asserts_cases:
  assumes "(x, f) \<in> set (inc_asserts fixed vs fr)"
  obtains i where "i < length fixed" "x = ''e'' @ nat_to_string i" "f = fixed ! i"
    | i where "i < length vs" "\<not> fr ! i" "x = ''p'' @ nat_to_string i" "f = vs ! i"
  using assms by (auto simp: inc_asserts_def in_set_enumerate_eq)

lemma inc_asserts_fixed: "f \<in> set fixed \<Longrightarrow> \<exists>x. (x, f) \<in> set (inc_asserts fixed vs fr)"
proof -
  assume "f \<in> set fixed"
  then obtain i where "i < length fixed" "f = fixed ! i" by (metis in_set_conv_nth)
  then have "(i, f) \<in> set (enumerate 0 fixed)" by (simp add: in_set_enumerate_eq)
  then show ?thesis by (force simp: inc_asserts_def)
qed

text \<open>Constraints whose variables are templates, at most \<open>2^31\<close> of them.\<close>

definition fixed_ok :: "nat \<Rightarrow> nat \<Rightarrow> zform list \<Rightarrow> bool" where
  "fixed_ok m n fixed \<longleftrightarrow>
     length fixed < 2 ^ 31 \<and> (\<forall>f \<in> set fixed. \<exists>vs. get_vars f = Inr vs \<and> set vs \<subseteq> int ` {m..<n})"

lemma core_step_spec:
  assumes fx: "fixed_ok m n fixed" and m: "m \<le> n" and n: "n < 2 ^ 31" and vs: "length vs = n - m"
    and st: "free_ok (n - m) st" and x: "(x, f) \<in> set (inc_asserts fixed vs fr)"
  shows "\<exists>st'. core_step n (n - m) fixed x st = Inr st' \<and> free_ok (n - m) st' \<and> freed st \<subseteq> freed st'
     \<and> (\<forall>i. x = ''p'' @ nat_to_string i \<longrightarrow> i \<in> freed st')"
  using x
proof (cases rule: inc_asserts_cases)
  case (1 i)
  then obtain ws where ws: "get_vars (fixed ! i) = Inr ws" "set ws \<subseteq> int ` {m..<n}" and i: "i < 2 ^ 31"
    using fx by (fastforce simp: fixed_ok_def)
  have "\<exists>st'. foldR (\<lambda>var. free_at (var - int n + int (n - m))) ws st = Inr st' \<and> (free_ok (n - m) st' \<and> freed st \<subseteq> freed st')"
  proof (rule foldR_total)
    fix w st' assume w: "w \<in> set ws" "free_ok (n - m) st' \<and> freed st \<subseteq> freed st'"
    then have "0 \<le> w - int n + int (n - m)" "nat (w - int n + int (n - m)) < n - m" using ws(2) m by fastforce+
    from free_at_spec[OF _ this, of st'] w(2)
    show "\<exists>st''. free_at (w - int n + int (n - m)) st' = Inr st'' \<and> (free_ok (n - m) st'' \<and> freed st \<subseteq> freed st'')" by blast
  qed (simp add: st)
  with 1 ws(1) i show ?thesis by (auto simp: core_step_def stoi_nat)
next
  case (2 i)
  then have "0 \<le> int i" "nat (int i) < n - m" and i: "i < 2 ^ 31" using vs n by auto
  from free_at_spec[OF st this(1,2)] 2 i show ?thesis
    by (auto simp: core_step_def stoi_nat dest: nat_to_string_inj)
qed

lemma core_fold_spec:
  assumes "fixed_ok m n fixed" "m \<le> n" "n < 2 ^ 31" "length vs = n - m" and st: "free_ok (n - m) st"
    and core: "set core \<subseteq> fst ` set (inc_asserts fixed vs fr)"
  shows "\<exists>st'. foldR (core_step n (n - m) fixed) core st = Inr st' \<and> free_ok (n - m) st' \<and> freed st \<subseteq> freed st'
     \<and> (\<forall>i. ''p'' @ nat_to_string i \<in> set core \<longrightarrow> i \<in> freed st')"
  using st core
proof (induction core arbitrary: st)
  case (Cons x core)
  from Cons.prems(2) obtain f where "(x, f) \<in> set (inc_asserts fixed vs fr)" by auto
  from core_step_spec[OF assms(1-4) Cons.prems(1) this] obtain st1 where
    st1: "core_step n (n - m) fixed x st = Inr st1" "free_ok (n - m) st1" "freed st \<subseteq> freed st1"
      "\<And>i. x = ''p'' @ nat_to_string i \<Longrightarrow> i \<in> freed st1" by blast
  from Cons.IH[OF st1(2)] Cons.prems(2) obtain st2 where
    "foldR (core_step n (n - m) fixed) core st1 = Inr st2" "free_ok (n - m) st2" "freed st1 \<subseteq> freed st2"
    "\<forall>i. ''p'' @ nat_to_string i \<in> set core \<longrightarrow> i \<in> freed st2" by auto
  with st1 show ?case by (intro exI[of _ st2]) auto
qed simp

subsection \<open>The loop\<close>

text \<open>
  The documented meaning of a check with named assertions: \<open>CSat\<close> means there is a model;
  a core is a list of names of the assertions that cannot hold together.
\<close>

definition core_check_ok :: "core_check \<Rightarrow> bool" where
  "core_check_ok check \<longleftrightarrow>
     (\<forall>nfs. (check nfs = CSat \<longrightarrow> (\<exists>\<chi>. \<forall>(x, f) \<in> set nfs. zholds \<chi> f))
       \<and> (\<forall>core. check nfs = CUnsat core \<longrightarrow>
            set core \<subseteq> fst ` set nfs \<and> \<not> (\<exists>\<chi>. \<forall>(x, f) \<in> set nfs. x \<in> set core \<longrightarrow> zholds \<chi> f)))"

definition decides :: "core_check \<Rightarrow> bool" where
  "decides check \<longleftrightarrow> (\<forall>nfs. check nfs \<noteq> CUnknown)"

lemma inc_loop_ends:
  assumes ok: "core_check_ok check" "decides check"
    and fx: "fixed_ok m n fixed" "m \<le> n" "n < 2 ^ 31" "length vs = n - m"
    and sat: "\<forall>f \<in> set fixed. zholds \<chi> f" and st: "free_ok (n - m) st"
  shows "\<exists>b. inc_loop check n fixed vs st = Some (Inr b)"
  using st
proof (induction "n - m - snd st" arbitrary: st rule: less_induct)
  case less
  show ?case
  proof (cases "snd st < n - m")
    case True
    let ?nfs = "inc_asserts fixed vs (fst st)"
    consider "check ?nfs = CSat" | core where "check ?nfs = CUnsat core"
      using ok(2) by (cases "check ?nfs") (auto simp: decides_def)
    then show ?thesis
    proof cases
      case 1
      with True fx(4) show ?thesis by (intro exI[of _ True]) (subst inc_loop.simps, simp)
    next
      case (2 core)
      with ok(1) have core: "set core \<subseteq> fst ` set ?nfs"
        and bad: "\<not> (\<forall>(x, f) \<in> set ?nfs. x \<in> set core \<longrightarrow> zholds \<chi> f)" by (auto simp: core_check_ok_def)
      from core_fold_spec[OF fx less.prems core] obtain st' where
        st': "foldR (core_step n (n - m) fixed) core st = Inr st'" "free_ok (n - m) st'" "freed st \<subseteq> freed st'"
          "\<And>i. ''p'' @ nat_to_string i \<in> set core \<Longrightarrow> i \<in> freed st'" by blast
      from bad obtain x f where x: "(x, f) \<in> set ?nfs" "x \<in> set core" "\<not> zholds \<chi> f" by blast
      from x(1) obtain i where "i < length vs" "\<not> fst st ! i" "x = ''p'' @ nat_to_string i"
        using x(3) sat by (cases rule: inc_asserts_cases) auto
      then have "i \<in> freed st'" "i \<notin> freed st" using st'(4) x(2) by (auto simp: freed_def)
      then have "card (freed st) < card (freed st')"
        using st'(3) free_ok_subset[OF st'(2)] by (intro psubset_card_mono) (auto intro: finite_subset)
      then have "n - m - snd st' < n - m - snd st"
        using True free_ok_card[OF less.prems] free_ok_card[OF st'(2)] by simp
      from less.hyps[OF this st'(2)] 2 True fx(4) st'(1) show ?thesis by (subst inc_loop.simps) simp
    qed
  qed (intro exI[of _ False], subst inc_loop.simps, simp add: fx(4))
qed

lemma free_at_keeps: "free_at i st = Inr st' \<Longrightarrow> free_ok N st \<Longrightarrow> free_ok N st'"
  using free_at_spec[of N st i] by (cases st) (auto simp: free_at_def free_ok_def split: if_splits)

lemma core_step_keeps: "core_step n N fixed x st = Inr st' \<Longrightarrow> free_ok M st \<Longrightarrow> free_ok M st'"
  by (auto simp: core_step_def bindR_Inr split: list.splits if_splits
      dest: free_at_keeps elim!: foldR_invariant[where I = "free_ok M"])

text \<open>A reported success comes from a round in which some template was still held at zero.\<close>

lemma inc_loop_found:
  assumes "inc_loop check n fixed vs st = Some (Inr True)" and "free_ok N st"
  shows "\<exists>st'. free_ok N st' \<and> snd st' < length vs \<and> check (inc_asserts fixed vs (fst st')) = CSat"
proof -
  let ?P = "\<lambda>(check :: core_check) (n :: nat) fixed vs st (r :: bool result). r = Inr True \<longrightarrow> free_ok N st \<longrightarrow>
     (\<exists>st'. free_ok N st' \<and> snd st' < length vs \<and> check (inc_asserts fixed vs (fst st')) = CSat)"
  have "?P check n fixed vs st (Inr True)"
  proof (rule inc_loop.raw_induct[where P = ?P, OF _ assms(1)], goal_cases)
    case (1 rec check n fixed vs st r)
    show ?case
    proof (intro impI)
      assume r: "r = Inr True" and st: "free_ok N st"
      let ?nfs = "inc_asserts fixed vs (fst st)"
      from 1(2) r have less: "snd st < length vs" by (auto split: if_splits)
      then consider "check ?nfs = CSat" | "check ?nfs = CUnknown" "rec check n fixed vs st = Some r"
        | core st' where "foldR (core_step n (length vs) fixed) core st = Inr st'" "rec check n fixed vs st' = Some r"
        using 1(2) r by (auto split: core_answer.splits sum.splits)
      then show "\<exists>st'. free_ok N st' \<and> snd st' < length vs \<and> check (inc_asserts fixed vs (fst st')) = CSat"
      proof cases
        case (3 core st')
        have "free_ok N st'" by (rule foldR_invariant[where I = "free_ok N", OF 3(1) st]) (rule core_step_keeps)
        with 1(1)[OF 3(2)] r show ?thesis by blast
      qed (use less st 1(1)[of check n fixed vs st r] r in blast)+
    qed
  qed
  with assms(2) show ?thesis by blast
qed

lemma inc_loop_stuck:
  assumes "snd st < length vs"
    and "check (inc_asserts fixed vs (fst st)) = CUnknown
       \<or> (\<exists>core. check (inc_asserts fixed vs (fst st)) = CUnsat core \<and> foldR (core_step n (length vs) fixed) core st = Inr st)"
  shows "inc_loop check n fixed vs st = None"
proof (rule ccontr)
  assume "inc_loop check n fixed vs st \<noteq> None"
  then obtain r where r: "inc_loop check n fixed vs st = Some r" by blast
  let ?P = "\<lambda>check n fixed vs st r. \<not> (snd st < length vs \<and> (check (inc_asserts fixed vs (fst st)) = CUnknown
       \<or> (\<exists>core. check (inc_asserts fixed vs (fst st)) = CUnsat core \<and> foldR (core_step n (length vs) fixed) core st = Inr st)))"
  have "?P check n fixed vs st r"
  proof (rule inc_loop.raw_induct[where P = ?P, OF _ r], goal_cases)
    case (1 rec check n fixed vs st r)
    show ?case using 1(1)[of check n fixed vs st r] 1(2) by auto
  qed
  with assms show False by blast
qed

subsection \<open>Properties of the incremental search\<close>

text \<open>The constraints speak about templates only, as those \<^verbatim>\<open>handelman_core::solve\<close> prepares.\<close>

definition over_templates :: "nat \<Rightarrow> double solver \<Rightarrow> bool" where
  "over_templates m s \<longleftrightarrow> (\<forall>p \<in> set (store_polys s). \<forall>k \<in> set (symbols p). m \<le> unat (get_id k))"

lemma inc_solve_run:
  assumes ok: "store_ok v s" and m: "templs_from m v"
  shows "\<exists>fixed. inc_solve check v s =
       bindO (inc_loop check (vars_sz v) fixed (zero_templs m (vars_sz v))
          (replicate (vars_sz v - m) False, 0)) (\<lambda>b. Some (Inr (b, grow_e v s)))
     \<and> (\<forall>\<chi>. (\<forall>f \<in> set fixed. zholds \<chi> f) \<longleftrightarrow> store_holds (id_val \<chi>) s)
     \<and> (over_templates m s \<longrightarrow> fixed_ok m (vars_sz v) fixed)"
proof -
  from cons_fixed_spec[OF ok] obtain fs where fs: "cons_fixed (grow_e v s) = Inr fs" "length fs = length (store_polys s)"
    "\<And>\<chi>. (\<forall>f \<in> set fs. zholds \<chi> f) \<longleftrightarrow> store_holds (id_val \<chi>) s"
    "\<And>f. f \<in> set fs \<Longrightarrow> \<exists>vs p. get_vars f = Inr vs \<and> p \<in> set (store_polys s) \<and> set vs \<subseteq> sym_ids p" by blast
  have "inc_solve check v s =
       bindO (inc_loop check (vars_sz v) fs (zero_templs m (vars_sz v))
          (replicate (vars_sz v - m) False, 0)) (\<lambda>b. Some (Inr (b, grow_e v s)))"
    by (simp add: inc_solve_def Let_def fs(1) grow_e_names[OF ok] cons_variable_spec[OF m])
  moreover have "fixed_ok m (vars_sz v) fs" if "over_templates m s"
  proof -
    have "sym_ids p \<subseteq> int ` {m..<vars_sz v}" if "p \<in> set (store_polys s)" for p
      using that \<open>over_templates m s\<close> ok by (force simp: sym_ids_def over_templates_def store_ok_def in_range_def)
    with fs(2,4) ok show ?thesis unfolding fixed_ok_def store_ok_def by (metis subset_trans)
  qed
  ultimately show ?thesis using fs(3) by blast
qed

lemma inc_solve_found:
  assumes ok: "store_ok v s" and m: "templs_from m v" and chk: "core_check_ok check"
    and run: "inc_solve check v s = Some (Inr (True, s'))"
  shows "\<exists>\<rho>. store_holds \<rho> s \<and> (\<exists>i. m \<le> unat i \<and> unat i < vars_sz v \<and> \<rho> i = 0)"
proof -
  let ?n = "vars_sz v"
  let ?vs = "zero_templs m ?n"
  from inc_solve_run[OF ok m, of check] obtain fixed where
    eq: "inc_solve check v s = bindO (inc_loop check ?n fixed ?vs (replicate (?n - m) False, 0)) (\<lambda>b. Some (Inr (b, grow_e v s)))"
    and fx: "\<And>\<chi>. (\<forall>f \<in> set fixed. zholds \<chi> f) \<longleftrightarrow> store_holds (id_val \<chi>) s" by blast
  from run have loop: "inc_loop check ?n fixed ?vs (replicate (?n - m) False, 0) = Some (Inr True)"
    unfolding eq bindO_Inr by auto
  from inc_loop_found[OF loop free_ok_start] obtain st where
    st: "free_ok (?n - m) st" "snd st < ?n - m" "check (inc_asserts fixed ?vs (fst st)) = CSat" by auto
  then obtain \<chi> where \<chi>: "\<forall>(x, f) \<in> set (inc_asserts fixed ?vs (fst st)). zholds \<chi> f"
    using chk by (auto simp: core_check_ok_def)
  have "store_holds (id_val \<chi>) s" using \<chi> inc_asserts_fixed[of _ fixed ?vs "fst st"] unfolding fx[symmetric] by blast
  moreover have "\<not> {..<?n - m} \<subseteq> freed st"
    using st(2) free_ok_card[OF st(1)] free_ok_subset[OF st(1)] by (metis card_lessThan less_irrefl subset_antisym)
  then obtain i where i: "i < ?n - m" "\<not> fst st ! i" using st(1) by (auto simp: freed_def free_ok_def)
  then have "(i, ?vs ! i) \<in> set (enumerate 0 ?vs)" by (simp add: in_set_enumerate_eq)
  with i(2) have "(''p'' @ nat_to_string i, ?vs ! i) \<in> set (inc_asserts fixed ?vs (fst st))" by (force simp: inc_asserts_def)
  with \<chi> i(1) have "\<chi> (var_name (m + i)) = 0" by fastforce
  moreover have "m + i < 2 ^ 32" using i(1) ok by (auto simp: store_ok_def)
  then have "unat (of_nat (m + i) :: u32) = m + i" by (simp add: unat_of_nat del: of_nat_add)
  ultimately show ?thesis using i(1) by (intro exI[of _ "id_val \<chi>"] conjI exI[of _ "of_nat (m + i)"]) (simp_all add: id_val_def)
qed

text \<open>A table with one template \<open>t\<close>, the stores \<open>t \<ge> 0\<close> and \<open>t - 1 = 0\<close>, and a checker that always decides.\<close>

definition t0 :: symbol where
  "t0 = \<lparr>get_id = 0, is_template = True\<rparr>"

definition t_vars :: "double vars" where
  "t_vars = \<lparr>var_arr = [new_symbol t0 True], vmp = [(''t'', 0)], NUM_SYMBOLS = 1\<rparr>"

definition t_nonneg :: "double solver" where
  "t_nonneg = add_constr (new_symbol t0 True) True (solver_new t_vars)"

definition t_minus_1 :: "double solver" where
  "t_minus_1 = add_constr (MNode True t0 [(0, MConst True (- 1)), (1, MConst True 1)]) False (solver_new t_vars)"

definition full_check :: core_check where
  "full_check nfs = (if \<exists>\<chi>. \<forall>(x, f) \<in> set nfs. zholds \<chi> f then CSat else CUnsat (map fst nfs))"

lemma full_check_ok: "core_check_ok full_check" "decides full_check"
  by (auto simp: core_check_ok_def decides_def full_check_def image_iff split: if_splits) fastforce+

lemma round6_minus_1 [simp]: "round6 (- 1) = - 1"
  using round6_of_int[of "- 1"] by simp

lemma t_vars_templs: "templs_from 0 t_vars"
  by (simp add: templs_from_def t_vars_def vars_sz_def var_is_templ_def var_at_def new_symbol_def t0_def)

lemma t_store_ok: "store_ok t_vars t_nonneg" "store_ok t_vars t_minus_1"
  by (auto simp: store_ok_def t_nonneg_def t_minus_1_def add_constr_def solver_new_def t_vars_def vars_sz_def e_ok_def
      make_consts_def store_polys_def new_symbol_def new_const_def in_range_def t0_def)

lemma t_nonneg_holds: "store_holds \<rho> t_nonneg \<longleftrightarrow> 0 \<le> \<rho> 0"
  by (simp add: store_holds_def t_nonneg_def add_constr_def solver_new_def new_symbol_def new_const_def t0_def)

lemma t_minus_1_holds: "store_holds \<rho> t_minus_1 \<longleftrightarrow> \<rho> 0 = 1"
  by (auto simp: store_holds_def t_minus_1_def add_constr_def solver_new_def t0_def of_rat_minus)

lemma t_nonneg_found: "inc_solve full_check t_vars t_nonneg = Some (Inr (True, grow_e t_vars t_nonneg))"
proof -
  from inc_solve_run[OF t_store_ok(1) t_vars_templs, of full_check] obtain fixed where
    run: "inc_solve full_check t_vars t_nonneg = bindO (inc_loop full_check 1 fixed (zero_templs 0 1)
          (replicate 1 False, 0)) (\<lambda>b. Some (Inr (b, grow_e t_vars t_nonneg)))"
    and fx: "\<And>\<chi>. (\<forall>f \<in> set fixed. zholds \<chi> f) \<longleftrightarrow> store_holds (id_val \<chi>) t_nonneg"
    by (auto simp: t_vars_def vars_sz_def)
  have "\<forall>f \<in> set fixed. zholds (\<lambda>x. 0) f" unfolding fx t_nonneg_holds by (simp add: id_val_def)
  then have "\<forall>(x, f) \<in> set (inc_asserts fixed (zero_templs 0 1) [False]). zholds (\<lambda>x. 0) f"
    by (auto elim!: inc_asserts_cases)
  then have "full_check (inc_asserts fixed (zero_templs 0 1) [False]) = CSat" by (auto simp: full_check_def)
  then have "inc_loop full_check 1 fixed (zero_templs 0 1) (replicate 1 False, 0) = Some (Inr True)"
    by (subst inc_loop.simps) simp
  with run show ?thesis by simp
qed

text \<open>
  C17: What \<^verbatim>\<open>inc_solve\<close> reports is true.  When it prints \<^verbatim>\<open>Satisfiable\<close> the equations and
  inequalities of the store have a common solution, and one in which some template is zero:
  the search never tries the system with all templates free.
\<close>

theorem inc_solve_sound:
  assumes "store_ok v s" and "templs_from m v" and "core_check_ok check"
    and "inc_solve check v s = Some (Inr (True, s'))"
  shows "\<exists>\<rho>. store_holds \<rho> s \<and> (\<exists>i. m \<le> unat i \<and> unat i < vars_sz v \<and> \<rho> i = 0)"
  using assms by (rule inc_solve_found)

theorem inc_solve_sound_witness:
  "inc_solve full_check t_vars t_nonneg = Some (Inr (True, grow_e t_vars t_nonneg))
   \<and> (\<exists>\<rho>. store_holds \<rho> t_nonneg \<and> (\<exists>i. unat i < vars_sz t_vars \<and> \<rho> i = 0))"
  using inc_solve_sound[OF t_store_ok(1) t_vars_templs full_check_ok(1) t_nonneg_found] t_nonneg_found by blast


lemma t_over_templates: "over_templates 0 s"
  by (simp add: over_templates_def)


text \<open>
  C35: Solutions the incremental search misses.  For the store \<open>t - 1 = 0\<close> with the one
  template \<open>t\<close> and any checker that decides correctly, \<^verbatim>\<open>inc_solve\<close> ends without reporting
  anything although \<open>t = 1\<close> is a solution: after the last template is freed the loop is left
  without a check.
\<close>

theorem inc_solve_misses:
  assumes "core_check_ok check" and "decides check"
  shows "inc_solve check t_vars t_minus_1 = Some (Inr (False, grow_e t_vars t_minus_1))
     \<and> store_holds (\<lambda>i. 1) t_minus_1"
proof -
  have sat: "store_holds (\<lambda>i. 1) t_minus_1" by (simp add: t_minus_1_holds)
  from inc_solve_run[OF t_store_ok(2) t_vars_templs, of check] obtain fixed where
    run: "inc_solve check t_vars t_minus_1 = bindO (inc_loop check 1 fixed (zero_templs 0 1)
          (replicate 1 False, 0)) (\<lambda>b. Some (Inr (b, grow_e t_vars t_minus_1)))"
    and fx: "\<And>\<chi>. (\<forall>f \<in> set fixed. zholds \<chi> f) \<longleftrightarrow> store_holds (id_val \<chi>) t_minus_1" "fixed_ok 0 1 fixed"
    using t_over_templates[of t_minus_1] by (auto simp: t_vars_def vars_sz_def)
  from id_val_surj[of "\<lambda>i. 1"] sat obtain \<chi> where "\<forall>f \<in> set fixed. zholds \<chi> f" unfolding fx(1) by metis
  then obtain b where b: "inc_loop check 1 fixed (zero_templs 0 1) (replicate 1 False, 0) = Some (Inr b)"
    using inc_loop_ends[OF assms fx(2), of "zero_templs 0 1" \<chi> "(replicate 1 False, 0)"] free_ok_start[of 1] by auto
  have "\<not> b"
  proof
    assume b
    with run b have "inc_solve check t_vars t_minus_1 = Some (Inr (True, grow_e t_vars t_minus_1))" by simp
    from inc_solve_found[OF t_store_ok(2) t_vars_templs assms(1) this] obtain \<rho> i where
      "store_holds \<rho> t_minus_1" "unat i < 1" "\<rho> i = 0" by (auto simp: t_vars_def vars_sz_def)
    then show False by (simp add: t_minus_1_holds unat_eq_zero)
  qed
  with run b sat show ?thesis by simp
qed

theorem inc_solve_misses_witness: "inc_solve full_check t_vars t_minus_1 = Some (Inr (False, grow_e t_vars t_minus_1))"
  using inc_solve_misses[OF full_check_ok] by simp

text \<open>
  C36: The incremental search can run forever.  It does so after an unknown answer, and after a
  core in which nothing is left to free, such as the one constraint \<open>- 1 \<ge> 0\<close> of an
  unsatisfiable store: the next round asks the same question again.
\<close>

theorem inc_loop_diverges:
  assumes "snd st < length vs"
    and "check (inc_asserts fixed vs (fst st)) = CUnknown
       \<or> (\<exists>core. check (inc_asserts fixed vs (fst st)) = CUnsat core \<and> foldR (core_step n (length vs) fixed) core st = Inr st)"
  shows "inc_loop check n fixed vs st = None"
  using assms by (rule inc_loop_stuck)

definition first_core :: core_check where
  "first_core nfs = CUnsat [''e0'']"

theorem inc_loop_diverges_witness:
  "inc_loop first_core 1 [ZGe (ZInt (- 1)) (ZInt 0)] (zero_templs 0 1) ([False], 0) = None"
proof (rule inc_loop_diverges)
  have "foldR (core_step 1 (length (zero_templs 0 1)) [ZGe (ZInt (- 1)) (ZInt 0)]) [''e0''] ([False], 0) = Inr ([False], 0)"
    using stoi_nat[of 0] by (simp add: core_step_def nat_to_string.simps[of 0])
  then show "first_core (inc_asserts [ZGe (ZInt (- 1)) (ZInt 0)] (zero_templs 0 1) (fst ([False], 0))) = CUnknown
     \<or> (\<exists>core. first_core (inc_asserts [ZGe (ZInt (- 1)) (ZInt 0)] (zero_templs 0 1) (fst ([False], 0))) = CUnsat core
          \<and> foldR (core_step 1 (length (zero_templs 0 1)) [ZGe (ZInt (- 1)) (ZInt 0)]) core ([False], 0) = Inr ([False], 0))"
    by (simp add: first_core_def)
qed simp

end
