(* ===== verification/Plain_Solve_Sound.thy ===== *)
theory Plain_Solve_Sound
  imports Core_Solve_Sound
begin

text \<open>
  The meaning of the formulas \<^verbatim>\<open>handelman_core::plain_solve\<close> adds to the store: each says,
  about the templates, that a conclusion is non-negative at every point of the program
  variables at which all hypotheses are.
\<close>

subsection \<open>Hypotheses and quantifiers\<close>

text \<open>Polynomials that can be written over the constants of a store.\<close>

definition printable :: "nat \<Rightarrow> double multinomial \<Rightarrow> bool" where
  "printable n p \<longleftrightarrow> exact6 [] p \<and> in_range n p"

abbreviation names :: "nat \<Rightarrow> string list" where
  "names n \<equiv> map var_name [0..<n]"

lemma hyp_form_spec:
  assumes "printable n p"
  shows "\<exists>f. hyp_form (names n) p = Inr f \<and> (\<forall>\<chi>. zholds \<chi> f \<longleftrightarrow> 0 \<le> real_eval (id_val \<chi>) p)"
proof -
  from assms obtain z where z: "print_sym (names n) [] p = Inr z"
    using print_sym_total[of p "names n" "[]"] by (auto simp: printable_def in_range_def)
  have "zeval \<chi> z = real_eval (sub_val [] (id_val \<chi>)) p" for \<chi>
    using assms by (intro print_sym_value[OF z]) (auto simp: printable_def in_range_def id_val_def)
  with z show ?thesis by (simp add: hyp_form_def)
qed

lemma lhs_impli_spec:
  assumes "\<forall>l \<in> set ls. printable n l" and "ls \<noteq> []"
  shows "\<exists>h. lhs_impli (names n) ls = Inr (Some h) \<and> (\<forall>\<chi>. zholds \<chi> h \<longleftrightarrow> (\<forall>l \<in> set ls. 0 \<le> real_eval (id_val \<chi>) l))"
  using assms
proof (induction ls rule: rev_induct)
  case (snoc l ls)
  from hyp_form_spec[of n l] snoc.prems obtain f where f: "hyp_form (names n) l = Inr f"
    "\<And>\<chi>. zholds \<chi> f \<longleftrightarrow> 0 \<le> real_eval (id_val \<chi>) l" by auto
  show ?case
  proof (cases "ls = []")
    case False
    with snoc obtain h where "lhs_impli (names n) ls = Inr (Some h)"
      "\<And>\<chi>. zholds \<chi> h \<longleftrightarrow> (\<forall>l \<in> set ls. 0 \<le> real_eval (id_val \<chi>) l)" by auto
    with f show ?thesis by (auto simp: lhs_impli_def foldR_append)
  qed (use f in \<open>auto simp: lhs_impli_def\<close>)
qed simp

text \<open>The names of the program variables among the first \<open>n\<close>.\<close>

definition prog_names :: "(nat \<Rightarrow> bool) \<Rightarrow> nat \<Rightarrow> string set" where
  "prog_names T n = var_name ` {i. i < n \<and> \<not> T i}"

lemma var_name_prog [simp]: "var_name j \<in> prog_names T n \<longleftrightarrow> j < n \<and> \<not> T j"
  by (auto simp: prog_names_def id_names_distinct)

lemma close_all_spec:
  assumes "\<forall>i < n. var_is_templ v i = Inr (T i)"
  shows "\<exists>g. foldR (close_var v) (enumerate 0 (names n)) f = Inr g
     \<and> (\<forall>\<chi>. zholds \<chi> g \<longleftrightarrow> (\<forall>\<chi>'. (\<forall>x. x \<notin> prog_names T n \<longrightarrow> \<chi>' x = \<chi> x) \<longrightarrow> zholds \<chi>' f))"
  using assms
proof (induction n)
  case 0
  have "(\<forall>x. \<chi>' x = \<chi> x) \<longleftrightarrow> \<chi>' = \<chi>" for \<chi> \<chi>' :: "string \<Rightarrow> real" by auto
  then show ?case by (simp add: prog_names_def)
next
  case (Suc n)
  then obtain g where g: "foldR (close_var v) (enumerate 0 (names n)) f = Inr g"
    "\<And>\<chi>. zholds \<chi> g \<longleftrightarrow> (\<forall>\<chi>'. (\<forall>x. x \<notin> prog_names T n \<longrightarrow> \<chi>' x = \<chi> x) \<longrightarrow> zholds \<chi>' f)" by auto
  have run: "foldR (close_var v) (enumerate 0 (names (Suc n))) f = Inr (if T n then g else ZForall (var_name n) g)"
    using g(1) Suc.prems by (simp add: enumerate_append_eq foldR_append close_var_def)
  show ?case
  proof (cases "T n")
    case True
    then have "prog_names T (Suc n) = prog_names T n" by (auto simp: prog_names_def less_Suc_eq)
    with run True g(2) show ?thesis by simp
  next
    case False
    then have names: "prog_names T (Suc n) = insert (var_name n) (prog_names T n)"
      by (auto simp: prog_names_def less_Suc_eq)
    have "zholds \<chi> (ZForall (var_name n) g)
        \<longleftrightarrow> (\<forall>\<chi>'. (\<forall>x. x \<notin> prog_names T (Suc n) \<longrightarrow> \<chi>' x = \<chi> x) \<longrightarrow> zholds \<chi>' f)" for \<chi>
      unfolding names by (auto simp: g(2))
    with run False show ?thesis by auto
  qed
qed

text \<open>
  Valuations of the constants that differ in program variables only correspond to points
  that agree on the templates.
\<close>

lemma id_val_extend:
  assumes "\<forall>i. T (unat i) \<or> n \<le> unat i \<longrightarrow> \<rho> i = id_val \<chi> i"
  obtains \<chi>' where "id_val \<chi>' = \<rho>" "\<forall>x. x \<notin> prog_names T n \<longrightarrow> \<chi>' x = \<chi> x"
proof -
  from id_val_surj[of \<rho>] obtain \<chi>1 where \<chi>1: "id_val \<chi>1 = \<rho>" by blast
  define \<chi>' where "\<chi>' = (\<lambda>x. if x \<in> prog_names T n then \<chi>1 x else \<chi> x)"
  have "id_val \<chi>' i = \<rho> i" for i
    using assms(1) fun_cong[OF \<chi>1, of i] by (auto simp: \<chi>'_def id_val_def not_less)
  then show ?thesis by (intro that[of \<chi>']) (auto simp: \<chi>'_def)
qed

lemma id_val_agree:
  assumes "\<forall>x. x \<notin> prog_names T n \<longrightarrow> \<chi>' x = \<chi> x" and "T (unat i) \<or> n \<le> unat i"
  shows "id_val \<chi>' i = id_val \<chi> i"
  using assms by (auto simp: id_val_def)

subsection \<open>The loop over the conclusions\<close>

text \<open>What a formula has to say about the templates in \<open>\<chi>\<close>.\<close>

definition valid_at :: "(nat \<Rightarrow> bool) \<Rightarrow> nat \<Rightarrow> double multinomial list \<Rightarrow> (u32 \<Rightarrow> real) \<Rightarrow> double multinomial \<Rightarrow> bool" where
  "valid_at T n ls \<tau> r \<longleftrightarrow>
     (\<forall>\<rho>. (\<forall>i. T (unat i) \<or> n \<le> unat i \<longrightarrow> \<rho> i = \<tau> i) \<longrightarrow> (\<forall>l \<in> set ls. 0 \<le> real_eval \<rho> l) \<longrightarrow> 0 \<le> real_eval \<rho> r)"

lemma plain_rhs_spec:
  assumes T: "\<forall>i < n. var_is_templ v i = Inr (T i)" and r: "printable n r"
    and h: "\<And>\<chi>. zholds \<chi> h \<longleftrightarrow> (\<forall>l \<in> set ls. 0 \<le> real_eval (id_val \<chi>) l)"
  shows "\<exists>f. plain_rhs (names n) v (Some h) r s = Inr (add_form f s) \<and> (\<forall>\<chi>. zholds \<chi> f \<longleftrightarrow> valid_at T n ls (id_val \<chi>) r)"
proof -
  from hyp_form_spec[OF r] obtain g where g: "hyp_form (names n) r = Inr g"
    "\<And>\<chi>. zholds \<chi> g \<longleftrightarrow> 0 \<le> real_eval (id_val \<chi>) r" by blast
  from close_all_spec[OF T, of "ZImplies h g"] obtain f where f: "foldR (close_var v) (enumerate 0 (names n)) (ZImplies h g) = Inr f"
    "\<And>\<chi>. zholds \<chi> f \<longleftrightarrow> (\<forall>\<chi>'. (\<forall>x. x \<notin> prog_names T n \<longrightarrow> \<chi>' x = \<chi> x) \<longrightarrow> zholds \<chi>' (ZImplies h g))" by blast
  have "zholds \<chi> f \<longleftrightarrow> valid_at T n ls (id_val \<chi>) r" for \<chi>
  proof
    assume F: "zholds \<chi> f"
    show "valid_at T n ls (id_val \<chi>) r" unfolding valid_at_def
    proof (intro allI impI)
      fix \<rho> assume "\<forall>i. T (unat i) \<or> n \<le> unat i \<longrightarrow> \<rho> i = id_val \<chi> i" and "\<forall>l \<in> set ls. 0 \<le> real_eval \<rho> l"
      with id_val_extend[of T n \<rho> \<chi>] F show "0 \<le> real_eval \<rho> r" unfolding f(2) by (metis zholds.simps(4) h g(2))
    qed
  next
    assume V: "valid_at T n ls (id_val \<chi>) r"
    show "zholds \<chi> f" unfolding f(2)
    proof (intro allI impI)
      fix \<chi>' assume "\<forall>x. x \<notin> prog_names T n \<longrightarrow> \<chi>' x = \<chi> x"
      then have "\<forall>i. T (unat i) \<or> n \<le> unat i \<longrightarrow> id_val \<chi>' i = id_val \<chi> i" using id_val_agree by blast
      with V show "zholds \<chi>' (ZImplies h g)" by (simp add: valid_at_def h g(2))
    qed
  qed
  with f(1) g(1) show ?thesis by (auto simp: plain_rhs_def)
qed

lemma plain_loop_spec:
  assumes T: "\<forall>i < n. var_is_templ v i = Inr (T i)"
    and h: "\<And>\<chi>. zholds \<chi> h \<longleftrightarrow> (\<forall>l \<in> set ls. 0 \<le> real_eval (id_val \<chi>) l)"
    and rs: "\<forall>r \<in> set rs. printable n r"
  shows "\<exists>fs. foldR (plain_rhs (names n) v (Some h)) rs s = Inr (s\<lparr>mod_constraints := mod_constraints s @ fs\<rparr>)
     \<and> length fs = length rs \<and> (\<forall>\<chi>. (\<forall>f \<in> set fs. zholds \<chi> f) \<longleftrightarrow> (\<forall>r \<in> set rs. valid_at T n ls (id_val \<chi>) r))"
  using rs
proof (induction rs arbitrary: s)
  case (Cons r rs)
  from plain_rhs_spec[OF T _ h, of r s] Cons.prems obtain f where
    f: "plain_rhs (names n) v (Some h) r s = Inr (add_form f s)" "\<And>\<chi>. zholds \<chi> f \<longleftrightarrow> valid_at T n ls (id_val \<chi>) r" by auto
  from Cons.IH[of "add_form f s"] Cons.prems obtain fs where
    "foldR (plain_rhs (names n) v (Some h)) rs (add_form f s) = Inr (s\<lparr>mod_constraints := mod_constraints s @ f # fs\<rparr>)"
    "length fs = length rs" "\<And>\<chi>. (\<forall>f \<in> set fs. zholds \<chi> f) \<longleftrightarrow> (\<forall>r \<in> set rs. valid_at T n ls (id_val \<chi>) r)"
    by (auto simp: add_form_def)
  with f show ?case by (intro exI[of _ "f # fs"]) simp
qed (auto intro!: exI[of _ "[]"])

text \<open>
  C16: \<^verbatim>\<open>plain_solve\<close> states what the Handelman encoding certifies.  It replaces the formulas of
  the store by one per conclusion and keeps the rest; for any values \<open>\<tau>\<close> of the templates
  they hold together exactly when every conclusion is non-negative at all points that take
  these values for the templates and satisfy all hypotheses.
\<close>

theorem plain_solve_meaning:
  assumes "e_ok (slv c)" and "length (e_list (slv c)) = n"
    and "\<forall>i < n. var_is_templ v i = Inr (T i)" and "lhs c \<noteq> []"
    and "\<forall>p \<in> set (lhs c) \<union> set (rhs_arr c). printable n p"
  shows "\<exists>fs. plain_solve check 2 c v = Inr (None, c\<lparr>slv := (slv c)\<lparr>mod_constraints := fs\<rparr>\<rparr>)
     \<and> length fs = length (rhs_arr c)
     \<and> (\<forall>\<chi>. (\<forall>f \<in> set fs. zholds \<chi> f) \<longleftrightarrow> (\<forall>r \<in> set (rhs_arr c). valid_at T n (lhs c) (id_val \<chi>) r))"
proof -
  let ?s = "(slv c)\<lparr>mod_constraints := []\<rparr>"
  have e: "e_list (slv c) = names n" using assms(1,2) by (simp add: e_ok_def)
  from lhs_impli_spec[of "lhs c" n] assms(4,5) obtain h where h: "lhs_impli (names n) (lhs c) = Inr (Some h)"
    "\<And>\<chi>. zholds \<chi> h \<longleftrightarrow> (\<forall>l \<in> set (lhs c). 0 \<le> real_eval (id_val \<chi>) l)" by auto
  from plain_loop_spec[OF assms(3) h(2), of "rhs_arr c" ?s] assms(5) obtain fs where
    fs: "foldR (plain_rhs (names n) v (Some h)) (rhs_arr c) ?s = Inr ((slv c)\<lparr>mod_constraints := fs\<rparr>)" "length fs = length (rhs_arr c)"
    "\<And>\<chi>. (\<forall>f \<in> set fs. zholds \<chi> f) \<longleftrightarrow> (\<forall>r \<in> set (rhs_arr c). valid_at T n (lhs c) (id_val \<chi>) r)" by auto
  have "empty_mod_constraints (- 1) (slv c) = Inr ?s" by (simp add: empty_mod_constraints_def)
  then have "plain_solve check 2 c v = Inr (None, c\<lparr>slv := (slv c)\<lparr>mod_constraints := fs\<rparr>\<rparr>)"
    by (simp add: plain_solve_def plain_prepare_def e h(1) fs(1))
  with fs(2,3) show ?thesis by blast
qed

text \<open>A core with the template \<open>t\<close> whose hypothesis is \<open>t \<ge> 0\<close> and whose conclusion is \<open>t \<ge> 0\<close>.\<close>

definition t_core :: "double handelman_core" where
  "t_core = add_rhs (new_symbol t0 True) (add_lhs (new_symbol t0 True) (core_new t_vars))"

theorem plain_solve_meaning_witness:
  "\<exists>fs. plain_solve (\<lambda>fs. Unknown) 2 t_core t_vars = Inr (None, t_core\<lparr>slv := (slv t_core)\<lparr>mod_constraints := fs\<rparr>\<rparr>)
     \<and> length fs = 1"
proof -
  have len: "length (e_list (slv t_core)) = 1" and ok: "e_ok (slv t_core)"
    by (simp_all add: t_core_def add_rhs_def add_lhs_def core_new_def solver_new_def make_consts_def t_vars_def vars_sz_def e_ok_def)
  have templ: "\<forall>i < 1. var_is_templ t_vars i = Inr True"
    by (simp add: t_vars_def var_is_templ_def var_at_def new_symbol_def t0_def)
  have polys: "lhs t_core = [kept (new_symbol t0 True)]" "rhs_arr t_core = [kept (new_symbol t0 True)]"
    by (simp_all add: t_core_def add_rhs_def add_lhs_def core_new_def)
  have "printable 1 (kept (new_symbol t0 True))"
    by (simp add: printable_def in_range_def kept_def new_symbol_def new_const_def t0_def)
  with plain_solve_meaning[OF ok len templ, of "\<lambda>fs. Unknown"] polys show ?thesis by auto
qed

end
