(* ===== verification/Vars_Props.thy ===== *)
theory Vars_Props
  imports Handelman_Laws
begin

text \<open>
  Properties of the variable table: its operations keep the agreement of positions and
  symbol identifiers on which every later use of an identifier as an index rests, and the
  names they return lead to the variables they have made, unless a group name is used twice.
\<close>

abbreviation member_name :: "string \<Rightarrow> nat \<Rightarrow> string" where
  "member_name g i \<equiv> g @ ''_'' @ nat_to_string i"

lemma member_name_inj: "member_name g i = member_name g j \<Longrightarrow> i = j"
  by (auto dest: nat_to_string_inj)

lemma add_group_loop_ok:
  assumes "add_group_loop j n t g v = Inr v'" and "vars_ok v"
  shows "vars_ok v' \<and> (\<exists>ks. length ks = n \<and> var_arr v' = var_arr v @ map (\<lambda>k. new_symbol k True) ks
           \<and> (\<forall>i < n. is_template (ks ! i) = t \<and> unat (get_id (ks ! i)) = length (var_arr v) + i))
     \<and> (\<forall>i < n. mp_find (vmp v') (member_name g (j + i)) = Some (length (var_arr v) + i))
     \<and> (\<forall>name. (\<forall>i < n. name \<noteq> member_name g (j + i)) \<longrightarrow> mp_find (vmp v') name = mp_find (vmp v) name)"
  using assms
proof (induction n arbitrary: j v)
  case (Suc n)
  then obtain u where u: "push_var v t (member_name g j) = Inr u" and loop: "add_group_loop (Suc j) n t g u = Inr v'"
    by (auto split: sum.splits)
  note ok = push_var_ok[OF u Suc.prems(2)]
  from ok(3) obtain k where k: "var_arr u = var_arr v @ [new_symbol k True]" "unat (get_id k) = length (var_arr v)" "is_template k = t"
    by blast
  from Suc.IH[OF loop ok(1)] obtain ks where ih: "vars_ok v'" "length ks = n"
    "var_arr v' = var_arr u @ map (\<lambda>k. new_symbol k True) ks"
    "\<And>i. i < n \<Longrightarrow> is_template (ks ! i) = t \<and> unat (get_id (ks ! i)) = Suc (length (var_arr v)) + i"
    "\<And>i. i < n \<Longrightarrow> mp_find (vmp v') (member_name g (Suc j + i)) = Some (Suc (length (var_arr v)) + i)"
    "\<And>name. (\<forall>i < n. name \<noteq> member_name g (Suc j + i)) \<Longrightarrow> mp_find (vmp v') name = mp_find (vmp u) name"
    using ok(2) by auto
  have "\<forall>i < Suc n. is_template ((k # ks) ! i) = t \<and> unat (get_id ((k # ks) ! i)) = length (var_arr v) + i"
    using k ih(4) by (auto simp: less_Suc_eq_0_disj)
  then have ks: "\<exists>ks. length ks = Suc n \<and> var_arr v' = var_arr v @ map (\<lambda>k. new_symbol k True) ks
      \<and> (\<forall>i < Suc n. is_template (ks ! i) = t \<and> unat (get_id (ks ! i)) = length (var_arr v) + i)"
    using ih(2,3) k(1) by (intro exI[of _ "k # ks"]) simp
  have first: "mp_find (vmp v') (member_name g j) = Some (length (var_arr v))"
    using ih(6)[of "member_name g j"] ok(4) nat_to_string_inj[of j] by fastforce
  have "mp_find (vmp v') (member_name g (j + i)) = Some (length (var_arr v) + i)" if "i < Suc n" for i
    using that first ih(5)[of "i - 1"] by (cases i) auto
  moreover have "mp_find (vmp v') name = mp_find (vmp v) name" if nm: "\<forall>i < Suc n. name \<noteq> member_name g (j + i)" for name
  proof -
    have "\<forall>i < n. name \<noteq> member_name g (Suc j + i)" using nm by (metis Suc_less_eq add_Suc_shift)
    moreover have "name \<noteq> member_name g j" using nm by (metis add_0_right zero_less_Suc)
    ultimately show ?thesis using ih(6)[of name] ok(4) by simp
  qed
  ultimately show ?case using ih(1) ks by blast
qed auto

lemma var_in_groupI:
  "mp_find (vmp v) (member_name g i) = Some j \<Longrightarrow> j < length (var_arr v) \<Longrightarrow> var_in_group v g i = Inr (var_arr v ! j)"
  by (simp add: var_in_group_def var_at_def Let_def)

lemma add_var_group_members:
  assumes "add_var_group v n t aname = Inr (g, v')" and "vars_ok v"
  shows "vars_ok v'" and "length (var_arr v') = length (var_arr v) + n"
    and "\<And>i. i < n \<Longrightarrow> \<exists>k. var_in_group v' g i = Inr (new_symbol k True) \<and> is_template k = t \<and> unat (get_id k) = length (var_arr v) + i"
    and "\<And>i. i < length (var_arr v) \<Longrightarrow> var_at v' i = var_at v i"
proof -
  from assms(1) have loop: "add_group_loop 0 n t g v = Inr v'" by (auto simp: add_var_group_def Let_def split: sum.splits)
  from add_group_loop_ok[OF loop assms(2)] obtain ks where ok: "vars_ok v'" "length ks = n"
    "var_arr v' = var_arr v @ map (\<lambda>k. new_symbol k True) ks"
    "\<And>i. i < n \<Longrightarrow> is_template (ks ! i) = t \<and> unat (get_id (ks ! i)) = length (var_arr v) + i"
    "\<And>i. i < n \<Longrightarrow> mp_find (vmp v') (member_name g i) = Some (length (var_arr v) + i)" by auto
  show "vars_ok v'" "length (var_arr v') = length (var_arr v) + n" using ok(1-3) by simp_all
  show "\<exists>k. var_in_group v' g i = Inr (new_symbol k True) \<and> is_template k = t \<and> unat (get_id k) = length (var_arr v) + i" if "i < n" for i
    using var_in_groupI[OF ok(5)[OF that]] ok(2,3) ok(4)[OF that] that by (intro exI[of _ "ks ! i"]) (simp add: nth_append)
  show "var_at v' i = var_at v i" if "i < length (var_arr v)" for i using that by (simp add: var_at_def ok(3) nth_append)
qed

lemma vars_new_ok: "vars_new n 0 = Inr v \<Longrightarrow> vars_ok v \<and> length (var_arr v) = n"
  using vars_new_loop_ok[OF _ vars_empty_ok] by (force simp: vars_new_def)

text \<open>
  C19: The variable table.  Construction from a fresh symbol counter, \<^verbatim>\<open>add_var\<close> and the group
  form of \<^verbatim>\<open>add_var\<close> produce tables in which the variable at position \<open>i\<close> is the saved
  polynomial of the symbol with identifier \<open>i\<close>; earlier positions keep their variables, and
  the returned name leads to the new variable, or to each new variable of the group.
\<close>

theorem vars_table_ok:
  "(\<forall>n (v :: ('a::{zero, one}) vars). vars_new n 0 = Inr v \<longrightarrow> vars_ok v \<and> vars_sz v = n)
   \<and> (\<forall>(v :: 'a vars) t aname name v'. vars_ok v \<and> add_var v t aname = Inr (name, v') \<longrightarrow>
       vars_ok v' \<and> (\<forall>i < vars_sz v. var_at v' i = var_at v i)
       \<and> (\<exists>k. var_named v' name = Inr (new_symbol k True, v') \<and> is_template k = t \<and> unat (get_id k) = vars_sz v))
   \<and> (\<forall>(v :: 'a vars) n t aname name v'. vars_ok v \<and> add_var_group v n t aname = Inr (name, v') \<longrightarrow>
       vars_ok v' \<and> vars_sz v' = vars_sz v + n \<and> (\<forall>i < vars_sz v. var_at v' i = var_at v i)
       \<and> (\<forall>i < n. \<exists>k. var_in_group v' name i = Inr (new_symbol k True) \<and> is_template k = t \<and> unat (get_id k) = vars_sz v + i))"
proof (intro conjI allI impI; (elim conjE)?)
  fix n and v :: "'a vars" assume "vars_new n 0 = Inr v"
  then show "vars_ok v" "vars_sz v = n" using vars_new_ok by (auto simp: vars_sz_def)
next
  fix v :: "'a vars" and t aname name v' assume a: "vars_ok v" "add_var v t aname = Inr (name, v')"
  note ok = add_var_ok[OF a(2,1)]
  from ok show "vars_ok v'" "\<exists>k. var_named v' name = Inr (new_symbol k True, v') \<and> is_template k = t \<and> unat (get_id k) = vars_sz v"
    by (auto simp: vars_sz_def)
  fix i assume "i < vars_sz v"
  with ok(2) show "var_at v' i = var_at v i" by (auto simp: vars_sz_def var_at_def nth_append)
next
  fix v :: "'a vars" and n t aname name v' assume a: "vars_ok v" "add_var_group v n t aname = Inr (name, v')"
  note ok = add_var_group_members[OF a(2,1)]
  from ok(1,2) show "vars_ok v'" "vars_sz v' = vars_sz v + n" by (simp_all add: vars_sz_def)
  fix i
  show "i < vars_sz v \<Longrightarrow> var_at v' i = var_at v i" using ok(4) by (simp add: vars_sz_def)
  show "i < n \<Longrightarrow> \<exists>k. var_in_group v' name i = Inr (new_symbol k True) \<and> is_template k = t \<and> unat (get_id k) = vars_sz v + i"
    using ok(3) by (simp add: vars_sz_def)
qed

text \<open>A table with one program variable and a group of two templates.\<close>

lemma grp_vars_run: "\<exists>v v'. vars_new 1 0 = Inr (v :: int vars) \<and> add_var_group v 2 True ''t'' = Inr (''t'', v')"
proof -
  have "bindR (vars_new 1 0) (\<lambda>v :: int vars. bindR (add_var_group v 2 True ''t'') (\<lambda>(g, v'). Inr g)) = Inr ''t''" by code_simp
  then show ?thesis by (auto simp: bindR_Inr)
qed

theorem vars_table_ok_witness:
  "\<exists>v v' :: int vars. vars_new 1 0 = Inr v \<and> add_var_group v 2 True ''t'' = Inr (''t'', v') \<and> vars_ok v' \<and> vars_sz v' = 3
     \<and> (\<exists>k. var_in_group v' ''t'' 1 = Inr (new_symbol k True) \<and> is_template k \<and> unat (get_id k) = 2)"
proof -
  from grp_vars_run obtain v v' :: "int vars" where run: "vars_new 1 0 = Inr v" "add_var_group v 2 True ''t'' = Inr (''t'', v')" by blast
  note ok = vars_table_ok[where 'a = int]
  from ok[THEN conjunct1] run(1) have v: "vars_ok v" "vars_sz v = 1" by auto
  from ok[THEN conjunct2, THEN conjunct2] run(2) v(1) have v': "vars_ok v'" "vars_sz v' = vars_sz v + 2"
    "\<exists>k. var_in_group v' ''t'' 1 = Inr (new_symbol k True) \<and> is_template k = True \<and> unat (get_id k) = vars_sz v + 1"
    by (metis one_less_numeral_iff semiring_norm(76))+
  with run v v' show ?thesis by auto
qed

text \<open>
  A group name used twice.  The check for a name in use looks up the bare group name, which
  is never entered: a second group with the same name and size returns the same name, and
  every member of the first group becomes unreachable under it.
\<close>

theorem group_name_reused:
  assumes "vars_ok v" and "aname \<noteq> []" and "mp_find (vmp v) aname = None"
    and "add_var_group v n t aname = Inr (g, v1)" and "add_var_group v1 n t' aname = Inr (g', v2)" and "i < n"
  shows "g = aname \<and> g' = aname \<and> var_in_group v2 g i \<noteq> var_in_group v1 g i"
proof -
  have g: "g = aname" "add_group_loop 0 n t aname v = Inr v1"
    using assms(2-4) by (auto simp: add_var_group_def Let_def split: sum.splits)
  note ok = add_group_loop_ok[OF g(2) assms(1)]
  have "mp_find (vmp v1) aname = mp_find (vmp v) aname" using ok by auto
  then have g': "g' = aname" using assms(2,3,5) by (auto simp: add_var_group_def Let_def split: sum.splits)
  note m1 = add_var_group_members[OF assms(4,1)] and m2 = add_var_group_members[OF assms(5)]
  from m1(3)[OF assms(6)] obtain k1 where k1: "var_in_group v1 g i = Inr (new_symbol k1 True)" "unat (get_id k1) = length (var_arr v) + i"
    by blast
  from m2(3)[OF m1(1) assms(6)] obtain k2 where
    k2: "var_in_group v2 g' i = Inr (new_symbol k2 True)" "unat (get_id k2) = length (var_arr v1) + i" by blast
  have "k1 \<noteq> k2" using k1(2) k2(2) m1(2) assms(6) by auto
  then show ?thesis using k1(1) k2(1) g(1) g' by (simp add: new_symbol_def)
qed

theorem group_name_reused_witness:
  "\<exists>v v1 v2 :: int vars. vars_new 1 0 = Inr v \<and> add_var_group v 2 True ''t'' = Inr (''t'', v1) \<and> add_var_group v1 2 True ''t'' = Inr (''t'', v2)
     \<and> var_in_group v2 ''t'' 0 \<noteq> var_in_group v1 ''t'' 0"
proof -
  have "bindR (vars_new 1 0) (\<lambda>v :: int vars. if mp_find (vmp v) ''t'' \<noteq> None then Inl Undefined
      else bindR (add_var_group v 2 True ''t'') (\<lambda>(g, v1).
      bindR (add_var_group v1 2 True ''t'') (\<lambda>(g', v2). Inr (g, g')))) = Inr (''t'', ''t'')" by code_simp
  then obtain v v1 v2 :: "int vars" where run: "vars_new 1 0 = Inr v" "mp_find (vmp v) ''t'' = None"
    "add_var_group v 2 True ''t'' = Inr (''t'', v1)" "add_var_group v1 2 True ''t'' = Inr (''t'', v2)"
    by (auto simp: bindR_Inr split: if_splits)
  have "vars_ok v" using vars_new_ok[OF run(1)] by simp
  from group_name_reused[OF this _ run(2-4), of 0] run show ?thesis by auto
qed

end
