(* ===== verification/Box_Props.thy ===== *)
theory Box_Props
  imports Bounding_Box
begin

text \<open>
  The geometry of one refinement step: a box is cut in the middle of its longest side and
  its halves are rounded to integer bounds.
\<close>

definition box_valid :: "bounding_box \<Rightarrow> bool" where
  "box_valid b \<longleftrightarrow> coords b \<noteq> [] \<and> (\<forall>c \<in> set (coords b). fst c \<le> snd c)"

lemma fold_max_le:
  assumes "\<forall>c \<in> set cs. snd c - fst c \<le> (M :: double)" and "a \<le> M"
  shows "fold (\<lambda>c ans. max ans (snd c - fst c)) cs a \<le> M"
  using assms by (induction cs arbitrary: a) auto

lemma fold_max_ge:
  "a \<le> fold (\<lambda>c ans. max ans (snd c - fst c)) cs (a :: double)
   \<and> (\<forall>c \<in> set cs. snd c - fst c \<le> fold (\<lambda>c ans. max ans (snd c - fst c)) cs a)"
proof (induction cs arbitrary: a)
  case (Cons x cs)
  from Cons.IH[of "max a (snd x - fst x)"] show ?case by auto
qed simp

lemma norm_box_ge: "c \<in> set (coords b) \<Longrightarrow> snd c - fst c \<le> norm_box b" "- 1 \<le> norm_box b"
  using fold_max_ge[of "- 1" "coords b"] by (auto simp: norm_box_def)

lemma norm_box_le: "\<forall>c \<in> set (coords b). snd c - fst c \<le> M \<Longrightarrow> - 1 \<le> M \<Longrightarrow> norm_box b \<le> M"
  by (simp add: norm_box_def fold_max_le)

lemma box_valid_norm: "box_valid b \<Longrightarrow> 0 \<le> norm_box b"
  using norm_box_ge(1)[of "hd (coords b)" b] by (cases "coords b") (auto simp: box_valid_def)

lemma half_norm:
  assumes "d < length (coords b)" and "coords b' = (coords b)[d := h]" and "snd h - fst h \<le> norm_box b"
  shows "norm_box b' \<le> norm_box b"
proof (rule norm_box_le)
  show "\<forall>c \<in> set (coords b'). snd c - fst c \<le> norm_box b"
    using assms norm_box_ge(1)[of _ b] by (auto dest!: set_update_subset_insert[THEN subsetD])
qed (rule norm_box_ge)

text \<open>
  C20: One step of refinement.  Cutting a valid box along the side \<^verbatim>\<open>longest\<close> finds is defined;
  both halves are valid, their points together are exactly those of the box, the side that
  was cut is half as long as the norm and no side got longer; rounding the halves inwards
  afterwards loses no point with integer coordinates and adds none.
\<close>

theorem divide_longest:
  assumes "box_valid b"
  shows "\<exists>dir n b'. longest (length (coords b)) b = Inr dir \<and> divide dir k False b = Inr (n, b')
     \<and> box_valid n \<and> box_valid b' \<and> (\<forall>xs. in_box b xs \<longleftrightarrow> in_box n xs \<or> in_box b' xs)
     \<and> len dir n = Inr (norm_box b / 2) \<and> len dir b' = Inr (norm_box b / 2)
     \<and> norm_box n \<le> norm_box b \<and> norm_box b' \<le> norm_box b
     \<and> (\<forall>xs. int_point xs \<longrightarrow> (in_box b xs \<longleftrightarrow> in_box (round_box 1 n) xs \<or> in_box (round_box 1 b') xs))"
proof -
  have v: "\<forall>c \<in> set (coords b). fst c \<le> snd c" and ne: "coords b \<noteq> []" using assms by (auto simp: box_valid_def)
  then have "hd (coords b) \<in> set (coords b)" by simp
  from longest_spec[OF this] v this obtain dir where dir: "longest (length (coords b)) b = Inr dir" "0 \<le> dir" "nat dir < length (coords b)"
    "snd (coords b ! nat dir) - fst (coords b ! nat dir) = norm_box b" by auto
  let ?d = "nat dir"
  obtain l u where c: "coords b ! ?d = (l, u)" by force
  let ?m = "(u + l) * (1 / 2)"
  have lu: "u - l = norm_box b" "0 \<le> norm_box b" using dir(4) c box_valid_norm[OF assms] by simp_all
  have h: "?m - l = norm_box b / 2" "u - ?m = norm_box b / 2" using lu(1) by (simp_all add: field_simps)
  from divide_total[OF dir(2,3), of k False] obtain n b' where dv: "divide dir k False b = Inr (n, b')" by blast
  have nb: "coords n = (coords b)[?d := (l, ?m)] \<and> coords b' = (coords b)[?d := (?m, u)]
      \<or> coords n = (coords b)[?d := (?m, u)] \<and> coords b' = (coords b)[?d := (l, ?m)]"
    using dv c dir(2,3) by (auto simp: divide_def Let_def box_new_def split: if_splits)
  have pts: "in_box b xs \<longleftrightarrow> in_box n xs \<or> in_box b' xs" for xs using divide_Inr[OF dv] v by blast
  have valid: "box_valid n" "box_valid b'"
    using divide_valid[OF dv v] divide_keeps(1,2)[OF dv] ne by (auto simp: box_valid_def ball_Un)
  have lens: "len dir n = Inr (norm_box b / 2)" "len dir b' = Inr (norm_box b / 2)"
    using nb h dir(2,3) by (auto simp: len_def)
  have "norm_box b / 2 \<le> norm_box b" using lu(2) by simp
  then have "?m - l \<le> norm_box b" "u - ?m \<le> norm_box b" by (simp_all only: h)
  then have norms: "norm_box n \<le> norm_box b" "norm_box b' \<le> norm_box b"
    using nb half_norm[OF dir(3), of _ "(l, ?m)"] half_norm[OF dir(3), of _ "(?m, u)"] by (metis fst_conv snd_conv)+
  show ?thesis using dir(1) dv valid pts lens norms round_box_int_points by blast
qed

theorem divide_longest_witness:
  "\<exists>dir n b'. longest 2 (box_new [(0, 1), (0, 3)]) = Inr dir \<and> divide dir 0 False (box_new [(0, 1), (0, 3)]) = Inr (n, b')
     \<and> box_valid n \<and> len dir n = Inr (norm_box (box_new [(0, 1), (0, 3)]) / 2)"
proof -
  let ?b = "box_new [(0, 1), (0, 3)]"
  have b: "box_valid ?b" "length (coords ?b) = 2" by (simp_all add: box_valid_def box_new_def)
  from divide_longest[OF b(1), of 0] show ?thesis unfolding b(2) by blast
qed

end
