(* ===== verification/Smt_Text.thy ===== *)
theory Smt_Text
  imports Trace Box_Lists_Sound
begin

text \<open>
  The SMT-LIB text of a list of boxes.  Its tokens are those of a formula, and the formula holds of
  exactly the integer points of the boxes.
\<close>

subsection \<open>Tokens and formulas\<close>

definition flush :: "string \<Rightarrow> string list" where
  "flush acc = (if acc = [] then [] else [acc])"

fun toks :: "string \<Rightarrow> string \<Rightarrow> string list" where
  "toks acc [] = flush acc"
| "toks acc (c # cs) =
     (if c = CHR '' '' \<or> c = CHR 0x0A then flush acc @ toks [] cs
      else if c = CHR ''('' \<or> c = CHR '')'' then flush acc @ [c] # toks [] cs
      else toks (acc @ [c]) cs)"

datatype sform = SAnd "sform list" | SOr "sform list" | SLe int nat | SGe int nat

definition lit_toks :: "int \<Rightarrow> string list" where
  "lit_toks t = (if 0 \<le> t then [int_to_string t] else [''('', ''-'', int_to_string (- t), '')''])"

fun sform_toks :: "sform \<Rightarrow> string list" where
  "sform_toks (SAnd fs) = [''('', ''and''] @ concat (map sform_toks fs) @ ['')'']"
| "sform_toks (SOr fs) = [''('', ''or''] @ concat (map sform_toks fs) @ ['')'']"
| "sform_toks (SLe t i) = [''('', ''<=''] @ lit_toks t @ [''x'' @ nat_to_string i, '')'']"
| "sform_toks (SGe t i) = [''('', ''>=''] @ lit_toks t @ [''x'' @ nat_to_string i, '')'']"

fun sholds :: "(nat \<Rightarrow> int) \<Rightarrow> sform \<Rightarrow> bool" where
  "sholds \<xi> (SAnd fs) = (\<forall>f \<in> set fs. sholds \<xi> f)"
| "sholds \<xi> (SOr fs) = (\<exists>f \<in> set fs. sholds \<xi> f)"
| "sholds \<xi> (SLe t i) = (t \<le> \<xi> i)"
| "sholds \<xi> (SGe t i) = (t \<ge> \<xi> i)"

text \<open>Words: non-empty strings without delimiters.\<close>

definition word_ok :: "string \<Rightarrow> bool" where
  "word_ok w \<longleftrightarrow> w \<noteq> [] \<and> CHR '' '' \<notin> set w \<and> CHR 0x0A \<notin> set w \<and> CHR ''('' \<notin> set w \<and> CHR '')'' \<notin> set w"

lemma flush_simps [simp]: "flush [] = []" "w \<noteq> [] \<Longrightarrow> flush w = [w]"
  by (simp_all add: flush_def)

lemma toks_word: "CHR '' '' \<notin> set w \<Longrightarrow> CHR 0x0A \<notin> set w \<Longrightarrow> CHR ''('' \<notin> set w \<Longrightarrow> CHR '')'' \<notin> set w \<Longrightarrow> toks acc (w @ cs) = toks (acc @ w) cs"
  by (induction w arbitrary: acc) auto

lemma toks_word_space:
  assumes "word_ok w"
  shows "toks [] (w @ CHR '' '' # cs) = w # toks [] cs" and "toks [] (w @ CHR '')'' # cs) = w # '')'' # toks [] cs"
  using assms toks_word[of w "[]"] by (simp_all add: word_ok_def)

lemma nat_word: "word_ok (nat_to_string n)"
  using nat_to_string_digits[of n] by (auto simp: word_ok_def list_all_iff is_digit_def)

lemma int_word: "0 \<le> t \<Longrightarrow> word_ok (int_to_string t)"
  using nat_word by (simp add: int_to_string_def)

lemma var_word: "word_ok (''x'' @ nat_to_string i)"
  using nat_word[of i] by (simp add: word_ok_def)

text \<open>Texts that can be followed by anything: their tokens come first.\<close>

definition lexes :: "string \<Rightarrow> string list \<Rightarrow> bool" where
  "lexes s ts \<longleftrightarrow> (\<forall>cs. toks [] (s @ cs) = ts @ toks [] cs)"

lemma lexes_append: "lexes s ts \<Longrightarrow> lexes s' ts' \<Longrightarrow> lexes (s @ s') (ts @ ts')"
  by (simp add: lexes_def)

lemma lexes_concat: "(\<And>x. x \<in> set xs \<Longrightarrow> lexes (f x) (g x)) \<Longrightarrow> lexes (concat (map f xs)) (concat (map g xs))"
  by (induction xs) (auto simp: lexes_def)

definition smt_lit :: "int \<Rightarrow> string" where
  "smt_lit t = (if 0 \<le> t then int_to_string t else ''( - '' @ int_to_string (- t) @ '' )'')"

lemma to_string_smt_int: "in_int_range \<bar>t\<bar> \<Longrightarrow> to_string_smt (of_int t) = Inr (smt_lit t)"
  by (auto simp: to_string_smt_def smt_lit_def Let_def)

lemma lexes_lit: "lexes (smt_lit t @ '' '') (lit_toks t)"
proof (cases "0 \<le> t")
  case True
  then show ?thesis using toks_word_space(1)[OF int_word[OF True]] by (simp add: lexes_def smt_lit_def lit_toks_def)
next
  case False
  then have "word_ok (int_to_string (- t))" by (intro int_word) simp
  from toks_word_space(1)[OF this] False show ?thesis by (simp add: lexes_def smt_lit_def lit_toks_def)
qed

lemma lexes_bound: "lexes (op @ smt_lit t @ '' x'' @ nat_to_string i @ '')'') (ots @ lit_toks t @ [''x'' @ nat_to_string i, '')''])"
  if "lexes op ots" for op ots
proof -
  have "lexes (''x'' @ nat_to_string i @ '')'') [''x'' @ nat_to_string i, '')'']"
    using toks_word_space(2)[OF var_word[of i]] by (simp add: lexes_def)
  from lexes_append[OF that lexes_append[OF lexes_lit this]] show ?thesis by simp
qed

subsection \<open>Boxes and lists\<close>

definition side_form :: "bounding_box \<Rightarrow> nat \<Rightarrow> sform" where
  "side_form b i = SAnd [SLe \<lceil>fst (coords b ! i)\<rceil> i, SGe \<lfloor>snd (coords b ! i)\<rfloor> i]"

definition box_form :: "nat \<Rightarrow> bounding_box \<Rightarrow> sform" where
  "box_form n b = SAnd (map (side_form b) [0..<n])"

definition fits_int :: "nat \<Rightarrow> bounding_box \<Rightarrow> bool" where
  "fits_int n b \<longleftrightarrow> n \<le> length (coords b)
     \<and> (\<forall>i < n. in_int_range \<bar>\<lceil>fst (coords b ! i)\<rceil>\<bar> \<and> in_int_range \<bar>\<lfloor>snd (coords b ! i)\<rfloor>\<bar>)"

lemma smt_side_text:
  assumes "fits_int n b" and "i < n"
  shows "\<exists>s. (\<forall>ans. smt_side b i ans = Inr (ans @ s)) \<and> lexes s (sform_toks (side_form b i))"
proof -
  let ?l = "smt_lit \<lceil>fst (coords b ! i)\<rceil>" and ?u = "smt_lit \<lfloor>snd (coords b ! i)\<rfloor>"
  let ?s = "''( and (<= '' @ ?l @ '' x'' @ nat_to_string i @ '') (>= '' @ ?u @ '' x'' @ nat_to_string i @ '') ) ''"
  have "smt_side b i ans = Inr (ans @ ?s)" for ans
    using assms by (simp add: smt_side_def fits_int_def to_string_smt_int)
  moreover have o: "lexes ''( and (<= '' [''('', ''and'', ''('', ''<='']" "lexes '' (>= '' [''('', ''>='']" "lexes '' ) '' ['')'']"
    by (simp_all add: lexes_def)
  have "lexes ?s (sform_toks (side_form b i))"
    using lexes_append[OF lexes_bound[OF o(1)] lexes_append[OF lexes_bound[OF o(2)] o(3)], of "\<lceil>fst (coords b ! i)\<rceil>" i "\<lfloor>snd (coords b ! i)\<rfloor>" i]
    by (simp add: side_form_def)
  ultimately show ?thesis by blast
qed

lemma box_smt_text:
  assumes "fits_int (nat idx) b"
  shows "\<exists>s. box_smt_code idx b = Inr s \<and> lexes s (sform_toks (box_form (nat idx) b))"
proof -
  obtain f where f: "\<And>i ans. i < nat idx \<Longrightarrow> smt_side b i ans = Inr (ans @ f i)" "\<And>i. i < nat idx \<Longrightarrow> lexes (f i) (sform_toks (side_form b i))"
    using smt_side_text[OF assms] by metis
  have "foldR (smt_side b) is ans = Inr (ans @ concat (map f is))" if "set is \<subseteq> {..<nat idx}" for "is" ans
    using that f(1) by (induction "is" arbitrary: ans) auto
  from this[of "[0..<nat idx]" "''( and ''"] have "box_smt_code idx b = Inr (''( and '' @ concat (map f [0..<nat idx]) @ '' )'')"
    by (simp add: box_smt_code_def atLeast0LessThan)
  moreover have "lexes ''( and '' [''('', ''and'']" "lexes '' )'' ['')'']" by (simp_all add: lexes_def)
  moreover have "lexes (concat (map f [0..<nat idx])) (concat (map (\<lambda>i. sform_toks (side_form b i)) [0..<nat idx]))"
    by (rule lexes_concat) (use f(2) in auto)
  ultimately have "lexes (''( and '' @ concat (map f [0..<nat idx]) @ '' )'') ([''('', ''and''] @ concat (map (\<lambda>i. sform_toks (side_form b i)) [0..<nat idx]) @ ['')''])"
    by (intro lexes_append)
  with \<open>box_smt_code idx b = _\<close> show ?thesis by (auto simp: box_form_def comp_def)
qed

lemma box_form_holds:
  assumes "n \<le> length (coords b)"
  shows "sholds \<xi> (box_form n b) \<longleftrightarrow> (\<forall>i < n. fst (coords b ! i) \<le> of_int (\<xi> i) \<and> of_int (\<xi> i) \<le> snd (coords b ! i))"
  by (auto simp: box_form_def side_form_def ceiling_le_iff le_floor_iff)

lemma lexes_toks: "lexes s ts \<Longrightarrow> toks [] s = ts"
  by (auto simp: lexes_def dest: spec[of _ "[]"])

lemma ll_smt_code_text:
  assumes l: "linked l as" and fit: "\<forall>b \<in> set (boxes l as). fits_int (nat idx) b"
  shows "\<exists>text f. ll_smt_code idx l = Some (Inr text) \<and> lexes text (sform_toks f)
     \<and> (\<forall>\<xi>. sholds \<xi> f \<longleftrightarrow> (\<exists>b \<in> set (boxes l as). \<forall>i < nat idx. fst (coords b ! i) \<le> of_int (\<xi> i) \<and> of_int (\<xi> i) \<le> snd (coords b ! i)))"
proof -
  obtain t where t: "\<And>b. b \<in> set (boxes l as) \<Longrightarrow> box_smt_code idx b = Inr (t b) \<and> lexes (t b) (sform_toks (box_form (nat idx) b))"
    using box_smt_text fit by metis
  have "foldO (smt_step idx) bs (l, ans) = Some (Inr (l, ans @ concat (map t (boxes l bs))))" if "set bs \<subseteq> set as" for bs ans
    using that
  proof (induction bs arbitrary: ans)
    case (Cons a bs)
    then obtain b where "cells l a = Some b" "box_at l a = Inr b" "b \<in> set (boxes l as)" using boxes_at[OF l, of a] by auto
    with Cons t[of b] show ?case by (simp add: smt_step_def)
  qed simp
  moreover have "ll_walk (brk l) (smt_step idx) (first as None) (l, ''( or '') = foldO (smt_step idx) as (l, ''( or '')"
    by (rule ll_walk_fold[of l "[]"]) (use l linked_length[OF l] in \<open>auto simp: smt_step_def bindR_Inr\<close>)
  ultimately have run: "ll_smt_code idx l = Some (Inr (''( or '' @ concat (map t (boxes l as)) @ '' )''))"
    using l by (simp add: ll_smt_code_def linked_def)
  have o: "lexes ''( or '' [''('', ''or'']" "lexes '' )'' ['')'']" by (simp_all add: lexes_def)
  have c: "lexes (concat (map t (boxes l as))) (concat (map (\<lambda>b. sform_toks (box_form (nat idx) b)) (boxes l as)))"
    by (rule lexes_concat) (use t in auto)
  have "lexes (''( or '' @ concat (map t (boxes l as)) @ '' )'') (sform_toks (SOr (map (box_form (nat idx)) (boxes l as))))"
    using lexes_append[OF o(1) lexes_append[OF c o(2)]] by (simp add: comp_def)
  moreover have "sholds \<xi> (SOr (map (box_form (nat idx)) (boxes l as)))
      \<longleftrightarrow> (\<exists>b \<in> set (boxes l as). \<forall>i < nat idx. fst (coords b ! i) \<le> of_int (\<xi> i) \<and> of_int (\<xi> i) \<le> snd (coords b ! i))" for \<xi>
    using fit box_form_holds[of "nat idx" _ \<xi>] by (auto simp: fits_int_def)
  ultimately show ?thesis using run by blast
qed

text \<open>
  The exported region.  For boxes with enough sides whose rounded bounds fit \<^verbatim>\<open>int\<close>,
  \<^verbatim>\<open>ll::smt_code\<close> returns a text whose tokens are those of a formula that holds of an integer point
  exactly when the point is in one of the boxes (in the first \<open>idx\<close> directions).
\<close>

theorem smt_code_meaning:
  assumes "linked l as" and "\<forall>b \<in> set (boxes l as). fits_int (nat idx) b"
  shows "\<exists>text f. ll_smt_code idx l = Some (Inr text) \<and> toks [] text = sform_toks f
     \<and> (\<forall>\<xi>. sholds \<xi> f \<longleftrightarrow> (\<exists>b \<in> set (boxes l as). \<forall>i < nat idx. fst (coords b ! i) \<le> of_int (\<xi> i) \<and> of_int (\<xi> i) \<le> snd (coords b ! i)))"
  using ll_smt_code_text[OF assms] lexes_toks by blast

theorem smt_code_meaning_witness:
  "\<exists>text f. ll_smt_code 1 (ll_new (box_new [(1 / 2, 3)])) = Some (Inr text) \<and> toks [] text = sform_toks f
     \<and> sholds (\<lambda>_. 3) f \<and> \<not> sholds (\<lambda>_. 0) f"
proof -
  let ?l = "ll_new (box_new [(1 / 2, 3)])"
  have l: "linked ?l [0]" "boxes ?l [0] = [box_new [(1 / 2, 3)]]" using linked_ll_new[of "box_new [(1 / 2, 3)]"] by simp_all
  have "\<lceil>1 / 2 :: rat\<rceil> = 1" by (simp add: ceiling_eq_iff)
  then have "\<forall>b \<in> set (boxes ?l [0]). fits_int (nat 1) b" unfolding l(2) by (simp add: fits_int_def box_new_def in_int_range_def)
  from smt_code_meaning[OF l(1) this] obtain txt0 f where
    r: "ll_smt_code 1 ?l = Some (Inr txt0)" "toks [] txt0 = sform_toks f"
    and m: "\<And>\<xi>. sholds \<xi> f \<longleftrightarrow> (1 / 2 \<le> rat_of_int (\<xi> 0) \<and> rat_of_int (\<xi> 0) \<le> 3)"
    unfolding l(2) by (auto simp: box_new_def)
  show ?thesis by (intro exI[of _ txt0] exI[of _ f]) (simp add: r m)
qed

end
