(* ===== verification/Sexp.thy ===== *)
theory Sexp
  imports Smt_Text
begin

text \<open>
  S-expressions: the syntax of the SMT-LIB and SyGuS texts the program writes, the meaning of
  their terms and formulas over the integers, and the meaning of a SyGuS problem.  A text reads
  as at most one sequence of s-expressions.
\<close>

datatype sexp = Atom string | Lst "sexp list"

fun sexp_toks :: "sexp \<Rightarrow> string list" where
  "sexp_toks (Atom w) = [w]"
| "sexp_toks (Lst xs) = ''('' # concat (map sexp_toks xs) @ ['')'']"

abbreviation sexps_toks :: "sexp list \<Rightarrow> string list" where
  "sexps_toks xs \<equiv> concat (map sexp_toks xs)"

fun atoms_ok :: "sexp \<Rightarrow> bool" where
  "atoms_ok (Atom w) = (w \<noteq> ''('' \<and> w \<noteq> '')'')"
| "atoms_ok (Lst xs) = list_all atoms_ok xs"

definition reads :: "string \<Rightarrow> sexp list \<Rightarrow> bool" where
  "reads s xs \<longleftrightarrow> toks [] s = sexps_toks xs \<and> list_all atoms_ok xs"

lemma sexp_toks_first: "atoms_ok x \<Longrightarrow> \<exists>t ts. sexp_toks x = t # ts \<and> t \<noteq> '')''"
  by (cases x) auto

lemma sexps_toks_unique:
  assumes "\<And>x y r r'. x \<in> set xs \<Longrightarrow> atoms_ok y \<Longrightarrow> sexp_toks x @ r = sexp_toks y @ r' \<Longrightarrow> x = y \<and> r = r'"
    and "list_all atoms_ok xs" "list_all atoms_ok ys" and "sexps_toks xs @ '')'' # r = sexps_toks ys @ '')'' # r'"
  shows "xs = ys \<and> r = r'"
  using assms
proof (induction xs arbitrary: ys)
  case Nil
  show ?case
  proof (cases ys)
    case (Cons y ys')
    then obtain t ts where "sexp_toks y = t # ts" "t \<noteq> '')''" using sexp_toks_first[of y] Nil.prems(3) by auto
    with Cons Nil.prems(4) show ?thesis by simp
  qed (use Nil.prems(4) in simp)
next
  case (Cons x xs)
  obtain t ts where t: "sexp_toks x = t # ts" "t \<noteq> '')''" using sexp_toks_first[of x] Cons.prems(2) by auto
  with Cons.prems(4) obtain y ys' where ys: "ys = y # ys'" by (cases ys) simp_all
  have xy: "x = y \<and> sexps_toks xs @ '')'' # r = sexps_toks ys' @ '')'' # r'"
    by (rule Cons.prems(1)) (use Cons.prems(3,4) ys in simp_all)
  have "xs = ys' \<and> r = r'"
  proof (rule Cons.IH)
    show "x = y \<and> r = r'" if "x \<in> set xs" "atoms_ok y" "sexp_toks x @ r = sexp_toks y @ r'" for x y r r'
      using that by (intro Cons.prems(1)) simp_all
  qed (use Cons.prems(2,3) ys xy in simp_all)
  with ys xy show ?case by simp
qed

lemma sexp_toks_unique: "atoms_ok x \<Longrightarrow> atoms_ok y \<Longrightarrow> sexp_toks x @ r = sexp_toks y @ r' \<Longrightarrow> x = y \<and> r = r'"
proof (induction x arbitrary: y r r')
  case (Atom w)
  then show ?case by (cases y) auto
next
  case (Lst xs)
  then obtain ys where ys: "y = Lst ys" by (cases y) auto
  have "xs = ys \<and> r = r'"
  proof (rule sexps_toks_unique)
    show "x = y \<and> r = r'" if "x \<in> set xs" "atoms_ok y" "sexp_toks x @ r = sexp_toks y @ r'" for x y r r'
      using that Lst.prems(1) by (intro Lst.IH) (simp_all add: list_all_iff)
  qed (use Lst.prems ys in simp_all)
  with ys show ?case by simp
qed

lemma reads_unique:
  assumes "reads s xs" and "reads s ys"
  shows "xs = ys"
proof -
  have "Lst xs = Lst ys \<and> [] = ([] :: string list)"
    by (rule sexp_toks_unique) (use assms in \<open>simp_all add: reads_def\<close>)
  then show ?thesis by simp
qed

text \<open>Parentheses balance in the tokens of s-expressions.\<close>

definition balance :: "string list \<Rightarrow> int" where
  "balance ts = int (count_list ts ''('') - int (count_list ts '')'')"

lemma balance_simps [simp]:
  "balance [] = 0" "balance (t # ts) = (if t = ''('' then 1 else if t = '')'' then - 1 else 0) + balance ts"
  "balance (ts @ us) = balance ts + balance us"
  by (simp_all add: balance_def count_list_append)

lemma balance_concat: "(\<And>x. x \<in> set xs \<Longrightarrow> balance (f x) = 0) \<Longrightarrow> balance (concat (map f xs)) = 0"
  by (induction xs) auto

lemma balance_sexp: "atoms_ok x \<Longrightarrow> balance (sexp_toks x) = 0"
proof (induction x)
  case (Lst xs)
  then have "balance (sexps_toks xs) = 0" by (intro balance_concat) (auto simp: list_all_iff)
  then show ?case by simp
qed simp

lemma balance_reads: "reads s xs \<Longrightarrow> balance (toks [] s) = 0"
  using balance_concat[of xs sexp_toks] balance_sexp by (auto simp: reads_def list_all_iff)

subsection \<open>Terms and formulas\<close>

definition atom_val :: "(string \<Rightarrow> int) \<Rightarrow> string \<Rightarrow> rat" where
  "atom_val \<xi> w = (case w of c # _ \<Rightarrow> if is_digit c then dec_value w else of_int (\<xi> w) | [] \<Rightarrow> 0)"

fun sx_val :: "(string \<Rightarrow> int) \<Rightarrow> (string \<Rightarrow> int list \<Rightarrow> int) \<Rightarrow> sexp \<Rightarrow> rat" where
  "sx_val \<xi> F (Atom w) = atom_val \<xi> w"
| "sx_val \<xi> F (Lst xs) =
     (case xs of
        Atom w # _ \<Rightarrow>
          (let vs = tl (map (sx_val \<xi> F) xs) in
           if w = ''+'' then sum_list vs
           else if w = ''*'' then prod_list vs
           else if w = ''-'' then (case vs of [v] \<Rightarrow> - v | v # us \<Rightarrow> v - sum_list us | [] \<Rightarrow> 0)
           else of_int (F w (map floor vs)))
      | _ \<Rightarrow> 0)"

fun sx_holds :: "(string \<Rightarrow> int) \<Rightarrow> (string \<Rightarrow> int list \<Rightarrow> int) \<Rightarrow> sexp \<Rightarrow> bool" where
  "sx_holds \<xi> F (Atom w) = False"
| "sx_holds \<xi> F (Lst xs) =
     (case xs of
        Atom w # args \<Rightarrow>
          (let bs = tl (map (sx_holds \<xi> F) xs); vs = map (sx_val \<xi> F) args in
           if w = ''and'' then list_all id bs
           else if w = ''or'' then list_ex id bs
           else if w = ''=>'' then (case bs of [p, q] \<Rightarrow> p \<longrightarrow> q | _ \<Rightarrow> False)
           else if w = ''<='' then (case vs of [a, b] \<Rightarrow> a \<le> b | _ \<Rightarrow> False)
           else if w = ''>='' then (case vs of [a, b] \<Rightarrow> a \<ge> b | _ \<Rightarrow> False)
           else if w = ''='' then (case vs of [a, b] \<Rightarrow> a = b | _ \<Rightarrow> False)
           else False)
      | _ \<Rightarrow> False)"

text \<open>
  A SyGuS problem: functions that make the constraints true wherever the assumptions are, for
  all integer values of the declared variables.
\<close>

definition sygus_solution :: "(string \<Rightarrow> int list \<Rightarrow> int) \<Rightarrow> sexp list \<Rightarrow> bool" where
  "sygus_solution F cmds \<longleftrightarrow>
     (\<forall>\<xi>. (\<forall>p. Lst [Atom ''assume'', p] \<in> set cmds \<longrightarrow> sx_holds \<xi> F p)
        \<longrightarrow> (\<forall>p. Lst [Atom ''constraint'', p] \<in> set cmds \<longrightarrow> sx_holds \<xi> F p))"

subsection \<open>The formula of a list of boxes\<close>

definition lit_sexp :: "int \<Rightarrow> sexp" where
  "lit_sexp t = (if 0 \<le> t then Atom (int_to_string t) else Lst [Atom ''-'', Atom (int_to_string (- t))])"

definition var_atom :: "nat \<Rightarrow> sexp" where
  "var_atom i = Atom (''x'' @ nat_to_string i)"

fun sform_sexp :: "sform \<Rightarrow> sexp" where
  "sform_sexp (SAnd fs) = Lst (Atom ''and'' # map sform_sexp fs)"
| "sform_sexp (SOr fs) = Lst (Atom ''or'' # map sform_sexp fs)"
| "sform_sexp (SLe t i) = Lst [Atom ''<='', lit_sexp t, var_atom i]"
| "sform_sexp (SGe t i) = Lst [Atom ''>='', lit_sexp t, var_atom i]"

lemma not_paren [simp]: "nat_to_string n \<noteq> ''(''" "nat_to_string n \<noteq> '')''"
  using nat_word[of n] by (auto simp: word_ok_def)

lemma lit_sexp_toks [simp]: "sexp_toks (lit_sexp t) = lit_toks t" "atoms_ok (lit_sexp t)"
  by (simp_all add: lit_sexp_def lit_toks_def int_to_string_def)

lemma sform_sexp_toks: "sexp_toks (sform_sexp f) = sform_toks f" "atoms_ok (sform_sexp f)"
  by (induction f) (auto simp: comp_def list_all_iff var_atom_def cong: map_cong)

lemma nat_first_digit: "\<exists>c cs. nat_to_string n = c # cs \<and> is_digit c"
  using nat_to_string_digits[of n] by (cases "nat_to_string n") auto

lemma dec_value_nat [simp]: "dec_value (nat_to_string n) = of_nat n"
proof -
  obtain c cs where c: "nat_to_string n = c # cs" "c \<noteq> CHR ''-''" using nat_to_string_first by blast
  then have neg: "(case nat_to_string n of c # _ \<Rightarrow> c = CHR ''-'' | [] \<Rightarrow> False) = False" by simp
  have fp: "drop (Suc (length (nat_to_string n))) (nat_to_string n) = []" by simp
  show ?thesis unfolding dec_value_def Let_def neg if_False takeWhile_digits fp by (simp add: digits_val_def[of "[]"])
qed

lemma atom_val_nat [simp]: "atom_val \<xi> (nat_to_string n) = of_nat n"
proof -
  obtain c cs where c: "nat_to_string n = c # cs" "is_digit c" using nat_first_digit by blast
  then have "atom_val \<xi> (nat_to_string n) = dec_value (nat_to_string n)" by (simp add: atom_val_def)
  then show ?thesis by simp
qed

lemma sx_val_lit [simp]: "sx_val \<xi> F (lit_sexp t) = of_int t"
  by (simp add: lit_sexp_def int_to_string_def)

lemma sx_val_var [simp]: "sx_val \<xi> F (var_atom i) = of_int (\<xi> (''x'' @ nat_to_string i))"
  by (simp add: var_atom_def atom_val_def is_digit_def)

lemma sx_holds_form: "sx_holds \<xi> F (sform_sexp f) \<longleftrightarrow> sholds (\<lambda>i. \<xi> (''x'' @ nat_to_string i)) f"
  by (induction f) (auto simp: list_all_iff list_ex_iff)

end
