(* ===== verification/Poly_Text.thy ===== *)
theory Poly_Text
  imports Sexp Exprs
begin

text \<open>
  Polynomials as text: \<^verbatim>\<open>vec_str\<close> of \<^verbatim>\<open>include/multinomial.hpp\<close>, \<^verbatim>\<open>multinomial::print\<close>,
  \<^verbatim>\<open>multinomial::smt_print\<close> and \<^verbatim>\<open>print_vector\<close> of \<^verbatim>\<open>src/polynomial.cpp\<close>, and the wrappers of \<^verbatim>\<open>expr\<close>.
  \<^verbatim>\<open>print\<close> lists the monomials of a polynomial; \<^verbatim>\<open>smt_print\<close> writes an SMT-LIB term with the value of
  the polynomial, its coefficients rounded to six digits.
\<close>

subsection \<open>Lists of strings\<close>

record vec_str =
  sz :: nat
  arr :: "string list"

definition vec_new :: vec_str where
  "vec_new = \<lparr>sz = 0, arr = []\<rparr>"

definition vec_push :: "string \<Rightarrow> vec_str \<Rightarrow> vec_str" where
  "vec_push s t = t\<lparr>sz := sz t + 1, arr := arr t @ [s]\<rparr>"

definition vec_at :: "vec_str \<Rightarrow> nat \<Rightarrow> string result" where
  "vec_at t i = (if i < length (arr t) then Inr (arr t ! i) else Inl Undefined)"

text \<open>The assignments append, and end with a mark that \<^verbatim>\<open>sz\<close> does not count.\<close>

definition vec_assign_list :: "vec_str \<Rightarrow> string list \<Rightarrow> vec_str" where
  "vec_assign_list t s = (let es = takeWhile (\<lambda>e. e \<noteq> ''$'') s in \<lparr>sz = sz t + length es, arr = arr t @ es @ [''$'']\<rparr>)"

definition vec_assign :: "vec_str \<Rightarrow> vec_str \<Rightarrow> vec_str result" where
  "vec_assign t s =
     bindR (mapR (vec_at s) [0..<sz s]) (\<lambda>es. Inr \<lparr>sz = sz t + length es, arr = arr t @ es @ [''$'']\<rparr>)"

text \<open>The loop \<^verbatim>\<open>for(int i=0;i<temp.sz;i++)\<close> with its \<^verbatim>\<open>break\<close> at the mark.\<close>

fun until_mark :: "(string \<Rightarrow> 's \<Rightarrow> 's) \<Rightarrow> vec_str \<Rightarrow> nat list \<Rightarrow> 's \<Rightarrow> 's result" where
  "until_mark f t [] s = Inr s"
| "until_mark f t (i # is) s = bindR (vec_at t i) (\<lambda>e. if e = ''$'' then Inr s else until_mark f t is (f e s))"

definition print_vector :: "vec_str \<Rightarrow> string result" where
  "print_vector t = bindR (until_mark (\<lambda>e out. out @ e @ '' + '') t [0..<sz t] []) (\<lambda>out. Inr (out @ [CHR 0x0A]))"

subsection \<open>The monomials of a polynomial\<close>

definition print_sym_text :: "symbol \<Rightarrow> u16 \<Rightarrow> string" where
  "print_sym_text k e = (if e = 0 then [] else ''(s_'' @ nat_to_string (unat (get_id k)) @ ''^'' @ nat_to_string (unat e) @ '')'')"

fun poly_print :: "double multinomial \<Rightarrow> vec_str result" where
  "poly_print (MConst s c) = Inr (vec_push ''$'' (if c \<noteq> 0 then vec_push (to_string_d c) vec_new else vec_new))"
| "poly_print (MNode s k m) =
     bindR (foldR (\<lambda>(e, r) ans. bindR r (\<lambda>temp.
        until_mark (\<lambda>t. vec_push (t @ print_sym_text k e)) temp [0..<sz temp] ans))
       (map (\<lambda>(e, p). (e, poly_print p)) m) vec_new)
     (\<lambda>ans. Inr (vec_push ''$'' ans))"

definition expr_print :: "double expr \<Rightarrow> vec_str result" where
  "expr_print e = bindR (deref e) poly_print"

subsection \<open>The SMT-LIB term of a polynomial\<close>

definition num_text :: "double \<Rightarrow> string" where
  "num_text c = (if 0 \<le> c then to_string_d c else ''( - '' @ to_string_d (- 1 * c) @ '')'')"

text \<open>The comparison \<^verbatim>\<open>prim_key->get_id()>=idx\<close> converts \<^verbatim>\<open>idx\<close> to an unsigned integer.\<close>

definition sym_text :: "string \<Rightarrow> bool \<Rightarrow> int \<Rightarrow> symbol \<Rightarrow> string" where
  "sym_text var_dep fun_names idx k =
     (if fun_names \<and> (word_of_int idx :: u32) \<le> get_id k then ''( f'' @ nat_to_string (unat (get_id k)) @ '' '' @ var_dep @ '')''
      else ''x'' @ nat_to_string (unat (get_id k)))"

definition pow_text :: "string \<Rightarrow> u16 \<Rightarrow> string" where
  "pow_text sym_temp e =
     (if e = 1 then sym_temp else if e = 0 then ''1''
      else ''( * '' @ concat (replicate (unat e) (sym_temp @ '' '')) @ '')'')"

fun smt_print :: "string \<Rightarrow> bool \<Rightarrow> int \<Rightarrow> double multinomial \<Rightarrow> string" where
  "smt_print var_dep fun_names idx (MConst s c) = num_text c"
| "smt_print var_dep fun_names idx (MNode s k m) =
     (if length m > 1 then ''(+ '' else []) @
     concat (map (\<lambda>(e, temp). ''(* '' @ pow_text (sym_text var_dep fun_names idx k) e @ '' '' @ temp @ '') '')
       (map (\<lambda>(e, p). (e, smt_print var_dep fun_names idx p)) m)) @
     (if length m > 1 then '')'' else [])"

definition expr_smt_print :: "string \<Rightarrow> bool \<Rightarrow> int \<Rightarrow> double expr \<Rightarrow> string result" where
  "expr_smt_print var_dep fun_names idx e = bindR (deref e) (\<lambda>p. Inr (smt_print var_dep fun_names idx p))"

subsection \<open>What print lists\<close>

fun monomials :: "double multinomial \<Rightarrow> (double \<times> (symbol \<times> u16) list) list" where
  "monomials (MConst s c) = (if c \<noteq> 0 then [(c, [])] else [])"
| "monomials (MNode s k m) = concat (map (\<lambda>(e, p). map (\<lambda>(c, ks). (c, ks @ [(k, e)])) (monomials p)) m)"

definition mono_text :: "double \<times> (symbol \<times> u16) list \<Rightarrow> string" where
  "mono_text = (\<lambda>(c, ks). to_string_d c @ concat (map (\<lambda>(k, e). print_sym_text k e) ks))"

lemma until_mark_all:
  assumes "\<And>x. x \<in> set xs \<Longrightarrow> x \<noteq> ''$''"
  shows "until_mark f \<lparr>sz = n, arr = ys @ xs @ [''$'']\<rparr> [length ys..<Suc (length ys + length xs)] s = Inr (fold f xs s)"
  using assms
proof (induction xs arbitrary: ys s)
  case (Cons x xs)
  from Cons.IH[of "ys @ [x]"] Cons.prems show ?case by (subst upt_conv_Cons) (simp_all add: vec_at_def nth_append)
qed (simp add: vec_at_def nth_append)

lemma fold_vec_push: "fold (\<lambda>t. vec_push (g t)) xs v = v\<lparr>sz := sz v + length xs, arr := arr v @ map g xs\<rparr>"
  by (induction xs arbitrary: v) (simp_all add: vec_push_def)

lemma mono_text_mark: "mono_text ck \<noteq> ''$''"
proof -
  obtain c ks where ck: "ck = (c, ks)" by force
  obtain d ds where "nat_to_string (micro c div 10 ^ 6) = d # ds" "is_digit d"
    using nat_to_string_digits[of "micro c div 10 ^ 6"] by (cases "nat_to_string (micro c div 10 ^ 6)") auto
  then show ?thesis by (auto simp: ck mono_text_def to_string_d_def is_digit_def)
qed

lemma poly_print_monos: "poly_print p = Inr \<lparr>sz = Suc (length (monomials p)), arr = map mono_text (monomials p) @ [''$'']\<rparr>"
proof (induction p rule: multinomial_induct)
  case (Node s k m)
  let ?f = "\<lambda>(e, r) ans. bindR r (\<lambda>temp. until_mark (\<lambda>t. vec_push (t @ print_sym_text k e)) temp [0..<sz temp] ans)"
  let ?g = "\<lambda>(e, p). map (\<lambda>(c, ks). (c, ks @ [(k, e)])) (monomials p)"
  have step: "?f (e, poly_print p) v = Inr (v\<lparr>sz := sz v + length (?g (e, p)), arr := arr v @ map mono_text (?g (e, p))\<rparr>)"
    if "(e, p) \<in> set m" for e p v
  proof -
    have "\<And>x. x \<in> set (map mono_text (monomials p)) \<Longrightarrow> x \<noteq> ''$''" using mono_text_mark by auto
    from until_mark_all[where xs = "map mono_text (monomials p)", OF this, where f = "\<lambda>t. vec_push (t @ print_sym_text k e)" and n = "Suc (length (monomials p))" and ys = "[]" and s = v]
    have "?f (e, poly_print p) v = Inr (v\<lparr>sz := sz v + length (monomials p), arr := arr v @ map (\<lambda>t. t @ print_sym_text k e) (map mono_text (monomials p))\<rparr>)"
      by (simp add: Node[OF that] fold_vec_push)
    moreover have "map (\<lambda>t. t @ print_sym_text k e) (map mono_text (monomials p)) = map mono_text (?g (e, p))"
      by (simp add: mono_text_def case_prod_beta)
    ultimately show ?thesis by simp
  qed
  have "foldR ?f (map (\<lambda>(e, p). (e, poly_print p)) m) v
      = Inr (v\<lparr>sz := sz v + length (concat (map ?g m)), arr := arr v @ map mono_text (concat (map ?g m))\<rparr>)" for v
    using step by (induction m arbitrary: v) (auto simp: case_prod_beta)
  from this[of vec_new] show ?case by (simp add: vec_new_def vec_push_def comp_def case_prod_beta)
qed (simp add: vec_new_def vec_push_def mono_text_def)

lemma monos_eval: "(\<Sum>(c, ks)\<leftarrow>monomials p. c * (\<Prod>(k, e)\<leftarrow>ks. \<rho> (get_id k) ^ unat e)) = eval \<rho> p"
proof (induction p rule: multinomial_induct)
  case (Node s k m)
  let ?v = "\<lambda>(c, ks). c * (\<Prod>(k, e)\<leftarrow>ks. \<rho> (get_id k) ^ unat e)"
  have scale: "(\<Sum>ck\<leftarrow>map (\<lambda>(c, ks). (c, ks @ [(k, e)])) ms. ?v ck) = \<rho> (get_id k) ^ unat e * (\<Sum>ck\<leftarrow>ms. ?v ck)" for e ms
    by (induction ms) (auto simp: algebra_simps)
  have "(\<Sum>ck\<leftarrow>concat (map (\<lambda>(e, p). map (\<lambda>(c, ks). (c, ks @ [(k, e)])) (monomials p)) m). ?v ck)
      = (\<Sum>(e, p)\<leftarrow>m. \<rho> (get_id k) ^ unat e * eval \<rho> p)"
    using Node
  proof (induction m)
    case (Cons ep m)
    obtain e p where ep: "ep = (e, p)" by force
    from Cons.prems[of e p] have p: "(\<Sum>ck\<leftarrow>monomials p. ?v ck) = eval \<rho> p" by (simp add: ep)
    have "(\<Sum>ck\<leftarrow>concat (map (\<lambda>(e, p). map (\<lambda>(c, ks). (c, ks @ [(k, e)])) (monomials p)) m). ?v ck)
        = (\<Sum>(e, p)\<leftarrow>m. \<rho> (get_id k) ^ unat e * eval \<rho> p)" by (rule Cons.IH) (use Cons.prems in auto)
    then show ?case unfolding ep list.map concat.simps prod.case map_append sum_list_append scale p by simp
  qed simp
  then show ?case by simp
qed simp

subsection \<open>The tokens of the term\<close>

text \<open>Texts whose last word needs a delimiter after it.\<close>

definition lexes_d :: "string \<Rightarrow> string list \<Rightarrow> bool" where
  "lexes_d s ts \<longleftrightarrow> (\<forall>c cs. c \<in> {CHR '' '', CHR '')''} \<longrightarrow> toks [] (s @ c # cs) = ts @ toks [] (c # cs))"

lemma lexes_imp_d: "lexes s ts \<Longrightarrow> lexes_d s ts"
  by (simp add: lexes_def lexes_d_def)

lemma word_lexes_d: "word_ok w \<Longrightarrow> lexes_d w [w]"
  using toks_word_space by (auto simp: lexes_d_def)

lemma lexes_d_simps:
  assumes "lexes_d s ts"
  shows "toks [] (s @ CHR '' '' # cs) = ts @ toks [] cs" and "toks [] (s @ CHR '')'' # cs) = ts @ '')'' # toks [] cs"
  using assms by (auto simp: lexes_d_def)

lemma dec_word: "0 \<le> c \<Longrightarrow> word_ok (to_string_d c)"
proof -
  assume "0 \<le> c"
  moreover have "is_digit d" if "d \<in> set (nat_to_string i) \<union> set (pad_digits 6 j)" for d i j
    using that nat_to_string_digits[of i] pad_digits_digits[of 6 j] by (auto simp: list_all_iff)
  moreover have "\<not> is_digit CHR '' ''" "\<not> is_digit CHR 0x0A" "\<not> is_digit CHR ''(''" "\<not> is_digit CHR '')''" by (simp_all add: is_digit_def)
  ultimately show ?thesis unfolding to_string_d_def word_ok_def by auto
qed

definition num_sexp :: "double \<Rightarrow> sexp" where
  "num_sexp c = (if 0 \<le> c then Atom (to_string_d c) else Lst [Atom ''-'', Atom (to_string_d (- c))])"

definition pow_sexp :: "sexp \<Rightarrow> u16 \<Rightarrow> sexp" where
  "pow_sexp x e = (if e = 1 then x else if e = 0 then Atom ''1'' else Lst (Atom ''*'' # replicate (unat e) x))"

fun poly_sexp :: "(symbol \<Rightarrow> sexp) \<Rightarrow> double multinomial \<Rightarrow> sexp" where
  "poly_sexp S (MConst s c) = num_sexp c"
| "poly_sexp S (MNode s k m) =
     (let ts = map (\<lambda>(e, x). Lst [Atom ''*'', pow_sexp (S k) e, x]) (map (\<lambda>(e, p). (e, poly_sexp S p)) m) in
      if length m > 1 then Lst (Atom ''+'' # ts) else hd ts)"

lemma num_lexes: "lexes_d (num_text c) (sexp_toks (num_sexp c))"
proof (cases "0 \<le> c")
  case False
  then have "lexes_d (to_string_d (- c)) [to_string_d (- c)]" by (intro word_lexes_d dec_word) simp
  from lexes_d_simps(2)[OF this] False show ?thesis by (intro lexes_imp_d) (simp add: lexes_def num_text_def num_sexp_def)
qed (simp add: num_text_def num_sexp_def word_lexes_d dec_word)

lemma pow_lexes:
  assumes "lexes_d t (sexp_toks x)"
  shows "lexes_d (pow_text t e) (sexp_toks (pow_sexp x e))"
proof -
  have "toks [] (concat (replicate n (t @ '' '')) @ cs) = concat (replicate n (sexp_toks x)) @ toks [] cs" for n cs
    using lexes_d_simps(1)[OF assms] by (induction n) simp_all
  moreover have "lexes_d ''1'' [''1'']" by (intro word_lexes_d) (simp add: word_ok_def)
  ultimately show ?thesis using assms
    by (cases "e = 1 \<or> e = 0") (auto simp: pow_text_def pow_sexp_def lexes_def intro!: lexes_imp_d)
qed

fun full :: "'a multinomial \<Rightarrow> bool" where
  "full (MConst s c) = True"
| "full (MNode s k m) = (m \<noteq> [] \<and> list_all (\<lambda>(e, p). full p) m)"

lemma wf_full: "wf_poly p \<Longrightarrow> full p"
  by (induction p rule: wf_poly.induct) (fastforce simp: list_all_iff)+

lemma smt_print_lexes:
  assumes "full p" and "\<And>k. k \<in> set (symbols p) \<Longrightarrow> lexes_d (sym_text dep fn idx k) (sexp_toks (S k))"
  shows "lexes_d (smt_print dep fn idx p) (sexp_toks (poly_sexp S p))"
  using assms
proof (induction p rule: multinomial_induct)
  case (Node s k m)
  let ?t = "\<lambda>(e, p). ''(* '' @ pow_text (sym_text dep fn idx k) e @ '' '' @ smt_print dep fn idx p @ '') ''"
  let ?x = "\<lambda>(e, p). Lst [Atom ''*'', pow_sexp (S k) e, poly_sexp S p]"
  have "lexes (?t ep) (sexp_toks (?x ep))" if "ep \<in> set m" for ep
  proof -
    obtain e p where ep: "ep = (e, p)" by force
    have "lexes_d (pow_text (sym_text dep fn idx k) e) (sexp_toks (pow_sexp (S k) e))" by (intro pow_lexes Node.prems(2)) simp
    moreover have "lexes_d (smt_print dep fn idx p) (sexp_toks (poly_sexp S p))"
      by (rule Node.IH[of e]) (use that ep Node.prems in \<open>auto simp: list_all_iff\<close>)
    ultimately show ?thesis by (simp add: ep lexes_def lexes_d_simps)
  qed
  then have all: "lexes (concat (map ?t m)) (concat (map (\<lambda>ep. sexp_toks (?x ep)) m))" by (rule lexes_concat)
  have tx: "smt_print dep fn idx (MNode s k m) = (if length m > 1 then ''(+ '' else []) @ concat (map ?t m) @ (if length m > 1 then '')'' else [])"
    by (simp add: comp_def prod.case_distrib case_prod_beta')
  show ?case
  proof (cases "length m > 1")
    case True
    then have "lexes (smt_print dep fn idx (MNode s k m)) ([''('', ''+''] @ concat (map (\<lambda>ep. sexp_toks (?x ep)) m) @ ['')''])"
      using all unfolding tx by (simp add: lexes_def)
    with True show ?thesis by (intro lexes_imp_d) (simp add: Let_def comp_def case_prod_beta)
  next
    case False
    with Node.prems(1) obtain ep where m: "m = [ep]" by (cases m; cases "tl m") auto
    with all tx show ?thesis by (intro lexes_imp_d) (simp add: case_prod_beta)
  qed
qed (simp add: num_lexes)

subsection \<open>The value of the term\<close>

lemma round6_minus: "c < 0 \<Longrightarrow> round6 c = - round6 (- c)"
  by (simp add: round6_def micro_def)

lemma atom_val_dec: "0 \<le> c \<Longrightarrow> atom_val \<xi> (to_string_d c) = round6 c"
proof -
  assume c: "0 \<le> c"
  obtain d ds where "nat_to_string (micro c div 10 ^ 6) = d # ds" "is_digit d" using nat_first_digit by blast
  then obtain es where "to_string_d c = d # es" using c by (simp add: to_string_d_def)
  with \<open>is_digit d\<close> have "atom_val \<xi> (to_string_d c) = dec_value (to_string_d c)" by (simp add: atom_val_def)
  then show ?thesis by simp
qed

lemma num_sexp_val [simp]: "sx_val \<xi> F (num_sexp c) = round6 c"
  by (simp add: num_sexp_def atom_val_dec round6_minus)

lemma prod_list_replicate: "prod_list (replicate n (x :: 'a :: comm_monoid_mult)) = x ^ n"
  by (induction n) simp_all

lemma atom_val_one: "atom_val \<xi> ''1'' = 1"
  by (simp add: atom_val_def is_digit_def dec_value_def Let_def digits_val_def digit_val_def)

lemma pow_sexp_val: "sx_val \<xi> F (pow_sexp x e) = sx_val \<xi> F x ^ unat e"
  by (simp add: pow_sexp_def atom_val_one prod_list_replicate)

lemma poly_sexp_val:
  assumes "full p" and "\<And>k. k \<in> set (symbols p) \<Longrightarrow> sx_val \<xi> F (S k) = \<rho> (get_id k)"
  shows "sx_val \<xi> F (poly_sexp S p) = eval \<rho> (map_multinomial round6 p)"
  using assms
proof (induction p rule: multinomial_induct)
  case (Node s k m)
  let ?x = "\<lambda>(e, p). Lst [Atom ''*'', pow_sexp (S k) e, poly_sexp S p]"
  have x: "sx_val \<xi> F (?x ep) = (case ep of (e, p) \<Rightarrow> \<rho> (get_id k) ^ unat e * eval \<rho> (map_multinomial round6 p))" if "ep \<in> set m" for ep
  proof -
    obtain e p where ep: "ep = (e, p)" by force
    have "sx_val \<xi> F (poly_sexp S p) = eval \<rho> (map_multinomial round6 p)"
      by (rule Node.IH[of e]) (use that ep Node.prems in \<open>auto simp: list_all_iff\<close>)
    with Node.prems(2)[of k] show ?thesis by (simp add: ep pow_sexp_val)
  qed
  have sum: "(\<Sum>ep\<leftarrow>m. sx_val \<xi> F (?x ep)) = eval \<rho> (map_multinomial round6 (MNode s k m))"
    using x by (simp add: comp_def case_prod_beta map_prod_def cong: map_cong)
  show ?case
  proof (cases "length m > 1")
    case True
    then show ?thesis using sum by (simp add: Let_def comp_def case_prod_beta)
  next
    case False
    with Node.prems(1) obtain ep where "m = [ep]" by (cases m; cases "tl m") auto
    with sum show ?thesis by (simp add: case_prod_beta)
  qed
qed simp

lemma poly_sexp_ok:
  assumes "full p" and "\<And>k. atoms_ok (S k)"
  shows "atoms_ok (poly_sexp S p)"
  using assms(1)
proof (induction p rule: multinomial_induct)
  case (Const s c)
  have "to_string_d c \<noteq> ''(''" "to_string_d c \<noteq> '')''" if "0 \<le> c" for c
    using dec_word[OF that] by (auto simp: word_ok_def)
  then show ?case by (auto simp: num_sexp_def)
next
  case (Node s k m)
  have "atoms_ok (Lst [Atom ''*'', pow_sexp (S k) e, poly_sexp S p])" if "(e, p) \<in> set m" for e p
    using Node.IH[OF that] Node.prems assms(2)[of k] that by (auto simp: pow_sexp_def list_all_iff)
  then have "list_all atoms_ok (map (\<lambda>(e, x). Lst [Atom ''*'', pow_sexp (S k) e, x]) (map (\<lambda>(e, p). (e, poly_sexp S p)) m))"
    by (auto simp: list_all_iff)
  then show ?case using Node.prems by (cases m) (auto simp: Let_def)
qed

end
