(* ===== verification/Test_Case.thy ===== *)
theory Test_Case
  imports Poly_Text
begin

text \<open>
  \<^verbatim>\<open>sl_parser::make_test_case\<close> of \<^verbatim>\<open>include/parser.hpp\<close>, the last step of every driver: a SyGuS
  problem that asks for the remaining program variables as functions of the first \<open>idx\<close>, on the
  region the search has left.  The model returns the text written to the file.
\<close>

text \<open>The class \<^verbatim>\<open>POQER::pars\<close> keeps a file name and two lists that nothing fills.\<close>

record pars =
  file_name :: string
  pars_eq :: "double expr list"
  pars_ineq :: "double expr list"

definition pars_new :: "string \<Rightarrow> pars" where
  "pars_new afile_name = \<lparr>file_name = afile_name, pars_eq = [], pars_ineq = []\<rparr>"

text \<open>The two functions \<^verbatim>\<open>to_string_smt\<close> of \<^verbatim>\<open>sl_parser\<close>.\<close>

definition sl_double :: "double \<Rightarrow> string result" where
  "sl_double x =
     (if 0 \<le> x then (if in_int_range \<lfloor>x\<rfloor> then Inr (int_to_string \<lfloor>x\<rfloor>) else Inl Undefined)
      else if in_int_range \<lfloor>- 1 * x\<rfloor> then Inr (''( - '' @ int_to_string \<lfloor>- 1 * x\<rfloor> @ '' )'') else Inl Undefined)"

definition sl_int :: "int \<Rightarrow> string result" where
  "sl_int x =
     (if 0 \<le> x then Inr (int_to_string x)
      else if in_int_range (- 1 * x) then Inr (''( - '' @ int_to_string (- 1 * x) @ '' )'') else Inl Undefined)"

definition coord_at :: "(double \<times> double) list \<Rightarrow> int \<Rightarrow> (double \<times> double) result" where
  "coord_at cs i = (if 0 \<le> i \<and> nat i < length cs then Inr (cs ! nat i) else Inl Undefined)"

definition templ_at :: "'a vars \<Rightarrow> int \<Rightarrow> bool result" where
  "templ_at v i = (if 0 \<le> i then var_is_templ v (nat i) else Inl Undefined)"

text \<open>The first loop: the arguments of the functions, and the declarations of the first variables.\<close>

definition input_step :: "int \<Rightarrow> string \<times> string \<times> string \<Rightarrow> (string \<times> string \<times> string) result" where
  "input_step i = (\<lambda>(var_dep, arg_dep, fp).
     bindR (sl_int i) (\<lambda>s.
     Inr (var_dep @ ''(x'' @ s @ '' Int) '', arg_dep @ ''x'' @ s @ '' '',
          fp @ ''(declare-var x'' @ s @ '' Int)'' @ [CHR 0x0A])))"

text \<open>The loops \<^verbatim>\<open>for(int i=idx;i<v.sz();++i) if(!v.is_templ(i))\<close>.\<close>

definition for_outputs :: "'a vars \<Rightarrow> int \<Rightarrow> (int \<Rightarrow> 's \<Rightarrow> 's result) \<Rightarrow> 's \<Rightarrow> 's result" where
  "for_outputs v idx f = foldR (\<lambda>i s. bindR (templ_at v i) (\<lambda>t. if t then Inr s else f i s)) [idx..int (vars_sz v) - 1]"

definition declare_output :: "(double \<times> double) list \<Rightarrow> int \<Rightarrow> string \<Rightarrow> string result" where
  "declare_output cs i fp =
     bindR (sl_int i) (\<lambda>s. bindR (coord_at cs i) (\<lambda>c. bindR (sl_double (fst c)) (\<lambda>lo. bindR (sl_double (snd c)) (\<lambda>hi.
     Inr (fp @ ''(declare-var x'' @ s @ '' Int)'' @ [CHR 0x0A] @
       ''(assume (and (<= '' @ lo @ '' x'' @ s @ '') (<= x'' @ s @ '' '' @ hi @ '') ) )'' @ [CHR 0x0A])))))"

definition synth_output :: "string \<Rightarrow> int \<Rightarrow> string \<Rightarrow> string result" where
  "synth_output var_dep i fp =
     bindR (sl_int i) (\<lambda>s. Inr (fp @ ''(synth-fun f'' @ s @ '' ('' @ var_dep @ '') Int)'' @ [CHR 0x0A]))"

definition constrain_check :: "string \<Rightarrow> int \<Rightarrow> double expr \<Rightarrow> string \<Rightarrow> string result" where
  "constrain_check arg_dep idx e fp =
     bindR (expr_smt_print arg_dep True idx e) (\<lambda>t. Inr (fp @ ''(constraint (<= 0 '' @ t @ '' ) )'' @ [CHR 0x0A]))"

definition bound_output :: "(double \<times> double) list \<Rightarrow> string \<Rightarrow> int \<Rightarrow> string \<Rightarrow> string result" where
  "bound_output cs arg_dep i fp =
     bindR (sl_int i) (\<lambda>s. bindR (coord_at cs i) (\<lambda>c. bindR (sl_double (fst c)) (\<lambda>lo. bindR (sl_double (snd c)) (\<lambda>hi.
     Inr (fp @ ''(constraint (and (<= '' @ lo @ '' ( f'' @ s @ '' '' @ arg_dep @ '') ) (<= ( f'' @ s @ '' '' @ arg_dep @ '') '' @ hi @
       '') ) ) '' @ [CHR 0x0A])))))"

definition premise_check :: "string \<Rightarrow> int \<Rightarrow> double expr \<Rightarrow> string \<Rightarrow> string result" where
  "premise_check var_dep idx e fp =
     bindR (expr_smt_print var_dep False idx e) (\<lambda>t. Inr (fp @ ''(<= 0 '' @ t @ '' ) ''))"

text \<open>The last loop; the text it gathers in \<^verbatim>\<open>tr_expr\<close> lacks a closing parenthesis.\<close>

definition order_output :: "string \<Rightarrow> int \<Rightarrow> int \<Rightarrow> string \<times> string \<Rightarrow> (string \<times> string) result" where
  "order_output arg_dep idx i = (\<lambda>(tr_expr, fp).
     bindR (sl_int idx) (\<lambda>x. bindR (sl_int i) (\<lambda>s.
     Inr (tr_expr @ ''(= x'' @ x @ '' ( f'' @ s @ '' '' @ arg_dep @ '')'',
          fp @ ''(and '' @ tr_expr @ ''(<= x'' @ x @ '' ( f'' @ s @ '' '' @ arg_dep @ '') ) )'' @ [CHR 0x0A]))))"

definition make_test_case :: "double expr list \<Rightarrow> (double \<times> double) list \<Rightarrow> double vars \<Rightarrow> int \<Rightarrow> bounding_box ll option
    \<Rightarrow> string run" where
  "make_test_case e_check cs v idx grids =
     bindO (Some (foldR input_step [0..idx - 1] ([], [], ''(set-logic NIA)'' @ [CHR 0x0A]))) (\<lambda>(var_dep, arg_dep, fp1).
     bindO (case grids of None \<Rightarrow> Some (Inl Undefined) | Some l \<Rightarrow> ll_smt_code idx l) (\<lambda>region.
     Some (
     bindR (for_outputs v idx (declare_output cs) (fp1 @ ''(assume '' @ region @ '' )'' @ [CHR 0x0A])) (\<lambda>fp2.
     bindR (for_outputs v idx (synth_output var_dep) fp2) (\<lambda>fp3.
     bindR (foldR (constrain_check arg_dep idx) e_check fp3) (\<lambda>fp4.
     bindR (for_outputs v idx (bound_output cs arg_dep) fp4) (\<lambda>fp5.
     bindR (foldR (premise_check var_dep idx) e_check (fp5 @ ''(constraint (=> (and '')) (\<lambda>fp6.
     bindR (for_outputs v idx (order_output arg_dep idx) ([], fp6 @ '') (or (<= 1 0) '')) (\<lambda>(tr_expr, fp7).
     Inr (fp7 @ '') ) )'' @ [CHR 0x0A] @ ''(check-synth)'' @ [CHR 0x0A])))))))))) "

subsection \<open>The text of each part\<close>

abbreviation x_name :: "nat \<Rightarrow> string" where
  "x_name i \<equiv> ''x'' @ nat_to_string i"

abbreviation f_name :: "nat \<Rightarrow> string" where
  "f_name i \<equiv> ''f'' @ nat_to_string i"

definition arg_text :: "nat \<Rightarrow> string" where
  "arg_text n = concat (map (\<lambda>i. x_name i @ '' '') [0..<n])"

definition par_text :: "nat \<Rightarrow> string" where
  "par_text n = concat (map (\<lambda>i. ''(x'' @ nat_to_string i @ '' Int) '') [0..<n])"

definition app_sexp :: "nat \<Rightarrow> nat \<Rightarrow> sexp" where
  "app_sexp n i = Lst (Atom (f_name i) # map var_atom [0..<n])"

definition le_sexp :: "sexp \<Rightarrow> sexp \<Rightarrow> sexp" where
  "le_sexp a b = Lst [Atom ''<='', a, b]"

definition sl_sexp :: "double \<Rightarrow> sexp" where
  "sl_sexp x = (if 0 \<le> x then Atom (int_to_string \<lfloor>x\<rfloor>) else Lst [Atom ''-'', Atom (int_to_string \<lfloor>- x\<rfloor>)])"

definition sl_fits :: "double \<Rightarrow> bool" where
  "sl_fits x \<longleftrightarrow> in_int_range \<lfloor>\<bar>x\<bar>\<rfloor>"

lemma toks_nat [simp]: "toks acc (nat_to_string n @ cs) = toks (acc @ nat_to_string n) cs"
  using nat_word[of n] by (intro toks_word) (auto simp: word_ok_def)

lemma sl_int_nat [simp]: "sl_int (int i) = Inr (nat_to_string i)"
  by (simp add: sl_int_def int_to_string_def)

lemma sl_double_lexes: "sl_fits x \<Longrightarrow> \<exists>t. sl_double x = Inr t \<and> lexes_d t (sexp_toks (sl_sexp x))"
proof (cases "0 \<le> x")
  case False
  assume "sl_fits x"
  with False have fit: "in_int_range \<lfloor>- x\<rfloor>" by (simp add: sl_fits_def abs_if)
  have "0 \<le> \<lfloor>- x\<rfloor>" using False by simp
  then have "lexes (''( - '' @ int_to_string \<lfloor>- x\<rfloor> @ '' )'') (sexp_toks (sl_sexp x))"
    using False by (simp add: lexes_def sl_sexp_def int_to_string_def)
  with False fit show ?thesis by (auto simp: sl_double_def intro: lexes_imp_d)
qed (auto simp: sl_fits_def sl_double_def sl_sexp_def intro!: word_lexes_d int_word)

lemma arg_lexes: "lexes (arg_text n) (sexps_toks (map var_atom [0..<n]))"
  unfolding arg_text_def map_map comp_def by (rule lexes_concat) (simp add: lexes_def var_atom_def)

lemma par_lexes: "lexes (par_text n) (sexps_toks (map (\<lambda>i. Lst [var_atom i, Atom ''Int'']) [0..<n]))"
  unfolding par_text_def map_map comp_def by (rule lexes_concat) (simp add: lexes_def var_atom_def)

lemma sym_lexes:
  assumes "n < 2 ^ 32"
  shows "lexes_d (sym_text (arg_text n) True (int n) k)
     (sexp_toks (if n \<le> unat (get_id k) then app_sexp n (unat (get_id k)) else var_atom (unat (get_id k))))"
    and "lexes_d (sym_text dep False (int n) k) (sexp_toks (var_atom (unat (get_id k))))"
proof -
  have cmp: "(word_of_int (int n) :: u32) \<le> get_id k \<longleftrightarrow> n \<le> unat (get_id k)"
    using assms by (simp add: word_le_nat_alt unat_of_nat)
  have x: "lexes_d (x_name i) (sexp_toks (var_atom i))" for i using word_lexes_d[OF var_word[of i]] by (simp add: var_atom_def)
  have "lexes (''( f'' @ nat_to_string i @ '' '' @ arg_text n @ '')'') (sexp_toks (app_sexp n i))" for i
    using arg_lexes[of n] by (simp add: lexes_def app_sexp_def)
  then show "lexes_d (sym_text (arg_text n) True (int n) k)
     (sexp_toks (if n \<le> unat (get_id k) then app_sexp n (unat (get_id k)) else var_atom (unat (get_id k))))"
    using cmp x by (auto simp: sym_text_def intro: lexes_imp_d)
  show "lexes_d (sym_text dep False (int n) k) (sexp_toks (var_atom (unat (get_id k))))"
    using x by (simp add: sym_text_def)
qed

text \<open>Steps that append a text with given tokens to the file.\<close>

definition writes :: "(string \<Rightarrow> string result) \<Rightarrow> string list \<Rightarrow> bool" where
  "writes f ts \<longleftrightarrow> (\<exists>t. (\<forall>fp. f fp = Inr (fp @ t)) \<and> lexes t ts)"

lemma writesI: "(\<And>fp. f fp = Inr (fp @ t)) \<Longrightarrow> lexes t ts \<Longrightarrow> writes f ts"
  by (auto simp: writes_def)

lemma writes_mapped:
  assumes "list_all2 (\<lambda>e p. writes (f e) (g p)) xs ys"
  shows "writes (foldR f xs) (concat (map g ys))"
  using assms
proof (induction rule: list_all2_induct)
  case Nil
  then show ?case by (simp add: writes_def lexes_def)
next
  case (Cons x xs y ys)
  then obtain t u where t: "\<And>fp. f x fp = Inr (fp @ t)" "lexes t (g y)"
    and u: "\<And>fp. foldR f xs fp = Inr (fp @ u)" "lexes u (concat (map g ys))" by (auto simp: writes_def)
  show ?case by (rule writesI[of _ "t @ u"]) (use t u lexes_append[OF t(2) u(2)] in simp_all)
qed

lemma upto_nat: "[int a..int b - 1] = map int [a..<b]"
proof (induction b)
  case (Suc b)
  show ?case
  proof (cases "a \<le> b")
    case True
    then have "[int a..int b] = [int a..int b - 1] @ [int b]" using upto_rec2[of "int a" "int b"] by simp
    with Suc True show ?thesis by simp
  qed simp
qed simp

text \<open>The program variables from \<open>n\<close> on that are no templates.\<close>

definition outputs :: "'a vars \<Rightarrow> nat \<Rightarrow> nat list \<Rightarrow> bool" where
  "outputs v n outs \<longleftrightarrow> (\<exists>T. (\<forall>i. n \<le> i \<and> i < vars_sz v \<longrightarrow> templ_at v (int i) = Inr (T i)) \<and> outs = filter (\<lambda>i. \<not> T i) [n..<vars_sz v])"

lemma for_outputs_fold: "outputs v n outs \<Longrightarrow> for_outputs v (int n) f s = foldR f (map int outs) s"
proof -
  assume "outputs v n outs"
  then obtain T where T: "\<And>i. n \<le> i \<Longrightarrow> i < vars_sz v \<Longrightarrow> templ_at v (int i) = Inr (T i)"
    and outs: "outs = filter (\<lambda>i. \<not> T i) [n..<vars_sz v]" by (auto simp: outputs_def)
  have "foldR (\<lambda>i s. bindR (templ_at v i) (\<lambda>t. if t then Inr s else f i s)) (map int xs) s
      = foldR f (map int (filter (\<lambda>i. \<not> T i) xs)) s" if "set xs \<subseteq> {n..<vars_sz v}" for xs
    using that T by (induction xs arbitrary: s) (auto intro!: bindR_cong)
  from this[of "[n..<vars_sz v]"] show ?thesis unfolding for_outputs_def upto_nat outs by simp
qed

definition app_sym :: "nat \<Rightarrow> symbol \<Rightarrow> sexp" where
  "app_sym n k = (if n \<le> unat (get_id k) then app_sexp n (unat (get_id k)) else var_atom (unat (get_id k)))"

definition var_sym :: "symbol \<Rightarrow> sexp" where
  "var_sym k = var_atom (unat (get_id k))"

definition decl_cmd :: "sexp \<Rightarrow> sexp" where
  "decl_cmd x = Lst [Atom ''declare-var'', x, Atom ''Int'']"

definition bounds_sexp :: "(double \<times> double) list \<Rightarrow> nat \<Rightarrow> sexp \<Rightarrow> sexp" where
  "bounds_sexp cs i x = Lst [Atom ''and'', le_sexp (sl_sexp (fst (cs ! i))) x, le_sexp x (sl_sexp (snd (cs ! i)))]"

definition nonneg_sexp :: "(symbol \<Rightarrow> sexp) \<Rightarrow> double multinomial \<Rightarrow> sexp" where
  "nonneg_sexp S p = le_sexp (Atom ''0'') (poly_sexp S p)"

lemmas sexp_defs = le_sexp_def decl_cmd_def bounds_sexp_def nonneg_sexp_def

definition out_fits :: "(double \<times> double) list \<Rightarrow> nat \<Rightarrow> bool" where
  "out_fits cs i \<longleftrightarrow> i < length cs \<and> sl_fits (fst (cs ! i)) \<and> sl_fits (snd (cs ! i))"

lemma out_bounds_text:
  assumes "out_fits cs i"
  obtains lo hi where "coord_at cs (int i) = Inr (cs ! i)" "sl_double (fst (cs ! i)) = Inr lo" "sl_double (snd (cs ! i)) = Inr hi"
    "lexes_d lo (sexp_toks (sl_sexp (fst (cs ! i))))" "lexes_d hi (sexp_toks (sl_sexp (snd (cs ! i))))"
  using assms sl_double_lexes[of "fst (cs ! i)"] sl_double_lexes[of "snd (cs ! i)"] by (auto simp: out_fits_def coord_at_def)

lemma declare_writes:
  assumes "out_fits cs i"
  shows "writes (declare_output cs (int i))
     (sexps_toks [decl_cmd (var_atom i), Lst [Atom ''assume'', bounds_sexp cs i (var_atom i)]])"
proof -
  obtain lo hi where b: "coord_at cs (int i) = Inr (cs ! i)" "sl_double (fst (cs ! i)) = Inr lo" "sl_double (snd (cs ! i)) = Inr hi"
    "lexes_d lo (sexp_toks (sl_sexp (fst (cs ! i))))" "lexes_d hi (sexp_toks (sl_sexp (snd (cs ! i))))"
    by (rule out_bounds_text[OF assms])
  show ?thesis by (rule writesI, (simp add: declare_output_def b(1-3) lexes_def lexes_d_simps[OF b(4)] lexes_d_simps[OF b(5)] sexp_defs var_atom_def)+)
qed

lemma synth_writes:
  "writes (synth_output (par_text n) (int i))
     (sexp_toks (Lst [Atom ''synth-fun'', Atom (f_name i), Lst (map (\<lambda>i. Lst [var_atom i, Atom ''Int'']) [0..<n]), Atom ''Int'']))"
  by (rule writesI, simp add: synth_output_def) (use par_lexes[of n] in \<open>simp add: lexes_def\<close>)

lemma bound_writes:
  assumes "out_fits cs i"
  shows "writes (bound_output cs (arg_text n) (int i)) (sexp_toks (Lst [Atom ''constraint'', bounds_sexp cs i (app_sexp n i)]))"
proof -
  obtain lo hi where b: "coord_at cs (int i) = Inr (cs ! i)" "sl_double (fst (cs ! i)) = Inr lo" "sl_double (snd (cs ! i)) = Inr hi"
    "lexes_d lo (sexp_toks (sl_sexp (fst (cs ! i))))" "lexes_d hi (sexp_toks (sl_sexp (snd (cs ! i))))"
    by (rule out_bounds_text[OF assms])
  show ?thesis
    by (rule writesI, simp add: bound_output_def b(1-3)) (use arg_lexes[of n] in \<open>simp add: lexes_def lexes_d_simps[OF b(4)] lexes_d_simps[OF b(5)] sexp_defs app_sexp_def\<close>)
qed

lemma constrain_writes:
  assumes "deref e = Inr p" "full p" "n < 2 ^ 32"
  shows "writes (constrain_check (arg_text n) (int n) e) (sexp_toks (Lst [Atom ''constraint'', nonneg_sexp (app_sym n) p]))"
proof -
  have "lexes_d (smt_print (arg_text n) True (int n) p) (sexp_toks (poly_sexp (app_sym n) p))"
    by (rule smt_print_lexes[OF assms(2)]) (use sym_lexes(1)[OF assms(3)] in \<open>simp add: app_sym_def\<close>)
  from lexes_d_simps[OF this] show ?thesis
    by - (rule writesI, (simp add: constrain_check_def expr_smt_print_def assms(1) lexes_def sexp_defs)+)
qed

lemma premise_writes:
  assumes "deref e = Inr p" "full p" "n < 2 ^ 32"
  shows "writes (premise_check dep (int n) e) (sexp_toks (nonneg_sexp var_sym p))"
proof -
  have "lexes_d (smt_print dep False (int n) p) (sexp_toks (poly_sexp var_sym p))"
    by (rule smt_print_lexes[OF assms(2)]) (use sym_lexes(2)[OF assms(3)] in \<open>simp add: var_sym_def\<close>)
  from lexes_d_simps[OF this] show ?thesis
    by - (rule writesI, (simp add: premise_check_def expr_smt_print_def assms(1) lexes_def sexp_defs)+)
qed

lemma input_text:
  "foldR input_step [0..int n - 1] ([], [], fp)
     = Inr (par_text n, arg_text n, fp @ concat (map (\<lambda>i. ''(declare-var x'' @ nat_to_string i @ '' Int)'' @ [CHR 0x0A]) [0..<n]))"
proof -
  have "foldR input_step (map int [0..<n]) ([], [], fp)
     = Inr (par_text n, arg_text n, fp @ concat (map (\<lambda>i. ''(declare-var x'' @ nat_to_string i @ '' Int)'' @ [CHR 0x0A]) [0..<n]))"
    by (induction n) (simp_all add: par_text_def arg_text_def foldR_append input_step_def)
  then show ?thesis using upto_nat[of 0 n] by simp
qed

lemma input_lexes:
  "lexes (concat (map (\<lambda>i. ''(declare-var x'' @ nat_to_string i @ '' Int)'' @ [CHR 0x0A]) [0..<n]))
     (sexps_toks (map (\<lambda>i. decl_cmd (var_atom i)) [0..<n]))"
  unfolding map_map comp_def by (rule lexes_concat) (simp add: lexes_def decl_cmd_def var_atom_def)

text \<open>The tokens of the last loop: the premises gathered in \<^verbatim>\<open>tr_expr\<close> stay open.\<close>

fun order_toks :: "nat \<Rightarrow> string list \<Rightarrow> nat list \<Rightarrow> string list" where
  "order_toks n tr [] = []"
| "order_toks n tr (i # is) =
     [''('', ''and''] @ tr @ sexp_toks (le_sexp (var_atom n) (app_sexp n i)) @ ['')''] @
     order_toks n (tr @ [''('', ''=''] @ sexp_toks (var_atom n) @ sexp_toks (app_sexp n i)) is"

lemma order_text:
  assumes "lexes tr ts"
  shows "\<exists>tr' t. (\<forall>fp. foldR (order_output (arg_text n) (int n)) (map int outs) (tr, fp) = Inr (tr', fp @ t)) \<and> lexes t (order_toks n ts outs)"
  using assms
proof (induction outs arbitrary: tr ts)
  case Nil
  then show ?case by (simp add: lexes_def)
next
  case (Cons i outs)
  let ?tr = "tr @ ''(= x'' @ nat_to_string n @ '' ( f'' @ nat_to_string i @ '' '' @ arg_text n @ '')''"
  let ?ts = "ts @ [''('', ''=''] @ sexp_toks (var_atom n) @ sexp_toks (app_sexp n i)"
  let ?u = "''(and '' @ tr @ ''(<= x'' @ nat_to_string n @ '' ( f'' @ nat_to_string i @ '' '' @ arg_text n @ '') ) )'' @ [CHR 0x0A]"
  have "lexes ?tr ?ts" using Cons.prems arg_lexes[of n] by (simp add: lexes_def app_sexp_def var_atom_def)
  from Cons.IH[OF this] obtain tr' t where t: "\<And>fp. foldR (order_output (arg_text n) (int n)) (map int outs) (?tr, fp) = Inr (tr', fp @ t)"
    "lexes t (order_toks n ?ts outs)" by blast
  have u: "lexes ?u ([''('', ''and''] @ ts @ sexp_toks (le_sexp (var_atom n) (app_sexp n i)) @ ['')''])"
    using Cons.prems arg_lexes[of n] by (simp add: lexes_def app_sexp_def var_atom_def le_sexp_def)
  have "order_output (arg_text n) (int n) (int i) (tr, fp) = Inr (?tr, fp @ ?u)" for fp by (simp add: order_output_def)
  then have "foldR (order_output (arg_text n) (int n)) (map int (i # outs)) (tr, fp) = Inr (tr', fp @ ?u @ t)" for fp
    using t(1) by simp
  moreover have "lexes (?u @ t) (order_toks n ts (i # outs))" using lexes_append[OF u t(2)] by simp
  ultimately show ?case by blast
qed

subsection \<open>The text of the file\<close>

definition front_cmds :: "nat \<Rightarrow> (double \<times> double) list \<Rightarrow> sexp \<Rightarrow> nat list \<Rightarrow> double multinomial list \<Rightarrow> sexp list" where
  "front_cmds n cs region outs polys =
     [Lst [Atom ''set-logic'', Atom ''NIA'']] @ map (\<lambda>i. decl_cmd (var_atom i)) [0..<n] @ [Lst [Atom ''assume'', region]] @
     concat (map (\<lambda>i. [decl_cmd (var_atom i), Lst [Atom ''assume'', bounds_sexp cs i (var_atom i)]]) outs) @
     map (\<lambda>i. Lst [Atom ''synth-fun'', Atom (f_name i), Lst (map (\<lambda>i. Lst [var_atom i, Atom ''Int'']) [0..<n]), Atom ''Int'']) outs @
     map (\<lambda>p. Lst [Atom ''constraint'', nonneg_sexp (app_sym n) p]) polys @
     map (\<lambda>i. Lst [Atom ''constraint'', bounds_sexp cs i (app_sexp n i)]) outs"

definition last_toks :: "nat \<Rightarrow> nat list \<Rightarrow> double multinomial list \<Rightarrow> string list" where
  "last_toks n outs polys =
     [''('', ''constraint'', ''('', ''=>''] @ sexp_toks (Lst (Atom ''and'' # map (nonneg_sexp var_sym) polys)) @
     [''('', ''or''] @ sexp_toks (le_sexp (Atom ''1'') (Atom ''0'')) @ order_toks n [] outs @ ['')'', '')'', '')''] @
     sexp_toks (Lst [Atom ''check-synth''])"

lemma sexps_toks_concat: "sexps_toks (concat (map g xs)) = concat (map (\<lambda>x. sexps_toks (g x)) xs)"
  by (induction xs) simp_all

lemma make_test_case_toks:
  assumes l: "linked l as" and fit: "\<forall>b \<in> set (boxes l as). fits_int n b" and n: "n < 2 ^ 32"
    and polys: "map deref e_check = map Inr polys" "\<forall>p \<in> set polys. full p"
    and outs: "outputs v n outs" "\<forall>i \<in> set outs. out_fits cs i"
  shows "\<exists>text f. make_test_case e_check cs v (int n) (Some l) = Some (Inr text)
     \<and> toks [] text = sexps_toks (front_cmds n cs (sform_sexp f) outs polys) @ last_toks n outs polys
     \<and> (\<forall>\<xi>. sholds \<xi> f \<longleftrightarrow> (\<exists>b \<in> set (boxes l as). \<forall>i < n. fst (coords b ! i) \<le> of_int (\<xi> i) \<and> of_int (\<xi> i) \<le> snd (coords b ! i)))"
proof -
  from ll_smt_code_text[OF l, of "int n"] fit obtain rt f where r: "ll_smt_code (int n) l = Some (Inr rt)" "lexes rt (sform_toks f)"
    and m: "\<forall>\<xi>. sholds \<xi> f \<longleftrightarrow> (\<exists>b \<in> set (boxes l as). \<forall>i < n. fst (coords b ! i) \<le> of_int (\<xi> i) \<and> of_int (\<xi> i) \<le> snd (coords b ! i))" by auto
  let ?dt = "\<lambda>i. sexps_toks [decl_cmd (var_atom i), Lst [Atom ''assume'', bounds_sexp cs i (var_atom i)]]"
  let ?st = "\<lambda>i. sexp_toks (Lst [Atom ''synth-fun'', Atom (f_name i), Lst (map (\<lambda>i. Lst [var_atom i, Atom ''Int'']) [0..<n]), Atom ''Int''])"
  let ?ct = "\<lambda>p. sexp_toks (Lst [Atom ''constraint'', nonneg_sexp (app_sym n) p])"
  let ?bt = "\<lambda>i. sexp_toks (Lst [Atom ''constraint'', bounds_sexp cs i (app_sexp n i)])"
  have each: "writes (foldR g (map int outs)) (concat (map h outs))" if "\<And>i. i \<in> set outs \<Longrightarrow> writes (g (int i)) (h i)" for g h
    by (rule writes_mapped) (use that in \<open>auto simp: list_all2_conv_all_nth\<close>)
  have poly: "writes (foldR g e_check) (concat (map h polys))"
    if "\<And>e p. deref e = Inr p \<Longrightarrow> p \<in> set polys \<Longrightarrow> writes (g e) (h p)" for g h
  proof (rule writes_mapped, rule list_all2I)
    show len: "length e_check = length polys" using polys(1) by (metis length_map)
    show "\<forall>(e, p) \<in> set (zip e_check polys). writes (g e) (h p)"
      using polys(1) len that by (auto simp: set_zip list_eq_iff_nth_eq)
  qed
  obtain d where d: "\<And>fp. foldR (declare_output cs) (map int outs) fp = Inr (fp @ d)" "lexes d (concat (map ?dt outs))"
    using each[of "declare_output cs" ?dt] declare_writes outs(2) unfolding writes_def by blast
  obtain sy where sy: "\<And>fp. foldR (synth_output (par_text n)) (map int outs) fp = Inr (fp @ sy)" "lexes sy (concat (map ?st outs))"
    using each[of "synth_output (par_text n)" ?st] synth_writes unfolding writes_def by blast
  obtain c where c: "\<And>fp. foldR (constrain_check (arg_text n) (int n)) e_check fp = Inr (fp @ c)" "lexes c (concat (map ?ct polys))"
    using poly[of "constrain_check (arg_text n) (int n)" ?ct] constrain_writes polys(2) n unfolding writes_def by blast
  obtain b where b: "\<And>fp. foldR (bound_output cs (arg_text n)) (map int outs) fp = Inr (fp @ b)" "lexes b (concat (map ?bt outs))"
    using each[of "bound_output cs (arg_text n)" ?bt] bound_writes outs(2) unfolding writes_def by blast
  obtain q where q: "\<And>fp. foldR (premise_check (par_text n) (int n)) e_check fp = Inr (fp @ q)"
      "lexes q (concat (map (\<lambda>p. sexp_toks (nonneg_sexp var_sym p)) polys))"
    using poly[of "premise_check (par_text n) (int n)" "\<lambda>p. sexp_toks (nonneg_sexp var_sym p)"] premise_writes polys(2) n unfolding writes_def by blast
  have "lexes [] []" by (simp add: lexes_def)
  from order_text[OF this] obtain tr t where t: "\<And>fp. foldR (order_output (arg_text n) (int n)) (map int outs) ([], fp) = Inr (tr, fp @ t)"
    "lexes t (order_toks n [] outs)" by blast
  let ?in = "concat (map (\<lambda>i. ''(declare-var x'' @ nat_to_string i @ '' Int)'' @ [CHR 0x0A]) [0..<n])"
  let ?text = "''(set-logic NIA)'' @ [CHR 0x0A] @ ?in @ ''(assume '' @ rt @ '' )'' @ [CHR 0x0A] @ d @ sy @ c @ b
     @ ''(constraint (=> (and '' @ q @ '') (or (<= 1 0) '' @ t @ '') ) )'' @ [CHR 0x0A] @ ''(check-synth)'' @ [CHR 0x0A]"
  have run: "make_test_case e_check cs v (int n) (Some l) = Some (Inr ?text)"
    by (simp add: make_test_case_def input_text r(1) for_outputs_fold[OF outs(1)] d(1) sy(1) c(1) b(1) q(1) t(1))
  note L = r(2) d(2) sy(2) c(2) b(2) q(2) t(2) input_lexes[of n]
  have "lexes ?text (sexps_toks (front_cmds n cs (sform_sexp f) outs polys) @ last_toks n outs polys)"
    using L unfolding lexes_def front_cmds_def last_toks_def by (simp add: sform_sexp_toks comp_def le_sexp_def sexps_toks_concat)
  with run m show ?thesis using lexes_toks by blast
qed

subsection \<open>The problem with one function\<close>

definition tc_cmds :: "nat \<Rightarrow> (double \<times> double) list \<Rightarrow> sexp \<Rightarrow> double multinomial list \<Rightarrow> sexp list" where
  "tc_cmds n cs region polys =
     front_cmds n cs region [n] polys @
     [Lst [Atom ''constraint'', Lst [Atom ''=>'', Lst (Atom ''and'' # map (nonneg_sexp var_sym) polys),
        Lst [Atom ''or'', le_sexp (Atom ''1'') (Atom ''0''), Lst [Atom ''and'', le_sexp (var_atom n) (app_sexp n n)]]]],
      Lst [Atom ''check-synth'']]"

lemma tc_cmds_toks: "sexps_toks (tc_cmds n cs region polys) = sexps_toks (front_cmds n cs region [n] polys) @ last_toks n [n] polys"
  by (simp add: tc_cmds_def last_toks_def)

lemma sym_sexp_ok: "atoms_ok (app_sexp n i)" "atoms_ok (app_sym n k)" "atoms_ok (var_sym k)" "atoms_ok (var_atom i)"
  by (simp_all add: app_sexp_def app_sym_def var_sym_def var_atom_def list_all_iff)

lemma sl_sexp_ok: "atoms_ok (sl_sexp x)"
  by (auto simp: sl_sexp_def int_to_string_def)

lemma tc_cmds_ok: "atoms_ok region \<Longrightarrow> \<forall>p \<in> set polys. full p \<Longrightarrow> list_all atoms_ok (tc_cmds n cs region polys)"
  using poly_sexp_ok[where S = "app_sym n"] poly_sexp_ok[where S = var_sym]
  by (auto simp: tc_cmds_def front_cmds_def sexp_defs sym_sexp_ok sl_sexp_ok list_all_iff)

text \<open>The value of a polynomial, with its coefficients rounded to six digits, at an integer point.\<close>

definition tc_val :: "double multinomial \<Rightarrow> int list \<Rightarrow> rat" where
  "tc_val p xs = eval (\<lambda>i. of_int (xs ! unat i)) (map_multinomial round6 p)"

definition input_of :: "(string \<Rightarrow> int) \<Rightarrow> nat \<Rightarrow> int list" where
  "input_of \<xi> n = map (\<lambda>i. \<xi> (x_name i)) [0..<n]"

lemma app_val: "sx_val \<xi> F (app_sexp n i) = of_int (F (f_name i) (input_of \<xi> n))"
  by (simp add: app_sexp_def input_of_def comp_def)

lemma app_poly_val:
  assumes "full p" "in_range (Suc n) p"
  shows "sx_val \<xi> F (poly_sexp (app_sym n) p) = tc_val p (input_of \<xi> n @ [F (f_name n) (input_of \<xi> n)])"
  unfolding tc_val_def
proof (rule poly_sexp_val[OF assms(1)])
  fix k assume "k \<in> set (symbols p)"
  then have "unat (get_id k) < Suc n" using assms(2) by (auto simp: in_range_def)
  then show "sx_val \<xi> F (app_sym n k) = of_int ((input_of \<xi> n @ [F (f_name n) (input_of \<xi> n)]) ! unat (get_id k))"
    by (cases "unat (get_id k) = n") (auto simp: app_sym_def app_val nth_append input_of_def)
qed

lemma var_poly_val:
  assumes "full p" "in_range (Suc n) p"
  shows "sx_val \<xi> F (poly_sexp var_sym p) = tc_val p (input_of \<xi> n @ [\<xi> (x_name n)])"
  unfolding tc_val_def
proof (rule poly_sexp_val[OF assms(1)])
  fix k assume "k \<in> set (symbols p)"
  then have "unat (get_id k) < Suc n" using assms(2) by (auto simp: in_range_def)
  then show "sx_val \<xi> F (var_sym k) = of_int ((input_of \<xi> n @ [\<xi> (x_name n)]) ! unat (get_id k))"
    by (cases "unat (get_id k) = n") (auto simp: var_sym_def nth_append input_of_def)
qed

lemma sl_sexp_val: "sx_val \<xi> F (sl_sexp x) = of_int (trunc x)"
proof (cases "0 \<le> x")
  case False
  then have "rat_of_nat (nat \<lfloor>- x\<rfloor>) = of_int \<lfloor>- x\<rfloor>" by simp
  with False show ?thesis by (simp add: sl_sexp_def trunc_def int_to_string_def ceiling_def)
qed (simp add: sl_sexp_def trunc_def int_to_string_def)

lemma zero_val: "atom_val \<xi> ''0'' = 0"
  by (simp add: atom_val_def is_digit_def dec_value_def Let_def digits_val_def digit_val_def)

lemma bounds_val:
  "sx_holds \<xi> F (bounds_sexp cs i x) \<longleftrightarrow> of_int (trunc (fst (cs ! i))) \<le> sx_val \<xi> F x \<and> sx_val \<xi> F x \<le> of_int (trunc (snd (cs ! i)))"
  by (simp add: bounds_sexp_def le_sexp_def sl_sexp_val)

lemma nonneg_val: "sx_holds \<xi> F (nonneg_sexp S p) \<longleftrightarrow> 0 \<le> sx_val \<xi> F (poly_sexp S p)"
  by (simp add: nonneg_sexp_def le_sexp_def zero_val)

lemma tc_solution:
  assumes polys: "\<forall>p \<in> set polys. full p \<and> in_range (Suc n) p"
  shows "sygus_solution F (tc_cmds n cs region polys) \<longleftrightarrow>
    (\<forall>\<xi>. sx_holds \<xi> F region \<and> trunc (fst (cs ! n)) \<le> \<xi> (x_name n) \<and> \<xi> (x_name n) \<le> trunc (snd (cs ! n)) \<longrightarrow>
       (let x = input_of \<xi> n; y = F (f_name n) x in
        (\<forall>p \<in> set polys. 0 \<le> tc_val p (x @ [y])) \<and> trunc (fst (cs ! n)) \<le> y \<and> y \<le> trunc (snd (cs ! n))
        \<and> ((\<forall>p \<in> set polys. 0 \<le> tc_val p (x @ [\<xi> (x_name n)])) \<longrightarrow> \<xi> (x_name n) \<le> y)))"
proof -
  have a: "Lst [Atom ''assume'', q] \<in> set (tc_cmds n cs region polys) \<longleftrightarrow> q = region \<or> q = bounds_sexp cs n (var_atom n)" for q
    by (auto simp: tc_cmds_def front_cmds_def decl_cmd_def)
  let ?last = "Lst [Atom ''=>'', Lst (Atom ''and'' # map (nonneg_sexp var_sym) polys),
        Lst [Atom ''or'', le_sexp (Atom ''1'') (Atom ''0''), Lst [Atom ''and'', le_sexp (var_atom n) (app_sexp n n)]]]"
  have c: "Lst [Atom ''constraint'', q] \<in> set (tc_cmds n cs region polys) \<longleftrightarrow>
      q \<in> nonneg_sexp (app_sym n) ` set polys \<or> q = bounds_sexp cs n (app_sexp n n) \<or> q = ?last" for q
    by (auto simp: tc_cmds_def front_cmds_def decl_cmd_def)
  have last: "sx_holds \<xi> F ?last \<longleftrightarrow> ((\<forall>p \<in> set polys. 0 \<le> tc_val p (input_of \<xi> n @ [\<xi> (x_name n)])) \<longrightarrow> \<xi> (x_name n) \<le> F (f_name n) (input_of \<xi> n))" for \<xi>
  proof -
    have "(\<forall>p \<in> set polys. 0 \<le> sx_val \<xi> F (poly_sexp var_sym p)) \<longleftrightarrow> (\<forall>p \<in> set polys. 0 \<le> tc_val p (input_of \<xi> n @ [\<xi> (x_name n)]))"
      using polys var_poly_val by (intro ball_cong) auto
    then show ?thesis by (simp add: list_all_iff nonneg_val le_sexp_def app_val zero_val atom_val_one)
  qed
  have app: "sx_holds \<xi> F (nonneg_sexp (app_sym n) p) \<longleftrightarrow> 0 \<le> tc_val p (input_of \<xi> n @ [F (f_name n) (input_of \<xi> n)])" if "p \<in> set polys" for p \<xi>
    using polys that by (simp add: nonneg_val app_poly_val)
  have A: "(\<forall>q. Lst [Atom ''assume'', q] \<in> set (tc_cmds n cs region polys) \<longrightarrow> sx_holds \<xi> F q)
      \<longleftrightarrow> sx_holds \<xi> F region \<and> sx_holds \<xi> F (bounds_sexp cs n (var_atom n))" for \<xi> unfolding a by blast
  have C: "(\<forall>q. Lst [Atom ''constraint'', q] \<in> set (tc_cmds n cs region polys) \<longrightarrow> sx_holds \<xi> F q)
      \<longleftrightarrow> (\<forall>p \<in> set polys. sx_holds \<xi> F (nonneg_sexp (app_sym n) p)) \<and> sx_holds \<xi> F (bounds_sexp cs n (app_sexp n n)) \<and> sx_holds \<xi> F ?last" for \<xi>
    unfolding c by blast
  have apps: "(\<forall>p \<in> set polys. sx_holds \<xi> F (nonneg_sexp (app_sym n) p))
      \<longleftrightarrow> (\<forall>p \<in> set polys. 0 \<le> tc_val p (input_of \<xi> n @ [F (f_name n) (input_of \<xi> n)]))" for \<xi> using app by blast
  show ?thesis unfolding sygus_solution_def A C apps last bounds_val app_val sx_val_var of_int_le_iff Let_def by blast
qed

end
