(* ===== verification/Driver.thy ===== *)
theory Driver
  imports Driver_Search Vars_Props
begin

text \<open>
  The set-up the drivers \<^verbatim>\<open>tests/test*.cpp\<close> share: a table with \<open>n\<close> program variables and a group
  of bound templates, and for every constraint two Handelman cores, one for the polynomial and
  one for its negation, prepared one after the other with the same table.  The polynomials of
  the constraints are data of a driver and arguments here.
\<close>

definition driver_table :: "nat \<Rightarrow> string \<Rightarrow> (string \<times> double vars) result" where
  "driver_table n aname = bindR (vars_new n 0) (\<lambda>v. add_var_group v (n + n) True aname)"

text \<open>\<^verbatim>\<open>e_c[1]=e_c[0]*(-1)\<close>.\<close>

definition negated :: "double multinomial \<Rightarrow> double multinomial result" where
  "negated r = bindR (ofopt (mult_c r (- 1))) (\<lambda>q. Inr (assign q))"

text \<open>The body of the loop over the constraints: both cores exist before the first is prepared.\<close>

definition driver_constraint :: "nat \<Rightarrow> int \<Rightarrow> string \<Rightarrow> double multinomial
    \<Rightarrow> double vars \<times> double solver list \<times> double solver list
    \<Rightarrow> (double vars \<times> double solver list \<times> double solver list) run" where
  "driver_constraint n d t r = (\<lambda>(v, sls_pos, sls_neg).
     bindO (Some (driver_core n d r v t)) (\<lambda>e1.
     bindO (Some (bindR (negated r) (\<lambda>q. driver_core n d q v t))) (\<lambda>e2.
     bindO (core_prepare e1 v) (\<lambda>(e1', v1).
     bindO (core_prepare e2 v1) (\<lambda>(e2', v2).
       Some (Inr (v2, sls_pos @ [slv e1'], sls_neg @ [slv e2'])))))))"

definition driver_setup :: "nat \<Rightarrow> int \<Rightarrow> string \<Rightarrow> double multinomial list
    \<Rightarrow> (double vars \<times> solver_obj list \<times> solver_obj list) run" where
  "driver_setup n d aname polys =
     bindO (Some (driver_table n aname)) (\<lambda>(t, v).
     bindO (foldO (driver_constraint n d t) polys (v, [], [])) (\<lambda>(v', ps, ns).
       Some (Inr (v', map (Pair v') ps, map (Pair v') ns))))"

subsection \<open>The table\<close>

lemma vars_new_loop_plain:
  assumes "vars_new_loop n v = Inr v'" and "\<forall>x \<in> set (var_arr v). \<exists>k. x = new_symbol k True \<and> \<not> is_template k"
  shows "\<forall>x \<in> set (var_arr v'). \<exists>k. x = new_symbol k True \<and> \<not> is_template k"
  using assms
proof (induction n v arbitrary: v' rule: vars_new_loop.induct)
  case (2 n v)
  then obtain u where u: "push_var v False (''var_'' @ nat_to_string (vars_sz v)) = Inr u"
    and loop: "vars_new_loop n u = Inr v'" by (auto split: sum.splits)
  have "\<forall>x \<in> set (var_arr u). \<exists>k. x = new_symbol k True \<and> \<not> is_template k"
    using u "2.prems"(2) by (auto simp: push_var_def symbol_new_def split: if_splits)
  from "2.IH"[OF u loop this] show ?case .
qed simp

lemma driver_table_ok:
  assumes "driver_table n aname = Inr (t, v)" and "n + n + n < 2 ^ 31"
  shows "driver_vars n t v"
proof -
  from assms(1) obtain v0 where v0: "vars_new n 0 = Inr v0" and grp: "add_var_group v0 (n + n) True aname = Inr (t, v)"
    by (auto simp: driver_table_def bindR_Inr)
  have ok: "vars_ok v0" "length (var_arr v0) = n" using vars_new_ok[OF v0] by simp_all
  have plain: "\<forall>x \<in> set (var_arr v0). \<exists>k. x = new_symbol k True \<and> \<not> is_template k"
    using v0 vars_new_loop_plain[of n "\<lparr>var_arr = [], vmp = [], NUM_SYMBOLS = 0\<rparr>" v0] by (simp add: vars_new_def)
  from grp have loop: "add_group_loop 0 (n + n) True t v0 = Inr v" by (auto simp: add_var_group_def Let_def split: sum.splits)
  from add_group_loop_ok[OF loop ok(1)] ok(2) obtain ks where ks: "vars_ok v" "length ks = n + n"
    "var_arr v = var_arr v0 @ map (\<lambda>k. new_symbol k True) ks" "\<And>i. i < n + n \<Longrightarrow> is_template (ks ! i)"
    "\<And>i. i < n + n \<Longrightarrow> mp_find (vmp v) (member_name t i) = Some (n + i)" by auto
  have "is_template k \<longleftrightarrow> n \<le> i" if "i < length (var_arr v)" "var_arr v ! i = new_symbol k True" for i k
  proof (cases "i < n")
    case True
    then have "var_arr v ! i = var_arr v0 ! i" "var_arr v0 ! i \<in> set (var_arr v0)" using ok(2) by (simp_all add: ks(3) nth_append)
    with plain that(2) True show ?thesis by (auto simp: new_symbol_def)
  next
    case False
    with that ok(2) ks(2,3) ks(4)[of "i - n"] show ?thesis by (auto simp: nth_append new_symbol_def)
  qed
  with ks ok(2) assms(2) show ?thesis by (auto simp: driver_vars_def)
qed

subsection \<open>Names are kept by the preparation\<close>

text \<open>Every name a preparation makes starts with \<^verbatim>\<open>additive_template\<close>.\<close>

definition keeps_names :: "'a vars \<Rightarrow> 'a vars \<Rightarrow> bool" where
  "keeps_names v v' \<longleftrightarrow> (\<forall>name. take 1 name \<noteq> ''a'' \<longrightarrow> mp_find (vmp v') name = mp_find (vmp v) name)"

lemma keeps_names_refl [simp]: "keeps_names v v"
  by (simp add: keeps_names_def)

lemma keeps_names_trans: "keeps_names u v \<Longrightarrow> keeps_names v w \<Longrightarrow> keeps_names u w"
  by (simp add: keeps_names_def)

lemma add_var_names: "add_var v b (CHR ''a'' # cs) = Inr (ref, v') \<Longrightarrow> keeps_names v v' \<and> mp_find (vmp v') ref \<noteq> None"
  by (auto simp: add_var_def push_var_def keeps_names_def Let_def split: sum.splits if_splits)

lemma var_named_same: "mp_find (vmp v) ref \<noteq> None \<Longrightarrow> var_named v ref = Inr (x, v') \<Longrightarrow> v' = v"
  by (auto simp: var_named_def split: option.splits sum.splits)

lemma gen_tail_names:
  assumes "gen_tail ans st = Inr (t, st')"
  shows "keeps_names (fst st) (fst st')"
proof -
  obtain v s where st: "st = (v, s)" by force
  from assms obtain ref v1 x v2 x' v3 s1 where r: "add_var v True ''additive_template'' = Inr (ref, v1)"
    "var_named v1 ref = Inr (x, v2)" "var_named v2 ref = Inr (x', v3)" "st' = (v3, s1)"
    by (auto simp: gen_tail_def st bindR_Inr)
  note n = add_var_names[OF r(1)]
  then have "v2 = v1" using var_named_same[OF _ r(2)] by simp
  moreover have "v3 = v2" using var_named_same[OF _ r(3)] n \<open>v2 = v1\<close> by simp
  ultimately show ?thesis using n by (simp add: st r(4))
qed

lemma gen_loop_names:
  assumes "gen_loop c ids d j ans st = Some (Inr (t, st'))"
  shows "keeps_names (fst st) (fst st')"
proof -
  let ?P = "\<lambda>(c :: 'a handelman_core) (ids :: u32 list) (d :: int) (j :: nat) (ans :: 'a multinomial) (st :: 'a vars \<times> 'a solver)
     (r :: ('a multinomial \<times> 'a vars \<times> 'a solver) result). \<forall>t st'. r = Inr (t, st') \<longrightarrow> keeps_names (fst st) (fst st')"
  have "?P c ids d j ans st (Inr (t, st'))"
  proof (rule gen_loop.raw_induct[where P = ?P, OF _ assms], goal_cases)
    case (1 rec c ids d j ans st r)
    show ?case
    proof (intro allI impI)
      fix t st' assume r: "r = Inr (t, st')"
      show "keeps_names (fst st) (fst st')"
      proof (cases "j < length (lhs c)")
        case j: True
        with 1(2) r have j': "j < length (lhs_degree c)" by (simp split: if_splits)
        with j 1(2) r obtain deg where deg: "int_add d (lhs_degree c ! j) = Inr deg" by (cases "int_add d (lhs_degree c ! j)") auto
        show ?thesis
        proof (cases "deg \<le> max_deg c \<and> cmp_poly ids (lhs c ! j)")
          case True
          with 1(2) j j' deg obtain r1 where r1: "rec c ids deg j (new_const 0 False) st = Some r1"
            and rest: "(case r1 of Inl err \<Rightarrow> Some (Inl err) | Inr (t, st1) \<Rightarrow>
                (case Option.bind (mult (lhs c ! j) t) (add ans) of None \<Rightarrow> Some (Inl Undefined)
                 | Some ans1 \<Rightarrow> rec c ids d (Suc j) ans1 st1)) = Some r"
            by (cases "rec c ids deg j (new_const 0 False) st") simp_all
          from rest r obtain t1 st1 ans1 where "r1 = Inr (t1, st1)" "rec c ids d (Suc j) ans1 st1 = Some r"
            by (auto split: sum.splits option.splits)
          with r1 1(1) r keeps_names_trans show ?thesis by blast
        next
          case False
          with 1(2) j j' deg have "rec c ids d (Suc j) ans st = Some r" by auto
          with 1(1) r show ?thesis by blast
        qed
      next
        case False
        with 1(2) r gen_tail_names[of ans st] show ?thesis by simp
      qed
    qed
  qed
  then show ?thesis by blast
qed

lemma solve_loop_names:
  "solve_loop c rs st = Some (Inr st') \<Longrightarrow> keeps_names (fst st) (fst st')"
proof (induction rs arbitrary: st)
  case (Cons r rs)
  then obtain st1 where st1: "solve_rhs c r st = Some (Inr st1)" "solve_loop c rs st1 = Some (Inr st')"
    by (auto split: Option.bind_splits sum.splits)
  from st1(1) obtain t v s where "gen_pol c 0 0 (ret_id_arr r) st = Some (Inr (t, v, s))" "fst st1 = v"
    by (auto simp: solve_rhs_def bind_eq_Some_conv bindR_Inr)
  then have "keeps_names (fst st) (fst st1)" using gen_loop_names by (fastforce simp: gen_pol_def)
  with Cons.IH[OF st1(2)] show ?case by (blast intro: keeps_names_trans)
qed simp

lemma core_prepare_names: "core_prepare c v = Some (Inr (c', v')) \<Longrightarrow> keeps_names v v'"
  using solve_loop_names[of "make_deg_arr c" _ "(v, slv (make_deg_arr c))"]
  by (auto simp: core_prepare_def Let_def bindR_Inr)

subsection \<open>Preparation of the cores\<close>

text \<open>The name of the group does not start like the names of the preparation.\<close>

definition group_ok :: "string \<Rightarrow> bool" where
  "group_ok t \<longleftrightarrow> t \<noteq> [] \<and> take 1 t \<noteq> ''a''"

lemma group_ok_member: "group_ok t \<Longrightarrow> take 1 (member_name t i) \<noteq> ''a''"
  by (cases t) (auto simp: group_ok_def)

lemma driver_vars_grown:
  assumes dv: "driver_vars n t v" and g: "group_ok t" and names: "keeps_names v v'" and ok: "vars_ok v'"
    and arr: "var_arr v' = var_arr v @ xs" "\<forall>x \<in> set xs. \<exists>k. x = new_symbol k True \<and> is_template k"
  shows "driver_vars n t v'" and "same_base n v v'"
proof -
  have len: "n + n + n \<le> length (var_arr v)" using dv by (simp add: driver_vars_def)
  have "is_template k \<longleftrightarrow> n \<le> i" if i: "i < length (var_arr v')" "var_arr v' ! i = new_symbol k True" for i k
  proof (cases "i < length (var_arr v)")
    case True
    with i dv show ?thesis by (auto simp: driver_vars_def arr(1) nth_append)
  next
    case False
    then have "var_arr v' ! i \<in> set xs" using i(1) by (simp add: arr(1) nth_append)
    with i(2) arr(2) have "is_template k" by (auto simp: new_symbol_def)
    with False len show ?thesis by auto
  qed
  with dv ok len names group_ok_member[OF g] show "driver_vars n t v'"
    by (auto simp: driver_vars_def keeps_names_def arr(1))
  show "same_base n v v'" using len by (simp add: same_base_def arr(1) nth_append)
qed

lemma driver_prepare:
  fixes r :: "double multinomial"
  assumes dv0: "driver_vars n t v0" "same_base n v0 v" and dv: "driver_vars n t v" and g: "group_ok t"
    and r: "wf_poly r" "over n n r" and d: "0 < d" "d < 2 ^ 15" and c: "driver_core n d r v0 t = Inr c"
  shows "core_prepare c v = Some (Inl limit_error)
     \<or> (\<exists>c' v'. core_prepare c v = Some (Inr (c', v')) \<and> driver_vars n t v' \<and> same_base n v v' \<and> vars_sz v \<le> vars_sz v'
          \<and> (\<forall>v2 optimize. optimizer_ok optimize \<longrightarrow> vars_sz v' \<le> vars_sz v2 \<longrightarrow> (v2, slv c') \<in> driver_solvers optimize n r))"
  using core_prepare_spec[OF driver_core_wf[OF dv0 dv r d c]]
proof (elim disjE exE conjE)
  fix v' s' xs es
  let ?c' = "(make_deg_arr c)\<lparr>slv := s'\<rparr>"
  assume run: "core_prepare c v = Some (Inr (?c', v'))"
    and post: "rhs_post n (n + n + n) (make_deg_arr c) (set (rhs_arr c)) (v, slv c) (v', s') xs es"
  have arr: "vars_ok v'" "var_arr v' = var_arr v @ xs" "\<forall>x \<in> set xs. \<exists>k. x = new_symbol k True \<and> is_template k"
    using post by (auto simp: rhs_post_def)
  note grown = driver_vars_grown[OF dv g core_prepare_names[OF run] arr]
  have "(v2, slv ?c') \<in> driver_solvers optimize n r" if "optimizer_ok optimize" "vars_sz v' \<le> vars_sz v2" for v2 optimize
    by (rule driver_solversI[OF that(1) r dv0 dv d c run that(2)])
  moreover have "vars_sz v \<le> vars_sz v'" by (simp add: vars_sz_def arr(2))
  ultimately show ?thesis using run grown by blast
qed simp

lemma negated_ok:
  assumes "wf_poly r" and "over n n r"
  shows "\<exists>q. negated r = Inr q \<and> wf_poly q \<and> over n n q \<and> (\<forall>\<rho>. eval \<rho> q = - eval \<rho> r)"
proof -
  from mult_c_struct[OF assms(1), of "- 1"] obtain q where q: "mult_c r (- 1) = Some q" "wf_poly q" by blast
  have "set (symbols q) \<subseteq> set (symbols r)" by (rule syms.good_mult_c[OF q(1)]) simp
  then have "over n n (assign q)" using assms(2) by (auto simp: over_def)
  with q eval_mult_c[OF q(1) assms(1)] show ?thesis by (simp add: negated_def)
qed

lemma nonneg_at_eval: "over n n r \<Longrightarrow> length x = n \<Longrightarrow> nonneg_at r x \<longleftrightarrow> 0 \<le> eval (\<lambda>i. x ! unat i) r"
proof -
  assume "over n n r" "length x = n"
  then have "substitute x r = Some (eval (\<lambda>i. x ! unat i) r)" by (intro substitute_eval) (auto simp: over_def ret_id_arr_symbols)
  then show ?thesis by (simp add: nonneg_at_def)
qed

text \<open>What is known of the solvers of a list of constraints, for every later table.\<close>

definition solvers_for :: "nat \<Rightarrow> double vars \<Rightarrow> double multinomial list \<Rightarrow> double solver list \<Rightarrow> double solver list \<Rightarrow> bool" where
  "solvers_for n v polys ps ns \<longleftrightarrow> length ps = length polys \<and> length ns = length polys
     \<and> (\<forall>j < length polys. \<exists>q. negated (polys ! j) = Inr q
          \<and> (\<forall>v2 optimize. optimizer_ok optimize \<longrightarrow> vars_sz v \<le> vars_sz v2 \<longrightarrow>
               (v2, ps ! j) \<in> driver_solvers optimize n (polys ! j) \<and> (v2, ns ! j) \<in> driver_solvers optimize n q))"

lemma driver_constraint_ok:
  assumes dv: "driver_vars n t v" and g: "group_ok t" and r: "wf_poly r" "over n n r" and d: "0 < d" "d < 2 ^ 15"
    and sf: "solvers_for n v polys ps ns"
  shows "driver_constraint n d t r (v, ps, ns) = Some (Inl limit_error)
     \<or> (\<exists>v' p m. driver_constraint n d t r (v, ps, ns) = Some (Inr (v', ps @ [p], ns @ [m]))
          \<and> driver_vars n t v' \<and> solvers_for n v' (polys @ [r]) (ps @ [p]) (ns @ [m]))"
proof -
  from negated_ok[OF r] obtain q where q: "negated r = Inr q" "wf_poly q" "over n n q" by blast
  from driver_core_spec[OF dv, of d r] d obtain e1 where e1: "driver_core n d r v t = Inr e1" by auto
  from driver_core_spec[OF dv, of d q] d obtain e2 where e2: "driver_core n d q v t = Inr e2" by auto
  note def = driver_constraint_def e1 e2 q(1)
  from driver_prepare[OF dv same_base_refl dv g r d e1] consider "core_prepare e1 v = Some (Inl limit_error)"
    | c1 v1 where "core_prepare e1 v = Some (Inr (c1, v1))" "driver_vars n t v1" "same_base n v v1" "vars_sz v \<le> vars_sz v1"
      "\<And>v2 optimize. optimizer_ok optimize \<Longrightarrow> vars_sz v1 \<le> vars_sz v2 \<Longrightarrow> (v2, slv c1) \<in> driver_solvers optimize n r" by blast
  then show ?thesis
  proof cases
    case p1: (2 c1 v1)
    from driver_prepare[OF dv p1(3,2) g q(2,3) d e2] consider "core_prepare e2 v1 = Some (Inl limit_error)"
      | c2 v2 where "core_prepare e2 v1 = Some (Inr (c2, v2))" "driver_vars n t v2" "vars_sz v1 \<le> vars_sz v2"
        "\<And>v3 optimize. optimizer_ok optimize \<Longrightarrow> vars_sz v2 \<le> vars_sz v3 \<Longrightarrow> (v3, slv c2) \<in> driver_solvers optimize n q" by blast
    then show ?thesis
    proof cases
      case p2: (2 c2 v2)
      have "\<exists>q'. negated ((polys @ [r]) ! j) = Inr q' \<and> (\<forall>v3 optimize. optimizer_ok optimize \<longrightarrow> vars_sz v2 \<le> vars_sz v3 \<longrightarrow>
          (v3, (ps @ [slv c1]) ! j) \<in> driver_solvers optimize n ((polys @ [r]) ! j)
          \<and> (v3, (ns @ [slv c2]) ! j) \<in> driver_solvers optimize n q')" if j: "j < length (polys @ [r])" for j
      proof (cases "j < length polys")
        case True
        with sf p1(4) p2(3) show ?thesis by (fastforce simp: solvers_for_def nth_append)
      next
        case False
        with j have "j = length polys" by simp
        with sf q(1) p1(5) p2(3,4) show ?thesis by (fastforce simp: solvers_for_def nth_append)
      qed
      then have "solvers_for n v2 (polys @ [r]) (ps @ [slv c1]) (ns @ [slv c2])" using sf by (simp add: solvers_for_def)
      moreover have "driver_constraint n d t r (v, ps, ns) = Some (Inr (v2, ps @ [slv c1], ns @ [slv c2]))"
        by (simp add: def p1(1) p2(1))
      ultimately show ?thesis using p2(2) by blast
    qed (simp add: def p1(1))
  qed (simp add: def)
qed

lemma driver_loop_ok:
  assumes "driver_vars n t v" and "group_ok t" and "0 < d" "d < 2 ^ 15" and "\<forall>r \<in> set rs. wf_poly r \<and> over n n r"
    and "solvers_for n v polys ps ns"
  shows "foldO (driver_constraint n d t) rs (v, ps, ns) = Some (Inl limit_error)
     \<or> (\<exists>v' ps' ns'. foldO (driver_constraint n d t) rs (v, ps, ns) = Some (Inr (v', ps', ns')) \<and> driver_vars n t v' \<and> solvers_for n v' (polys @ rs) ps' ns')"
  using assms
proof (induction rs arbitrary: v polys ps ns)
  case (Cons r rs)
  from driver_constraint_ok[OF Cons.prems(1,2) _ _ Cons.prems(3,4,6), of r] Cons.prems(5)
  consider "driver_constraint n d t r (v, ps, ns) = Some (Inl limit_error)"
    | v' p m where "driver_constraint n d t r (v, ps, ns) = Some (Inr (v', ps @ [p], ns @ [m]))"
      "driver_vars n t v'" "solvers_for n v' (polys @ [r]) (ps @ [p]) (ns @ [m])" by auto
  then show ?case
  proof cases
    case (2 v' p m)
    from Cons.IH[OF 2(2) Cons.prems(2-4) _ 2(3)] Cons.prems(5) 2(1) show ?thesis by auto
  qed simp
qed auto

end
