(* ===== verification/Threads.thy ===== *)
theory Threads
  imports Driver_Search
begin

text \<open>
  The threaded searches \<^verbatim>\<open>run_threads\<close>, \<^verbatim>\<open>run_thread\<close> and \<^verbatim>\<open>run_thread_int\<close> of
  \<^verbatim>\<open>src/approximation.cpp\<close>.  All threads run the same loop over the shared list: under
  \<^verbatim>\<open>data_mutex\<close> take the next pending box, or wait, or leave; without the lock ask the solvers;
  under the lock again put the halves of an undecided box at the end of the list.

  A state has the shared data, the holder of \<^verbatim>\<open>data_mutex\<close> and one program counter per
  thread, and \<open>tstep\<close> relates it to the states one thread can take it to.  The steps are cut where
  other threads can see a difference: a section under \<^verbatim>\<open>data_mutex\<close> is one step up to an access
  to the list that other threads can overtake (\<^verbatim>\<open>ll::remove\<close> runs under the mutex of the list
  only), so placing the halves is two steps, \<^verbatim>\<open>emplace_node\<close> with the test of \<^verbatim>\<open>curr_box\<close>, which
  only holders of \<^verbatim>\<open>data_mutex\<close> touch, and \<^verbatim>\<open>add_node\<close>.  The box under examination is owned by
  its thread, so examining it is one step.  The queries are linear ones (\<^verbatim>\<open>type_\<close> 0), which do
  not change the solver objects.
\<close>

subsection \<open>The work on one box\<close>

text \<open>
  The flag \<open>int_solve\<close> selects \<^verbatim>\<open>run_thread_int\<close>, which drops empty boxes and rounds halves to
  integer bounds.  What comes out is the box with its verdicts and what to do with its node.
\<close>

datatype proc = PRemove bounding_box | PKeep bounding_box | PSplit bounding_box bounding_box | PExit fate bounding_box

definition proc_of :: "fate \<times> bounding_box \<Rightarrow> proc" where
  "proc_of d = (case d of (fate, b) \<Rightarrow>
     (case fate of
        Dropped \<Rightarrow> PRemove (b\<lparr>curr_state := 2\<rparr>)
      | Kept \<Rightarrow> PKeep (b\<lparr>curr_state := 2\<rparr>)
      | Halved nb \<Rightarrow> PSplit nb b))"

definition process_box :: "bool \<Rightarrow> 's query \<Rightarrow> double \<Rightarrow> trie_node option \<Rightarrow> (double \<times> double) list
    \<Rightarrow> 's fragmentation_intersection \<Rightarrow> bounding_box \<Rightarrow> proc run" where
  "process_box int_solve query vol_limit trie bounds st b =
     bindO (in_trie trie bounds b) (\<lambda>present.
     if \<not> present \<or> int_solve \<and> not_valid b then Some (Inr (PRemove b))
     else
       bindO (Some (examine query [0..<length (s_pos st)] 2 (b, s_pos st, s_neg st))) (\<lambda>(r, b', ps, ns).
       case r of
         Completed found \<Rightarrow> bindO (Some (decide vol_limit (n_dirs st) found b')) (\<lambda>d. Some (Inr (proc_of d)))
       | Caught msg \<Rightarrow> bindO (Some (decide vol_limit (n_dirs st) 1 b')) (\<lambda>(fate, b2). Some (Inr (PExit fate b2)))))"

subsection \<open>Threads\<close>

text \<open>
  The program counters: before the lock, in \<^verbatim>\<open>wait_queue.wait\<close> (notified or not), working on a
  node, holding a new half that is not in the list yet, before and after the first part of the
  placing, before the last assignment of the loop body, and after the loop.
\<close>

datatype thread_pc = Top | Waiting bool | Proc addr | Moving addr bounding_box | Appending addr bounding_box | Marking addr | Finished

record 's threads =
  fi :: "'s fragmentation_intersection"
  n_threads_active :: int
  holder :: "nat option"
  pcs :: "thread_pc list"
  exited :: bool

definition set_pc :: "nat \<Rightarrow> thread_pc \<Rightarrow> 's threads \<Rightarrow> 's threads" where
  "set_pc i p T = T\<lparr>pcs := (pcs T)[i := p]\<rparr>"

definition wake_pc :: "thread_pc \<Rightarrow> thread_pc" where
  "wake_pc p = (case p of Waiting _ \<Rightarrow> Waiting True | _ \<Rightarrow> p)"

definition notify_all :: "'s threads \<Rightarrow> 's threads" where
  "notify_all T = T\<lparr>pcs := map wake_pc (pcs T)\<rparr>"

text \<open>\<^verbatim>\<open>run_threads\<close> starts \<open>m\<close> threads; \<^verbatim>\<open>bounds\<close> are those of the head of the list.\<close>

definition run_threads_start :: "nat \<Rightarrow> 's fragmentation_intersection \<Rightarrow> 's threads" where
  "run_threads_start m st = \<lparr>fi = st, n_threads_active = int m, holder = None, pcs = replicate m Top, exited = False\<rparr>"

text \<open>
  The section under the lock at the top of the loop.  The inner loop runs its body once per
  wake-up, so waiting ends the step and waking starts it again.
\<close>

definition take_box :: "nat \<Rightarrow> addr \<Rightarrow> 's threads \<Rightarrow> 's threads result" where
  "take_box i a T =
     (let l = frags (fi T) in
      bindR (box_at l a) (\<lambda>b.
      bindR (set_box a (b\<lparr>curr_state := 1\<rparr>) l) (\<lambda>l'.
      bindR (succ_of l' a) (\<lambda>c.
      Inr (set_pc i (Proc a) (T\<lparr>fi := (fi T)\<lparr>frags := l', curr_box := c\<rparr>\<rparr>))))))"

definition enter :: "nat \<Rightarrow> 's threads \<Rightarrow> 's threads result" where
  "enter i T =
     (let idle = (curr_box (fi T) = None \<and> 0 < n_threads_active T);
          T1 = (if idle then T\<lparr>n_threads_active := n_threads_active T - 1\<rparr> else T) in
      if idle \<and> n_threads_active T1 \<noteq> 0 then Inr (set_pc i (Waiting False) T1)
      else
        (case curr_box (fi T1) of
           None \<Rightarrow> Inr (set_pc i Finished (notify_all T1))
         | Some a \<Rightarrow>
             if n_threads_active T1 = 0 then Inr (set_pc i Finished (notify_all T1))
             else take_box i a T1))"

text \<open>After the work on a box, outside the lock.\<close>

definition round_if :: "bool \<Rightarrow> bounding_box \<Rightarrow> bounding_box" where
  "round_if int_solve b = (if int_solve then round_box 1 b else b)"

definition leave_box :: "bool \<Rightarrow> nat \<Rightarrow> addr \<Rightarrow> proc \<Rightarrow> 's threads \<Rightarrow> 's threads result" where
  "leave_box int_solve i a r T =
     (let l = frags (fi T); put = (\<lambda>p l. set_pc i p (T\<lparr>fi := (fi T)\<lparr>frags := l\<rparr>\<rparr>)) in
      case r of
        PRemove b \<Rightarrow> bindR (set_box a b l) (\<lambda>l1. bindR (remove a l1) (\<lambda>(c, l2). Inr (put Top l2)))
      | PKeep b \<Rightarrow> bindR (set_box a b l) (\<lambda>l1. Inr (put Top l1))
      | PSplit nb b \<Rightarrow> bindR (set_box a b l) (\<lambda>l1. Inr (put (Moving a nb) l1))
      | PExit fate b \<Rightarrow>
          bindR (case fate of
              Halved nb \<Rightarrow>
                bindR (set_box a (round_if int_solve b) l) (\<lambda>l1.
                bindR (emplace_node a l1) (\<lambda>(c, l2). add_node (round_if int_solve nb) l2))
            | _ \<Rightarrow> set_box a b l) (\<lambda>l'. Inr ((put Finished l')\<lparr>exited := True\<rparr>)))"

text \<open>The placing of the halves under the lock, and the last assignment of the loop body.\<close>

definition place :: "bool \<Rightarrow> nat \<Rightarrow> addr \<Rightarrow> bounding_box \<Rightarrow> 's threads \<Rightarrow> 's threads result" where
  "place int_solve i a nb T =
     (let l = frags (fi T) in
      bindR (box_at l a) (\<lambda>b.
      bindR (set_box a (round_if int_solve b) l) (\<lambda>l1.
      bindR (emplace_node a l1) (\<lambda>(c, l2).
      let T1 = T\<lparr>fi := (fi T)\<lparr>frags := l2\<rparr>, holder := Some i\<rparr>;
          T2 = (if curr_box (fi T) = None then notify_all (T1\<lparr>fi := (fi T1)\<lparr>curr_box := Some a\<rparr>\<rparr>) else T1) in
      Inr (set_pc i (Appending a (round_if int_solve nb)) T2)))))"

definition append_half :: "nat \<Rightarrow> addr \<Rightarrow> bounding_box \<Rightarrow> 's threads \<Rightarrow> 's threads result" where
  "append_half i a nb T =
     bindR (add_node nb (frags (fi T))) (\<lambda>l. Inr (set_pc i (Marking a) (T\<lparr>fi := (fi T)\<lparr>frags := l\<rparr>, holder := None\<rparr>)))"

definition mark_done :: "nat \<Rightarrow> addr \<Rightarrow> 's threads \<Rightarrow> 's threads result" where
  "mark_done i a T =
     bindR (box_at (frags (fi T)) a) (\<lambda>b.
     bindR (set_box a (b\<lparr>curr_state := 2\<rparr>) (frags (fi T))) (\<lambda>l. Inr (set_pc i Top (T\<lparr>fi := (fi T)\<lparr>frags := l\<rparr>\<rparr>))))"

text \<open>
  The steps of thread \<open>i\<close>.  A waiting thread goes on when it was notified; \<open>spurious\<close> wake-ups,
  which the standard allows, are a relation of their own.
\<close>

definition wake_up :: "nat \<Rightarrow> 's threads \<Rightarrow> 's threads result" where
  "wake_up i T = enter i (T\<lparr>n_threads_active := n_threads_active T + 1\<rparr>)"

inductive tstep :: "bool \<Rightarrow> 's query \<Rightarrow> double \<Rightarrow> trie_node option \<Rightarrow> (double \<times> double) list \<Rightarrow> nat \<Rightarrow> 's threads \<Rightarrow> 's threads \<Rightarrow> bool"
  for int_solve query vol_limit trie bounds i where
  lock: "i < length (pcs T) \<Longrightarrow> \<not> exited T \<Longrightarrow> pcs T ! i = Top \<Longrightarrow> holder T = None \<Longrightarrow> enter i T = Inr T'
    \<Longrightarrow> tstep int_solve query vol_limit trie bounds i T T'"
| wake: "i < length (pcs T) \<Longrightarrow> \<not> exited T \<Longrightarrow> pcs T ! i = Waiting True \<Longrightarrow> holder T = None \<Longrightarrow> wake_up i T = Inr T'
    \<Longrightarrow> tstep int_solve query vol_limit trie bounds i T T'"
| process: "i < length (pcs T) \<Longrightarrow> \<not> exited T \<Longrightarrow> pcs T ! i = Proc a \<Longrightarrow> box_at (frags (fi T)) a = Inr b
    \<Longrightarrow> process_box int_solve query vol_limit trie bounds (fi T) b = Some (Inr r) \<Longrightarrow> leave_box int_solve i a r T = Inr T'
    \<Longrightarrow> tstep int_solve query vol_limit trie bounds i T T'"
| place: "i < length (pcs T) \<Longrightarrow> \<not> exited T \<Longrightarrow> pcs T ! i = Moving a nb \<Longrightarrow> holder T = None \<Longrightarrow> place int_solve i a nb T = Inr T'
    \<Longrightarrow> tstep int_solve query vol_limit trie bounds i T T'"
| append: "i < length (pcs T) \<Longrightarrow> \<not> exited T \<Longrightarrow> pcs T ! i = Appending a nb \<Longrightarrow> append_half i a nb T = Inr T'
    \<Longrightarrow> tstep int_solve query vol_limit trie bounds i T T'"
| mark: "i < length (pcs T) \<Longrightarrow> \<not> exited T \<Longrightarrow> pcs T ! i = Marking a \<Longrightarrow> mark_done i a T = Inr T'
    \<Longrightarrow> tstep int_solve query vol_limit trie bounds i T T'"

definition spurious :: "nat \<Rightarrow> 's threads \<Rightarrow> 's threads \<Rightarrow> bool" where
  "spurious i T T' \<longleftrightarrow> i < length (pcs T) \<and> \<not> exited T \<and> pcs T ! i = Waiting False \<and> holder T = None \<and> wake_up i T = Inr T'"

inductive_cases tstep_cases: "tstep int_solve query vol_limit trie bounds i T T'"

text \<open>The states the threads of a search can reach.\<close>

inductive reach :: "bool \<Rightarrow> 's query \<Rightarrow> double \<Rightarrow> trie_node option \<Rightarrow> (double \<times> double) list \<Rightarrow> 's threads \<Rightarrow> 's threads \<Rightarrow> bool"
  for int_solve query vol_limit trie bounds T0 where
  start: "reach int_solve query vol_limit trie bounds T0 T0"
| step: "reach int_solve query vol_limit trie bounds T0 T \<Longrightarrow> tstep int_solve query vol_limit trie bounds i T T'
    \<Longrightarrow> reach int_solve query vol_limit trie bounds T0 T'"
| spur: "reach int_solve query vol_limit trie bounds T0 T \<Longrightarrow> spurious i T T' \<Longrightarrow> reach int_solve query vol_limit trie bounds T0 T'"

text \<open>
  The two thread functions with the linear queries.  \<^verbatim>\<open>run_thread\<close> is modelled with the effect
  its releases of \<^verbatim>\<open>data_mutex\<close> are meant to have; \<open>run_thread_locks\<close> below is about them.
\<close>

definition run_thread :: "double optimizer \<Rightarrow> (zform list \<Rightarrow> check_result) \<Rightarrow> id_map \<Rightarrow> (double \<times> double) list \<Rightarrow> double
    \<Rightarrow> trie_node option \<Rightarrow> nat \<Rightarrow> solver_obj threads \<Rightarrow> solver_obj threads \<Rightarrow> bool" where
  "run_thread optimize check id_map bounds vol_limit trie =
     tstep False (query_of optimize check id_map 0) vol_limit trie bounds"

definition run_thread_int :: "double optimizer \<Rightarrow> (zform list \<Rightarrow> check_result) \<Rightarrow> id_map \<Rightarrow> (double \<times> double) list \<Rightarrow> double
    \<Rightarrow> trie_node option \<Rightarrow> nat \<Rightarrow> solver_obj threads \<Rightarrow> solver_obj threads \<Rightarrow> bool" where
  "run_thread_int optimize check id_map bounds vol_limit trie =
     tstep True (query_of optimize check id_map 0) vol_limit trie bounds"

subsection \<open>The lock operations of an iteration\<close>

text \<open>
  \<^verbatim>\<open>boost::unique_lock\<close> remembers whether it owns the mutex and releases it in its destructor.
  Releasing a mutex that is not held is undefined.  \<^verbatim>\<open>run_thread\<close> releases the mutex directly,
  so its \<^verbatim>\<open>unique_lock\<close> does not know.
\<close>

datatype lock_op = UCtor | ULock | UUnlock | UDtor | MLock | MUnlock

fun lock_op_step :: "lock_op \<Rightarrow> bool \<times> bool \<Rightarrow> (bool \<times> bool) result" where
  "lock_op_step UCtor (held, owns) = Inr (True, True)"
| "lock_op_step ULock (held, owns) = (if owns then Inl (Throw ''lock_error'') else Inr (True, True))"
| "lock_op_step UUnlock (held, owns) = (if \<not> owns then Inl (Throw ''lock_error'') else if held then Inr (False, False) else Inl Undefined)"
| "lock_op_step UDtor (held, owns) = (if \<not> owns then Inr (held, owns) else if held then Inr (False, False) else Inl Undefined)"
| "lock_op_step MLock (held, owns) = Inr (True, owns)"
| "lock_op_step MUnlock (held, owns) = (if held then Inr (False, owns) else Inl Undefined)"

text \<open>The operations of one iteration that takes a box, with or without a split.\<close>

definition run_thread_locks :: "bool \<Rightarrow> lock_op list" where
  "run_thread_locks split = [UCtor, MUnlock] @ (if split then [MLock, MUnlock] else []) @ [UDtor]"

definition run_thread_int_locks :: "bool \<Rightarrow> lock_op list" where
  "run_thread_int_locks split = [UCtor, UUnlock] @ (if split then [ULock, UUnlock] else []) @ [UDtor]"


end
