(* ===== verification/Threads_Laws.thy ===== *)
theory Threads_Laws
  imports Threads
begin

text \<open>
  The invariant of the threaded search.  The list is a chain of boxes that are done or in work,
  followed by the pending ones, which begin at \<^verbatim>\<open>curr_box\<close>; every box in work belongs to one
  thread; \<^verbatim>\<open>n_threads_active\<close> counts the threads that neither wait nor have left; and the points
  to be kept are in a box of the list or in a half that some thread is about to append.
\<close>

subsection \<open>Boxes up to their processing state\<close>

definition same_box :: "bounding_box \<Rightarrow> bounding_box \<Rightarrow> bool" where
  "same_box b b' \<longleftrightarrow> coords b' = coords b \<and> curr_state_vec b' = curr_state_vec b \<and> confidence b' = confidence b"

lemma same_box_state [simp]: "same_box b (b\<lparr>curr_state := v\<rparr>)" "same_box b b"
  by (simp_all add: same_box_def)

lemma same_box_preserves:
  assumes "same_box b b'"
  shows "certified P n k b' = certified P n k b" and "not_valid b' = not_valid b" and "settled vol b' = settled vol b"
    and "confidence b' = confidence b" and "in_box b' = in_box b" and "norm_box b' = norm_box b" and "pot vol b' = pot vol b"
  using assms by (simp_all add: same_box_def certified_def missing_def not_valid_def settled_def norm_box_def pot_def sides_def)

lemma in_round_box: "in_box (round_box 1 b) x \<Longrightarrow> in_box b x"
proof -
  have "l \<le> y \<and> y \<le> u" if "of_int \<lceil>l\<rceil> \<le> y" "y \<le> of_int \<lfloor>u\<rfloor>" for l u y :: double
    using that le_of_int_ceiling[of l] of_int_floor_le[of u] by linarith
  then show "in_box (round_box 1 b) x \<Longrightarrow> in_box b x" by (auto simp: in_coords_nth round_box_def round_coord_1)
qed

lemma round_if_simps [simp]: "curr_state_vec (round_if i b) = curr_state_vec b" "confidence (round_if i b) = confidence b"
  "length (coords (round_if i b)) = length (coords b)" "curr_state (round_if i b) = curr_state b"
  by (simp_all add: round_if_def round_box_def)

lemma round_if_certified: "certified P n k b \<Longrightarrow> certified P n k (round_if i b)"
proof -
  assume c: "certified P n k b"
  have "in_box (round_if i b) x \<Longrightarrow> in_box b x" for x by (auto simp: round_if_def dest: in_round_box split: if_splits)
  with c show ?thesis by (auto simp: certified_def missing_def)
qed

lemma round_if_keeps: "in_box b x \<Longrightarrow> (i \<longrightarrow> int_point x) \<Longrightarrow> in_box (round_if i b) x"
  by (simp add: round_if_def round_box_int_points)

subsection \<open>Program counters\<close>

definition owner :: "thread_pc \<Rightarrow> addr option" where
  "owner p = (case p of Proc a \<Rightarrow> Some a | Moving a nb \<Rightarrow> Some a | _ \<Rightarrow> None)"

definition half_of :: "thread_pc \<Rightarrow> bounding_box option" where
  "half_of p = (case p of Moving a nb \<Rightarrow> Some nb | Appending a nb \<Rightarrow> Some nb | _ \<Rightarrow> None)"

definition active :: "thread_pc \<Rightarrow> bool" where
  "active p = (case p of Waiting _ \<Rightarrow> False | Finished \<Rightarrow> False | _ \<Rightarrow> True)"

definition appending :: "thread_pc \<Rightarrow> bool" where
  "appending p = (case p of Appending _ _ \<Rightarrow> True | _ \<Rightarrow> False)"

text \<open>The node a thread will still write to although it has given it back.\<close>

definition touches :: "thread_pc \<Rightarrow> addr option" where
  "touches p = (case p of Appending a nb \<Rightarrow> Some a | Marking a \<Rightarrow> Some a | _ \<Rightarrow> None)"

lemmas pc_defs = owner_def half_of_def active_def appending_def touches_def wake_pc_def

lemma wake_pc_simps [simp]: "owner (wake_pc p) = owner p" "half_of (wake_pc p) = half_of p" "active (wake_pc p) = active p"
  "appending (wake_pc p) = appending p" "touches (wake_pc p) = touches p" "wake_pc p = Finished \<longleftrightarrow> p = Finished" "wake_pc p \<noteq> Waiting False" "wake_pc p = Top \<longleftrightarrow> p = Top"
  "wake_pc p = Proc a \<longleftrightarrow> p = Proc a" "wake_pc p = Moving a nb \<longleftrightarrow> p = Moving a nb" "wake_pc p = Appending a nb \<longleftrightarrow> p = Appending a nb"
  "wake_pc p = Marking a \<longleftrightarrow> p = Marking a"
  by (cases p; simp add: pc_defs)+

definition n_active :: "thread_pc list \<Rightarrow> nat" where
  "n_active ps = length (filter active ps)"

lemma n_active_update:
  assumes "i < length ps"
  shows "n_active (ps[i := p]) + (if active (ps ! i) then 1 else 0) = n_active ps + (if active p then 1 else 0)"
  using assms
proof (induction ps arbitrary: i)
  case (Cons q ps)
  then show ?case by (cases i) (auto simp: n_active_def)
qed simp

lemma n_active_wake [simp]: "n_active (map wake_pc ps) = n_active ps"
  by (simp add: n_active_def filter_map comp_def)

lemma n_active_0: "n_active ps = 0 \<longleftrightarrow> (\<forall>i < length ps. \<not> active (ps ! i))"
  by (simp add: n_active_def filter_empty_conv all_set_conv_all_nth)

text \<open>Thread \<open>i\<close> moves on to \<open>p\<close>; the others stay where they are, possibly notified.\<close>

definition moved :: "nat \<Rightarrow> thread_pc \<Rightarrow> thread_pc list \<Rightarrow> thread_pc list \<Rightarrow> bool" where
  "moved i p ps ps' \<longleftrightarrow> i < length ps \<and> (ps' = ps[i := p] \<or> ps' = (map wake_pc ps)[i := p])"

lemma moved_nth:
  assumes "moved i p ps ps'"
  shows "length ps' = length ps" and "i < length ps" and "ps' ! i = p"
    and "j < length ps \<Longrightarrow> j \<noteq> i \<Longrightarrow> owner (ps' ! j) = owner (ps ! j) \<and> half_of (ps' ! j) = half_of (ps ! j)
       \<and> appending (ps' ! j) = appending (ps ! j) \<and> active (ps' ! j) = active (ps ! j)
       \<and> (ps' ! j = Finished \<longleftrightarrow> ps ! j = Finished) \<and> touches (ps' ! j) = touches (ps ! j)
       \<and> (ps' ! j = Waiting False \<longrightarrow> ps ! j = Waiting False)"
  using assms by (auto simp: moved_def)

lemma moved_active:
  assumes "moved i p ps ps'"
  shows "n_active ps' + (if active (ps ! i) then 1 else 0) = n_active ps + (if active p then 1 else 0)"
  using assms n_active_update[of i ps p] n_active_update[of i "map wake_pc ps" p] by (auto simp: moved_def)

lemma moved_set_pc: "i < length (pcs T) \<Longrightarrow> moved i p (pcs T) (pcs (set_pc i p T))"
  "i < length (pcs T) \<Longrightarrow> moved i p (pcs T) (pcs (set_pc i p (notify_all T)))"
  by (simp_all add: moved_def set_pc_def notify_all_def)

subsection \<open>The invariant\<close>

context judges begin

definition tok :: "bool \<Rightarrow> bounding_box \<Rightarrow> bool" where
  "tok int_solve b \<longleftrightarrow> certified P n k b \<and> (int_solve \<or> \<not> not_valid b)"

definition chain_inv :: "bool \<Rightarrow> addr list \<Rightarrow> addr list \<Rightarrow> 's threads \<Rightarrow> bool" where
  "chain_inv int_solve dn pend T \<longleftrightarrow>
     pool (tok int_solve) (frags (fi T)) (dn @ pend) \<and> curr_box (fi T) = first pend None
     \<and> n_dirs (fi T) = n \<and> ready (s_pos (fi T)) (s_neg (fi T))
     \<and> (\<forall>a \<in> set pend. \<forall>b. cells (frags (fi T)) a = Some b \<longrightarrow> confidence b = 0)"

definition owners_inv :: "bool \<Rightarrow> double \<Rightarrow> addr list \<Rightarrow> 's threads \<Rightarrow> bool" where
  "owners_inv int_solve vol_limit dn T \<longleftrightarrow>
     (\<forall>i < length (pcs T). \<forall>a. owner (pcs T ! i) = Some a \<longrightarrow>
        a \<in> set dn \<and> (\<forall>b. cells (frags (fi T)) a = Some b \<longrightarrow> confidence b = 0)
        \<and> (\<forall>j < length (pcs T). j \<noteq> i \<longrightarrow> owner (pcs T ! j) \<noteq> Some a))
     \<and> (\<forall>i < length (pcs T). \<forall>nb. half_of (pcs T ! i) = Some nb \<longrightarrow> tok int_solve nb \<and> confidence nb = 0)
     \<and> (\<forall>i < length (pcs T). \<forall>a. touches (pcs T ! i) = Some a \<longrightarrow> cells (frags (fi T)) a \<noteq> None)
     \<and> (\<forall>a \<in> set dn. \<forall>b. cells (frags (fi T)) a = Some b \<longrightarrow> (\<forall>i < length (pcs T). owner (pcs T ! i) \<noteq> Some a) \<longrightarrow> settled vol_limit b)"

definition lock_inv :: "addr list \<Rightarrow> 's threads \<Rightarrow> bool" where
  "lock_inv pend T \<longleftrightarrow>
     (\<forall>i < length (pcs T). appending (pcs T ! i) \<longleftrightarrow> holder T = Some i) \<and> (\<forall>i. holder T = Some i \<longrightarrow> i < length (pcs T) \<and> pend \<noteq> [])
     \<and> n_threads_active T = int (n_active (pcs T))
     \<and> ((\<exists>i < length (pcs T). pcs T ! i = Finished) \<longrightarrow> n_active (pcs T) = 0 \<and> pend = [])
     \<and> ((\<exists>i < length (pcs T). pcs T ! i = Waiting False) \<longrightarrow> 0 < n_active (pcs T))"

definition kept_points :: "double list set \<Rightarrow> addr list \<Rightarrow> 's threads \<Rightarrow> bool" where
  "kept_points need as T \<longleftrightarrow>
     (\<forall>x \<in> need. covered (frags (fi T)) as x \<or> (\<exists>i < length (pcs T). \<exists>nb. half_of (pcs T ! i) = Some nb \<and> in_box nb x))"

definition tinv :: "bool \<Rightarrow> double \<Rightarrow> double list set \<Rightarrow> addr list \<Rightarrow> addr list \<Rightarrow> 's threads \<Rightarrow> bool" where
  "tinv int_solve vol_limit need dn pend T \<longleftrightarrow>
     chain_inv int_solve dn pend T \<and> owners_inv int_solve vol_limit dn T \<and> lock_inv pend T \<and> kept_points need (dn @ pend) T"

text \<open>Changing the processing state of a box changes none of this.\<close>

lemma pool_touch:
  assumes "pool ok l as" and "linked l' as" and "cells l' = (cells l)(a \<mapsto> b')" and "cells l a = Some b" and "same_box b b'"
    and ok: "\<And>c c'. same_box c c' \<Longrightarrow> ok c \<Longrightarrow> ok c'"
  shows "pool ok l' as" and "covered l' as x \<longleftrightarrow> covered l as x"
proof -
  show "pool ok l' as" using assms by (auto simp: pool_def)
  have "(\<exists>c. cells l' e = Some c \<and> in_box c x) \<longleftrightarrow> (\<exists>c. cells l e = Some c \<and> in_box c x)" for e
    using assms(3,4) same_box_preserves(5)[OF assms(5)] by (cases "e = a") simp_all
  then show "covered l' as x \<longleftrightarrow> covered l as x" by (simp add: covered_def)
qed

lemma tok_same: "same_box b b' \<Longrightarrow> tok int_solve b \<Longrightarrow> tok int_solve b'"
  by (simp add: tok_def same_box_preserves)

lemma ownersD:
  assumes "owners_inv int_solve vol_limit dn T" and "i < length (pcs T)"
  shows "owner (pcs T ! i) = Some a \<Longrightarrow> a \<in> set dn"
    and "owner (pcs T ! i) = Some a \<Longrightarrow> cells (frags (fi T)) a = Some b \<Longrightarrow> confidence b = 0"
    and "owner (pcs T ! i) = Some a \<Longrightarrow> j < length (pcs T) \<Longrightarrow> j \<noteq> i \<Longrightarrow> owner (pcs T ! j) \<noteq> Some a"
    and "half_of (pcs T ! i) = Some nb \<Longrightarrow> tok int_solve nb \<and> confidence nb = 0"
    and "touches (pcs T ! i) = Some a \<Longrightarrow> cells (frags (fi T)) a \<noteq> None"
  using assms unfolding owners_inv_def by blast+

lemma settledD:
  assumes "owners_inv int_solve vol_limit dn T" and "a \<in> set dn" and "cells (frags (fi T)) a = Some b"
    and "\<forall>i < length (pcs T). owner (pcs T ! i) \<noteq> Some a"
  shows "settled vol_limit b"
  using assms unfolding owners_inv_def by blast

text \<open>How each part of the invariant passes over a step of one thread.\<close>

lemma owners_step:
  assumes inv: "owners_inv int_solve vol_limit dn T" and m: "moved i p (pcs T) (pcs T')"
    and own: "\<And>a. owner p = Some a \<Longrightarrow> a \<in> set dn' \<and> (\<forall>b. cells (frags (fi T')) a = Some b \<longrightarrow> confidence b = 0)
        \<and> (\<forall>j < length (pcs T). j \<noteq> i \<longrightarrow> owner (pcs T ! j) \<noteq> Some a)"
    and half: "\<And>nb. half_of p = Some nb \<Longrightarrow> tok int_solve nb \<and> confidence nb = 0"
    and mark: "\<And>a. touches p = Some a \<Longrightarrow> cells (frags (fi T')) a \<noteq> None"
    and others: "\<And>j a. j < length (pcs T) \<Longrightarrow> j \<noteq> i \<Longrightarrow> owner (pcs T ! j) = Some a
        \<Longrightarrow> a \<in> set dn \<Longrightarrow> a \<in> set dn' \<and> cells (frags (fi T')) a = cells (frags (fi T)) a"
    and mono: "\<And>a. cells (frags (fi T)) a \<noteq> None \<Longrightarrow> cells (frags (fi T')) a \<noteq> None"
    and sett: "\<And>a b. a \<in> set dn' \<Longrightarrow> cells (frags (fi T')) a = Some b \<Longrightarrow> owner p \<noteq> Some a
        \<Longrightarrow> (\<forall>j < length (pcs T). j \<noteq> i \<longrightarrow> owner (pcs T ! j) \<noteq> Some a) \<Longrightarrow> settled vol_limit b"
  shows "owners_inv int_solve vol_limit dn' T'"
proof -
  note nth = moved_nth[OF m]
  have "a \<in> set dn' \<and> (\<forall>b. cells (frags (fi T')) a = Some b \<longrightarrow> confidence b = 0)
      \<and> (\<forall>j < length (pcs T'). j \<noteq> h \<longrightarrow> owner (pcs T' ! j) \<noteq> Some a)" if h: "h < length (pcs T')" "owner (pcs T' ! h) = Some a" for h a
  proof (cases "h = i")
    case True
    with h nth own[of a] show ?thesis by simp
  next
    case False
    have hl: "h < length (pcs T)" using h nth(1) by simp
    then have o: "owner (pcs T ! h) = Some a" using h nth(4)[OF _ False] by simp
    note dn = ownersD(1-3)[OF inv hl o]
    have "owner p \<noteq> Some a" using own[of a] o False hl by auto
    moreover have "owner (pcs T' ! j) = owner (pcs T ! j)" if "j < length (pcs T)" "j \<noteq> i" for j using nth(4)[OF that] by blast
    ultimately have "owner (pcs T' ! j) \<noteq> Some a" if "j < length (pcs T')" "j \<noteq> h" for j
      using that dn(3)[of j] nth(1,3) by (cases "j = i") auto
    with dn(2) others[OF hl False o dn(1)] show ?thesis by auto
  qed
  moreover have "tok int_solve nb \<and> confidence nb = 0" if "h < length (pcs T')" "half_of (pcs T' ! h) = Some nb" for h nb
  proof (cases "h = i")
    case True
    then show ?thesis using that nth(3) half by simp
  next
    case False
    then show ?thesis using that nth(1) nth(4)[OF _ False] ownersD(4)[OF inv, of h] by simp
  qed
  moreover have "cells (frags (fi T')) a \<noteq> None" if "h < length (pcs T')" "touches (pcs T' ! h) = Some a" for h a
  proof (cases "h = i")
    case True
    then show ?thesis using that nth mark[of a] by simp
  next
    case False
    then show ?thesis using that nth(1) nth(4)[OF _ False] ownersD(5)[OF inv, of h a] mono[of a] by simp
  qed
  moreover have "settled vol_limit b"
    if "a \<in> set dn'" "cells (frags (fi T')) a = Some b" "\<forall>h < length (pcs T'). owner (pcs T' ! h) \<noteq> Some a" for a b
  proof (rule sett[OF that(1,2)])
    show "owner p \<noteq> Some a" using that(3) nth(1-3) by auto
    show "\<forall>j < length (pcs T). j \<noteq> i \<longrightarrow> owner (pcs T ! j) \<noteq> Some a" using that(3) nth(1,4) by auto
  qed
  ultimately show ?thesis unfolding owners_inv_def by blast
qed

lemma kept_step:
  assumes "kept_points need as T" and m: "moved i p (pcs T) (pcs T')"
    and cov: "\<And>x. x \<in> need \<Longrightarrow> covered (frags (fi T)) as x \<or> (\<exists>nb. half_of (pcs T ! i) = Some nb \<and> in_box nb x)
        \<Longrightarrow> covered (frags (fi T')) as' x \<or> (\<exists>nb. half_of p = Some nb \<and> in_box nb x)"
  shows "kept_points need as' T'"
  unfolding kept_points_def
proof
  fix x assume x: "x \<in> need"
  note nth = moved_nth[OF m]
  from assms(1) x consider "covered (frags (fi T)) as x \<or> (\<exists>nb. half_of (pcs T ! i) = Some nb \<and> in_box nb x)"
    | j nb where "j < length (pcs T)" "j \<noteq> i" "half_of (pcs T ! j) = Some nb" "in_box nb x"
    unfolding kept_points_def by blast
  then show "covered (frags (fi T')) as' x \<or> (\<exists>j < length (pcs T'). \<exists>nb. half_of (pcs T' ! j) = Some nb \<and> in_box nb x)"
  proof cases
    case 1
    with cov[OF x] nth show ?thesis by metis
  next
    case 2
    with nth show ?thesis by metis
  qed
qed

lemma lock_step:
  assumes inv: "lock_inv pend T" and m: "moved i p (pcs T) (pcs T')"
    and count: "n_threads_active T' = int (n_active (pcs T'))"
    and hold: "\<not> appending p \<and> holder T' = None \<or> appending p \<and> holder T' = Some i \<or> \<not> appending p \<and> \<not> appending (pcs T ! i) \<and> holder T' = holder T"
    and free: "appending p \<or> appending (pcs T ! i) \<Longrightarrow> holder T = None \<or> holder T = Some i"
    and clear: "\<not> appending p \<and> holder T' = None \<Longrightarrow> holder T = None \<or> holder T = Some i"
    and pend: "holder T' \<noteq> None \<Longrightarrow> pend' \<noteq> []"
    and fin: "p = Finished \<or> (\<exists>j < length (pcs T). pcs T ! j = Finished) \<Longrightarrow> n_active (pcs T') = 0 \<and> pend' = []"
    and wait: "(\<exists>j < length (pcs T'). pcs T' ! j = Waiting False) \<Longrightarrow> 0 < n_active (pcs T')"
  shows "lock_inv pend' T'"
proof -
  note nth = moved_nth[OF m]
  have app: "appending (pcs T ! j) \<longleftrightarrow> holder T = Some j" if "j < length (pcs T)" for j using inv that by (simp add: lock_inv_def)
  have "appending (pcs T' ! j) \<longleftrightarrow> holder T' = Some j" if "j < length (pcs T')" for j
  proof (cases "j = i")
    case True
    then show ?thesis using nth hold app[OF nth(2)] by auto
  next
    case False
    then show ?thesis using nth that hold free clear app[of j] app[OF nth(2)] by auto
  qed
  moreover have "j < length (pcs T') \<and> pend' \<noteq> []" if "holder T' = Some j" for j
  proof -
    have "j < length (pcs T) \<or> j = i" using hold that inv by (auto simp: lock_inv_def)
    then show ?thesis using pend that nth by auto
  qed
  moreover have "n_active (pcs T') = 0 \<and> pend' = []" if "j < length (pcs T')" "pcs T' ! j = Finished" for j
    using that nth fin by (cases "j = i") auto
  ultimately show ?thesis using count wait by (auto simp: lock_inv_def)
qed

end

end
