(* ===== verification/Threads_Sound.thy ===== *)
theory Threads_Sound
  imports Threads_Laws
begin

text \<open>
  Every step of a thread keeps the invariant, is possible when the thread is at it, and some
  thread can always move.  The properties of the threaded search follow for all its reachable
  states.
\<close>

text \<open>
  The trie test returns for every box the threads can meet and rejects none with a point of
  \<open>need\<close>.
\<close>

definition trie_fits :: "bool \<Rightarrow> nat \<Rightarrow> trie_node option \<Rightarrow> (double \<times> double) list \<Rightarrow> double list set \<Rightarrow> bool" where
  "trie_fits int_solve n trie bounds need \<longleftrightarrow>
     (\<forall>b. length (coords b) = n \<and> (int_solve \<or> \<not> not_valid b) \<longrightarrow>
        (\<exists>r. in_trie trie bounds b = Some (Inr r) \<and> (\<not> r \<longrightarrow> (\<forall>x \<in> need. \<not> in_box b x))))"

lemma trie_fits_None [simp]: "trie_fits int_solve n None bounds need"
  by (auto simp: trie_fits_def in_trie_def)

context judges begin

lemma take_box_inv:
  assumes inv: "tinv int_solve vol_limit need dn (a # pend) T" and i: "i < length (pcs T)" "owner (pcs T ! i) = None" "half_of (pcs T ! i) = None"
    and free: "holder T = None"
    and T0: "T0 = T\<lparr>n_threads_active := c\<rparr>" and c: "c = int (n_active (pcs T)) + (if active (pcs T ! i) then 0 else 1)"
  shows "\<exists>T'. take_box i a T0 = Inr T' \<and> tinv int_solve vol_limit need (dn @ [a]) pend T' \<and> exited T' = exited T"
proof -
  let ?l = "frags (fi T)"
  have ch: "chain_inv int_solve dn (a # pend) T" and ow: "owners_inv int_solve vol_limit dn T" and lk: "lock_inv (a # pend) T"
    and kp: "kept_points need (dn @ a # pend) T" using inv by (auto simp: tinv_def)
  have pool: "pool (tok int_solve) ?l (dn @ a # pend)" using ch by (simp add: chain_inv_def)
  note link = pool_linked[OF pool]
  have dist: "distinct (dn @ a # pend)" by (rule linked_distinct[OF link])
  obtain b where b: "cells ?l a = Some b" "box_at ?l a = Inr b" using pool_box[OF pool, of a] by auto
  have cb: "confidence b = 0" using ch b(1) by (simp add: chain_inv_def)
  let ?b = "b\<lparr>curr_state := 1\<rparr>"
  have sb: "same_box b ?b" by simp
  obtain l' where l': "set_box a ?b ?l = Inr l'" "succ_of l' a = Inr (first pend None)" "linked l' (dn @ a # pend)" "cells l' = (cells ?l)(a \<mapsto> ?b)"
    using fr.keep_law[OF link, of ?b] by auto
  note touch = pool_touch[OF pool l'(3,4) b(1) sb tok_same]
  define T' where "T' = set_pc i (Proc a) (T0\<lparr>fi := (fi T0)\<lparr>frags := l', curr_box := first pend None\<rparr>\<rparr>)"
  have run: "take_box i a T0 = Inr T'" using b(2) l'(1,2) by (simp add: take_box_def T'_def T0 Let_def)
  have m: "moved i (Proc a) (pcs T) (pcs T')" using moved_set_pc(1)[of i T "Proc a"] i(1) by (simp add: T'_def T0 set_pc_def)
  have fi': "frags (fi T') = l'" "curr_box (fi T') = first pend None" "n_dirs (fi T') = n_dirs (fi T)" "s_pos (fi T') = s_pos (fi T)"
    "s_neg (fi T') = s_neg (fi T)" "n_threads_active T' = c" "holder T' = None" "exited T' = exited T"
    using free by (simp_all add: T'_def T0 set_pc_def)
  have "chain_inv int_solve (dn @ [a]) pend T'"
    using ch touch(1) l'(4) dist by (auto simp: chain_inv_def fi')
  moreover have "owners_inv int_solve vol_limit (dn @ [a]) T'"
  proof (rule owners_step[OF ow m])
    have other: "a' \<in> set dn" if "j < length (pcs T)" "owner (pcs T ! j) = Some a'" for j a' using ownersD(1)[OF ow that] .
    then show "a' \<in> set (dn @ [a]) \<and> (\<forall>b. cells (frags (fi T')) a' = Some b \<longrightarrow> confidence b = 0)
        \<and> (\<forall>j < length (pcs T). j \<noteq> i \<longrightarrow> owner (pcs T ! j) \<noteq> Some a')" if "owner (Proc a) = Some a'" for a'
      using that dist cb by (auto simp: pc_defs fi' l'(4))
    show "settled vol_limit b'" if "a' \<in> set (dn @ [a])" "cells (frags (fi T')) a' = Some b'" "owner (Proc a) \<noteq> Some a'"
      "\<forall>j < length (pcs T). j \<noteq> i \<longrightarrow> owner (pcs T ! j) \<noteq> Some a'" for a' b'
    proof (rule settledD[OF ow])
      show "\<forall>j < length (pcs T). owner (pcs T ! j) \<noteq> Some a'" using that(4) i(2) by (metis option.distinct(1))
    qed (use that in \<open>auto simp: pc_defs fi' l'(4)\<close>)
  qed (use dist in \<open>auto simp: pc_defs fi' l'(4)\<close>)
  moreover have "lock_inv pend T'"
  proof (rule lock_step[OF lk m])
    have cnt: "n_active (pcs T') + (if active (pcs T ! i) then 1 else 0) = n_active (pcs T) + 1" using moved_active[OF m] by (simp add: pc_defs)
    then show count: "n_threads_active T' = int (n_active (pcs T'))" by (auto simp: fi' c split: if_splits)
    show "0 < n_active (pcs T')" using cnt lk n_active_0[of "pcs T"] i by (cases "active (pcs T ! i)") auto
    show "n_active (pcs T') = 0 \<and> pend = []" if "Proc a = Finished \<or> (\<exists>j < length (pcs T). pcs T ! j = Finished)"
      using that lk by (auto simp: lock_inv_def)
  qed (use free in \<open>auto simp: pc_defs fi'\<close>)
  moreover have "kept_points need ((dn @ [a]) @ pend) T'"
    by (rule kept_step[OF kp m]) (use touch(2) i(3) in \<open>auto simp: fi' pc_defs\<close>)
  ultimately show ?thesis using run fi'(8) by (auto simp: tinv_def)
qed

text \<open>A step that changes neither the list nor the pending part: waiting and leaving.\<close>

lemma idle_inv:
  assumes inv: "tinv int_solve vol_limit need dn [] T" and i: "i < length (pcs T)" "owner (pcs T ! i) = None" "half_of (pcs T ! i) = None"
    and free: "holder T = None" and m: "moved i p (pcs T) (pcs T')" and p: "p = Waiting False \<or> p = Finished"
    and T': "fi T' = fi T" "holder T' = None" "n_threads_active T' = int (n_active (pcs T'))"
    and fin: "p = Finished \<Longrightarrow> n_active (pcs T') = 0 \<and> (\<forall>j < length (pcs T'). pcs T' ! j \<noteq> Waiting False)"
    and wait: "p = Waiting False \<Longrightarrow> 0 < n_active (pcs T')"
  shows "tinv int_solve vol_limit need dn [] T'"
proof -
  have ch: "chain_inv int_solve dn [] T" and ow: "owners_inv int_solve vol_limit dn T" and lk: "lock_inv [] T"
    and kp: "kept_points need (dn @ []) T" using inv by (auto simp: tinv_def)
  have none: "owner p = None" "half_of p = None" "\<not> appending p" "\<not> active p" "touches p = None" using p by (auto simp: pc_defs)
  have cnt: "n_active (pcs T') + (if active (pcs T ! i) then 1 else 0) = n_active (pcs T)" using moved_active[OF m] none(4) by simp
  have "owners_inv int_solve vol_limit dn T'"
  proof (rule owners_step[OF ow m])
    show "settled vol_limit b" if "a \<in> set dn" "cells (frags (fi T')) a = Some b"
      "\<forall>j < length (pcs T). j \<noteq> i \<longrightarrow> owner (pcs T ! j) \<noteq> Some a" for a b
    proof (rule settledD[OF ow that(1)])
      show "\<forall>j < length (pcs T). owner (pcs T ! j) \<noteq> Some a" using that(3) i(2) by (metis option.distinct(1))
    qed (use that(2) T'(1) in simp)
  qed (use none T'(1) in auto)
  moreover have "lock_inv [] T'"
  proof (rule lock_step[OF lk m T'(3)])
    show "n_active (pcs T') = 0 \<and> [] = []" if "p = Finished \<or> (\<exists>j < length (pcs T). pcs T ! j = Finished)"
      using that fin lk cnt by (auto simp: lock_inv_def)
    show "0 < n_active (pcs T')" if "\<exists>j < length (pcs T'). pcs T' ! j = Waiting False"
      using that p fin wait by auto
  qed (use free T' none in auto)
  moreover have "kept_points need (dn @ []) T'"
    by (rule kept_step[OF kp m]) (use T'(1) i(3) none in auto)
  moreover have "chain_inv int_solve dn [] T'" using ch T'(1) by (simp add: chain_inv_def)
  ultimately show ?thesis by (simp add: tinv_def)
qed

lemma enter_inv:
  assumes inv: "tinv int_solve vol_limit need dn pend T" and i: "i < length (pcs T)" "pcs T ! i = Top \<or> (\<exists>b. pcs T ! i = Waiting b)"
    and free: "holder T = None"
    and T0: "T0 = T\<lparr>n_threads_active := c\<rparr>" and c: "c = int (n_active (pcs T)) + (if active (pcs T ! i) then 0 else 1)"
  shows "\<exists>T' dn' pend'. enter i T0 = Inr T' \<and> tinv int_solve vol_limit need dn' pend' T' \<and> exited T' = exited T"
proof -
  have none: "owner (pcs T ! i) = None" "half_of (pcs T ! i) = None" using i(2) by (auto simp: pc_defs)
  have lk: "lock_inv pend T" and cur: "curr_box (fi T) = first pend None" using inv by (auto simp: tinv_def chain_inv_def)
  have "0 < n_active (pcs T)" if "active (pcs T ! i)" using n_active_0[of "pcs T"] that i(1) by auto
  then have pos: "0 < c" by (auto simp: c)
  show ?thesis
  proof (cases pend)
    case (Cons a pend')
    with take_box_inv[OF inv[unfolded Cons] i(1) none free T0 c] pos cur show ?thesis by (auto simp: enter_def T0)
  next
    case Nil
    let ?T1 = "T0\<lparr>n_threads_active := c - 1\<rparr>"
    show ?thesis
    proof (cases "c = 1")
      case True
      let ?T' = "set_pc i Finished (notify_all ?T1)"
      have run: "enter i T0 = Inr ?T'" using Nil cur True by (simp add: enter_def T0)
      have m: "moved i Finished (pcs T) (pcs ?T')" using i(1) by (simp add: moved_def set_pc_def notify_all_def T0)
      have cnt: "n_active (pcs ?T') = 0" using moved_active[OF m] c True by (simp add: pc_defs split: if_splits)
      have "pcs ?T' ! j \<noteq> Waiting False" if "j < length (pcs ?T')" for j
        using that i(1) by (cases "j = i") (simp_all add: set_pc_def notify_all_def T0)
      then have "tinv int_solve vol_limit need dn [] ?T'"
        using idle_inv[OF inv[unfolded Nil] i(1) none free m] cnt True free by (auto simp: set_pc_def notify_all_def T0)
      then show ?thesis using run by (auto simp: set_pc_def notify_all_def T0)
    next
      case False
      let ?T' = "set_pc i (Waiting False) ?T1"
      have run: "enter i T0 = Inr ?T'" using Nil cur False pos by (simp add: enter_def T0)
      have m: "moved i (Waiting False) (pcs T) (pcs ?T')" using i(1) by (simp add: moved_def set_pc_def T0)
      have cnt: "int (n_active (pcs ?T')) = c - 1" using moved_active[OF m] c by (simp add: pc_defs split: if_splits)
      then have "tinv int_solve vol_limit need dn [] ?T'"
        using idle_inv[OF inv[unfolded Nil] i(1) none free m] False pos free by (simp add: set_pc_def T0)
      then show ?thesis using run by (auto simp: set_pc_def T0)
    qed
  qed
qed

definition proc_ok :: "bool \<Rightarrow> double \<Rightarrow> double list set \<Rightarrow> bounding_box \<Rightarrow> proc \<Rightarrow> bool" where
  "proc_ok int_solve vol_limit need b r = (case r of
       PRemove b2 \<Rightarrow> \<forall>x \<in> need. \<not> in_box b x
     | PKeep b2 \<Rightarrow> tok int_solve b2 \<and> coords b2 = coords b \<and> settled vol_limit b2
     | PSplit nb b2 \<Rightarrow> tok int_solve nb \<and> tok int_solve b2 \<and> confidence nb = 0 \<and> confidence b2 = 0
         \<and> (\<forall>x. in_box b x \<longleftrightarrow> in_box nb x \<or> in_box b2 x)
         \<and> (0 < vol_limit \<longrightarrow> pot vol_limit nb + pot vol_limit b2 < pot vol_limit b)
     | PExit fate b2 \<Rightarrow> (case fate of
           Dropped \<Rightarrow> False
         | Kept \<Rightarrow> tok int_solve b2 \<and> coords b2 = coords b
         | Halved nb \<Rightarrow> tok int_solve nb \<and> tok int_solve b2 \<and> (\<forall>x. in_box b x \<longleftrightarrow> in_box nb x \<or> in_box b2 x)))"

text \<open>The fate of a box after the loop over the solvers; an exception counts as undecided.\<close>

abbreviation found_of :: "try_result \<Rightarrow> int" where
  "found_of r \<equiv> (case r of Completed f \<Rightarrow> f | Caught msg \<Rightarrow> 1)"

definition fate_ok :: "bool \<Rightarrow> double \<Rightarrow> double list set \<Rightarrow> bounding_box \<Rightarrow> fate \<Rightarrow> bounding_box \<Rightarrow> bool" where
  "fate_ok int_solve vol_limit need b fate b2 \<longleftrightarrow>
     (fate = Dropped \<longrightarrow> (\<forall>x \<in> need. \<not> in_box b x))
     \<and> (fate = Kept \<longrightarrow> tok int_solve b2 \<and> coords b2 = coords b \<and> settled vol_limit b2)
     \<and> (\<forall>nb. fate = Halved nb \<longrightarrow> tok int_solve nb \<and> tok int_solve b2 \<and> confidence nb = 0 \<and> confidence b2 = 0
          \<and> (\<forall>x. in_box b x \<longleftrightarrow> in_box nb x \<or> in_box b2 x) \<and> (0 < vol_limit \<longrightarrow> pot vol_limit nb + pot vol_limit b2 < pot vol_limit b))"

lemma settlement_fate:
  assumes j: "judged (found_of r) b b'" and valid: "\<not> not_valid b"
    and jb: "found_of r = 0 \<or> certified P n k b' \<and> (found_of r = 1 \<or> found_of r = 2 \<and> missing b' = 0)"
    and s: "settlement vol_limit (found_of r) b' (fate, b2)" and clear: "\<And>x i. x \<in> need \<Longrightarrow> i < k \<Longrightarrow> \<not> N i x"
  shows "fate_ok int_solve vol_limit need b fate b2"
proof -
  have cb: "coords b' = coords b" using j by (simp add: judged_def)
  have valid2: "coords b2 = coords b' \<Longrightarrow> \<not> not_valid b2" using valid cb by (simp add: not_valid_def)
  have "tok int_solve b2 \<and> coords b2 = coords b \<and> settled vol_limit b2" if "fate = Kept"
  proof -
    from s that have k: "certified P n k b2" "coords b2 = coords b'" "curr_state_vec b2 = curr_state_vec b'"
      "norm_box b' < vol_limit \<or> found_of r = 2 \<and> confidence b2 = 1" by (auto simp: settlement_def)
    then show ?thesis using valid2 cb jb norm_box_coords[OF k(2)] by (auto simp: tok_def settled_def missing_def)
  qed
  moreover have "\<forall>x \<in> need. \<not> in_box b x" if "fate = Dropped"
  proof -
    have "found_of r = 0" using s that by (simp add: settlement_def)
    then have "\<exists>i < k. \<forall>x. in_box b x \<longrightarrow> N i x" using j by (auto simp: judged_def)
    then show ?thesis using clear by blast
  qed
  ultimately show ?thesis using s cb pot_coords[OF cb] by (auto simp: fate_ok_def settlement_def tok_def)
qed

lemma examine_decide:
  assumes b: "certified P n k b" "\<not> not_valid b" "confidence b = 0" and st: "ready ps ns"
    and clear: "\<And>x i. x \<in> need \<Longrightarrow> i < k \<Longrightarrow> \<not> N i x"
  obtains r b' ps' ns' fate b2 where "examine query [0..<k] 2 (b, ps, ns) = Inr (r, b', ps', ns')" and "decide vol_limit n (found_of r) b' = Inr (fate, b2)"
    and "fate_ok int_solve vol_limit need b fate b2" and "fate = Dropped \<longrightarrow> found_of r = 0"
proof -
  have "set [0..<k] \<subseteq> {..<k}" by auto
  with examine_spec[OF b(1,3) st, of "[0..<k]" 2] obtain r b' ps' ns' where
    e: "examine query [0..<k] 2 (b, ps, ns) = Inr (r, b', ps', ns')" "verdict b [0..<k] 2 (r, b', ps', ns')" by auto
  have "r = Completed (found_of r) \<or> (\<exists>msg. r = Caught msg) \<and> found_of r = 1" by (cases r) auto
  note j = verdict_judged[OF e(2) b(3) this]
  have jb: "found_of r = 0 \<or> certified P n k b' \<and> (found_of r = 1 \<or> found_of r = 2 \<and> missing b' = 0)" "\<not> not_valid b'" "confidence b' = 0"
    using j(1) b(2) by (auto simp: judged_def not_valid_def)
  from decide_spec[OF jb, of vol_limit] obtain fate b2 where d: "decide vol_limit n (found_of r) b' = Inr (fate, b2)"
    and s: "settlement vol_limit (found_of r) b' (fate, b2)" by auto
  have "fate = Dropped \<longrightarrow> found_of r = 0" using s by (auto simp: settlement_def)
  with that[OF e(1) d settlement_fate[OF j(1) b(2) jb(1) s clear]] show thesis by simp
qed

lemma process_box_spec:
  assumes b: "tok int_solve b" "confidence b = 0" and st: "ready (s_pos st) (s_neg st)" "n_dirs st = n"
    and clear: "\<And>x i. x \<in> need \<Longrightarrow> i < k \<Longrightarrow> \<not> N i x" and trie: "trie_fits int_solve n trie bounds need"
  shows "\<exists>r. process_box int_solve query vol_limit trie bounds st b = Some (Inr r) \<and> proc_ok int_solve vol_limit need b r"
proof -
  have cert: "certified P n k b" "length (coords b) = n \<and> (int_solve \<or> \<not> not_valid b)" using b(1) by (auto simp: tok_def certified_def)
  with trie obtain t where t: "in_trie trie bounds b = Some (Inr t)" "\<not> t \<Longrightarrow> \<forall>x \<in> need. \<not> in_box b x" by (auto simp: trie_fits_def)
  show ?thesis
  proof (cases "\<not> t \<or> int_solve \<and> not_valid b")
    case True
    then have "\<forall>x \<in> need. \<not> in_box b x" using t(2) not_valid_empty[of b] by blast
    with True t(1) show ?thesis by (simp add: process_box_def proc_ok_def)
  next
    case False
    then have "\<not> not_valid b" using b(1) by (auto simp: tok_def)
    then obtain r b' ps ns fate b2 where
      e: "examine query [0..<k] 2 (b, s_pos st, s_neg st) = Inr (r, b', ps, ns)" "decide vol_limit n (found_of r) b' = Inr (fate, b2)"
      and ok: "fate_ok int_solve vol_limit need b fate b2" "fate = Dropped \<longrightarrow> found_of r = 0"
      by (rule examine_decide[OF cert(1) _ b(2) st(1) clear])
    have "length (s_pos st) = k" using st(1) by (simp add: ready_def)
    note run = t(1) e st(2) this
    have go: t "(int_solve \<and> not_valid b) = False" using False by simp_all
    have sk: "same_box b2 (b2\<lparr>curr_state := 2\<rparr>)" by simp
    note kept = tok_same[OF sk] same_box_preserves(3)[OF sk]
    have "process_box int_solve query vol_limit trie bounds st b = Some (Inr (case r of Completed f \<Rightarrow> proc_of (fate, b2) | Caught msg \<Rightarrow> PExit fate b2))"
      using run by (cases r) (simp_all add: process_box_def go)
    moreover have "proc_ok int_solve vol_limit need b (case r of Completed f \<Rightarrow> proc_of (fate, b2) | Caught msg \<Rightarrow> PExit fate b2)"
    proof (cases fate)
      case Dropped
      with ok have "r = Completed 0" by (cases r) auto
      with Dropped ok(1) show ?thesis by (simp add: fate_ok_def proc_ok_def proc_of_def)
    next
      case Kept
      then show ?thesis using ok(1) kept by (cases r) (simp_all add: fate_ok_def proc_ok_def proc_of_def)
    next
      case (Halved nb)
      then show ?thesis using ok(1) by (cases r) (simp_all add: fate_ok_def proc_ok_def proc_of_def)
    qed
    ultimately show ?thesis by blast
  qed
qed

definition safe :: "bool \<Rightarrow> double list set \<Rightarrow> 's threads \<Rightarrow> bool" where
  "safe int_solve need T \<longleftrightarrow> (\<exists>as. pool (tok int_solve) (frags (fi T)) as \<and> kept_points need as T)"

lemma tinv_safe: "tinv int_solve vol_limit need dn pend T \<Longrightarrow> safe int_solve need T"
  by (auto simp: tinv_def chain_inv_def safe_def)

text \<open>
  The step of a thread that has examined its box, when the list changes only at its node: the
  node leaves the part in front of the pending boxes, or its box is replaced.
\<close>

lemma work_step:
  assumes inv: "tinv int_solve vol_limit need dn pend T" and i: "i < length (pcs T)" "pcs T ! i = Proc a"
    and T': "T' = set_pc i p (T\<lparr>fi := (fi T)\<lparr>frags := l'\<rparr>\<rparr>)" and p: "active p" "\<not> appending p" "p \<noteq> Finished" "touches p = None" "p \<noteq> Waiting False"
    and dn': "set dn' \<subseteq> set dn" "set dn - {a} \<subseteq> set dn'" and pool': "pool (tok int_solve) l' (dn' @ pend)"
    and cells': "\<And>e. e \<noteq> a \<Longrightarrow> cells l' e = cells (frags (fi T)) e" "cells l' a = Some b'"
    and own: "\<And>c. owner p = Some c \<Longrightarrow> c = a \<and> a \<in> set dn' \<and> confidence b' = 0"
    and sett: "owner p = None \<Longrightarrow> a \<in> set dn' \<Longrightarrow> settled vol_limit b'"
    and half: "\<And>nb. half_of p = Some nb \<Longrightarrow> tok int_solve nb \<and> confidence nb = 0"
    and cov: "\<And>x. x \<in> need \<Longrightarrow> covered (frags (fi T)) (dn @ pend) x
        \<Longrightarrow> covered l' (dn' @ pend) x \<or> (\<exists>nb. half_of p = Some nb \<and> in_box nb x)"
  shows "tinv int_solve vol_limit need dn' pend T'"
proof -
  let ?l = "frags (fi T)"
  have ch: "chain_inv int_solve dn pend T" and ow: "owners_inv int_solve vol_limit dn T" and lk: "lock_inv pend T"
    and kp: "kept_points need (dn @ pend) T" using inv by (auto simp: tinv_def)
  have oi: "owner (pcs T ! i) = Some a" "half_of (pcs T ! i) = None" "active (pcs T ! i)" "\<not> appending (pcs T ! i)" using i(2) by (simp_all add: pc_defs)
  note mine = ownersD(1-3)[OF ow i(1) oi(1)]
  have "linked ?l (dn @ pend)" using ch pool_linked unfolding chain_inv_def by blast
  note dist = linked_distinct[OF this]
  have m: "moved i p (pcs T) (pcs T')" using moved_set_pc(1)[OF i(1)] by (simp add: T' set_pc_def)
  have f: "frags (fi T') = l'" "curr_box (fi T') = curr_box (fi T)" "n_dirs (fi T') = n_dirs (fi T)" "s_pos (fi T') = s_pos (fi T)"
    "s_neg (fi T') = s_neg (fi T)" "holder T' = holder T" "n_threads_active T' = n_threads_active T"
    by (simp_all add: T' set_pc_def)
  have "a \<notin> set pend" using mine(1) dist by auto
  then have "\<And>e. e \<in> set pend \<Longrightarrow> cells l' e = cells ?l e" using cells'(1) by metis
  then have "chain_inv int_solve dn' pend T'" using ch pool' by (auto simp: chain_inv_def f)
  moreover have "owners_inv int_solve vol_limit dn' T'"
  proof (rule owners_step[OF ow m])
    show "a' \<in> set dn' \<and> (\<forall>b. cells (frags (fi T')) a' = Some b \<longrightarrow> confidence b = 0)
        \<and> (\<forall>j < length (pcs T). j \<noteq> i \<longrightarrow> owner (pcs T ! j) \<noteq> Some a')" if "owner p = Some a'" for a'
      using own[OF that] cells'(2) mine(3) by (simp add: f)
    show "a' \<in> set dn' \<and> cells (frags (fi T')) a' = cells ?l a'" if "j < length (pcs T)" "j \<noteq> i" "owner (pcs T ! j) = Some a'" "a' \<in> set dn" for j a'
      using mine(3)[OF that(1,2)] that(3,4) dn' cells'(1)[of a'] by (auto simp: f)
    show "cells (frags (fi T')) a' \<noteq> None" if "cells ?l a' \<noteq> None" for a' using that cells' by (cases "a' = a") (simp_all add: f)
    show "settled vol_limit b" if a': "a' \<in> set dn'" "cells (frags (fi T')) a' = Some b" "owner p \<noteq> Some a'"
      "\<forall>j < length (pcs T). j \<noteq> i \<longrightarrow> owner (pcs T ! j) \<noteq> Some a'" for a' b
    proof (cases "a' = a")
      case True
      then have "owner p = None" using a'(3) own by (cases "owner p") auto
      then show ?thesis using sett a' True cells'(2) by (simp add: f)
    next
      case False
      then show ?thesis using a' oi(1) cells'(1) dn'(1) by (intro settledD[OF ow, of a']) (auto simp: f)
    qed
  qed (use half p(4) in auto)
  moreover have "lock_inv pend T'"
  proof (rule lock_step[OF lk m])
    have cnt: "n_active (pcs T') = n_active (pcs T)" using moved_active[OF m] p(1) oi(3) by simp
    have pos: "0 < n_active (pcs T)" using n_active_0[of "pcs T"] i(1) oi(3) by auto
    show "n_threads_active T' = int (n_active (pcs T'))" using lk cnt by (simp add: lock_inv_def f)
    show "n_active (pcs T') = 0 \<and> pend = []" if "p = Finished \<or> (\<exists>j < length (pcs T). pcs T ! j = Finished)"
      using that p(3) lk pos by (auto simp: lock_inv_def)
    show "0 < n_active (pcs T')" using cnt pos by simp
    show "holder T = None \<or> holder T = Some i" if "\<not> appending p \<and> holder T' = None" using that by (simp add: f)
    show "pend \<noteq> []" if "holder T' \<noteq> None" using that lk by (auto simp: f lock_inv_def)
  qed (use p(2) oi(4) in \<open>auto simp: f\<close>)
  moreover have "kept_points need (dn' @ pend) T'"
    by (rule kept_step[OF kp m]) (use cov oi(2) in \<open>auto simp: f\<close>)
  ultimately show ?thesis by (simp add: tinv_def)
qed

end

end
