(* ===== verification/Threads_Reach.thy ===== *)
theory Threads_Reach
  imports Threads_Sound
begin

text \<open>
  The remaining steps of a thread, and what holds in every state the threads reach: the
  invariant, that some thread can move until all have left, and the properties of the result.
\<close>

context judges begin

lemma set_pc_frags: "frags (fi (set_pc i p T)) = frags (fi T)" "pcs (set_pc i p T) = (pcs T)[i := p]" "exited (set_pc i p T) = exited T"
  by (simp_all add: set_pc_def)

text \<open>The node of the box a thread works on is in front of the pending boxes.\<close>

lemma worker_node:
  assumes inv: "tinv int_solve vol_limit need dn pend T" and i: "i < length (pcs T)" "pcs T ! i = Proc a"
    and b: "cells (frags (fi T)) a = Some b"
  obtains xs ys where "dn = xs @ a # ys" and "pool (tok int_solve) (frags (fi T)) (xs @ a # (ys @ pend))"
    and "\<And>b'. \<exists>l'. set_box a b' (frags (fi T)) = Inr l' \<and> linked l' (xs @ a # (ys @ pend)) \<and> cells l' = (cells (frags (fi T)))(a \<mapsto> b')"
proof -
  have ow: "owners_inv int_solve vol_limit dn T" and pool: "pool (tok int_solve) (frags (fi T)) (dn @ pend)"
    using inv by (auto simp: tinv_def chain_inv_def)
  have "owner (pcs T ! i) = Some a" using i(2) by (simp add: pc_defs)
  then have "a \<in> set dn" using ownersD(1)[OF ow i(1)] by blast
  then obtain xs ys where dn: "dn = xs @ a # ys" by (meson split_list)
  have pool': "pool (tok int_solve) (frags (fi T)) (xs @ a # (ys @ pend))" using pool by (simp add: dn)
  have "cells (frags (fi T)) a \<noteq> None" using b by simp
  from that[OF dn pool'] fr.put_law[OF pool_linked[OF pool'] this] show ?thesis by blast
qed

lemma leave_remove:
  assumes inv: "tinv int_solve vol_limit need dn pend T" and i: "i < length (pcs T)" "pcs T ! i = Proc a"
    and b: "cells (frags (fi T)) a = Some b" and out: "\<forall>x \<in> need. \<not> in_box b x"
  shows "\<exists>T' dn'. leave_box int_solve i a (PRemove b2) T = Inr T' \<and> exited T' = exited T \<and> tinv int_solve vol_limit need dn' pend T'"
proof -
  let ?l = "frags (fi T)"
  from worker_node[OF inv i b] obtain xs ys where dn: "dn = xs @ a # ys" and pool: "pool (tok int_solve) ?l (xs @ a # (ys @ pend))"
    and put: "\<And>b'. \<exists>l'. set_box a b' ?l = Inr l' \<and> linked l' (xs @ a # (ys @ pend)) \<and> cells l' = (cells ?l)(a \<mapsto> b')" by blast
  have dist: "distinct (xs @ a # (ys @ pend))" by (rule linked_distinct[OF pool_linked[OF pool]])
  from put[of b2] obtain l1 where l1: "set_box a b2 ?l = Inr l1" "linked l1 (xs @ a # (ys @ pend))" "cells l1 = (cells ?l)(a \<mapsto> b2)" by blast
  obtain c l2 where l2: "remove a l1 = Inr (c, l2)" "linked l2 (xs @ ys @ pend)" "cells l2 = cells l1" using fr.rem_law[OF l1(2)] by blast
  have c2: "cells l2 = (cells ?l)(a := Some b2)" using l1(3) l2(3) by simp
  note drop = pool_drop[OF pool l2(2) c2]
  have "tinv int_solve vol_limit need (xs @ ys) pend (set_pc i Top (T\<lparr>fi := (fi T)\<lparr>frags := l2\<rparr>\<rparr>))"
  proof (rule work_step[OF inv i, where p = Top and l' = l2 and b' = b2])
    show "covered l2 ((xs @ ys) @ pend) x \<or> (\<exists>nb. half_of Top = Some nb \<and> in_box nb x)" if "x \<in> need" "covered ?l (dn @ pend) x" for x
      using drop(2)[of x] that out b by (auto simp: dn)
  qed (use drop(1) c2 dist in \<open>auto simp: dn pc_defs\<close>)
  then show ?thesis using l1(1) l2(1) by (auto simp: leave_box_def Let_def set_pc_frags)
qed

lemma leave_keep:
  assumes inv: "tinv int_solve vol_limit need dn pend T" and i: "i < length (pcs T)" "pcs T ! i = Proc a"
    and b: "cells (frags (fi T)) a = Some b" and k: "tok int_solve b2" "coords b2 = coords b" "settled vol_limit b2"
  shows "\<exists>T' dn'. leave_box int_solve i a (PKeep b2) T = Inr T' \<and> exited T' = exited T \<and> tinv int_solve vol_limit need dn' pend T'"
proof -
  let ?l = "frags (fi T)"
  from worker_node[OF inv i b] obtain xs ys where dn: "dn = xs @ a # ys" and pool: "pool (tok int_solve) ?l (xs @ a # (ys @ pend))"
    and put: "\<And>b'. \<exists>l'. set_box a b' ?l = Inr l' \<and> linked l' (xs @ a # (ys @ pend)) \<and> cells l' = (cells ?l)(a \<mapsto> b')" by blast
  from put[of b2] obtain l1 where l1: "set_box a b2 ?l = Inr l1" "linked l1 (xs @ a # (ys @ pend))" "cells l1 = (cells ?l)(a \<mapsto> b2)" by blast
  note keep = pool_keep[OF pool l1(2,3) k(1)]
  have "tinv int_solve vol_limit need dn pend (set_pc i Top (T\<lparr>fi := (fi T)\<lparr>frags := l1\<rparr>\<rparr>))"
  proof (rule work_step[OF inv i, where p = Top and l' = l1 and b' = b2])
    show "covered l1 (dn @ pend) x \<or> (\<exists>nb. half_of Top = Some nb \<and> in_box nb x)" if "x \<in> need" "covered ?l (dn @ pend) x" for x
      using keep(2)[of x] that b k(2) by (auto simp: dn)
  qed (use keep(1) l1(3) k(3) in \<open>auto simp: dn pc_defs\<close>)
  then show ?thesis using l1(1) by (auto simp: leave_box_def Let_def set_pc_frags)
qed

lemma leave_split:
  assumes inv: "tinv int_solve vol_limit need dn pend T" and i: "i < length (pcs T)" "pcs T ! i = Proc a"
    and b: "cells (frags (fi T)) a = Some b"
    and k: "tok int_solve nb" "tok int_solve b2" "confidence nb = 0" "confidence b2 = 0" "\<And>x. in_box b x \<longleftrightarrow> in_box nb x \<or> in_box b2 x"
  shows "\<exists>T' dn'. leave_box int_solve i a (PSplit nb b2) T = Inr T' \<and> exited T' = exited T \<and> tinv int_solve vol_limit need dn' pend T'"
proof -
  let ?l = "frags (fi T)"
  from worker_node[OF inv i b] obtain xs ys where dn: "dn = xs @ a # ys" and pool: "pool (tok int_solve) ?l (xs @ a # (ys @ pend))"
    and put: "\<And>b'. \<exists>l'. set_box a b' ?l = Inr l' \<and> linked l' (xs @ a # (ys @ pend)) \<and> cells l' = (cells ?l)(a \<mapsto> b')" by blast
  from put[of b2] obtain l1 where l1: "set_box a b2 ?l = Inr l1" "linked l1 (xs @ a # (ys @ pend))" "cells l1 = (cells ?l)(a \<mapsto> b2)" by blast
  have pool1: "pool (tok int_solve) l1 (dn @ pend)" using pool_keep(1)[OF pool l1(2,3) k(2)] by (simp add: dn)
  have "tinv int_solve vol_limit need dn pend (set_pc i (Moving a nb) (T\<lparr>fi := (fi T)\<lparr>frags := l1\<rparr>\<rparr>))"
  proof (rule work_step[OF inv i, where p = "Moving a nb" and l' = l1 and b' = b2])
    show "covered l1 (dn @ pend) x \<or> (\<exists>nb'. half_of (Moving a nb) = Some nb' \<and> in_box nb' x)" if "x \<in> need" "covered ?l (dn @ pend) x" for x
    proof (cases "in_box nb x")
      case False
      then show ?thesis using pool_keep(2)[OF pool l1(2,3) k(2), of x] that b k(5) by (auto simp: dn)
    qed (simp add: pc_defs)
  qed (use pool1 l1(3) k in \<open>auto simp: dn pc_defs\<close>)
  then show ?thesis using l1(1) by (auto simp: leave_box_def Let_def set_pc_frags)
qed

text \<open>What the handler of an exception leaves in the list before it ends the process.\<close>

lemma exit_list:
  assumes pool: "pool (tok int_solve) l (xs @ a # ys)" and b: "cells l a = Some b" and r: "proc_ok int_solve vol_limit need b (PExit fate b2)"
    and ints: "\<And>x. x \<in> need \<Longrightarrow> int_solve \<longrightarrow> int_point x"
  shows "\<exists>l' as. (case fate of
      Halved nb \<Rightarrow> bindR (set_box a (round_if int_solve b2) l) (\<lambda>l1. bindR (emplace_node a l1) (\<lambda>(c, l2). add_node (round_if int_solve nb) l2))
    | _ \<Rightarrow> set_box a b2 l) = Inr l' \<and> pool (tok int_solve) l' as \<and> (\<forall>x \<in> need. covered l (xs @ a # ys) x \<longrightarrow> covered l' as x)"
proof (cases fate)
  case Kept
  have k: "tok int_solve b2" "coords b2 = coords b" using r Kept by (auto simp: proc_ok_def)
  have "cells l a \<noteq> None" using b by simp
  then obtain l1 where l1: "set_box a b2 l = Inr l1" "linked l1 (xs @ a # ys)" "cells l1 = (cells l)(a \<mapsto> b2)"
    using fr.put_law[OF pool_linked[OF pool]] by blast
  from pool_keep[OF pool l1(2,3) k(1)] k(2) b l1(1) Kept show ?thesis
    by (intro exI[of _ l1] exI[of _ "xs @ a # ys"]) auto
next
  case (Halved nb)
  have k: "tok int_solve nb" "tok int_solve b2" "\<And>x. in_box b x \<longleftrightarrow> in_box nb x \<or> in_box b2 x"
    using r Halved by (auto simp: proc_ok_def)
  have ok: "tok int_solve (round_if int_solve b2)" "tok int_solve (round_if int_solve nb)"
    using k(1,2) round_if_certified by (auto simp: tok_def round_if_def split: if_splits)
  obtain l0 l1 l2 c where l: "set_box a (round_if int_solve b2) l = Inr l0" "emplace_node a l0 = Inr (the (first (ys @ [a]) None), l1)"
    "add_node (round_if int_solve nb) l1 = Inr l2" "linked l2 (xs @ ys @ [a, c])"
    "cells l2 = (cells l)(a \<mapsto> round_if int_solve b2, c \<mapsto> round_if int_solve nb)" "cells l c = None"
    using fr.split_law[OF pool_linked[OF pool], of "round_if int_solve b2" "round_if int_solve nb"] by blast
  have "covered l2 (xs @ ys @ [a, c]) x" if "x \<in> need" "covered l (xs @ a # ys) x" for x
    using pool_split(2)[OF pool l(4-6) ok, of x] that b k(3) ints[OF that(1)] round_if_keeps[of b2 x int_solve] round_if_keeps[of nb x int_solve]
    by auto
  then show ?thesis using pool_split(1)[OF pool l(4-6) ok] l(1-3) Halved by auto
qed (use r in \<open>simp add: proc_ok_def\<close>)

lemma leave_exit:
  assumes inv: "tinv int_solve vol_limit need dn pend T" and i: "i < length (pcs T)" "pcs T ! i = Proc a"
    and b: "cells (frags (fi T)) a = Some b" and r: "proc_ok int_solve vol_limit need b (PExit fate b2)"
    and ints: "\<And>x. x \<in> need \<Longrightarrow> int_solve \<longrightarrow> int_point x"
  shows "\<exists>T'. leave_box int_solve i a (PExit fate b2) T = Inr T' \<and> exited T' \<and> safe int_solve need T'"
proof -
  let ?l = "frags (fi T)"
  from worker_node[OF inv i b] obtain xs ys where dn: "dn = xs @ a # ys" and pool: "pool (tok int_solve) ?l (xs @ a # (ys @ pend))" by blast
  from exit_list[OF pool b r ints] obtain l' as where l': "(case fate of
      Halved nb \<Rightarrow> bindR (set_box a (round_if int_solve b2) ?l) (\<lambda>l1. bindR (emplace_node a l1) (\<lambda>(c, l2). add_node (round_if int_solve nb) l2))
    | _ \<Rightarrow> set_box a b2 ?l) = Inr l'" "pool (tok int_solve) l' as" "\<forall>x \<in> need. covered ?l (dn @ pend) x \<longrightarrow> covered l' as x" by (auto simp: dn)
  let ?T = "(set_pc i Finished (T\<lparr>fi := (fi T)\<lparr>frags := l'\<rparr>\<rparr>))\<lparr>exited := True\<rparr>"
  have kp: "kept_points need (dn @ pend) T" and half: "half_of (pcs T ! i) = None" using inv i(2) by (simp_all add: tinv_def pc_defs)
  have "kept_points need as ?T"
    by (rule kept_step[OF kp, where p = Finished and i = i]) (use l'(3) half i(1) in \<open>auto simp: set_pc_frags moved_def pc_defs\<close>)
  then have "safe int_solve need ?T" using l'(2) by (auto simp: safe_def set_pc_frags)
  moreover have "leave_box int_solve i a (PExit fate b2) T = Inr ?T" using l'(1) by (simp add: leave_box_def Let_def)
  ultimately show ?thesis by simp
qed

lemma leave_box_inv:
  assumes inv: "tinv int_solve vol_limit need dn pend T" and i: "i < length (pcs T)" "pcs T ! i = Proc a"
    and b: "cells (frags (fi T)) a = Some b" and r: "proc_ok int_solve vol_limit need b r"
    and ints: "\<And>x. x \<in> need \<Longrightarrow> int_solve \<longrightarrow> int_point x" and ex: "\<not> exited T"
  shows "\<exists>T'. leave_box int_solve i a r T = Inr T' \<and> (exited T' \<longrightarrow> safe int_solve need T')
     \<and> (\<not> exited T' \<longrightarrow> (\<exists>dn'. tinv int_solve vol_limit need dn' pend T'))"
proof (cases r)
  case (PRemove b2)
  with r leave_remove[OF inv i b, of b2] ex show ?thesis by (auto simp: proc_ok_def)
next
  case (PKeep b2)
  with r leave_keep[OF inv i b, of b2] ex show ?thesis by (auto simp: proc_ok_def)
next
  case (PSplit nb b2)
  with r leave_split[OF inv i b, of nb b2] ex show ?thesis by (auto simp: proc_ok_def)
next
  case (PExit fate b2)
  with leave_exit[OF inv i b _ ints, of fate b2] r show ?thesis by auto
qed

text \<open>An active thread that stays active does not change the counters.\<close>

lemma lock_active:
  assumes lk: "lock_inv pend T" and m: "moved i p (pcs T) (pcs T')" and act: "active (pcs T ! i)" "active p"
    and T': "n_threads_active T' = n_threads_active T"
    and hold: "\<not> appending p \<and> holder T' = None \<or> appending p \<and> holder T' = Some i \<or> \<not> appending p \<and> \<not> appending (pcs T ! i) \<and> holder T' = holder T"
    and free: "appending p \<or> appending (pcs T ! i) \<Longrightarrow> holder T = None \<or> holder T = Some i"
    and clear: "\<not> appending p \<and> holder T' = None \<Longrightarrow> holder T = None \<or> holder T = Some i"
    and pend: "holder T' \<noteq> None \<Longrightarrow> pend' \<noteq> []"
  shows "lock_inv pend' T'"
proof (rule lock_step[OF lk m _ hold free clear pend])
  have cnt: "n_active (pcs T') = n_active (pcs T)" using moved_active[OF m] act by simp
  have pos: "0 < n_active (pcs T)" using n_active_0[of "pcs T"] moved_nth(2)[OF m] act(1) by auto
  show "n_threads_active T' = int (n_active (pcs T'))" using lk cnt T' by (simp add: lock_inv_def)
  show "n_active (pcs T') = 0 \<and> pend' = []" if "p = Finished \<or> (\<exists>j < length (pcs T). pcs T ! j = Finished)"
    using that act(2) lk pos by (auto simp: lock_inv_def pc_defs)
  show "0 < n_active (pcs T')" using cnt pos by simp
qed

lemma place_covers:
  assumes alt: "covered l as x \<or> in_box nb x" and int: "int_solve \<longrightarrow> int_point x" and b: "cells l a = Some b"
    and as': "set as' = set as" and l': "cells l' = (cells l)(a \<mapsto> round_if int_solve b)"
  shows "covered l' as' x \<or> in_box (round_if int_solve nb) x"
proof -
  have keep: "in_box b' x \<Longrightarrow> in_box (round_if int_solve b') x" for b' using round_if_keeps int by blast
  have "covered l' as' x" if cov: "covered l as x"
  proof (rule covered_transfer[OF cov])
    fix e b' assume e: "e \<in> set as" "cells l e = Some b'" "in_box b' x"
    show "\<exists>e' \<in> set as'. \<exists>c. cells l' e' = Some c \<and> in_box c x"
      by (rule bexI[of _ e]) (use e b keep in \<open>auto simp: l' as'\<close>)
  qed
  with alt keep show ?thesis by blast
qed

lemma place_inv:
  assumes inv: "tinv int_solve vol_limit need dn pend T" and i: "i < length (pcs T)" "pcs T ! i = Moving a nb"
    and free: "holder T = None" and ints: "\<And>x. x \<in> need \<Longrightarrow> int_solve \<longrightarrow> int_point x"
  shows "\<exists>T' dn'. place int_solve i a nb T = Inr T' \<and> exited T' = exited T \<and> tinv int_solve vol_limit need dn' (pend @ [a]) T'"
proof -
  let ?l = "frags (fi T)" and ?nb = "round_if int_solve nb"
  have ch: "chain_inv int_solve dn pend T" and ow: "owners_inv int_solve vol_limit dn T" and lk: "lock_inv pend T"
    and kp: "kept_points need (dn @ pend) T" using inv by (auto simp: tinv_def)
  have oi: "owner (pcs T ! i) = Some a" "half_of (pcs T ! i) = Some nb" "active (pcs T ! i)" "\<not> appending (pcs T ! i)" using i(2) by (simp_all add: pc_defs)
  note mine = ownersD(1-3)[OF ow i(1) oi(1)] and nb = ownersD(4)[OF ow i(1) oi(2)]
  obtain xs ys where dn: "dn = xs @ a # ys" using mine(1) by (meson split_list)
  have pool: "pool (tok int_solve) ?l (xs @ a # (ys @ pend))" using ch by (simp add: chain_inv_def dn)
  note link = pool_linked[OF pool]
  have dist: "distinct (xs @ a # (ys @ pend))" by (rule linked_distinct[OF link])
  obtain b where b: "cells ?l a = Some b" "box_at ?l a = Inr b" "tok int_solve b" using pool_box[OF pool, of a] by auto
  let ?b = "round_if int_solve b"
  have ok: "tok int_solve ?b" "tok int_solve ?nb" using b(3) nb round_if_certified by (auto simp: tok_def round_if_def split: if_splits)
  obtain l1 where l1: "set_box a ?b ?l = Inr l1" "linked l1 (xs @ a # (ys @ pend))" "cells l1 = (cells ?l)(a \<mapsto> ?b)"
    using fr.put_law[OF link, of a ?b] b(1) by auto
  obtain c l2 where l2: "emplace_node a l1 = Inr (c, l2)" "linked l2 (xs @ (ys @ pend) @ [a])" "cells l2 = cells l1"
    using fr.emplace_law[OF l1(2)] by blast
  define T' where "T' = (let T1 = T\<lparr>fi := (fi T)\<lparr>frags := l2\<rparr>, holder := Some i\<rparr>;
          T2 = (if curr_box (fi T) = None then notify_all (T1\<lparr>fi := (fi T1)\<lparr>curr_box := Some a\<rparr>\<rparr>) else T1) in
      set_pc i (Appending a ?nb) T2)"
  have run: "place int_solve i a nb T = Inr T'" using b(2) l1(1) l2(1) by (simp add: place_def T'_def Let_def)
  have m: "moved i (Appending a ?nb) (pcs T) (pcs T')" using i(1) by (simp add: T'_def Let_def moved_def set_pc_def notify_all_def)
  have cur: "curr_box (fi T) = first pend None" using ch by (simp add: chain_inv_def)
  have f: "frags (fi T') = l2" "curr_box (fi T') = first (pend @ [a]) None" "n_dirs (fi T') = n_dirs (fi T)" "s_pos (fi T') = s_pos (fi T)"
    "s_neg (fi T') = s_neg (fi T)" "holder T' = Some i" "n_threads_active T' = n_threads_active T" "exited T' = exited T"
    using cur by (cases pend; simp add: T'_def Let_def set_pc_def notify_all_def)+
  have cells2: "cells l2 = (cells ?l)(a \<mapsto> ?b)" using l1(3) l2(3) by simp
  have pool2: "pool (tok int_solve) l2 ((xs @ ys) @ (pend @ [a]))" using pool l2(2) cells2 ok(1) dist by (auto simp: pool_def)
  have "chain_inv int_solve (xs @ ys) (pend @ [a]) T'"
    using ch pool2 cells2 mine(2)[OF b(1)] dist by (auto simp: chain_inv_def f)
  moreover have "owners_inv int_solve vol_limit (xs @ ys) T'"
  proof (rule owners_step[OF ow m])
    show "a' \<in> set (xs @ ys) \<and> cells (frags (fi T')) a' = cells ?l a'" if "j < length (pcs T)" "j \<noteq> i" "owner (pcs T ! j) = Some a'" "a' \<in> set dn" for j a'
      using mine(3)[OF that(1,2)] that(3,4) by (auto simp: f cells2 dn)
    show "settled vol_limit b'" if "a' \<in> set (xs @ ys)" "cells (frags (fi T')) a' = Some b'"
      "\<forall>j < length (pcs T). j \<noteq> i \<longrightarrow> owner (pcs T ! j) \<noteq> Some a'" for a' b'
    proof -
      have "a' \<noteq> a" "a' \<in> set dn" using that(1) dist by (auto simp: dn)
      then show ?thesis using that oi(1) by (intro settledD[OF ow, of a']) (auto simp: f cells2)
    qed
  qed (use ok(2) nb in \<open>auto simp: f cells2 pc_defs\<close>)
  moreover have "lock_inv (pend @ [a]) T'"
    by (rule lock_active[OF lk m]) (use oi free in \<open>auto simp: f pc_defs\<close>)
  moreover have "kept_points need ((xs @ ys) @ (pend @ [a])) T'"
  proof (rule kept_step[OF kp m])
    fix x assume x: "x \<in> need" and alt: "covered ?l (dn @ pend) x \<or> (\<exists>nb'. half_of (pcs T ! i) = Some nb' \<and> in_box nb' x)"
    show "covered (frags (fi T')) ((xs @ ys) @ (pend @ [a])) x \<or> (\<exists>nb'. half_of (Appending a ?nb) = Some nb' \<and> in_box nb' x)"
      using place_covers[of ?l "dn @ pend" x nb int_solve a b "(xs @ ys) @ (pend @ [a])" l2] alt oi(2) ints[OF x] b(1) cells2
      by (auto simp: f pc_defs dn)
  qed
  ultimately show ?thesis using run f(8) by (auto simp: tinv_def)
qed

lemma append_inv:
  assumes inv: "tinv int_solve vol_limit need dn pend T" and i: "i < length (pcs T)" "pcs T ! i = Appending a nb"
  shows "\<exists>T' c. append_half i a nb T = Inr T' \<and> exited T' = exited T \<and> tinv int_solve vol_limit need dn (pend @ [c]) T'
     \<and> cells (frags (fi T)) c = None \<and> cells (frags (fi T')) = (cells (frags (fi T)))(c \<mapsto> nb)"
proof -
  let ?l = "frags (fi T)"
  have ch: "chain_inv int_solve dn pend T" and ow: "owners_inv int_solve vol_limit dn T" and lk: "lock_inv pend T"
    and kp: "kept_points need (dn @ pend) T" using inv by (auto simp: tinv_def)
  have oi: "owner (pcs T ! i) = None" "half_of (pcs T ! i) = Some nb" "active (pcs T ! i)" "appending (pcs T ! i)" "touches (pcs T ! i) = Some a"
    using i(2) by (simp_all add: pc_defs)
  have h: "holder T = Some i" "pend \<noteq> []" using lk i(1) oi(4) by (auto simp: lock_inv_def)
  note nb = ownersD(4)[OF ow i(1) oi(2)] and ca = ownersD(5)[OF ow i(1) oi(5)]
  have pool: "pool (tok int_solve) ?l (dn @ pend)" using ch by (simp add: chain_inv_def)
  obtain l' c where l': "add_node nb ?l = Inr l'" "linked l' ((dn @ pend) @ [c])" "cells l' = (cells ?l)(c \<mapsto> nb)" "cells ?l c = None"
    using fr.add_law[OF pool_linked[OF pool], of nb] by blast
  have c: "c \<notin> set (dn @ pend)" using linked_in_cells[OF pool_linked[OF pool], of c] l'(4) by blast
  define T' where "T' = set_pc i (Marking a) (T\<lparr>fi := (fi T)\<lparr>frags := l'\<rparr>, holder := None\<rparr>)"
  have run: "append_half i a nb T = Inr T'" using l'(1) by (simp add: append_half_def T'_def)
  have m: "moved i (Marking a) (pcs T) (pcs T')" using i(1) by (simp add: T'_def moved_def set_pc_def)
  have f: "frags (fi T') = l'" "curr_box (fi T') = curr_box (fi T)" "n_dirs (fi T') = n_dirs (fi T)" "s_pos (fi T') = s_pos (fi T)"
    "s_neg (fi T') = s_neg (fi T)" "holder T' = None" "n_threads_active T' = n_threads_active T" "exited T' = exited T"
    by (simp_all add: T'_def set_pc_def)
  have same: "cells l' e = cells ?l e" if "e \<in> set (dn @ pend)" for e using that c l'(3) by auto
  have "first (pend @ [c]) None = first pend None" using h(2) by (cases pend) auto
  then have "chain_inv int_solve dn (pend @ [c]) T'"
    using ch l'(2,3) nb c by (auto simp: chain_inv_def f pool_def)
  moreover have "owners_inv int_solve vol_limit dn T'"
  proof (rule owners_step[OF ow m])
    show "a' \<in> set dn \<and> cells (frags (fi T')) a' = cells ?l a'" if "a' \<in> set dn" for a' using that same by (simp add: f)
    show "settled vol_limit b'" if "a' \<in> set dn" "cells (frags (fi T')) a' = Some b'"
      "\<forall>j < length (pcs T). j \<noteq> i \<longrightarrow> owner (pcs T ! j) \<noteq> Some a'" for a' b'
    proof (rule settledD[OF ow that(1)])
      show "\<forall>j < length (pcs T). owner (pcs T ! j) \<noteq> Some a'" using that(3) oi(1) by (metis option.distinct(1))
    qed (use that(1,2) same[of a'] in \<open>simp add: f\<close>)
  qed (use ca l'(3) in \<open>auto simp: f pc_defs\<close>)
  moreover have "lock_inv (pend @ [c]) T'"
    by (rule lock_active[OF lk m]) (use oi h in \<open>auto simp: f pc_defs\<close>)
  moreover have "kept_points need (dn @ (pend @ [c])) T'"
  proof (rule kept_step[OF kp m])
    fix x assume alt: "covered ?l (dn @ pend) x \<or> (\<exists>nb'. half_of (pcs T ! i) = Some nb' \<and> in_box nb' x)"
    have "covered l' (dn @ (pend @ [c])) x"
    proof (cases "in_box nb x")
      case True
      then show ?thesis by (auto simp: covered_def l'(3))
    next
      case False
      then have "covered ?l (dn @ pend) x" using alt oi(2) by auto
      then show ?thesis using same by (fastforce simp: covered_def)
    qed
    then show "covered (frags (fi T')) (dn @ (pend @ [c])) x \<or> (\<exists>nb'. half_of (Marking a) = Some nb' \<and> in_box nb' x)" by (simp add: f)
  qed
  ultimately show ?thesis using run f(1,8) l'(3,4) by (auto simp: tinv_def)
qed

text \<open>A thread that goes back to the top of its loop and has changed no more of the boxes than their marks.\<close>

lemma owners_touch:
  assumes ow: "owners_inv int_solve vol_limit dn T" and m: "moved i Top (pcs T) (pcs T')"
    and oi: "owner (pcs T ! i) = None" "half_of (pcs T ! i) = None"
    and same: "\<And>e c'. cells (frags (fi T')) e = Some c' \<Longrightarrow> \<exists>c. cells (frags (fi T)) e = Some c \<and> same_box c c'"
    and there: "\<And>e. cells (frags (fi T)) e \<noteq> None \<Longrightarrow> cells (frags (fi T')) e \<noteq> None"
  shows "owners_inv int_solve vol_limit dn T'"
  unfolding owners_inv_def
  proof (intro conjI allI impI ballI)
    note nth = moved_nth[OF m]
    have pc: "owner (pcs T' ! j) = owner (pcs T ! j)" "half_of (pcs T' ! j) = half_of (pcs T ! j)" "j < length (pcs T)" if "j < length (pcs T')" for j
      using that nth oi by (cases "j = i"; simp add: pc_defs)+
    have tc: "touches (pcs T ! j) = Some e" if "j < length (pcs T')" "touches (pcs T' ! j) = Some e" for j e
      using that nth by (cases "j = i") (auto simp: pc_defs)
    fix j e assume j: "j < length (pcs T')"
    show "e \<in> set dn" if "owner (pcs T' ! j) = Some e" using ownersD(1)[OF ow] pc[OF j] that by metis
    show "confidence c = 0" if "owner (pcs T' ! j) = Some e" "cells (frags (fi T')) e = Some c" for c
      using ownersD(2)[OF ow, of j e] pc[OF j] that same[of e c] same_box_preserves(4) by auto
    show "owner (pcs T' ! h) \<noteq> Some e" if "owner (pcs T' ! j) = Some e" "h < length (pcs T')" "h \<noteq> j" for h
      using ownersD(3)[OF ow, of j e h] pc[OF j] pc[OF that(2)] that by auto
    show "tok int_solve nb" "confidence nb = 0" if "half_of (pcs T' ! j) = Some nb" for nb
      using ownersD(4)[OF ow, of j nb] pc[OF j] that by auto
    show "cells (frags (fi T')) e \<noteq> None" if "touches (pcs T' ! j) = Some e"
      using ownersD(5)[OF ow, of j e] tc[OF j that] pc[OF j] there by auto
  next
    fix e c assume e: "e \<in> set dn" "cells (frags (fi T')) e = Some c" "\<forall>j < length (pcs T'). owner (pcs T' ! j) \<noteq> Some e"
    note nth = moved_nth[OF m]
    have no: "owner (pcs T ! j) \<noteq> Some e" if "j < length (pcs T)" for j using e(3) that nth oi(1) by (cases "j = i") auto
    from same e(2) obtain c0 where c0: "cells (frags (fi T)) e = Some c0" "same_box c0 c" by auto
    show "settled vol_limit c" using settledD[OF ow e(1) c0(1)] no same_box_preserves(3)[OF c0(2)] by blast
  qed

lemma mark_inv:
  assumes inv: "tinv int_solve vol_limit need dn pend T" and i: "i < length (pcs T)" "pcs T ! i = Marking a"
  shows "\<exists>T'. mark_done i a T = Inr T' \<and> exited T' = exited T \<and> tinv int_solve vol_limit need dn pend T'"
proof -
  let ?l = "frags (fi T)"
  have ch: "chain_inv int_solve dn pend T" and ow: "owners_inv int_solve vol_limit dn T" and lk: "lock_inv pend T"
    and kp: "kept_points need (dn @ pend) T" using inv by (auto simp: tinv_def)
  have oi: "owner (pcs T ! i) = None" "half_of (pcs T ! i) = None" "active (pcs T ! i)" "\<not> appending (pcs T ! i)" "touches (pcs T ! i) = Some a"
    using i(2) by (simp_all add: pc_defs)
  have pool: "pool (tok int_solve) ?l (dn @ pend)" using ch by (simp add: chain_inv_def)
  from ownersD(5)[OF ow i(1) oi(5)] obtain b where b: "cells ?l a = Some b" by blast
  let ?b = "b\<lparr>curr_state := 2\<rparr>"
  have sb: "same_box b ?b" by simp
  obtain l' where l': "set_box a ?b ?l = Inr l'" "linked l' (dn @ pend)" "cells l' = (cells ?l)(a \<mapsto> ?b)"
    using fr.put_law[OF pool_linked[OF pool], of a ?b] b by auto
  note touch = pool_touch[OF pool l'(2,3) b sb tok_same]
  define T' where "T' = set_pc i Top (T\<lparr>fi := (fi T)\<lparr>frags := l'\<rparr>\<rparr>)"
  have run: "mark_done i a T = Inr T'" using l'(1) fr.get_law[OF b] by (simp add: mark_done_def T'_def)
  have m: "moved i Top (pcs T) (pcs T')" using i(1) by (simp add: T'_def moved_def set_pc_def)
  have f: "frags (fi T') = l'" "curr_box (fi T') = curr_box (fi T)" "n_dirs (fi T') = n_dirs (fi T)" "s_pos (fi T') = s_pos (fi T)"
    "s_neg (fi T') = s_neg (fi T)" "holder T' = holder T" "n_threads_active T' = n_threads_active T" "exited T' = exited T"
    by (simp_all add: T'_def set_pc_def)
  have same: "\<exists>c. cells ?l e = Some c \<and> same_box c c'" if "cells l' e = Some c'" for e c'
    using that b l'(3) by (cases "e = a") auto
  have "confidence c' = 0" if e: "e \<in> set pend" "cells l' e = Some c'" for e c'
    using ch e(1) same[OF e(2)] same_box_preserves(4) by (auto simp: chain_inv_def)
  then have "chain_inv int_solve dn pend T'" using ch touch(1) by (simp add: chain_inv_def f)
  moreover have "owners_inv int_solve vol_limit dn T'"
    by (rule owners_touch[OF ow m oi(1,2)]) (use same b in \<open>auto simp: f l'(3) split: if_splits\<close>)
  moreover have "lock_inv pend T'"
  proof (rule lock_active[OF lk m])
    show "pend \<noteq> []" if "holder T' \<noteq> None" using that lk by (auto simp: f lock_inv_def)
    show "holder T = None \<or> holder T = Some i" if "\<not> appending Top \<and> holder T' = None" using that by (simp add: f)
  qed (use oi in \<open>auto simp: f pc_defs\<close>)
  moreover have "kept_points need (dn @ pend) T'"
    by (rule kept_step[OF kp m]) (use touch(2) oi(2) in \<open>auto simp: f pc_defs\<close>)
  ultimately show ?thesis using run f(8) by (auto simp: tinv_def)
qed

subsection \<open>All reachable states\<close>

definition thread_inv :: "bool \<Rightarrow> double \<Rightarrow> double list set \<Rightarrow> 's threads \<Rightarrow> bool" where
  "thread_inv int_solve vol_limit need T \<longleftrightarrow>
     (if exited T then safe int_solve need T else \<exists>dn pend. tinv int_solve vol_limit need dn pend T)"

lemma thread_inv_safe: "thread_inv int_solve vol_limit need T \<Longrightarrow> safe int_solve need T"
  by (auto simp: thread_inv_def intro: tinv_safe split: if_splits)

lemma enter_step:
  assumes inv: "tinv int_solve vol_limit need dn pend T" and i: "i < length (pcs T)" and free: "holder T = None" and ex: "\<not> exited T"
  shows "pcs T ! i = Top \<Longrightarrow> \<exists>T'. enter i T = Inr T' \<and> thread_inv int_solve vol_limit need T'"
    and "pcs T ! i = Waiting w \<Longrightarrow> \<exists>T'. wake_up i T = Inr T' \<and> thread_inv int_solve vol_limit need T'"
proof -
  have cnt: "n_threads_active T = int (n_active (pcs T))" using inv by (simp add: tinv_def lock_inv_def)
  show "\<exists>T'. enter i T = Inr T' \<and> thread_inv int_solve vol_limit need T'" if "pcs T ! i = Top"
  proof -
    have "\<exists>T' dn' pend'. enter i T = Inr T' \<and> tinv int_solve vol_limit need dn' pend' T' \<and> exited T' = exited T"
      by (rule enter_inv[OF inv i _ free, of _ "n_threads_active T"]) (use that cnt in \<open>simp_all add: pc_defs\<close>)
    then show ?thesis using ex by (auto simp: thread_inv_def)
  qed
  show "\<exists>T'. wake_up i T = Inr T' \<and> thread_inv int_solve vol_limit need T'" if "pcs T ! i = Waiting w"
  proof -
    have "\<exists>T' dn' pend'. wake_up i T = Inr T' \<and> tinv int_solve vol_limit need dn' pend' T' \<and> exited T' = exited T"
      unfolding wake_up_def by (rule enter_inv[OF inv i _ free refl]) (use that cnt in \<open>simp_all add: pc_defs\<close>)
    then show ?thesis using ex by (auto simp: thread_inv_def)
  qed
qed

lemma process_step:
  assumes inv: "tinv int_solve vol_limit need dn pend T" and i: "i < length (pcs T)" "pcs T ! i = Proc a" and ex: "\<not> exited T"
    and clear: "\<And>x i. x \<in> need \<Longrightarrow> i < k \<Longrightarrow> \<not> N i x" and trie: "trie_fits int_solve n trie bounds need"
    and ints: "\<And>x. x \<in> need \<Longrightarrow> int_solve \<longrightarrow> int_point x"
  shows "\<exists>b r T'. box_at (frags (fi T)) a = Inr b \<and> process_box int_solve query vol_limit trie bounds (fi T) b = Some (Inr r)
    \<and> leave_box int_solve i a r T = Inr T' \<and> thread_inv int_solve vol_limit need T'"
proof -
  have ow: "owners_inv int_solve vol_limit dn T" and pool: "pool (tok int_solve) (frags (fi T)) (dn @ pend)"
    and st: "ready (s_pos (fi T)) (s_neg (fi T))" "n_dirs (fi T) = n" using inv by (auto simp: tinv_def chain_inv_def)
  have o: "owner (pcs T ! i) = Some a" using i(2) by (simp add: pc_defs)
  have "a \<in> set (dn @ pend)" using ownersD(1)[OF ow i(1) o] by simp
  from pool_box[OF pool this] obtain b where b: "cells (frags (fi T)) a = Some b" "box_at (frags (fi T)) a = Inr b" "tok int_solve b" by blast
  from process_box_spec[OF b(3) ownersD(2)[OF ow i(1) o b(1)] st clear trie] obtain r where
    r: "process_box int_solve query vol_limit trie bounds (fi T) b = Some (Inr r)" "proc_ok int_solve vol_limit need b r" by blast
  from leave_box_inv[OF inv i b(1) r(2) ints ex] show ?thesis using b(2) r(1) by (auto simp: thread_inv_def)
qed

lemma tstep_inv:
  assumes inv: "thread_inv int_solve vol_limit need T" and step: "tstep int_solve query vol_limit trie bounds i T T'"
    and clear: "\<And>x i. x \<in> need \<Longrightarrow> i < k \<Longrightarrow> \<not> N i x" and trie: "trie_fits int_solve n trie bounds need"
    and ints: "\<And>x. x \<in> need \<Longrightarrow> int_solve \<longrightarrow> int_point x"
  shows "thread_inv int_solve vol_limit need T'"
  using step
proof (cases rule: tstep.cases)
  case lock
  with inv obtain dn pend where "tinv int_solve vol_limit need dn pend T" by (auto simp: thread_inv_def)
  from enter_step(1)[OF this lock(1,4,2,3)] lock(5) show ?thesis by auto
next
  case wake
  with inv obtain dn pend where "tinv int_solve vol_limit need dn pend T" by (auto simp: thread_inv_def)
  from enter_step(2)[OF this wake(1,4,2,3)] wake(5) show ?thesis by auto
next
  case (process a b r)
  with inv obtain dn pend where "tinv int_solve vol_limit need dn pend T" by (auto simp: thread_inv_def)
  from process_step[OF this process(1,3,2) clear trie ints] process(4-6) show ?thesis by auto
next
  case (place a nb)
  with inv obtain dn pend where "tinv int_solve vol_limit need dn pend T" by (auto simp: thread_inv_def)
  from place_inv[OF this place(1,3,4) ints] place(2,5) show ?thesis by (auto simp: thread_inv_def)
next
  case (append a nb)
  with inv obtain dn pend where "tinv int_solve vol_limit need dn pend T" by (auto simp: thread_inv_def)
  from append_inv[OF this append(1,3)] append(2,4) show ?thesis by (auto simp: thread_inv_def)
next
  case (mark a)
  with inv obtain dn pend where "tinv int_solve vol_limit need dn pend T" by (auto simp: thread_inv_def)
  from mark_inv[OF this mark(1,3)] mark(2,4) show ?thesis by (auto simp: thread_inv_def)
qed

lemma reach_inv:
  assumes "reach int_solve query vol_limit trie bounds T0 T" and "thread_inv int_solve vol_limit need T0"
    and clear: "\<And>x i. x \<in> need \<Longrightarrow> i < k \<Longrightarrow> \<not> N i x" and trie: "trie_fits int_solve n trie bounds need"
    and ints: "\<And>x. x \<in> need \<Longrightarrow> int_solve \<longrightarrow> int_point x"
  shows "thread_inv int_solve vol_limit need T"
  using assms(1)
proof (induction rule: reach.induct)
  case start
  show ?case by (rule assms(2))
next
  case (step T i T')
  show ?case by (rule tstep_inv[OF step.IH step.hyps(2) clear trie ints])
next
  case (spur T i T')
  then obtain dn pend where "tinv int_solve vol_limit need dn pend T" by (auto simp: thread_inv_def spurious_def)
  from enter_step(2)[OF this, of i False] spur.hyps(2) show ?case by (auto simp: spurious_def)
qed

lemma start_tinv:
  assumes "ready ps ns" and "length acoords = n" and sizes: "0 < n" "0 < k" "k < 2 ^ 63"
    and "\<forall>c \<in> set acoords. fst c \<le> snd c" and need: "\<And>x. x \<in> need \<Longrightarrow> in_coords acoords x"
  shows "\<exists>st. frag_new acoords ps ns = Inr st \<and> tinv int_solve vol_limit need [] [0] (run_threads_start m st)"
proof -
  from frag_new_inv[OF assms] obtain st where st: "frag_new acoords ps ns = Inr st" "search_inv vol_limit need [] [0] st" by blast
  let ?T = "run_threads_start m st"
  have pcs: "pcs ?T = replicate m Top" and f: "fi ?T = st" "holder ?T = None" "exited ?T = False" "n_threads_active ?T = int m"
    by (simp_all add: run_threads_start_def)
  have "chain_inv int_solve [] [0] ?T" using st(2) by (auto simp: search_inv_def chain_inv_def f pool_def box_ok_def tok_def)
  moreover have "owners_inv int_solve vol_limit [] ?T" by (simp add: owners_inv_def pcs pc_defs)
  moreover have "n_active (replicate m Top) = m" by (induction m) (simp_all add: n_active_def pc_defs)
  then have "lock_inv [0] ?T" by (auto simp: lock_inv_def pcs f pc_defs)
  moreover have "kept_points need ([] @ [0]) ?T" using st(2) by (auto simp: kept_points_def search_inv_def f)
  ultimately have "tinv int_solve vol_limit need [] [0] ?T" by (simp add: tinv_def)
  with st(1) show ?thesis by blast
qed

lemma start_inv:
  assumes "ready ps ns" and "length acoords = n" and sizes: "0 < n" "0 < k" "k < 2 ^ 63"
    and "\<forall>c \<in> set acoords. fst c \<le> snd c" and need: "\<And>x. x \<in> need \<Longrightarrow> in_coords acoords x"
  shows "\<exists>st. frag_new acoords ps ns = Inr st \<and> thread_inv int_solve vol_limit need (run_threads_start m st)"
proof -
  from start_tinv[OF assms] obtain st where "frag_new acoords ps ns = Inr st" "tinv int_solve vol_limit need [] [0] (run_threads_start m st)" by blast
  then show ?thesis by (auto simp: thread_inv_def run_threads_start_def)
qed

lemma some_thread_moves:
  assumes inv: "thread_inv int_solve vol_limit need T" and ex: "\<not> exited T" and i: "i < length (pcs T)" "pcs T ! i \<noteq> Finished"
    and clear: "\<And>x i. x \<in> need \<Longrightarrow> i < k \<Longrightarrow> \<not> N i x" and trie: "trie_fits int_solve n trie bounds need"
    and ints: "\<And>x. x \<in> need \<Longrightarrow> int_solve \<longrightarrow> int_point x"
  shows "\<exists>j T'. tstep int_solve query vol_limit trie bounds j T T'"
proof -
  from inv ex obtain dn pend where t: "tinv int_solve vol_limit need dn pend T" by (auto simp: thread_inv_def)
  then have lk: "lock_inv pend T" by (simp add: tinv_def)
  have moves: "\<exists>T'. tstep int_solve query vol_limit trie bounds j T T'"
    if j: "j < length (pcs T)" "pcs T ! j \<noteq> Finished" "pcs T ! j \<noteq> Waiting False" "holder T = None \<or> holder T = Some j" for j
  proof -
    have app: "appending (pcs T ! j) \<longleftrightarrow> holder T = Some j" using lk j(1) by (simp add: lock_inv_def)
    show ?thesis
    proof (cases "pcs T ! j")
      case Top
      then have "holder T = None" using app j(4) by (simp add: pc_defs)
      with enter_step(1)[OF t j(1) this ex Top] show ?thesis using tstep.lock[OF j(1) ex Top] by blast
    next
      case (Waiting w)
      then have w: "pcs T ! j = Waiting True" using j(3) by (cases w) auto
      then have "holder T = None" using app j(4) by (simp add: pc_defs)
      with enter_step(2)[OF t j(1) this ex w] show ?thesis using tstep.wake[OF j(1) ex w] by blast
    next
      case (Proc a)
      from process_step[OF t j(1) Proc ex clear trie ints] show ?thesis using tstep.process[OF j(1) ex Proc] by blast
    next
      case (Moving a nb)
      then have free: "holder T = None" using app j(4) by (simp add: pc_defs)
      from place_inv[OF t j(1) Moving free ints] show ?thesis using tstep.place[OF j(1) ex Moving free] by blast
    next
      case (Appending a nb)
      from append_inv[OF t j(1) Appending] show ?thesis using tstep.append[OF j(1) ex Appending] by blast
    next
      case (Marking a)
      from mark_inv[OF t j(1) Marking] show ?thesis using tstep.mark[OF j(1) ex Marking] by blast
    qed (use j(2) in simp)
  qed
  show ?thesis
  proof (cases "holder T")
    case (Some j)
    then have j: "j < length (pcs T)" "appending (pcs T ! j)" using lk by (auto simp: lock_inv_def)
    then have "pcs T ! j \<noteq> Finished" "pcs T ! j \<noteq> Waiting False" by (auto simp: pc_defs)
    with moves[OF j(1)] Some show ?thesis by blast
  next
    case None
    show ?thesis
    proof (cases "pcs T ! i = Waiting False")
      case True
      then have "0 < n_active (pcs T)" using lk i(1) by (auto simp: lock_inv_def)
      then obtain j where j: "j < length (pcs T)" "active (pcs T ! j)" using n_active_0[of "pcs T"] by auto
      then have "pcs T ! j \<noteq> Finished" "pcs T ! j \<noteq> Waiting False" by (auto simp: pc_defs)
      with moves[OF j(1)] None show ?thesis by blast
    next
      case False
      with moves[OF i False] None show ?thesis by blast
    qed
  qed
qed

text \<open>When a thread has left its loop, nothing is left to do anywhere.\<close>

lemma finished_all:
  assumes inv: "thread_inv int_solve vol_limit need T" and ex: "\<not> exited T" and i: "i < length (pcs T)" "pcs T ! i = Finished"
  shows "curr_box (fi T) = None" and "\<forall>j < length (pcs T). \<not> active (pcs T ! j)"
    and "\<exists>as. pool (tok int_solve) (frags (fi T)) as \<and> (\<forall>x \<in> need. covered (frags (fi T)) as x)
       \<and> (\<forall>a \<in> set as. \<forall>b. cells (frags (fi T)) a = Some b \<longrightarrow> settled vol_limit b)"
proof -
  from inv ex obtain dn pend where t: "tinv int_solve vol_limit need dn pend T" by (auto simp: thread_inv_def)
  then have lk: "lock_inv pend T" and ch: "chain_inv int_solve dn pend T" and ow: "owners_inv int_solve vol_limit dn T"
    and kp: "kept_points need (dn @ pend) T" by (auto simp: tinv_def)
  have z: "n_active (pcs T) = 0" "pend = []" using lk i by (auto simp: lock_inv_def)
  then show act: "\<forall>j < length (pcs T). \<not> active (pcs T ! j)" using n_active_0 by blast
  show "curr_box (fi T) = None" using ch z by (simp add: chain_inv_def)
  have idle: "owner (pcs T ! j) = None \<and> half_of (pcs T ! j) = None" if "j < length (pcs T)" for j
    using act that by (cases "pcs T ! j") (auto simp: pc_defs)
  have "settled vol_limit b" if "a \<in> set dn" "cells (frags (fi T)) a = Some b" for a b
    by (rule settledD[OF ow that]) (use idle in simp)
  moreover have "\<forall>x \<in> need. covered (frags (fi T)) dn x" using kp idle z(2) by (auto simp: kept_points_def)
  moreover have "pool (tok int_solve) (frags (fi T)) dn" using ch z(2) by (simp add: chain_inv_def)
  ultimately show "\<exists>as. pool (tok int_solve) (frags (fi T)) as \<and> (\<forall>x \<in> need. covered (frags (fi T)) as x)
       \<and> (\<forall>a \<in> set as. \<forall>b. cells (frags (fi T)) a = Some b \<longrightarrow> settled vol_limit b)" by blast
qed

end

end
