(* ===== verification/Threads_Props.thy ===== *)
theory Threads_Props
  imports Threads_Reach
begin

text \<open>
  The threaded search on the systems the drivers set up: \<open>rs i\<close> is the polynomial of constraint
  \<open>i\<close>, \<open>qs i\<close> the one its negative solver was prepared for (the drivers take \<open>- rs i\<close>).
\<close>

definition driver_search :: "double optimizer \<Rightarrow> nat \<Rightarrow> (nat \<Rightarrow> double multinomial) \<Rightarrow> (nat \<Rightarrow> double multinomial)
    \<Rightarrow> (double \<times> double) list \<Rightarrow> solver_obj list \<Rightarrow> solver_obj list \<Rightarrow> bool" where
  "driver_search optimize n rs qs acoords ps ns \<longleftrightarrow> length acoords = n \<and> 0 < n \<and> (\<forall>c \<in> set acoords. fst c \<le> snd c)
     \<and> length ns = length ps \<and> 0 < length ps \<and> length ps < 2 ^ 63
     \<and> (\<forall>i < length ps. ps ! i \<in> driver_solvers optimize n (rs i) \<and> ns ! i \<in> driver_solvers optimize n (qs i))"

text \<open>The points the search has to keep.\<close>

definition wanted :: "bool \<Rightarrow> (double \<times> double) list \<Rightarrow> nat \<Rightarrow> (nat \<Rightarrow> double multinomial) \<Rightarrow> double list set" where
  "wanted int_solve acoords k qs =
     {x. in_coords acoords x \<and> (int_solve \<longrightarrow> int_point x) \<and> (\<forall>i < k. \<not> nonneg_at (qs i) x)}"

lemma wantedD:
  assumes "x \<in> wanted int_solve acoords k qs"
  shows "in_coords acoords x" and "int_solve \<longrightarrow> int_point x" and "i < k \<Longrightarrow> \<not> nonneg_at (qs i) x"
  using assms by (auto simp: wanted_def)

lemma driver_reach_inv:
  assumes d: "driver_search optimize n rs qs acoords ps ns" and st: "frag_new acoords ps ns = Inr st"
    and trie: "trie_fits int_solve n trie acoords (wanted int_solve acoords (length ps) qs)"
    and T: "reach int_solve (query_of optimize check (driver_ids n) 0) vol_limit trie acoords (run_threads_start m st) T"
  shows "drv.thread_inv n (length ps) rs optimize qs int_solve vol_limit (wanted int_solve acoords (length ps) qs) T"
proof -
  let ?k = "length ps"
  have ready: "drv.ready ?k optimize n rs qs ps ns" using d by (simp add: driver_search_def drv.ready_def)
  from drv.start_inv[OF ready, where acoords = acoords and vol_limit = vol_limit and int_solve = int_solve and m = m
      and need = "wanted int_solve acoords ?k qs"] d st wantedD(1)
  have "drv.thread_inv n ?k rs optimize qs int_solve vol_limit (wanted int_solve acoords ?k qs) (run_threads_start m st)"
    by (auto simp: driver_search_def)
  from drv.reach_inv[OF T this _ trie] show ?thesis using wantedD(2,3) by blast
qed



text \<open>No deadlock: until all threads have left, some thread can make its next step without a spurious wake-up.\<close>

lemma threads_progress:
  assumes d: "driver_search optimize n rs qs acoords ps ns" and st: "frag_new acoords ps ns = Inr st"
    and trie: "trie_fits int_solve n trie acoords (wanted int_solve acoords (length ps) qs)"
    and T: "reach int_solve (query_of optimize check (driver_ids n) 0) vol_limit trie acoords (run_threads_start m st) T"
    and going: "\<not> exited T" "i < length (pcs T)" "pcs T ! i \<noteq> Finished"
  shows "\<exists>j T'. tstep int_solve (query_of optimize check (driver_ids n) 0) vol_limit trie acoords j T T'"
  using drv.some_thread_moves[OF driver_reach_inv[OF d st trie T] going _ trie] wantedD(2,3) by blast

subsection \<open>An instance\<close>

text \<open>
  One variable on the box \<open>[-1, 3]\<close> and the conclusion \<open>x \<ge> 0\<close>, with the store of
  \<open>box_certificate_witness\<close> on both sides: the points to keep are the negative ones.
\<close>

lemma dr_search: "driver_search ideal_optimizer 1 (\<lambda>i. dr_rhs) (\<lambda>i. dr_rhs) [(- 1, 3)] [dr_obj] [dr_obj]"
  using dr_obj_in by (simp add: driver_search_def)

lemma dr_frag: "\<exists>st. frag_new [(- 1, 3)] [dr_obj] [dr_obj] = Inr st"
  by (simp add: frag_new_def Let_def)

lemma dr_wanted: "[- 1 / 2] \<in> wanted False [(- 1, 3)] 1 (\<lambda>i. dr_rhs)"
proof -
  have "substitute [- 1 / 2] dr_rhs = Some (- 1 / 2)" by code_simp
  then show ?thesis by (simp add: wanted_def in_coords_def nonneg_at_def)
qed


text \<open>
  With one thread and a root box that is kept at once the search is over after the root box.
\<close>

lemma root_box_run:
  fixes ps ns :: "'s list"
  assumes len: "length ps = length ns"
    and keep: "\<And>(st :: 's fragmentation_intersection) b. s_pos st = ps \<Longrightarrow> s_neg st = ns \<Longrightarrow> coords b = cs \<Longrightarrow> length (curr_state_vec b) = length ps
       \<Longrightarrow> \<exists>b'. process_box int_solve query vol_limit trie bounds st b = Some (Inr (PKeep b')) \<and> coords b' = cs"
  shows "\<exists>st T. frag_new cs ps ns = Inr st \<and> reach int_solve query vol_limit trie bounds (run_threads_start 1 st) T
     \<and> \<not> exited T \<and> pcs T = [Finished] \<and> cells (frags (fi T)) 0 \<noteq> None \<and> (\<forall>a b. cells (frags (fi T)) a = Some b \<longrightarrow> coords b = cs)"
proof -
  let ?l = "\<lambda>b. \<lparr>HEAD = Some 0, TAIL = Some 0, heap = [0 \<mapsto> node_new b], brk = Suc 0\<rparr>"
  let ?st = "\<lambda>c b. \<lparr>s_pos = ps, s_neg = ns, n_dirs = length cs, curr_box = c, frags = ?l b\<rparr>"
  let ?T = "\<lambda>c b m p. \<lparr>fi = ?st c b, n_threads_active = m, holder = None, pcs = [p], exited = False\<rparr>"
  let ?b0 = "init_curr_state_vec (length ps) (box_new cs)"
  let ?R = "reach int_solve query vol_limit trie bounds (?T (Some 0) ?b0 1 Top)"
  note exec = enter_def take_box_def leave_box_def box_at_def set_box_def succ_of_def ll_get_def ll_put_def set_pc_def notify_all_def
    node_new_def ofopt_def wake_pc_def Let_def
  have st: "frag_new cs ps ns = Inr (?st (Some 0) ?b0)" using len by (simp add: frag_new_def ll_new_def ll_alloc_def ll_empty_def)
  have T0: "run_threads_start 1 (?st (Some 0) b) = ?T (Some 0) b 1 Top" for b by (simp add: run_threads_start_def)
  let ?b = "?b0\<lparr>curr_state := 1\<rparr>"
  have R1: "?R (?T None ?b 1 (Proc 0))"
    by (rule reach.step[OF reach.start tstep.lock[of 0]]) (simp_all add: exec)
  obtain b' where pr: "process_box int_solve query vol_limit trie bounds (fi (?T None ?b 1 (Proc 0))) ?b = Some (Inr (PKeep b'))"
    and c: "coords b' = cs"
    using keep[of "fi (?T None ?b 1 (Proc 0))" ?b] by (auto simp: init_curr_state_vec_def box_new_def)
  have "tstep int_solve query vol_limit trie bounds 0 (?T None ?b 1 (Proc 0)) (?T None b' 1 Top)"
    by (rule tstep.process[where a = 0 and b = ?b, OF _ _ _ _ pr]) (simp_all add: exec)
  then have "?R (?T None b' 1 Top)" by (rule reach.step[OF R1])
  then have R: "?R (?T None b' 0 Finished)"
    by (rule reach.step[OF _ tstep.lock[of 0]]) (simp_all add: exec)
  have "cells (frags (fi (?T None b' 0 Finished))) 0 \<noteq> None" "\<forall>a b. cells (frags (fi (?T None b' 0 Finished))) a = Some b \<longrightarrow> coords b = cs"
    using c by (auto simp: cells_def node_new_def)
  with st R[folded T0] show ?thesis by (intro exI conjI) (assumption | simp)+
qed

text \<open>With a limit above its width, a box is kept when neither solver of its constraint denies it.\<close>

lemma small_box_kept:
  assumes st: "s_pos st = [p]" "s_neg st = [q]" and b: "length (curr_state_vec b) = 1" "norm_box b < vol_limit" "\<not> not_valid b"
    and pos: "query p b = Inr (yes, p')" and neg: "query q b = Inr (no, q')" "\<not> yes \<Longrightarrow> \<not> no"
  shows "\<exists>b'. process_box int_solve query vol_limit None bounds st b = Some (Inr (PKeep b')) \<and> coords b' = coords b"
proof -
  have "\<exists>found b' ps ns. (found = 1 \<or> found = 2) \<and> coords b' = coords b \<and> length (curr_state_vec b') = 1
      \<and> examine query [0..<length (s_pos st)] 2 (b, s_pos st, s_neg st) = Inr (Completed found, b', ps, ns)"
    using assms by (cases yes) (auto simp: note_verdict_def)
  then obtain found b' ps ns where e: "found = 1 \<or> found = 2" "coords b' = coords b" "length (curr_state_vec b') = 1"
      "examine query [0..<length (s_pos st)] 2 (b, s_pos st, s_neg st) = Inr (Completed found, b', ps, ns)" by blast
  then show ?thesis using b(2,3)
    by (auto simp: process_box_def in_trie_def decide_def recompute_confidence_def proc_of_def norm_box_def split: if_splits)
qed

abbreviation dr_query :: "solver_obj query" where
  "dr_query \<equiv> query_of ideal_optimizer (\<lambda>_. Unknown) (driver_ids 1) 0"


end
