(* ===== verification/Driver_Run.thy ===== *)
theory Driver_Run
  imports Driver Threads_Props Box_Lists_Sound
begin

text \<open>
  A driver run from its set-up to its final list: the solvers of \<open>driver_setup\<close> meet the
  conditions of the threaded search, and the final check with z3 is applied to the list the
  threads leave behind.
\<close>

definition neg_poly :: "double multinomial \<Rightarrow> double multinomial" where
  "neg_poly r = (case negated r of Inr q \<Rightarrow> q | Inl err \<Rightarrow> r)"

text \<open>What the set-up asks of the data of a driver.\<close>

definition driver_data :: "nat \<Rightarrow> int \<Rightarrow> string \<Rightarrow> double multinomial list \<Rightarrow> bool" where
  "driver_data n d aname polys \<longleftrightarrow> 0 < n \<and> n + n + n < 2 ^ 31 \<and> 0 < d \<and> d < 2 ^ 15 \<and> group_ok aname
     \<and> polys \<noteq> [] \<and> length polys < 2 ^ 63 \<and> (\<forall>r \<in> set polys. wf_poly r \<and> over n n r)"

lemma neg_poly_ok:
  assumes "wf_poly r" and "over n n r"
  shows "negated r = Inr (neg_poly r)" and "length x = n \<Longrightarrow> nonneg_at (neg_poly r) x \<longleftrightarrow> eval (\<lambda>i. x ! unat i) r \<le> 0"
proof -
  from negated_ok[OF assms] obtain q where q: "negated r = Inr q" "over n n q" "\<And>\<rho>. eval \<rho> q = - eval \<rho> r" by blast
  then show "negated r = Inr (neg_poly r)" by (simp add: neg_poly_def)
  show "nonneg_at (neg_poly r) x \<longleftrightarrow> eval (\<lambda>i. x ! unat i) r \<le> 0" if "length x = n"
    using q nonneg_at_eval[OF q(2) that] by (simp add: neg_poly_def)
qed

lemma driver_table_group:
  assumes "driver_table n aname = Inr (t, v)" and "group_ok aname"
  shows "group_ok t"
proof -
  from assms(1) obtain v0 where "add_var_group v0 (n + n) True aname = Inr (t, v)" by (auto simp: driver_table_def bindR_Inr)
  then obtain cs where "t = aname @ cs" by (auto simp: add_var_group_def Let_def split: sum.splits if_splits)
  with assms(2) show ?thesis by (cases aname) (auto simp: group_ok_def)
qed

lemma driver_setup_cases:
  assumes data: "driver_data n d aname polys"
  shows "driver_setup n d aname polys = Some (Inl limit_error) \<or> (\<exists>err. driver_table n aname = Inl err)
     \<or> (\<exists>v ps ns. driver_setup n d aname polys = Some (Inr (v, map (Pair v) ps, map (Pair v) ns)) \<and> (\<exists>t. driver_vars n t v) \<and> solvers_for n v polys ps ns)"
proof (cases "driver_table n aname")
  case (Inr tv)
  then obtain t v where tv: "driver_table n aname = Inr (t, v)" by (cases tv) auto
  have dv: "driver_vars n t v" and g: "group_ok t"
    using driver_table_ok[OF tv] driver_table_group[OF tv] data by (simp_all add: driver_data_def)
  have "solvers_for n v [] [] []" by (simp add: solvers_for_def)
  from driver_loop_ok[OF dv g _ _ _ this, of d polys] data show ?thesis
    by (simp add: driver_setup_def tv driver_data_def) fastforce
qed simp

lemma driver_setup_search:
  assumes data: "driver_data n d aname polys" and run: "driver_setup n d aname polys = Some (Inr (v, ps, ns))"
    and opt: "optimizer_ok optimize" and box: "length acoords = n" "\<forall>c \<in> set acoords. fst c \<le> snd c"
  shows "driver_search optimize n (\<lambda>i. polys ! i) (\<lambda>i. neg_poly (polys ! i)) acoords ps ns" and "length ps = length polys"
proof -
  have "\<not> (\<exists>err. driver_table n aname = Inl err)" using run by (auto simp: driver_setup_def)
  with driver_setup_cases[OF data] run obtain ps' ns' where
    eq: "ps = map (Pair v) ps'" "ns = map (Pair v) ns'" and sf: "solvers_for n v polys ps' ns'" by auto
  from sf show len: "length ps = length polys" by (simp add: eq solvers_for_def)
  have "(v, ps' ! j) \<in> driver_solvers optimize n (polys ! j) \<and> (v, ns' ! j) \<in> driver_solvers optimize n (neg_poly (polys ! j))"
    if j: "j < length polys" for j
  proof -
    have "negated (polys ! j) = Inr (neg_poly (polys ! j))"
      using neg_poly_ok(1)[of "polys ! j" n] data nth_mem[OF j] by (simp add: driver_data_def)
    with sf j opt show ?thesis by (auto simp: solvers_for_def)
  qed
  then show "driver_search optimize n (\<lambda>i. polys ! i) (\<lambda>i. neg_poly (polys ! i)) acoords ps ns"
    using data box sf by (auto simp: driver_search_def driver_data_def solvers_for_def eq)
qed

subsection \<open>The final check\<close>

lemma driver_solvers_names:
  assumes "s \<in> driver_solvers optimize n r"
  shows "e_ok (snd s) \<and> n \<le> length (e_list (snd s)) \<and> n < 2 ^ 32"
proof -
  from assms obtain v2 t v0 v d c c' v' where s: "s = (v2, slv c')" and r: "wf_poly r" "over n n r"
    and dv: "driver_vars n t v0" "same_base n v0 v" "driver_vars n t v" and d: "0 < d" "d < 2 ^ 15"
    and c: "driver_core n d r v0 t = Inr c" and run: "core_prepare c v = Some (Inr (c', v'))"
    by (auto simp: driver_solvers_def)
  from core_prepare_spec[OF driver_core_wf[OF dv r d c]] run obtain xs es where
    post: "rhs_post n (n + n + n) (make_deg_arr c) (set (rhs_arr c)) (v, slv c) (v', slv c') xs es" by auto
  then have "e_list (slv c') = e_list (slv c)" by (simp add: rhs_post_def)
  also have "\<dots> = map var_name [0..<vars_sz v0]"
    using driver_core_parts(1)[OF dv(1,2) d(1) c] by (simp add: solver_new_def make_consts_Nil)
  finally show ?thesis using dv(1) by (simp add: s e_ok_def driver_vars_def vars_sz_def)
qed

lemma real_eval_of_rat: "real_eval (\<lambda>i. of_rat (f i)) p = of_rat (eval f p)"
proof (induction p rule: multinomial_induct)
  case (Node s k m)
  have "(\<Sum>(e, p)\<leftarrow>m. of_rat (f (get_id k)) ^ unat e * real_eval (\<lambda>i. of_rat (f i)) p)
      = (\<Sum>(e, p)\<leftarrow>m. (of_rat (f (get_id k) ^ unat e * eval f p) :: real))"
    using Node.IH by (intro arg_cong[where f = sum_list] map_cong) (auto simp: of_rat_mult of_rat_power)
  also have "\<dots> = of_rat (\<Sum>(e, p)\<leftarrow>m. f (get_id k) ^ unat e * eval f p)"
    by (induction m) (auto simp: of_rat_add)
  finally show ?case by simp
qed simp

lemma deref_poly:
  assumes "map deref es = map Inr ps" and "e \<in> set es"
  shows "\<exists>p \<in> set ps. deref e = Inr p"
proof -
  have "deref e \<in> set (map deref es)" using assms(2) by simp
  then show ?thesis unfolding assms(1) by auto
qed

lemma point_solves:
  assumes "in_coords cs x" and "length cs < 2 ^ 32" and "map deref e_check = map Inr polys"
    and "\<forall>r \<in> set polys. 0 \<le> eval (\<lambda>i. x ! unat i) r"
  shows "\<exists>\<rho>. val_in cs \<rho> \<and> solves e_check \<rho>"
proof (intro exI conjI)
  let ?\<rho> = "\<lambda>i. of_rat (x ! unat i) :: real"
  have "unat (of_nat i :: u32) = i" if "i < length cs" for i using that assms(2) by (simp add: unat_of_nat)
  then show "val_in cs ?\<rho>" using assms(1) by (auto simp: val_in_def in_coords_nth of_rat_less_eq)
  have "\<exists>r \<in> set polys. p = r" if "e \<in> set e_check" "deref e = Inr p" for e p
    using deref_poly[OF assms(3) that(1)] that(2) by auto
  then show "solves e_check ?\<rho>" using assms(4) by (auto simp: solves_def real_eval_of_rat)
qed

text \<open>The numbers of a run that pass through text survive it.\<close>

definition exact_run :: "double multinomial list \<Rightarrow> bounding_box ll \<Rightarrow> bool" where
  "exact_run polys l \<longleftrightarrow> (\<forall>r \<in> set polys. exact6 [] r)
     \<and> (\<forall>a b. cells l a = Some b \<longrightarrow> (\<forall>c \<in> set (coords b). round6 (fst c) = fst c \<and> round6 (snd c) = snd c))"

lemma driver_query_ok:
  assumes "s \<in> driver_solvers optimize n r" and "length cs = n" and "map deref e_check = map Inr polys"
    and "\<forall>r \<in> set polys. over n n r \<and> exact6 [] r" and "\<forall>c \<in> set cs. round6 (fst c) = fst c \<and> round6 (snd c) = snd c"
  shows "query_ok (snd s) e_check cs"
proof -
  note e = driver_solvers_names[OF assms(1)]
  have "\<exists>p. deref q = Inr p \<and> exact6 [] p \<and> in_range (length (e_list (snd s))) p" if q: "q \<in> set e_check" for q
  proof -
    from deref_poly[OF assms(3) q] obtain p where p: "deref q = Inr p" "p \<in> set polys" by blast
    then have "in_range (length (e_list (snd s))) p" using assms(4) e unfolding in_range_def over_def by (meson order_less_le_trans)
    with p assms(4) show ?thesis by blast
  qed
  with e assms(2,5) show ?thesis by (simp add: query_ok_def)
qed

lemma driver_run_final:
  assumes data: "driver_data n d aname polys" and made: "driver_setup n d aname polys = Some (Inr (v, ps, ns))"
    and opt: "optimizer_ok optimize" and box: "length acoords = n" "\<forall>c \<in> set acoords. fst c \<le> snd c"
    and st: "frag_new acoords ps ns = Inr st"
    and T: "reach int_solve (query_of optimize check (driver_ids n) 0) vol_limit None acoords (run_threads_start m st) T"
    and fin: "\<not> exited T" "i < length (pcs T)" "pcs T ! i = Finished"
    and chk: "checker_ok check'" "\<forall>fs. check' fs \<noteq> Unknown"
    and ec: "map deref e_check = map Inr polys" and exact: "exact_run polys (frags (fi T))"
  shows "\<exists>st' calls grids zs. recompute_confidence_smt check' e_check (fi T) = Some (Inr (st', calls, grids)) \<and> linked (frags st') zs
     \<and> (\<forall>x. in_coords acoords x \<and> (int_solve \<longrightarrow> int_point x) \<and> (\<forall>r \<in> set polys. 0 < eval (\<lambda>i. x ! unat i) r)
          \<longrightarrow> covered (frags st') zs x)
     \<and> (\<forall>b \<in> set (boxes (frags st') zs). (\<exists>\<rho>. val_in (coords b) \<rho> \<and> solves e_check \<rho>)
          \<or> (\<forall>x. in_box b x \<longrightarrow> (\<exists>j. \<forall>i < length polys. i \<noteq> j \<longrightarrow> nonneg_at (polys ! i) x)))
     \<and> (\<forall>b \<in> set (boxes (frags st') zs). \<not> not_valid b \<and> (\<exists>a b0. cells (frags (fi T)) a = Some b0 \<and> coords b = coords b0))"
proof -
  let ?k = "length polys" and ?rs = "\<lambda>i. polys ! i" and ?qs = "\<lambda>i. neg_poly (polys ! i)" and ?l = "frags (fi T)"
  note search = driver_setup_search[OF data made opt box]
  note inv = driver_reach_inv[OF search(1) st trie_fits_None T]
  from drv.finished_all(3)[OF inv fin] obtain as where pool: "pool (drv.tok n (length ps) ?rs int_solve) ?l as"
    and cov: "\<forall>x \<in> wanted int_solve acoords (length ps) ?qs. covered ?l as x"
    and sett: "\<And>a b. a \<in> set as \<Longrightarrow> cells ?l a = Some b \<Longrightarrow> settled vol_limit b" by blast
  have as: "linked ?l as" by (rule pool_linked[OF pool])
  have cert: "certified (\<lambda>i. nonneg_at (?rs i)) n ?k b \<and> (\<forall>c \<in> set (coords b). round6 (fst c) = fst c \<and> round6 (snd c) = snd c)"
    if "b \<in> set (boxes ?l as)" for b
  proof -
    from that obtain a where "a \<in> set as" "cells ?l a = Some b" using boxes_at[OF as] by (fastforce simp: boxes_def)
    with pool exact show ?thesis by (auto simp: pool_def drv.tok_def search(2) exact_run_def)
  qed
  have "drv.ready (length ps) optimize n ?rs ?qs (s_pos (fi T)) (s_neg (fi T))"
    using inv fin(1) by (auto simp: drv.thread_inv_def drv.tinv_def drv.chain_inv_def)
  moreover have "0 < length ps" using search(1) by (simp add: driver_search_def)
  ultimately obtain s ss where s: "s_pos (fi T) = s # ss" "s \<in> driver_solvers optimize n (?rs 0)"
    by (cases "s_pos (fi T)") (auto simp: drv.ready_def)
  define ans where "ans b \<longleftrightarrow> (\<exists>\<rho>. val_in (coords b) \<rho> \<and> solves e_check \<rho>)" for b :: bounding_box
  have over: "\<forall>r \<in> set polys. over n n r \<and> exact6 [] r" using data exact by (simp add: driver_data_def exact_run_def)
  have "smt_query check' e_check (coords b) (snd s) = Inr (ans b)" if "b \<in> set (boxes ?l as)" for b
    unfolding ans_def using cert[OF that] chk
    by (intro smt_query_answer driver_query_ok[OF s(2) _ ec over]) (auto simp: certified_def)
  from recompute_smt_run[OF as s(1) this] obtain l' zs calls grids where
    run: "recompute_confidence_smt check' e_check (fi T) = Some (Inr ((fi T)\<lparr>frags := l'\<rparr>, calls, grids))" and zs: "linked l' zs"
    and bx: "boxes l' zs = map mark_found (filter (\<lambda>b. confidence b \<noteq> 0 \<or> ans b) (boxes ?l as))" by blast
  have n32: "n < 2 ^ 32" using data by (simp add: driver_data_def)
  have cov': "covered l' zs x" if x: "in_coords acoords x" "int_solve \<longrightarrow> int_point x" "\<forall>r \<in> set polys. 0 < eval (\<lambda>i. x ! unat i) r" for x
  proof -
    have len: "length x = n" using x(1) box(1) by (simp add: in_coords_nth)
    have "\<not> nonneg_at (?qs i) x" if "i < ?k" for i
      using neg_poly_ok(2)[of "polys ! i" n x] len x(3) data nth_mem[OF that] by (fastforce simp: driver_data_def)
    then have "x \<in> wanted int_solve acoords (length ps) ?qs" using x by (simp add: wanted_def search(2))
    then obtain b where b: "b \<in> set (boxes ?l as)" "in_box b x" using cov covered_boxes[OF as] by blast
    then have "ans b" unfolding ans_def using cert[OF b(1)] n32 x(3)
      by (intro point_solves[OF b(2) _ ec]) (auto simp: certified_def intro: less_imp_le)
    then have "mark_found b \<in> set (boxes l' zs)" using b(1) unfolding bx by auto
    moreover have "in_box (mark_found b) x" using b(2) by (simp add: mark_found_def)
    ultimately show ?thesis unfolding covered_boxes[OF zs] by blast
  qed
  have ok: "ans b \<or> (\<forall>x. in_box b x \<longrightarrow> (\<exists>j. \<forall>i < ?k. i \<noteq> j \<longrightarrow> nonneg_at (?rs i) x))" if b: "b \<in> set (boxes l' zs)" for b
  proof -
    from b obtain b0 where b0: "b0 \<in> set (boxes ?l as)" "b = mark_found b0" "confidence b0 \<noteq> 0 \<or> ans b0" unfolding bx by auto
    have same: "coords b = coords b0" using b0(2) by (simp add: mark_found_def)
    note c = cert[OF b0(1), THEN conjunct1]
    show ?thesis
    proof (cases "ans b0")
      case False
      with b0(3) c have "missing b0 \<le> 1" by (auto simp: certified_def)
      then show ?thesis using missing_le_1[OF c] same by simp
    qed (simp add: ans_def same)
  qed
  have val: "\<not> not_valid b \<and> (\<exists>a b0. cells ?l a = Some b0 \<and> coords b = coords b0)" if b: "b \<in> set (boxes l' zs)" for b
  proof -
    from b obtain b0 where b0: "b0 \<in> set (boxes ?l as)" "coords b = coords b0" unfolding bx by (auto simp: mark_found_def)
    with boxes_set[OF as] obtain a where "a \<in> set as" "cells ?l a = Some b0" by blast
    with sett b0(2) show ?thesis by (auto simp: settled_def not_valid_def)
  qed
  show ?thesis by (rule exI[of _ "(fi T)\<lparr>frags := l'\<rparr>"], intro exI conjI, rule run) (use zs cov' ok[unfolded ans_def] val in auto)
qed

subsection \<open>A run\<close>

text \<open>
  One variable, the constraint \<open>x \<ge> 0\<close>, the box \<open>[2, 3]\<close>, one thread and a limit above the width
  of the box.
\<close>

lemma dr_data: "driver_data 1 1 ''t'' [dr_rhs]"
  by (simp add: driver_data_def group_ok_def dr_rhs_def over_def)

lemma dr_made: "\<exists>v p q. driver_setup 1 1 ''t'' [dr_rhs] = Some (Inr (v, [p], [q]))"
proof -
  have "map_option (map_sum id (\<lambda>(v, ps, ns). (length ps, length ns))) (driver_setup 1 1 ''t'' [dr_rhs]) = Some (Inr (1, 1))"
    by code_simp
  then obtain r where "driver_setup 1 1 ''t'' [dr_rhs] = Some r" "map_sum id (\<lambda>(v, ps, ns). (length ps, length ns)) r = Inr (1, 1)"
    by auto
  then show ?thesis by (cases r) (auto simp: length_Suc_conv)
qed

text \<open>A driver with one constraint that holds strictly at some point of the box, and a limit above the size of the box.\<close>

lemma one_constraint_run:
  assumes data: "driver_data n d aname [r]" and made: "driver_setup n d aname [r] = Some (Inr (v, ps, ns))"
    and opt: "optimizer_ok optimize" and box: "length cs = n" "\<forall>c \<in> set cs. fst c \<le> snd c"
    and small: "norm_box (box_new cs) < vol_limit" and x: "in_coords cs x" "0 < eval (\<lambda>i. x ! unat i) r"
  shows "\<exists>st T. frag_new cs ps ns = Inr st
     \<and> reach int_solve (query_of optimize check (driver_ids n) 0) vol_limit None cs (run_threads_start 1 st) T
     \<and> \<not> exited T \<and> pcs T = [Finished] \<and> (\<forall>a b. cells (frags (fi T)) a = Some b \<longrightarrow> coords b = cs)"
proof -
  note search = driver_setup_search[OF data made opt box]
  from search obtain p where p: "ps = [p]" by (cases ps) auto
  with search obtain q where q: "ns = [q]" by (cases ns) (auto simp: driver_search_def)
  have pq: "p \<in> driver_solvers optimize n r" "q \<in> driver_solvers optimize n (neg_poly r)" using search(1) by (auto simp: driver_search_def p q)
  let ?query = "query_of optimize check (driver_ids n) 0"
  have keep: "\<exists>b'. process_box int_solve ?query vol_limit None cs st b = Some (Inr (PKeep b')) \<and> coords b' = cs"
    if "s_pos st = ps" "s_neg st = ns" "coords b = cs" "length (curr_state_vec b) = length ps" for st b
  proof -
    have len: "length (coords b) = n" by (simp add: that(3) box(1))
    from driver_solvers_query[OF pq(1) len] obtain yes where yes: "?query p b = Inr (yes, p)" by blast
    from driver_solvers_query[OF pq(2) len] obtain no where no: "?query q b = Inr (no, q)"
      "no \<longrightarrow> (\<forall>x. in_box b x \<longrightarrow> nonneg_at (neg_poly r) x)" by blast
    have "length x = n" using x(1) box(1) by (simp add: in_coords_nth)
    then have "\<not> no" using no(2) x that(3) neg_poly_ok(2)[of r n x] data by (auto simp: driver_data_def)
    moreover have "norm_box b < vol_limit" using small that(3) by (simp add: norm_box_def box_new_def)
    ultimately show ?thesis using small_box_kept[of st p q b vol_limit ?query yes p no q int_solve cs] that yes no(1) box(2)
      by (simp add: p q not_valid_alt)
  qed
  have "length ps = length ns" by (simp add: p q)
  from root_box_run[OF this keep] show ?thesis by blast
qed

end
