(* ===== verification/Driver_Output.thy ===== *)
theory Driver_Output
  imports Test_Case Driver_Run
begin

text \<open>
  What the drivers write at the end: the SyGuS problem over the region the search has left.
  With one variable left to be synthesised the problem asks for the greatest value of that
  variable; with more of them the file is no sequence of s-expressions.
\<close>

lemma driver_outputs:
  assumes "driver_vars n t v" and "idx \<le> n"
  shows "outputs v idx [idx..<n]"
proof -
  have len: "n \<le> vars_sz v" using assms(1) by (simp add: driver_vars_def vars_sz_def)
  have "templ_at v (int i) = Inr (n \<le> i)" if "i < vars_sz v" for i
  proof -
    have i: "i < length (var_arr v)" using that by (simp add: vars_sz_def)
    then show ?thesis using sym_at_props(1,3)[OF assms(1) i] by (simp add: templ_at_def var_is_templ_def var_at_def new_symbol_def)
  qed
  moreover have "[idx..<n] = filter (\<lambda>i. \<not> n \<le> i) [idx..<vars_sz v]"
  proof -
    have "[idx..<vars_sz v] = [idx..<n] @ [n..<vars_sz v]" using assms(2) len by (metis upt_add_eq_append le_add_diff_inverse)
    moreover have "filter (\<lambda>i. \<not> n \<le> i) [n..<vars_sz v] = []" "filter (\<lambda>i. \<not> n \<le> i) [idx..<n] = [idx..<n]" by (auto simp: filter_empty_conv filter_id_conv)
    ultimately show ?thesis by simp
  qed
  ultimately show ?thesis unfolding outputs_def by (intro exI[of _ "\<lambda>i. n \<le> i"]) auto
qed

lemma driver_setup_outputs:
  assumes "driver_data n d aname polys" and "driver_setup n d aname polys = Some (Inr (v, ps, ns))" and "idx \<le> n"
  shows "outputs v idx [idx..<n]"
proof -
  have "\<not> (\<exists>err. driver_table n aname = Inl err)" using assms(2) by (auto simp: driver_setup_def)
  with driver_setup_cases[OF assms(1)] assms(2) obtain t where "driver_vars n t v" by auto
  then show ?thesis using assms(3) by (rule driver_outputs)
qed

lemma driver_polys:
  assumes "driver_data n d aname polys"
  shows "\<forall>p \<in> set polys. full p \<and> in_range n p"
  using assms wf_full by (auto simp: driver_data_def over_def in_range_def)

subsection \<open>Balance\<close>

lemma front_balance:
  assumes "\<forall>p \<in> set polys. full p" and "atoms_ok region"
  shows "balance (sexps_toks (front_cmds n cs region outs polys)) = 0"
proof (rule balance_concat, rule balance_sexp)
  fix x assume "x \<in> set (front_cmds n cs region outs polys)"
  then show "atoms_ok x" using assms poly_sexp_ok[where S = "app_sym n"]
    by (auto simp: front_cmds_def sexp_defs sym_sexp_ok sl_sexp_ok list_all_iff)
qed

lemma order_balance: "2 * balance (order_toks n tr outs) = 2 * int (length outs) * balance tr + int (length outs) * (int (length outs) - 1)"
proof (induction outs arbitrary: tr)
  case (Cons i outs)
  have "balance (sexp_toks (le_sexp (var_atom n) (app_sexp n i))) = 0" "balance (sexp_toks (app_sexp n i)) = 0" "balance (sexp_toks (var_atom n)) = 0"
    using balance_sexp sym_sexp_ok by (simp_all add: le_sexp_def del: sexp_toks.simps)
  then show ?case using Cons.IH[of "tr @ [''('', ''=''] @ sexp_toks (var_atom n) @ sexp_toks (app_sexp n i)"] by (simp add: algebra_simps)
qed simp

lemma last_balance:
  assumes "\<forall>p \<in> set polys. full p" and "2 \<le> length outs"
  shows "balance (last_toks n outs polys) > 0"
proof -
  have "atoms_ok (Lst (Atom ''and'' # map (nonneg_sexp var_sym) polys))"
    using assms(1) poly_sexp_ok[where S = var_sym] by (auto simp: nonneg_sexp_def le_sexp_def sym_sexp_ok list_all_iff)
  from balance_sexp[OF this] have p: "balance (sexp_toks (Lst (Atom ''and'' # map (nonneg_sexp var_sym) polys))) = 0" .
  have "0 < int (length outs) * (int (length outs) - 1)" using assms(2) by (intro mult_pos_pos) linarith+
  then have "0 < balance (order_toks n [] outs)" using order_balance[of n "[]" outs] by simp
  then show ?thesis using p by (simp add: last_toks_def le_sexp_def)
qed

subsection \<open>The meaning of the file\<close>

text \<open>The points of a list of boxes in the first directions, and the greatest value of the last variable.\<close>

definition in_region :: "bounding_box list \<Rightarrow> nat \<Rightarrow> int list \<Rightarrow> bool" where
  "in_region bs n x \<longleftrightarrow> length x = n \<and> (\<exists>b \<in> set bs. \<forall>i < n. fst (coords b ! i) \<le> of_int (x ! i) \<and> of_int (x ! i) \<le> snd (coords b ! i))"

definition admissible :: "double multinomial list \<Rightarrow> double \<times> double \<Rightarrow> int list \<Rightarrow> int \<Rightarrow> bool" where
  "admissible polys c x y \<longleftrightarrow> trunc (fst c) \<le> y \<and> y \<le> trunc (snd c) \<and> (\<forall>p \<in> set polys. 0 \<le> tc_val p (x @ [y]))"

definition best_value :: "double multinomial list \<Rightarrow> double \<times> double \<Rightarrow> int list \<Rightarrow> int \<Rightarrow> bool" where
  "best_value polys c x y \<longleftrightarrow> admissible polys c x y \<and> (\<forall>z. admissible polys c x z \<longrightarrow> z \<le> y)"

definition name_val :: "int list \<Rightarrow> string \<Rightarrow> int" where
  "name_val xs w = xs ! digits_val (tl w)"

lemma name_val_input [simp]: "length x = n \<Longrightarrow> input_of (name_val (x @ [z])) n = x" "length x = n \<Longrightarrow> name_val (x @ [z]) (CHR ''x'' # nat_to_string n) = z"
  by (auto simp: input_of_def name_val_def nth_append intro: nth_equalityI)

lemma tc_solution_best:
  assumes polys: "\<forall>p \<in> set polys. full p \<and> in_range (Suc n) p" and c: "trunc (fst (cs ! n)) \<le> trunc (snd (cs ! n))"
    and region: "\<And>\<xi> F. sx_holds \<xi> F region \<longleftrightarrow> in_region bs n (input_of \<xi> n)"
  shows "sygus_solution F (tc_cmds n cs region polys) \<longleftrightarrow> (\<forall>x. in_region bs n x \<longrightarrow> best_value polys (cs ! n) x (F (f_name n) x))"
    (is "?L \<longleftrightarrow> ?R")
proof
  assume ?L
  show ?R
  proof (intro allI impI)
    fix x assume x: "in_region bs n x"
    then have len: "length x = n" by (simp add: in_region_def)
    have sol: "(\<forall>p \<in> set polys. 0 \<le> tc_val p (x @ [F (f_name n) x])) \<and> trunc (fst (cs ! n)) \<le> F (f_name n) x \<and> F (f_name n) x \<le> trunc (snd (cs ! n))
        \<and> ((\<forall>p \<in> set polys. 0 \<le> tc_val p (x @ [z])) \<longrightarrow> z \<le> F (f_name n) x)"
      if "trunc (fst (cs ! n)) \<le> z" "z \<le> trunc (snd (cs ! n))" for z
      using \<open>?L\<close>[unfolded tc_solution[OF polys] region Let_def, rule_format, of "name_val (x @ [z])"] that x len by simp
    from sol[of "trunc (fst (cs ! n))"] c have "admissible polys (cs ! n) x (F (f_name n) x)" by (simp add: admissible_def)
    with sol show "best_value polys (cs ! n) x (F (f_name n) x)" by (auto simp: best_value_def admissible_def)
  qed
next
  assume ?R
  then show ?L unfolding tc_solution[OF polys] region Let_def by (auto simp: best_value_def admissible_def)
qed

lemma driver_sygus:
  assumes data: "driver_data (Suc n) d aname polys" and made: "driver_setup (Suc n) d aname polys = Some (Inr (v, ps, ns))"
    and l: "linked l as" "\<forall>b \<in> set (boxes l as). fits_int n b" and ec: "map deref e_check = map Inr polys"
    and c: "out_fits cs n" "trunc (fst (cs ! n)) \<le> trunc (snd (cs ! n))"
  shows "\<exists>text cmds. make_test_case e_check cs v (int n) (Some l) = Some (Inr text) \<and> reads text cmds
     \<and> (\<forall>F. sygus_solution F cmds \<longleftrightarrow> (\<forall>x. in_region (boxes l as) n x \<longrightarrow> best_value polys (cs ! n) x (F (f_name n) x)))"
proof -
  have n: "n < 2 ^ 32" using data by (simp add: driver_data_def)
  have polys: "\<forall>p \<in> set polys. full p \<and> in_range (Suc n) p" by (rule driver_polys[OF data])
  have outs: "outputs v n [n]" using driver_setup_outputs[OF data made, of n] by simp
  from make_test_case_toks[OF l n ec _ outs, of cs] polys c(1) obtain txt0 f where
    run: "make_test_case e_check cs v (int n) (Some l) = Some (Inr txt0)" "toks [] txt0 = sexps_toks (tc_cmds n cs (sform_sexp f) polys)"
    and m: "\<And>\<xi>. sholds \<xi> f \<longleftrightarrow> (\<exists>b \<in> set (boxes l as). \<forall>i < n. fst (coords b ! i) \<le> of_int (\<xi> i) \<and> of_int (\<xi> i) \<le> snd (coords b ! i))"
    by (auto simp: tc_cmds_toks)
  have "reads txt0 (tc_cmds n cs (sform_sexp f) polys)"
    using run(2) tc_cmds_ok[OF sform_sexp_toks(2)] polys by (simp add: reads_def)
  moreover have "sx_holds \<xi> F (sform_sexp f) \<longleftrightarrow> in_region (boxes l as) n (input_of \<xi> n)" for \<xi> F
    by (simp add: sx_holds_form m in_region_def input_of_def)
  ultimately show ?thesis using run(1) tc_solution_best[OF polys c(2)] by blast
qed

text \<open>
  C5: The problem a driver writes.  Let a driver with \<open>n + 1\<close> program variables have set up its
  solvers, and let \<open>l\<close> be a list of boxes whose bounds fit \<^verbatim>\<open>int\<close>.  \<^verbatim>\<open>make_test_case\<close> with index \<open>n\<close>
  then writes a text that reads as a sequence of SyGuS commands, and a function solves the
  problem exactly if for every integer point of the region it returns the greatest integer value
  of the last variable, within its (truncated) bounds, for which all polynomials, with
  coefficients rounded to six digits, are non-negative.
\<close>

theorem driver_output_meaning:
  assumes data: "driver_data (Suc n) d aname polys" and made: "driver_setup (Suc n) d aname polys = Some (Inr (v, ps, ns))"
    and l: "linked l as" "\<forall>b \<in> set (boxes l as). fits_int n b" and ec: "map deref e_check = map Inr polys"
    and c: "out_fits cs n" "trunc (fst (cs ! n)) \<le> trunc (snd (cs ! n))"
  shows "\<exists>text cmds. make_test_case e_check cs v (int n) (Some l) = Some (Inr text) \<and> reads text cmds
     \<and> (\<forall>F. sygus_solution F cmds \<longleftrightarrow> (\<forall>x. in_region (boxes l as) n x \<longrightarrow> best_value polys (cs ! n) x (F (f_name n) x)))"
  using assms by (rule driver_sygus)

text \<open>A driver with two variables and the constraint \<open>x\<^sub>0 - x\<^sub>1 \<ge> 0\<close>: the greatest \<open>x\<^sub>1\<close> is \<open>x\<^sub>0\<close>.\<close>

definition out_poly :: "double multinomial" where
  "out_poly = MNode False \<lparr>get_id = 0, is_template = False\<rparr>
     [(0, MNode False \<lparr>get_id = 1, is_template = False\<rparr> [(0, MConst False 0), (1, MConst False (- 1))]), (1, MConst False 1)]"

lemma out_data: "driver_data 2 1 ''t'' [out_poly]"
  by (simp add: driver_data_def group_ok_def out_poly_def over_def mp_ok_def)

lemma out_made: "\<exists>v ps ns. driver_setup 2 1 ''t'' [out_poly] = Some (Inr (v, ps, ns))"
proof -
  have "map_option (map_sum id (\<lambda>(v, ps, ns). length ps)) (driver_setup 2 1 ''t'' [out_poly]) = Some (Inr 1)" by code_simp
  then obtain r where "driver_setup 2 1 ''t'' [out_poly] = Some r" "map_sum id (\<lambda>(v, ps, ns). length ps) r = Inr 1" by auto
  then show ?thesis by (cases r) auto
qed

lemma out_val: "tc_val out_poly [a, b] = of_int a - of_int b"
  using round6_of_int[of 0] round6_of_int[of 1] round6_of_int[of "- 1"] by (simp add: tc_val_def out_poly_def)

theorem driver_output_meaning_witness:
  "\<exists>v ps ns text cmds. driver_setup 2 1 ''t'' [out_poly] = Some (Inr (v, ps, ns))
     \<and> make_test_case [\<lparr>in_mem = True, ptr = Live out_poly\<rparr>] [(0, 5), (0, 5)] v 1 (Some (ll_new (box_new [(1, 2), (0, 5)]))) = Some (Inr text)
     \<and> reads text cmds \<and> sygus_solution (\<lambda>f args. args ! 0) cmds \<and> \<not> sygus_solution (\<lambda>f args. 0) cmds"
proof -
  obtain v ps ns where made: "driver_setup 2 1 ''t'' [out_poly] = Some (Inr (v, ps, ns))" using out_made by blast
  let ?l = "ll_new (box_new [(1, 2), (0, 5)])"
  have l: "linked ?l [0]" "boxes ?l [0] = [box_new [(1, 2), (0, 5)]]" using linked_ll_new[of "box_new [(1, 2), (0, 5)]"] by simp_all
  have fit: "\<forall>b \<in> set (boxes ?l [0]). fits_int 1 b" unfolding l(2) by (simp add: fits_int_def box_new_def in_int_range_def)
  have "map deref [\<lparr>in_mem = True, ptr = Live out_poly\<rparr>] = map Inr [out_poly]" by (simp add: deref_def)
  from driver_output_meaning[of 1 1 "''t''", OF _ _ l(1) fit this, of v ps ns "[(0, 5), (0, 5)]"] out_data made
  obtain txt0 cmds where
    r: "make_test_case [\<lparr>in_mem = True, ptr = Live out_poly\<rparr>] [(0, 5), (0, 5)] v 1 (Some ?l) = Some (Inr txt0)" "reads txt0 cmds"
    and m: "\<And>F. sygus_solution F cmds \<longleftrightarrow> (\<forall>x. in_region [box_new [(1, 2), (0, 5)]] 1 x \<longrightarrow> best_value [out_poly] (0, 5) x (F (f_name 1) x))"
    unfolding l(2) by (auto simp: out_fits_def sl_fits_def in_int_range_def trunc_def numeral_2_eq_2)
  have reg: "in_region [box_new [(1, 2), (0, 5)]] 1 x \<longleftrightarrow> (\<exists>a. x = [a] \<and> 1 \<le> a \<and> a \<le> 2)" for x
    by (auto simp: in_region_def box_new_def length_Suc_conv)
  have adm: "admissible [out_poly] (0, 5) [a] y \<longleftrightarrow> 0 \<le> y \<and> y \<le> 5 \<and> y \<le> a" for a y
    by (simp add: admissible_def out_val trunc_def)
  have "sygus_solution (\<lambda>f args. args ! 0) cmds" unfolding m reg by (auto simp: best_value_def adm)
  moreover have "\<not> best_value [out_poly] (0, 5) [1] 0" by (auto simp: best_value_def adm intro!: exI[of _ 1])
  then have "\<not> sygus_solution (\<lambda>f args. 0) cmds" unfolding m reg by (intro notI) (drule spec[of _ "[1]"], simp)
  ultimately show ?thesis using made r by blast
qed

text \<open>
  C33: With two or more variables to be synthesised, as in \<^verbatim>\<open>tests/test8.cpp\<close>, \<^verbatim>\<open>test11.cpp\<close> and
  \<^verbatim>\<open>test15.cpp\<close>, the driver writes a file whose parentheses do not balance: no sequence of
  s-expressions has its tokens.
\<close>

theorem driver_output_unbalanced:
  assumes data: "driver_data n d aname polys" and made: "driver_setup n d aname polys = Some (Inr (v, ps, ns))"
    and idx: "idx + 2 \<le> n" and l: "linked l as" "\<forall>b \<in> set (boxes l as). fits_int idx b" and ec: "map deref e_check = map Inr polys"
    and c: "\<forall>i. idx \<le> i \<and> i < n \<longrightarrow> out_fits cs i"
  shows "\<exists>text. make_test_case e_check cs v (int idx) (Some l) = Some (Inr text) \<and> \<not> (\<exists>cmds. reads text cmds)"
proof -
  have n: "idx < 2 ^ 32" using data idx by (simp add: driver_data_def)
  have polys: "\<forall>p \<in> set polys. full p" using driver_polys[OF data] by blast
  have outs: "outputs v idx [idx..<n]" using driver_setup_outputs[OF data made, of idx] idx by simp
  from make_test_case_toks[OF l n ec polys outs, of cs] c obtain txt0 f where
    run: "make_test_case e_check cs v (int idx) (Some l) = Some (Inr txt0)"
      "toks [] txt0 = sexps_toks (front_cmds idx cs (sform_sexp f) [idx..<n] polys) @ last_toks idx [idx..<n] polys" by auto
  have "balance (toks [] txt0) > 0"
    using front_balance[OF polys, of "sform_sexp f" idx cs "[idx..<n]"] last_balance[OF polys, of "[idx..<n]" idx] idx
    by (simp add: run(2) sform_sexp_toks(2))
  then show ?thesis using run(1) balance_reads by fastforce
qed

theorem driver_output_unbalanced_witness:
  "\<exists>v ps ns text. driver_setup 2 1 ''t'' [out_poly] = Some (Inr (v, ps, ns))
     \<and> make_test_case [\<lparr>in_mem = True, ptr = Live out_poly\<rparr>] [(0, 5), (0, 5)] v 0 (Some (ll_new (box_new [(1, 2), (0, 5)]))) = Some (Inr text)
     \<and> \<not> (\<exists>cmds. reads text cmds)"
proof -
  obtain v ps ns where made: "driver_setup 2 1 ''t'' [out_poly] = Some (Inr (v, ps, ns))" using out_made by blast
  let ?l = "ll_new (box_new [(1, 2), (0, 5)])"
  have l: "linked ?l [0]" using linked_ll_new[of "box_new [(1, 2), (0, 5)]"] by simp
  have fit: "\<forall>b \<in> set (boxes ?l [0]). fits_int 0 b" by (simp add: fits_int_def)
  have c: "\<forall>i. 0 \<le> i \<and> i < 2 \<longrightarrow> out_fits [(0, 5), (0, 5)] i"
    by (auto simp: out_fits_def sl_fits_def in_int_range_def less_2_cases_iff)
  have "map deref [\<lparr>in_mem = True, ptr = Live out_poly\<rparr>] = map Inr [out_poly]" by (simp add: deref_def)
  from driver_output_unbalanced[OF out_data made _ l fit this c] made show ?thesis by auto
qed

end
