(* ===== verification/Trie_Text.thy ===== *)
theory Trie_Text
  imports Trie Number_Text
begin

text \<open>
  The texts of a trie of \<^verbatim>\<open>include/approximation.hpp\<close>: \<^verbatim>\<open>print_trie\<close> in its two forms, \<^verbatim>\<open>print_code\<close>,
  \<^verbatim>\<open>write_json\<close> and \<^verbatim>\<open>write_code\<close>.  The two forms that take bounds walk the trie in the same way and
  differ in the texts they put together, so the walk is one definition with the texts as its
  arguments.  Its recursion goes into the children of a node and into the union of two
  descendants, which is a new trie: \<open>None\<close> is a walk without end.
\<close>

lemma bindO_mono [partial_function_mono]:
  assumes "mono_option B" and "\<And>y. mono_option (\<lambda>f. C y f)"
  shows "mono_option (\<lambda>f. bindO (B f) (\<lambda>y. C y f))"
proof -
  have "(\<lambda>f. bindO (B f) (\<lambda>y. C y f)) = (\<lambda>f. Option.bind (B f) (\<lambda>r. case r of Inl err \<Rightarrow> Some (Inl err) | Inr y \<Rightarrow> C y f))"
    by (rule ext) (auto simp: bindO_def split: option.splits sum.splits)
  moreover have "mono_option (\<lambda>f. case r of Inl err \<Rightarrow> Some (Inl err) | Inr y \<Rightarrow> C y f)" for r
    using assms(2) by (cases r) (simp_all add: option.const_mono)
  ultimately show ?thesis using bind_mono[OF assms(1), of "\<lambda>r f. case r of Inl err \<Rightarrow> Some (Inl err) | Inr y \<Rightarrow> C y f"] by simp
qed

lemma foldO_mono [partial_function_mono]:
  assumes "\<And>x s. mono_option (\<lambda>f. C f x s)"
  shows "mono_option (\<lambda>f. foldO (C f) xs s)"
proof (induction xs arbitrary: s)
  case Nil
  show ?case by (simp add: option.const_mono)
next
  case (Cons x xs)
  show ?case using bindO_mono[OF assms Cons.IH] by simp
qed

subsection \<open>Texts\<close>

abbreviation nl :: string where
  "nl \<equiv> [CHR 0x0A]"

definition quoted :: "string \<Rightarrow> string" where
  "quoted s = CHR 0x22 # s @ [CHR 0x22]"

text \<open>\<^verbatim>\<open>std::to_string(std::ceil(x))\<close>, where \<^verbatim>\<open>ceil\<close> of a number between -1 and 0 is the negative zero.\<close>

definition ceil_text :: "double \<Rightarrow> string" where
  "ceil_text x = (if - 1 < x \<and> x < 0 then ''-'' else []) @ to_string_d (of_int \<lceil>x\<rceil>)"

definition floor_text :: "double \<Rightarrow> string" where
  "floor_text x = to_string_d (of_int \<lfloor>x\<rfloor>)"

definition range_text :: "string \<Rightarrow> string \<Rightarrow> double \<times> double \<Rightarrow> nat \<Rightarrow> string" where
  "range_text lo_rel hi_rel c i =
     ''['' @ ceil_text (fst c) @ lo_rel @ ''x'' @ nat_to_string (i + 1) @ hi_rel @ floor_text (snd c) @ '']''"

definition point_text :: "double \<Rightarrow> nat \<Rightarrow> string" where
  "point_text x i = ''['' @ to_string_d x @ ''<=x'' @ nat_to_string (i + 1) @ ''<='' @ to_string_d x @ '']''"

subsection \<open>The trie without bounds\<close>

definition branch_text :: "string \<Rightarrow> nat \<Rightarrow> string option \<Rightarrow> string" where
  "branch_text side i c =
     (case c of
        None \<Rightarrow> []
      | Some s \<Rightarrow> quoted (side @ ''_name'') @ '':'' @ nat_to_string (i + 1) @ '','' @ nl @ quoted side @ '':'' @ s @ '','' @ nl)"

fun print_trie0 :: "trie_node \<Rightarrow> string" where
  "print_trie0 (Trie n leaf L R) =
     (let ls = map (map_option print_trie0) L; rs = map (map_option print_trie0) R in
      ''{'' @ quoted ''string'' @ '':'' @ quoted (if leaf then ''leaf'' else ''*'') @ '','' @ nl
      @ concat (map (\<lambda>i. branch_text ''right'' i (rs ! i) @ branch_text ''left'' i (ls ! i)) [0..<n]) @ ''}'')"

subsection \<open>The walk\<close>

text \<open>
  The texts of a printer: at the start of a node, for the edge of the middle plane, for the
  edge of a half, after the edges, and at the end of the node, given the number of edges.
\<close>

record printer =
  at_node :: "nat \<Rightarrow> int \<Rightarrow> (double \<times> double) list \<Rightarrow> trie_node \<Rightarrow> string"
  at_center :: "nat \<Rightarrow> nat \<Rightarrow> nat \<Rightarrow> double \<Rightarrow> string \<Rightarrow> string"
  at_half :: "nat \<Rightarrow> nat \<Rightarrow> nat \<Rightarrow> bool \<Rightarrow> bool \<Rightarrow> double \<times> double \<Rightarrow> string \<Rightarrow> string"
  at_end :: "nat \<Rightarrow> nat \<Rightarrow> string"

record walk_state =
  wans :: string
  wbounds :: "(double \<times> double) list"
  n_bounds :: "(double \<times> double) list"
  child_num :: nat
  node_num :: nat
  temp_ans :: string

text \<open>\<^verbatim>\<open>bounds[i].first*0.5+bounds[i].second*0.5\<close>.\<close>

definition mid :: "double \<times> double \<Rightarrow> double" where
  "mid c = fst c * (1 / 2) + snd c * (1 / 2)"

definition is_whole :: "double \<Rightarrow> bool" where
  "is_whole x \<longleftrightarrow> \<bar>x - of_int \<lfloor>x\<rfloor>\<bar> \<le> tick \<or> \<bar>x - of_int \<lceil>x\<rceil>\<bar> \<le> tick"

text \<open>The index passed down: \<^verbatim>\<open>(nodes==2)?i+1:i\<close>.\<close>

definition down_idx :: "trie_node \<Rightarrow> nat \<Rightarrow> int" where
  "down_idx t i = (if next_right t ! i \<noteq> None \<and> next_left t ! i \<noteq> None then int i + 1 else int i)"

type_synonym walker = "trie_node \<Rightarrow> (double \<times> double) list \<Rightarrow> (double \<times> double) list \<Rightarrow> int \<Rightarrow> (string \<times> (double \<times> double) list) run"

definition center_step :: "printer \<Rightarrow> nat \<Rightarrow> walker \<Rightarrow> trie_node \<Rightarrow> nat \<Rightarrow> walk_state \<Rightarrow> (bool \<times> walk_state) run" where
  "center_step P indent rec t i s =
     (case (next_right t ! i, next_left t ! i) of
        (Some r, Some l) \<Rightarrow>
          if i < length (wbounds s) then
            (let x = mid (wbounds s ! i) in
             if is_whole x then
               bindO (trie_union (child i 1 r) (child i 0 l) (wbounds s)) (\<lambda>un.
               case un of
                 None \<Rightarrow> Some (Inr (True, s))
               | Some u \<Rightarrow>
                   bindO (rec u (wbounds s) (n_bounds s) (down_idx t i)) (\<lambda>(temp, nb).
                   Some (Inr (True, s\<lparr>wans := wans s @ at_center P indent (child_num s) i x temp, n_bounds := nb,
                      child_num := child_num s + 1, temp_ans := temp\<rparr>))))
             else Some (Inr (False, s)))
          else Some (Inl Undefined)
      | _ \<Rightarrow> Some (Inr (False, s)))"

text \<open>One half; \<open>up\<close> is the right child.  The bounds are restored by doubling.\<close>

definition half_step :: "printer \<Rightarrow> nat \<Rightarrow> walker \<Rightarrow> trie_node \<Rightarrow> nat \<Rightarrow> bool \<Rightarrow> bool \<times> walk_state \<Rightarrow> (bool \<times> walk_state) run" where
  "half_step P indent rec t i up = (\<lambda>(ignore_center, s).
     (case (if up then next_right t ! i else next_left t ! i) of
        None \<Rightarrow> Some (Inr (ignore_center, s))
      | Some c \<Rightarrow>
          if i < length (wbounds s) then
            (let b = wbounds s ! i; h = (if up then (mid b, snd b) else (fst b, mid b)); bs = (wbounds s)[i := h] in
             bindO (rec c bs (n_bounds s) (down_idx t i)) (\<lambda>(temp, nb).
             if is_leaf c \<and> \<not> i < length nb then Some (Inl Undefined)
             else Some (Inr (ignore_center, s\<lparr>
               wans := wans s @ at_half P indent (child_num s) i up ignore_center (if is_leaf c then nb ! i else h) temp,
               wbounds := bs[i := if up then (2 * fst h - snd h, snd h) else (fst h, 2 * snd h - fst h)],
               n_bounds := nb, child_num := child_num s + 1, node_num := i, temp_ans := temp\<rparr>))))
          else Some (Inl Undefined)))"

definition dir_step :: "printer \<Rightarrow> nat \<Rightarrow> walker \<Rightarrow> trie_node \<Rightarrow> nat \<Rightarrow> walk_state \<Rightarrow> walk_state run" where
  "dir_step P indent rec t i s =
     bindO (center_step P indent rec t i s) (\<lambda>r.
     bindO (half_step P indent rec t i True r) (\<lambda>r.
     bindO (half_step P indent rec t i False r) (\<lambda>r. Some (Inr (snd r)))))"

text \<open>
  A node with one edge passes on the text of its child when the child is split once, in the same
  direction; with no edge the bounds are left in \<^verbatim>\<open>n_bounds\<close>.
\<close>

definition same_dir :: "nat \<Rightarrow> trie_node \<Rightarrow> bool" where
  "same_dir i c \<longleftrightarrow> node_count c = 1 \<and> (next_left c ! i \<noteq> None \<or> next_right c ! i \<noteq> None)"

definition finish :: "printer \<Rightarrow> nat \<Rightarrow> trie_node \<Rightarrow> walk_state \<Rightarrow> (string \<times> (double \<times> double) list) result" where
  "finish P indent t s =
     (let ans = wans s @ at_end P indent (child_num s) in
      if child_num s = 1 then
        (case (next_left t ! node_num s, next_right t ! node_num s) of
           (Some c, _) \<Rightarrow> Inr (if same_dir (node_num s) c then temp_ans s else ans, n_bounds s)
         | (None, Some c) \<Rightarrow> Inr (if same_dir (node_num s) c then temp_ans s else ans, n_bounds s)
         | (None, None) \<Rightarrow> Inl Undefined)
      else if child_num s = 0 then Inr (ans, wbounds s)
      else Inr (ans, n_bounds s))"

lemma center_step_mono:
  assumes "\<And>t b nb j. mono_option (\<lambda>f. W f t b nb j)"
  shows "mono_option (\<lambda>f. center_step P indent (W f) t i s)"
proof -
  have "mono_option (\<lambda>f. bindO (trie_union a b (wbounds s)) (\<lambda>un. case un of None \<Rightarrow> Some (Inr (True, s))
      | Some u \<Rightarrow> bindO (W f u (wbounds s) (n_bounds s) (down_idx t i)) (\<lambda>(temp, nb). Some (Inr (g temp nb)))))" for a b g
  proof (rule bindO_mono[OF option.const_mono])
    show "mono_option (\<lambda>f. case un of None \<Rightarrow> Some (Inr (True, s))
      | Some u \<Rightarrow> bindO (W f u (wbounds s) (n_bounds s) (down_idx t i)) (\<lambda>(temp, nb). Some (Inr (g temp nb))))" for un
      using bindO_mono[OF assms option.const_mono] by (cases un) (simp_all add: option.const_mono case_prod_beta)
  qed
  note m = this
  show ?thesis unfolding center_step_def Let_def
    by (cases "next_right t ! i"; cases "next_left t ! i"; cases "i < length (wbounds s)"; cases "is_whole (mid (wbounds s ! i))")
      (simp_all only: prod.case option.case if_True if_False option.const_mono m)
qed

lemma half_step_mono:
  assumes "\<And>t b nb j. mono_option (\<lambda>f. W f t b nb j)"
  shows "mono_option (\<lambda>f. half_step P indent (W f) t i up r)"
  by (cases r; cases "if up then next_right t ! i else next_left t ! i"; cases "i < length (wbounds (snd r))")
    (simp_all add: half_step_def Let_def option.const_mono bindO_mono[OF assms option.const_mono])

lemma dir_step_mono [partial_function_mono]:
  assumes "\<And>t b nb j. mono_option (\<lambda>f. W f t b nb j)"
  shows "mono_option (\<lambda>f. dir_step P indent (W f) t i s)"
  unfolding dir_step_def
  by (intro bindO_mono center_step_mono half_step_mono assms option.const_mono)

partial_function (option) walk :: "printer \<Rightarrow> nat \<Rightarrow> trie_node \<Rightarrow> (double \<times> double) list \<Rightarrow> (double \<times> double) list \<Rightarrow> int
    \<Rightarrow> (string \<times> (double \<times> double) list) run" where
  [code]: "walk pr indent t bounds nb idx =
     bindO (foldO (dir_step pr indent (walk pr (indent + 1)) t) [0..<n_dir t]
       \<lparr>wans = at_node pr indent idx bounds t, wbounds = bounds, n_bounds = nb, child_num = 0, node_num = 0, temp_ans = []\<rparr>)
     (\<lambda>s. Some (finish pr indent t s))"

subsection \<open>The two printers\<close>

definition half_label :: "bool \<Rightarrow> bool \<Rightarrow> double \<times> double \<Rightarrow> nat \<Rightarrow> string" where
  "half_label up ignore_center c i =
     range_text (if up \<and> ignore_center then ''<'' else ''<='') (if \<not> up \<and> ignore_center then ''<'' else ''<='') c i"

definition edge_text :: "nat \<Rightarrow> string \<Rightarrow> string \<Rightarrow> string" where
  "edge_text k label temp =
     quoted (''edge_name'' @ nat_to_string k) @ '':'' @ quoted label @ '','' @ nl @ quoted (''edge'' @ nat_to_string k) @ '':'' @ temp @ '','' @ nl"

definition leaf_name :: "int \<Rightarrow> (double \<times> double) list \<Rightarrow> string" where
  "leaf_name idx bounds = ''leaf'' @ concat (map (\<lambda>i. range_text ''<='' ''<='' (bounds ! i) i @ '' '') [nat (idx + 1)..<length bounds])"

definition json_printer :: printer where
  "json_printer = \<lparr>
     at_node = (\<lambda>indent idx bounds t. ''{'' @ quoted ''string'' @ '':'' @ quoted (if is_leaf t then leaf_name idx bounds else ''*'') @ '','' @ nl),
     at_center = (\<lambda>indent k i x temp. edge_text k (point_text x i) temp),
     at_half = (\<lambda>indent k i up ignore_center c temp. edge_text k (half_label up ignore_center c i) temp),
     at_end = (\<lambda>indent k. ''}'')\<rparr>"

definition spaces :: "nat \<Rightarrow> string" where
  "spaces n = replicate n (CHR '' '')"

definition code_printer :: printer where
  "code_printer = \<lparr>
     at_node = (\<lambda>indent idx bounds t. spaces indent),
     at_center = (\<lambda>indent k i x temp. ''if'' @ point_text x i @ nl @ temp @ nl @ spaces indent @ ''else''),
     at_half = (\<lambda>indent k i up ignore_center c temp. ''if'' @ half_label up ignore_center c i @ nl @ temp @ nl @ spaces indent @ ''else''),
     at_end = (\<lambda>indent k. if k = 0 then spaces indent @ '' solution'' else nl @ spaces indent @ '' no solution'' @ nl)\<rparr>"

definition print_trie :: "trie_node \<Rightarrow> (double \<times> double) list \<Rightarrow> (double \<times> double) list \<Rightarrow> int \<Rightarrow> (string \<times> (double \<times> double) list) run" where
  "print_trie t bounds nb idx = walk json_printer 0 t bounds nb idx"

definition print_code :: "trie_node \<Rightarrow> (double \<times> double) list \<Rightarrow> (double \<times> double) list \<Rightarrow> int \<Rightarrow> nat \<Rightarrow> (string \<times> (double \<times> double) list) run" where
  "print_code t bounds nb idx indent = walk code_printer indent t bounds nb idx"

definition write_json :: "trie_node \<Rightarrow> (double \<times> double) list \<Rightarrow> string run" where
  "write_json t bounds = bindO (print_trie t bounds bounds (- 1)) (\<lambda>r. Some (Inr (fst r)))"

definition write_code :: "trie_node \<Rightarrow> (double \<times> double) list \<Rightarrow> string run" where
  "write_code t bounds = bindO (print_code t bounds bounds (- 1) 0) (\<lambda>r. Some (Inr (fst r)))"

end
