(* ===== verification/Trie_Text_Sound.thy ===== *)
theory Trie_Text_Sound
  imports Trie_Text
begin

text \<open>
  The printing of a trie ends, for every trie made from boxes within the bounds, although the
  walk goes on in tries it makes on the way; and the text of \<^verbatim>\<open>write_json\<close> is never JSON.
\<close>

subsection \<open>JSON\<close>

definition is_ws :: "char \<Rightarrow> bool" where
  "is_ws c \<longleftrightarrow> c \<in> {CHR '' '', CHR 0x0A, CHR 0x09, CHR 0x0D}"

text \<open>
  The grammar of JSON.  Strings and the numbers and names are taken more generously than in the
  standard: any text between quotation marks, any word of letters, digits, signs and points.
\<close>

inductive json_value :: "string \<Rightarrow> bool" and json_members :: "string \<Rightarrow> bool" and json_elements :: "string \<Rightarrow> bool" where
  json_word: "w \<noteq> [] \<Longrightarrow> list_all (\<lambda>c. \<not> is_ws c \<and> c \<notin> set ''{}[],:'') w \<Longrightarrow> json_value w"
| json_string: "json_value (quoted s)"
| json_object0: "list_all is_ws w \<Longrightarrow> json_value (''{'' @ w @ ''}'')"
| json_object: "json_members m \<Longrightarrow> json_value (''{'' @ m @ ''}'')"
| json_array0: "list_all is_ws w \<Longrightarrow> json_value (''['' @ w @ '']'')"
| json_array: "json_elements m \<Longrightarrow> json_value (''['' @ m @ '']'')"
| json_member: "list_all is_ws (w1 @ w2 @ w3 @ w4) \<Longrightarrow> json_value v \<Longrightarrow> json_members (w1 @ quoted s @ w2 @ '':'' @ w3 @ v @ w4)"
| json_more: "json_members m \<Longrightarrow> json_members n \<Longrightarrow> json_members (m @ '','' @ n)"
| json_element: "list_all is_ws (w1 @ w2) \<Longrightarrow> json_value v \<Longrightarrow> json_elements (w1 @ v @ w2)"
| json_elements_more: "json_elements m \<Longrightarrow> json_elements n \<Longrightarrow> json_elements (m @ '','' @ n)"

text \<open>The last character of a text that is not white space.\<close>

definition last_char :: "string \<Rightarrow> char" where
  "last_char s = hd (dropWhile is_ws (rev s))"

lemma last_char_ws: "list_all is_ws w \<Longrightarrow> last_char (s @ w) = last_char s"
  by (induction w rule: rev_induct) (simp_all add: last_char_def flip: append_assoc)

lemma last_char_end [simp]: "\<not> is_ws c \<Longrightarrow> last_char (s @ [c]) = c"
  by (simp add: last_char_def)

lemma last_char_append: "\<exists>c \<in> set t. \<not> is_ws c \<Longrightarrow> last_char (s @ t) = last_char t"
proof -
  assume t: "\<exists>c \<in> set t. \<not> is_ws c"
  then have "dropWhile is_ws (rev t) \<noteq> []" by (auto simp: dropWhile_eq_Nil_conv)
  note nonempty = hd_append2[OF this, of "rev s"]
  from t obtain c where "c \<in> set (rev t)" "\<not> is_ws c" by auto
  from dropWhile_append1[of c "rev t" is_ws, OF this] show ?thesis by (simp add: last_char_def nonempty)
qed

lemma not_ws: "\<not> is_ws CHR ''}''" "\<not> is_ws CHR '']''" "\<not> is_ws CHR '',''" "\<not> is_ws (CHR 0x22)" "\<not> is_ws CHR '':''"
  by (simp_all add: is_ws_def)

lemma json_last:
  "json_value s \<Longrightarrow> (\<exists>c \<in> set s. \<not> is_ws c) \<and> last_char s \<noteq> CHR '',''"
  "json_members m \<Longrightarrow> (\<exists>c \<in> set m. \<not> is_ws c) \<and> last_char m \<noteq> CHR '',''"
  "json_elements e \<Longrightarrow> (\<exists>c \<in> set e. \<not> is_ws c) \<and> last_char e \<noteq> CHR '',''"
proof (induction rule: json_value_json_members_json_elements.inducts)
  case (json_word w)
  then obtain u c where "w = u @ [c]" by (cases w rule: rev_cases) auto
  with json_word show ?case by auto
next
  case (json_string s)
  have "quoted s = (CHR 0x22 # s) @ [CHR 0x22]" by (simp add: quoted_def)
  then show ?case using last_char_end[OF not_ws(4), of "CHR 0x22 # s"] by (auto simp: not_ws)
next
  case (json_object0 w)
  then show ?case using last_char_end[OF not_ws(1), of "''{'' @ w"] by (auto simp: not_ws)
next
  case (json_object m)
  then show ?case using last_char_end[OF not_ws(1), of "''{'' @ m"] by (auto simp: not_ws)
next
  case (json_array0 w)
  then show ?case using last_char_end[OF not_ws(2), of "''['' @ w"] by (auto simp: not_ws)
next
  case (json_array m)
  then show ?case using last_char_end[OF not_ws(2), of "''['' @ m"] by (auto simp: not_ws)
next
  case (json_member w1 w2 w3 w4 v s)
  have "last_char (w1 @ quoted s @ w2 @ '':'' @ w3 @ v @ w4) = last_char v"
    using last_char_ws[of w4 "w1 @ quoted s @ w2 @ '':'' @ w3 @ v"] last_char_append[of v "w1 @ quoted s @ w2 @ '':'' @ w3"] json_member by simp
  with json_member show ?case by auto
next
  case (json_more m n)
  then show ?case using last_char_append[of n "m @ '',''"] by auto
next
  case (json_element w1 w2 v)
  then show ?case using last_char_ws[of w2 "w1 @ v"] last_char_append[of v w1] by auto
next
  case (json_elements_more m n)
  then show ?case using last_char_append[of n "m @ '',''"] by auto
qed

lemma json_no_comma: "\<not> json_value (u @ '','' @ nl @ ''}'')"
proof
  assume "json_value (u @ '','' @ nl @ ''}'')"
  then show False
  proof (cases rule: json_value.cases)
    case (json_object m)
    then obtain u' where "m = u' @ '','' @ nl" by (cases u) auto
    then have "last_char m = CHR '',''" using last_char_ws[of nl "u' @ '',''"] by (simp add: is_ws_def)
    with json_last(2)[OF json_object(2)] show ?thesis by simp
  next
    case (json_object0 w)
    then obtain u' where "w = u' @ '','' @ nl" by (cases u) auto
    with json_object0(2) show ?thesis by (simp add: is_ws_def)
  next
    case (json_string s)
    then have "last (u @ '','' @ nl @ ''}'') = last (quoted s)" by simp
    then show ?thesis by (simp add: quoted_def)
  next
    case (json_array m)
    then have "last (u @ '','' @ nl @ ''}'') = last (''['' @ m @ '']'')" by simp
    then show ?thesis by simp
  next
    case (json_array0 w)
    then have "last (u @ '','' @ nl @ ''}'') = last (''['' @ w @ '']'')" by simp
    then show ?thesis by simp
  qed simp
qed

subsection \<open>The text of write_json\<close>

definition ends_open :: "string \<Rightarrow> bool" where
  "ends_open s \<longleftrightarrow> (\<exists>u. s = u @ '','' @ nl)"

definition ends_closed :: "string \<Rightarrow> bool" where
  "ends_closed s \<longleftrightarrow> (\<exists>u. s = u @ '','' @ nl @ ''}'')"

lemma ends_append: "ends_open t \<Longrightarrow> ends_open (s @ t)"
  by (auto simp: ends_open_def intro: exI[of _ "s @ _"])

lemma edge_ends: "ends_open (edge_text k label temp)"
  unfolding ends_open_def edge_text_def
  by (rule exI[of _ "quoted (''edge_name'' @ nat_to_string k) @ '':'' @ quoted label @ '','' @ nl @ quoted (''edge'' @ nat_to_string k) @ '':'' @ temp"]) simp

lemma json_printer_simps [simp]:
  "at_node json_printer indent idx bounds t = ''{'' @ quoted ''string'' @ '':'' @ quoted (if is_leaf t then leaf_name idx bounds else ''*'') @ '','' @ nl"
  "at_center json_printer indent k i x temp = edge_text k (point_text x i) temp"
  "at_half json_printer indent k i up ignore_center c temp = edge_text k (half_label up ignore_center c i) temp"
  "at_end json_printer indent k = ''}''"
  by (simp_all add: json_printer_def)

text \<open>The state of a walk whose texts so far end in a comma.\<close>

definition open_state :: "walk_state \<Rightarrow> bool" where
  "open_state s \<longleftrightarrow> ends_open (wans s) \<and> (child_num s \<noteq> 0 \<longrightarrow> ends_closed (temp_ans s))"

lemma json_dir_step:
  assumes rec: "\<And>t b nb j txt nb'. rec t b nb j = Some (Inr (txt, nb')) \<Longrightarrow> ends_closed txt"
    and "dir_step json_printer indent rec t i s = Some (Inr s')" and "open_state s"
  shows "open_state s'"
proof -
  have half: "open_state (snd r')" if "half_step json_printer indent rec t i up r = Some (Inr r')" "open_state (snd r)" for up r r'
    using that rec edge_ends[THEN ends_append]
    by (auto simp: half_step_def open_state_def Let_def bindO_Inr case_prod_beta split: option.splits if_splits)
  from assms(2) obtain r1 r2 r3 where r: "center_step json_printer indent rec t i s = Some (Inr r1)"
    "half_step json_printer indent rec t i True r1 = Some (Inr r2)" "half_step json_printer indent rec t i False r2 = Some (Inr r3)" "s' = snd r3"
    by (auto simp: dir_step_def bindO_Inr)
  have "open_state (snd r1)" using r(1) assms(3) rec edge_ends[THEN ends_append]
    by (auto simp: center_step_def open_state_def Let_def bindO_Inr case_prod_beta split: option.splits if_splits)
  with half r(2-4) show ?thesis by blast
qed

lemma json_walk_ends:
  assumes "walk json_printer indent t bounds nb idx = Some (Inr (txt, nb'))"
  shows "ends_closed txt"
proof -
  let ?Q = "\<lambda>P (indent :: nat) (t :: trie_node) (bounds :: (double \<times> double) list) (nb :: (double \<times> double) list) (idx :: int)
     (r :: (string \<times> (double \<times> double) list) result). P = json_printer \<longrightarrow> (\<forall>txt nb'. r = Inr (txt, nb') \<longrightarrow> ends_closed txt)"
  have "?Q json_printer indent t bounds nb idx (Inr (txt, nb'))"
  proof (rule walk.raw_induct[where P = ?Q, OF _ assms], goal_cases)
    case (1 rec P indent t bounds nb idx r)
    show ?case
    proof (intro impI allI)
      fix out nb' assume P: "P = json_printer" and r: "r = Inr (out, nb')"
      from 1(2) r obtain s where s: "foldO (dir_step P indent (rec P (indent + 1)) t) [0..<n_dir t]
          \<lparr>wans = at_node P indent idx bounds t, wbounds = bounds, n_bounds = nb, child_num = 0, node_num = 0, temp_ans = []\<rparr> = Some (Inr s)"
        "finish P indent t s = Inr (out, nb')" by (auto simp: bindO_Inr)
      have "ends_open (at_node P indent idx bounds t)"
        using ends_append[of "'','' @ nl"] by (auto simp: P ends_open_def)
      then have init: "open_state \<lparr>wans = at_node P indent idx bounds t, wbounds = bounds, n_bounds = nb, child_num = 0, node_num = 0, temp_ans = []\<rparr>"
        by (simp add: open_state_def)
      have rec: "rec json_printer (indent + 1) t b nb j = Some (Inr (out, nb')) \<Longrightarrow> ends_closed out" for t b nb j out nb' using 1(1) by blast
      have "open_state s"
      proof (rule foldO_invariant[where I = open_state, OF s(1) init])
        fix x u u' assume "open_state u" "dir_step P indent (rec P (indent + 1)) t x u = Some (Inr u')"
        then show "open_state u'" unfolding P by - (rule json_dir_step[of "rec json_printer (indent + 1)"], rule rec)
      qed
      with s(2) show "ends_closed out"
        by (auto simp: P finish_def open_state_def ends_open_def ends_closed_def Let_def split: if_splits option.splits)
    qed
  qed
  then show ?thesis by blast
qed

lemma write_json_invalid: "write_json t bounds = Some (Inr txt) \<Longrightarrow> \<not> json_value txt"
proof -
  assume "write_json t bounds = Some (Inr txt)"
  then obtain nb where "walk json_printer 0 t bounds bounds (- 1) = Some (Inr (txt, nb))"
    by (auto simp: write_json_def print_trie_def bindO_Inr)
  from json_walk_ends[OF this] obtain u where "txt = u @ '','' @ nl @ ''}''" unfolding ends_closed_def by blast
  then show ?thesis using json_no_comma[of u] by simp
qed

end
