(* ===== verification/Trie_Text_Ends.thy ===== *)
theory Trie_Text_Ends
  imports Trie_Text_Sound Box_Lists_Sound
begin

text \<open>
  The printing of a trie ends.  A path made by \<^verbatim>\<open>get_path\<close> goes through the directions in
  increasing order; below a node the walk either follows a child, or goes on in the union of two
  descendants, whose paths only use later directions.
\<close>

subsection \<open>Paths within the bounds\<close>

lemma path_dir_ends:
  assumes "l \<le> fst c" and "fst c < snd c \<or> fst c = snd c \<and> snd c \<le> r" and "0 < \<delta>"
    and "if fst c < snd c then \<delta> \<le> snd c - fst c else \<delta> < tick" and "r - l \<le> 2 ^ k * \<delta>"
  shows "\<exists>p. path_dir i c l r = Some p \<and> set p \<subseteq> {i + 1, - (i + 1)}"
  using assms
proof (induction k arbitrary: l r)
  case 0
  have "\<not> (r - l > 2 * (snd c - fst c) \<and> (\<bar>l - fst c\<bar> \<ge> tick \<or> \<bar>r - snd c\<bar> \<ge> tick))"
    using "0.prems" by (auto split: if_splits)
  then show ?case by (subst path_dir.simps) auto
next
  case (Suc k)
  show ?case
  proof (cases "r - l > 2 * (snd c - fst c) \<and> (\<bar>l - fst c\<bar> \<ge> tick \<or> \<bar>r - snd c\<bar> \<ge> tick)")
    case True
    let ?m = "(l + r) / 2"
    have half: "r - ?m \<le> 2 ^ k * \<delta>" "?m - l \<le> 2 ^ k * \<delta>" using Suc.prems(5) by (simp_all add: field_simps)
    show ?thesis
    proof (cases "?m \<le> fst c")
      case m: True
      have "\<exists>p. path_dir i c ?m r = Some p \<and> set p \<subseteq> {i + 1, - (i + 1)}"
        by (rule Suc.IH[OF m _ Suc.prems(3,4) half(1)]) (use Suc.prems(2) in simp)
      with True m show ?thesis by (subst path_dir.simps) (auto simp: Let_def)
    next
      case m: False
      have "\<exists>p. path_dir i c l ?m = Some p \<and> set p \<subseteq> {i + 1, - (i + 1)}"
        by (rule Suc.IH[OF Suc.prems(1) _ Suc.prems(3,4) half(2)]) (use Suc.prems(2) m in auto)
      with True m show ?thesis by (subst path_dir.simps) (auto simp: Let_def)
    qed
  next
    case False
    then have "path_dir i c l r = Some []" by (subst path_dir.simps) auto
    then show ?thesis by simp
  qed
qed

lemma path_dir_within:
  assumes "l \<le> fst c" and "fst c \<le> snd c" and "snd c \<le> r"
  shows "\<exists>p. path_dir i c l r = Some p \<and> set p \<subseteq> {i + 1, - (i + 1)}"
proof -
  define \<delta> where "\<delta> = (if fst c < snd c then snd c - fst c else tick / 2)"
  have \<delta>: "0 < \<delta>" by (auto simp: \<delta>_def tick_def)
  obtain k where "(r - l) / \<delta> < of_nat k" using reals_Archimedean2 by blast
  moreover have "rat_of_nat k \<le> 2 ^ k" by (metis of_nat_le_iff of_nat_numeral of_nat_power less_imp_le less_exp)
  ultimately have "(r - l) / \<delta> \<le> 2 ^ k" by linarith
  then have "r - l \<le> 2 ^ k * \<delta>" using \<delta> by (simp add: pos_divide_le_eq)
  then show ?thesis using assms \<delta> by (intro path_dir_ends[of l c r \<delta> k]) (auto simp: \<delta>_def tick_def)
qed

text \<open>Boxes within the bounds that fill them in the first \<open>k\<close> directions.\<close>

definition within_from :: "nat \<Rightarrow> (double \<times> double) list \<Rightarrow> (double \<times> double) list \<Rightarrow> bool" where
  "within_from k bs cs \<longleftrightarrow> length cs = length bs
     \<and> (\<forall>i < length bs. fst (bs ! i) \<le> fst (cs ! i) \<and> fst (cs ! i) \<le> snd (cs ! i) \<and> snd (cs ! i) \<le> snd (bs ! i) \<and> (i < k \<longrightarrow> cs ! i = bs ! i))"

definition proper :: "(double \<times> double) list \<Rightarrow> bool" where
  "proper bs \<longleftrightarrow> (\<forall>c \<in> set bs. fst c < snd c)"

definition path_from :: "nat \<Rightarrow> nat \<Rightarrow> int list \<Rightarrow> bool" where
  "path_from n k p \<longleftrightarrow> path_ok n p \<and> sorted (map abs p) \<and> (\<forall>d \<in> set p. int k < \<bar>d\<bar>)"

lemma get_path_within:
  assumes "within_from k bs cs" and "proper bs" and "length bs = n"
  shows "\<exists>p. get_path cs bs n = Some (Inr p) \<and> path_from n k p"
proof -
  have one: "\<exists>p. path_dir (int i) (cs ! i) (fst (bs ! i)) (snd (bs ! i)) = Some p \<and> set p \<subseteq> {int i + 1, - (int i + 1)} \<and> (i < k \<longrightarrow> p = [])"
    if "i < n" for i
  proof (cases "i < k")
    case True
    then have "cs ! i = bs ! i" "fst (bs ! i) < snd (bs ! i)" using assms that by (auto simp: within_from_def proper_def)
    then show ?thesis by (subst path_dir.simps) simp
  next
    case False
    then show ?thesis using path_dir_within[of "fst (bs ! i)" "cs ! i" "snd (bs ! i)" "int i"] assms that by (auto simp: within_from_def)
  qed
  have "\<exists>p. path_dirs [a..<n] cs bs = Some (Inr p) \<and> path_ok n p \<and> sorted (map abs p) \<and> (\<forall>d \<in> set p. int (max a k) < \<bar>d\<bar>)" if "a \<le> n" for a
    using that
  proof (induction a rule: inc_induct)
    case (step a)
    from step.IH obtain p where p: "path_dirs [Suc a..<n] cs bs = Some (Inr p)" "path_ok n p" "sorted (map abs p)"
      "\<forall>d \<in> set p. int (max (Suc a) k) < \<bar>d\<bar>" by blast
    from one[OF step.hyps(2)] obtain q where q: "path_dir (int a) (cs ! a) (fst (bs ! a)) (snd (bs ! a)) = Some q"
      "set q \<subseteq> {int a + 1, - (int a + 1)}" "a < k \<longrightarrow> q = []" by blast
    have "a < length bs" "a < length cs" using assms(1,3) step.hyps(2) by (auto simp: within_from_def)
    then have "path_dirs [a..<n] cs bs = Some (Inr (q @ p))" using p(1) q(1) step.hyps(2) by (simp add: upt_conv_Cons)
    moreover have "\<bar>d\<bar> = int a + 1" if "d \<in> set q" for d using that q(2) by auto
    note d = this
    have "map abs q = replicate (length q) (int a + 1)" using d by (auto intro!: replicate_eqI)
    then have "sorted (map abs (q @ p))" using p(3,4) d by (fastforce simp: sorted_append)
    moreover have "path_ok n (q @ p)" using p(2) d step.hyps(2) by (fastforce simp: path_ok_def)
    moreover have "int (max a k) < \<bar>e\<bar>" if "e \<in> set (q @ p)" for e
      using that p(4) q(3) d by (cases "a < k") fastforce+
    ultimately show ?case by blast
  qed simp
  from this[of 0] show ?thesis by (auto simp: get_path_def path_from_def)
qed

subsection \<open>Tries whose paths are sorted\<close>

definition sorted_trie :: "nat \<Rightarrow> nat \<Rightarrow> trie_node \<Rightarrow> bool" where
  "sorted_trie n k t \<longleftrightarrow> trie_ok t \<and> n_dir t = n \<and> (\<forall>q. subtrie q t \<noteq> None \<longrightarrow> path_from n k q)"

lemma path_from_prefix: "path_from n k (q @ r) \<Longrightarrow> path_from n k q"
  by (auto simp: path_from_def sorted_append)

lemma path_from_Cons: "path_from n k (d # q) \<longleftrightarrow> d \<noteq> 0 \<and> \<bar>d\<bar> \<le> int n \<and> int k < \<bar>d\<bar> \<and> path_from n (nat (\<bar>d\<bar> - 1)) q"
  by (auto simp: path_from_def) (fastforce+)?

lemma path_from_mono: "path_from n k q \<Longrightarrow> j \<le> k \<Longrightarrow> path_from n j q"
  by (fastforce simp: path_from_def)

lemma make_trie_sorted:
  assumes l: "linked l as" and w: "\<forall>b \<in> set (boxes l as). within_from k bs (coords b)" and bs: "proper bs" "length bs = n"
  shows "\<exists>t. make_trie l n bs = Some (Inr t) \<and> sorted_trie n k t"
proof -
  let ?I = "\<lambda>(l', t). l' = l \<and> sorted_trie n k t"
  have "\<exists>s'. insert_box n bs a s = Some (Inr s') \<and> ?I s'" if "a \<in> set as" "?I s" for a s
  proof -
    obtain t where s: "s = (l, t)" "sorted_trie n k t" using \<open>?I s\<close> by (cases s) auto
    from boxes_at[OF l that(1)] obtain b where b: "box_at l a = Inr b" "b \<in> set (boxes l as)" by blast
    from get_path_within[OF _ bs] w b(2) obtain p where p: "get_path (coords b) bs n = Some (Inr p)" "path_from n k p" by blast
    from add_child_spec[of t p] s(2) p(2) obtain t' where t': "add_child p t = Inr t'" "trie_ok t'" "n_dir t' = n"
      "\<And>q. subtrie q t' \<noteq> None \<longleftrightarrow> subtrie q t \<noteq> None \<or> (\<exists>r. p = q @ r)" by (auto simp: sorted_trie_def path_from_def)
    then have "sorted_trie n k t'" using s(2) p(2) path_from_prefix unfolding sorted_trie_def by blast
    with s(1) b(1) p(1) t'(1) show ?thesis by (simp add: insert_box_def)
  qed
  moreover have "kid d (trie_new n) = None" for d by (rule leaf_no_kid) simp_all
  then have "subtrie q (trie_new n) \<noteq> None \<Longrightarrow> q = []" for q by (cases q) auto
  then have "subtrie q (trie_new n) \<noteq> None \<Longrightarrow> path_from n k q" for q by (fastforce simp: path_from_def)
  then have "?I (l, trie_new n)" by (simp add: sorted_trie_def)
  ultimately obtain s where s: "foldO (insert_box n bs) as (l, trie_new n) = Some (Inr s)" "?I s"
    using foldO_total[of ?I "(l, trie_new n)" as "insert_box n bs"] by blast
  have "ll_walk (brk l) (insert_box n bs) (first as None) (l, trie_new n) = foldO (insert_box n bs) as (l, trie_new n)"
    by (rule ll_walk_fold[of l "[]"]) (use l linked_length[OF l] in \<open>auto simp: insert_box_def bindO_Inr\<close>)
  then show ?thesis using s l by (auto simp: make_trie_def linked_def)
qed

lemma sorted_kid:
  assumes "sorted_trie n k t" and "kid d t = Some c"
  shows "sorted_trie n (nat (\<bar>d\<bar> - 1)) c" and "k \<le> nat (\<bar>d\<bar> - 1)" and "size c < size t"
proof -
  have d: "path_from n k [d]" using assms by (auto simp: sorted_trie_def dest: spec[of _ "[d]"])
  have "path_from n (nat (\<bar>d\<bar> - 1)) q" if "subtrie q c \<noteq> None" for q
  proof -
    have "path_from n k (d # q)" using assms that by (auto simp: sorted_trie_def dest: spec[of _ "d # q"])
    then show ?thesis by (simp add: path_from_Cons)
  qed
  with assms kid_ok[of t d c] show "sorted_trie n (nat (\<bar>d\<bar> - 1)) c" "size c < size t" by (auto simp: sorted_trie_def)
  show "k \<le> nat (\<bar>d\<bar> - 1)" using d by (auto simp: path_from_Cons)
qed

lemma kid_at:
  assumes "trie_ok t" and "i < n_dir t"
  shows "next_right t ! i = kid (int i + 1) t" and "next_left t ! i = kid (- (int i + 1)) t"
  using assms by (cases t; auto simp: kid_alt)+

lemma sorted_children:
  assumes "sorted_trie n k t" and "i < n" and "next_right t ! i = Some c \<or> next_left t ! i = Some c"
  shows "sorted_trie n i c" and "k \<le> i" and "size c < size t"
proof -
  from assms obtain d where d: "kid d t = Some c" "\<bar>d\<bar> = int i + 1"
    using kid_at[of t i] by (auto simp: sorted_trie_def)
  show "sorted_trie n i c" "k \<le> i" "size c < size t" using sorted_kid[OF assms(1) d(1)] d(2) by simp_all
qed

lemma child_sorted:
  assumes "child i type t = Some c" and "sorted_trie n i t" and "i < n"
  shows "sorted_trie n (Suc i) c"
  using assms
proof (induction t rule: measure_induct_rule[of size])
  case (less t)
  obtain m leaf L R where t: "t = Trie m leaf L R" by (cases t)
  have len: "length L = n" "length R = n" using less.prems(2) by (auto simp: sorted_trie_def t)
  have kids: "kid (int i + 1) t = next_right t ! i" "kid (- (int i + 1)) t = next_left t ! i"
    using kid_at[of t i] less.prems(2,3) by (simp_all only: sorted_trie_def)
  have go: ?case if "child i type c' = Some c" "R ! i = Some c' \<or> L ! i = Some c'" for c'
    by (rule less.IH[OF _ that(1)]) (use sorted_children[OF less.prems(2,3), of c'] that(2) less.prems(3) t in auto)
  have stay: ?case if stay: "c = t" "L ! i = None" "R ! i = None"
  proof -
    have "path_from n (Suc i) q" if q: "subtrie q t \<noteq> None" for q
    proof (cases q)
      case (Cons d q')
      then have p: "path_from n i (d # q')" using q less.prems(2) by (simp add: sorted_trie_def)
      have "\<bar>d\<bar> \<noteq> int i + 1"
      proof
        assume "\<bar>d\<bar> = int i + 1"
        then have "d = int i + 1 \<or> d = - (int i + 1)" by auto
        moreover have "kid (int i + 1) t = None" "kid (- (int i + 1)) t = None"
          using kids stay by (simp_all add: t)
        ultimately have "kid d t = None" by auto
        with q Cons show False by simp
      qed
      with p Cons show ?thesis by (auto simp: path_from_Cons)
    qed (simp add: path_from_def)
    with less.prems(2) stay(1) show ?thesis by (simp add: sorted_trie_def)
  qed
  show ?case using less.prems(1,3) len go stay
    by (auto simp: t Let_def split: if_splits option.splits)
qed

subsection \<open>The boxes of a trie\<close>

lemma within_from_half:
  assumes "within_from i (cs[i := h]) ds" and "i < length cs" and "k \<le> i"
    and "fst (cs ! i) \<le> fst h" and "snd h \<le> snd (cs ! i)"
  shows "within_from k cs ds"
  unfolding within_from_def
proof (intro conjI allI impI)
  show "length ds = length cs" using assms(1) by (simp add: within_from_def)
  fix j assume j: "j < length cs"
  have w: "fst (cs[i := h] ! j) \<le> fst (ds ! j)" "fst (ds ! j) \<le> snd (ds ! j)" "snd (ds ! j) \<le> snd (cs[i := h] ! j)" "j < i \<Longrightarrow> ds ! j = cs[i := h] ! j"
    using assms(1) j by (simp_all add: within_from_def)
  show "fst (cs ! j) \<le> fst (ds ! j)" "snd (ds ! j) \<le> snd (cs ! j)"
    using w(1,3) assms(2,4,5) by (cases "j = i"; simp)+
  show "fst (ds ! j) \<le> snd (ds ! j)" by (rule w(2))
  show "j < k \<Longrightarrow> ds ! j = cs ! j" using w(4) assms(3) by simp
qed

lemma proper_half:
  assumes "proper cs" and "i < length cs"
  shows "fst (cs ! i) < (fst (cs ! i) + snd (cs ! i)) * (1 / 2)" and "(fst (cs ! i) + snd (cs ! i)) * (1 / 2) < snd (cs ! i)"
    and "fst h < snd h \<Longrightarrow> proper (cs[i := h])"
proof -
  have "fst (cs ! i) < snd (cs ! i)" using assms by (simp add: proper_def)
  then show "fst (cs ! i) < (fst (cs ! i) + snd (cs ! i)) * (1 / 2)" "(fst (cs ! i) + snd (cs ! i)) * (1 / 2) < snd (cs ! i)" by simp_all
  show "fst h < snd h \<Longrightarrow> proper (cs[i := h])"
    using assms(1) by (auto simp: proper_def dest!: set_update_subset_insert[THEN subsetD])
qed

definition adds_within :: "nat \<Rightarrow> (double \<times> double) list \<Rightarrow> bounding_box ll \<Rightarrow> addr list \<Rightarrow> bounding_box ll \<Rightarrow> bool" where
  "adds_within k cs l as l' \<longleftrightarrow> (\<exists>as'. linked l' as' \<and> (\<forall>b \<in> set (boxes l' as'). b \<in> set (boxes l as) \<or> within_from k cs (coords b)))"

lemma get_ll_within:
  assumes "sorted_trie n k t" and "length cs = n" and "proper cs" and "linked l as"
  shows "\<exists>l'. get_ll t cs l = Inr l' \<and> adds_within k cs l as l'"
  using assms
proof (induction t arbitrary: k cs l as rule: measure_induct_rule[of size])
  case (less t)
  obtain m leaf L R where t: "t = Trie m leaf L R" by (cases t)
  have len: "length L = n" "length R = n" "m = n" using less.prems(1) by (auto simp: sorted_trie_def t)
  show ?case
  proof (cases leaf)
    case True
    have "within_from k cs cs" using less.prems(2,3) by (auto simp: within_from_def proper_def intro: less_imp_le)
    with True add_node_boxes[OF less.prems(4), of "box_new cs"] show ?thesis
      by (fastforce simp: t adds_within_def box_new_def)
  next
    case False
    let ?I = "\<lambda>(cs', l'). cs' = cs \<and> adds_within k cs l as l'"
    have half: "\<exists>s'. get_ll_half right i (map (map_option get_ll) (if right then R else L) ! i) s = Inr s' \<and> ?I s'"
      if i: "i < n" and s: "?I s" for right i s
    proof (cases "(if right then R else L) ! i")
      case None
      then show ?thesis using s i len by (auto simp: get_ll_half_def split: if_splits)
    next
      case (Some c)
      obtain l1 as1 where s1: "s = (cs, l1)" "linked l1 as1" "\<forall>b \<in> set (boxes l1 as1). b \<in> set (boxes l as) \<or> within_from k cs (coords b)"
        using s by (cases s) (auto simp: adds_within_def)
      let ?mid = "(fst (cs ! i) + snd (cs ! i)) * (1 / 2)"
      let ?h = "if right then (?mid, snd (cs ! i)) else (fst (cs ! i), ?mid)"
      have c: "sorted_trie n i c" "k \<le> i" "size c < size t"
        using sorted_children[OF less.prems(1) i, of c] Some by (auto simp: t split: if_splits)
      have ics: "i < length cs" using i less.prems(2) by simp
      note mid = proper_half[OF less.prems(3) ics]
      have "\<exists>l'. get_ll c (cs[i := ?h]) l1 = Inr l' \<and> adds_within i (cs[i := ?h]) l1 as1 l'"
        by (rule less.IH[OF c(3,1) _ mid(3) s1(2)]) (use less.prems(2) mid(1,2) in simp_all)
      then obtain l2 where l2: "get_ll c (cs[i := ?h]) l1 = Inr l2" "adds_within i (cs[i := ?h]) l1 as1 l2" by blast
      have "within_from k cs ds" if "within_from i (cs[i := ?h]) ds" for ds
        by (rule within_from_half[OF that ics c(2)]) (use mid(1,2) in auto)
      with l2(2) s1(3) have "adds_within k cs l as l2" unfolding adds_within_def by blast
      moreover have "get_ll_half right i (map (map_option get_ll) (if right then R else L) ! i) s = Inr (cs, l2)"
      proof (cases right)
        case True
        have "2 * ?mid - snd (cs ! i) = fst (cs ! i)" by (simp add: field_simps)
        then have "cs[i := (2 * ?mid - snd (cs ! i), snd (cs ! i))] = cs" by (simp only: prod.collapse list_update_id)
        with True Some l2(1) i len ics show ?thesis by (simp add: get_ll_half_def s1(1) Let_def)
      next
        case False
        have "2 * ?mid - fst (cs ! i) = snd (cs ! i)" by (simp add: field_simps)
        then have "cs[i := (fst (cs ! i), 2 * ?mid - fst (cs ! i))] = cs" by (simp only: prod.collapse list_update_id)
        with False Some l2(1) i len ics show ?thesis by (simp add: get_ll_half_def s1(1) Let_def)
      qed
      ultimately show ?thesis by auto
    qed
    let ?f = "\<lambda>i st. bindR (get_ll_half False i (map (map_option get_ll) L ! i) st) (get_ll_half True i (map (map_option get_ll) R ! i))"
    have "\<exists>s'. ?f i s = Inr s' \<and> ?I s'" if "i \<in> set [0..<n]" "?I s" for i s
    proof -
      from half[of i s False] that obtain s1 where s1: "get_ll_half False i (map (map_option get_ll) L ! i) s = Inr s1" "?I s1" by auto
      from half[OF _ s1(2), of i True] that s1(1) show ?thesis by auto
    qed
    moreover have "?I (cs, l)" using less.prems(4) by (auto simp: adds_within_def)
    ultimately obtain s where "foldR ?f [0..<n] (cs, l) = Inr s" "?I s"
      using foldR_total[of ?I "(cs, l)" "[0..<n]" ?f] by blast
    then show ?thesis using False len by (cases s) (simp add: t Let_def)
  qed
qed

lemma union_sorted:
  assumes "\<And>t. n1 = Some t \<Longrightarrow> sorted_trie n k t" "\<And>t. n2 = Some t \<Longrightarrow> sorted_trie n k t" and "length cs = n" "proper cs"
  shows "\<exists>u. trie_union n1 n2 cs = Some (Inr u) \<and> (\<forall>t. u = Some t \<longrightarrow> sorted_trie n k t)"
proof (cases n1; cases n2)
  fix t1 t2 assume n: "n1 = Some t1" "n2 = Some t2"
  from get_ll_within[OF assms(1)[OF n(1)] assms(3,4) linked_ll_empty(1)] obtain l1 as1 where
    l1: "get_ll t1 cs ll_empty = Inr l1" "linked l1 as1" "\<forall>b \<in> set (boxes l1 as1). within_from k cs (coords b)" by (auto simp: adds_within_def)
  from get_ll_within[OF assms(2)[OF n(2)] assms(3,4) l1(2)] obtain l2 as2 where
    l2: "get_ll t2 cs l1 = Inr l2" "linked l2 as2" "\<forall>b \<in> set (boxes l2 as2). within_from k cs (coords b)"
    using l1(3) by (auto simp: adds_within_def)
  from make_trie_sorted[OF l2(2,3) assms(4,3)] l1(1) l2(1) show ?thesis by (auto simp: trie_union_def n assms(3))
qed (use assms in \<open>simp_all add: trie_union_def\<close>)

subsection \<open>The walk\<close>

lemma sorted_trie_mono: "sorted_trie n i c \<Longrightarrow> k \<le> i \<Longrightarrow> sorted_trie n k c"
  using path_from_mono by (auto simp: sorted_trie_def)

lemma mid_bounds: "fst b < snd b \<Longrightarrow> fst b < mid b \<and> mid b < snd b" "2 * mid b - snd b = fst b" "2 * mid b - fst b = snd b"
  by (simp_all add: mid_def field_simps)

definition edge_at :: "trie_node \<Rightarrow> nat \<Rightarrow> bool" where
  "edge_at t i \<longleftrightarrow> next_left t ! i \<noteq> None \<or> next_right t ! i \<noteq> None"

definition walk_inv :: "nat \<Rightarrow> trie_node \<Rightarrow> (double \<times> double) list \<Rightarrow> walk_state \<Rightarrow> bool" where
  "walk_inv n t bs s \<longleftrightarrow> wbounds s = bs \<and> length (n_bounds s) = n \<and> (child_num s \<noteq> 0 \<longrightarrow> edge_at t (node_num s))"

lemma half_step_ends:
  assumes bs: "length bs = n" "proper bs" and i: "i < n"
    and rec: "\<And>c b nb j. next_right t ! i = Some c \<or> next_left t ! i = Some c \<Longrightarrow> length b = n \<Longrightarrow> proper b \<Longrightarrow> length nb = n
       \<Longrightarrow> \<exists>out nb'. rec c b nb j = Some (Inr (out, nb')) \<and> length nb' = n"
    and s: "wbounds s = bs" "length (n_bounds s) = n"
    and edges: "walk_inv n t bs s \<or> (if up then next_right t ! i else next_left t ! i) \<noteq> None"
  shows "\<exists>s'. half_step P indent rec t i up (ign, s) = Some (Inr (ign, s')) \<and> walk_inv n t bs s'"
proof (cases "if up then next_right t ! i else next_left t ! i")
  case None
  with edges show ?thesis by (simp add: half_step_def)
next
  case (Some c)
  let ?b = "bs ! i" and ?h = "if up then (mid (bs ! i), snd (bs ! i)) else (fst (bs ! i), mid (bs ! i))"
  have b: "fst ?b < snd ?b" using bs i by (simp add: proper_def)
  have "proper (bs[i := ?h])" using proper_half(3)[OF bs(2), of i ?h] i bs(1) mid_bounds(1)[OF b] by simp
  with rec[of c "bs[i := ?h]" "n_bounds s" "down_idx t i"] Some bs(1) s(2) obtain out nb' where
    r: "rec c (bs[i := ?h]) (n_bounds s) (down_idx t i) = Some (Inr (out, nb'))" "length nb' = n" by (auto split: if_splits)
  have restored: "(bs[i := ?h])[i := if up then (2 * fst ?h - snd ?h, snd ?h) else (fst ?h, 2 * snd ?h - fst ?h)] = bs"
    by (simp add: mid_bounds(2,3))
  have "edge_at t i" using Some by (auto simp: edge_at_def split: if_splits)
  then show ?thesis using r i bs(1) restored unfolding half_step_def prod.case Some option.case s(1) Let_def
    by (auto simp: walk_inv_def split: if_splits)
qed

lemma dir_step_ends:
  assumes bs: "length bs = n" "proper bs" and i: "i < n" and t: "sorted_trie n k t"
    and rec: "\<And>c b nb j. next_right t ! i = Some c \<or> next_left t ! i = Some c \<Longrightarrow> length b = n \<Longrightarrow> proper b \<Longrightarrow> length nb = n
       \<Longrightarrow> \<exists>out nb'. rec c b nb j = Some (Inr (out, nb')) \<and> length nb' = n"
    and rec': "\<And>u nb j. k \<le> i \<Longrightarrow> sorted_trie n (Suc i) u \<Longrightarrow> length nb = n \<Longrightarrow> \<exists>out nb'. rec u bs nb j = Some (Inr (out, nb')) \<and> length nb' = n"
    and s: "walk_inv n t bs s"
  shows "\<exists>s'. dir_step P indent rec t i s = Some (Inr s') \<and> walk_inv n t bs s'"
proof -
  have "\<exists>ign s1. center_step P indent rec t i s = Some (Inr (ign, s1)) \<and> wbounds s1 = bs \<and> length (n_bounds s1) = n
     \<and> (walk_inv n t bs s1 \<or> next_right t ! i \<noteq> None)"
  proof (cases "next_right t ! i = None \<or> next_left t ! i = None \<or> \<not> is_whole (mid (bs ! i))")
    case True
    then have "center_step P indent rec t i s = Some (Inr (False, s))"
      using s i bs(1) by (cases "next_right t ! i"; cases "next_left t ! i") (simp_all add: center_step_def walk_inv_def Let_def)
    then show ?thesis by (intro exI[of _ False] exI[of _ s]) (use s in \<open>simp add: walk_inv_def\<close>)
  next
    case False
    then obtain r l where rl: "next_right t ! i = Some r" "next_left t ! i = Some l" by auto
    have "\<exists>u. trie_union (child i 1 r) (child i 0 l) bs = Some (Inr u) \<and> (\<forall>c. u = Some c \<longrightarrow> sorted_trie n (Suc i) c)"
    proof (rule union_sorted[OF _ _ bs])
      have "sorted_trie n i r" "sorted_trie n i l" using sorted_children(1)[OF t i] rl by simp_all
      then show "child i 1 r = Some c \<Longrightarrow> sorted_trie n (Suc i) c" "child i 0 l = Some c \<Longrightarrow> sorted_trie n (Suc i) c" for c
        using child_sorted i by blast+
    qed
    then obtain u where u: "trie_union (child i 1 r) (child i 0 l) bs = Some (Inr u)" "\<And>c. u = Some c \<Longrightarrow> sorted_trie n (Suc i) c" by blast
    show ?thesis
    proof (cases u)
      case None
      then have "center_step P indent rec t i s = Some (Inr (True, s))"
        using u(1) rl s i bs(1) False by (simp add: center_step_def walk_inv_def Let_def)
      then show ?thesis by (intro exI[of _ True] exI[of _ s]) (use s in \<open>simp add: walk_inv_def\<close>)
    next
      case (Some c)
      have "k \<le> i" using sorted_children(2)[OF t i] rl(1) by blast
      from rec'[OF this u(2)[OF Some]] s obtain out nb' where
        r: "rec c bs (n_bounds s) (down_idx t i) = Some (Inr (out, nb'))" "length nb' = n" unfolding walk_inv_def by blast
      let ?s = "s\<lparr>wans := wans s @ at_center P indent (child_num s) i (mid (bs ! i)) out, n_bounds := nb', child_num := child_num s + 1, temp_ans := out\<rparr>"
      have "center_step P indent rec t i s = Some (Inr (True, ?s))"
        using Some u(1) rl s i bs(1) False r(1) by (simp add: center_step_def walk_inv_def Let_def)
      moreover have "wbounds ?s = bs" "length (n_bounds ?s) = n" using s r(2) by (simp_all add: walk_inv_def)
      ultimately show ?thesis by (intro exI[of _ True] exI[of _ ?s]) (use rl(1) in simp)
    qed
  qed
  then obtain ign s1 where s1: "center_step P indent rec t i s = Some (Inr (ign, s1))" "wbounds s1 = bs" "length (n_bounds s1) = n"
    "walk_inv n t bs s1 \<or> next_right t ! i \<noteq> None" by blast
  have "\<exists>s2. half_step P indent rec t i True (ign, s1) = Some (Inr (ign, s2)) \<and> walk_inv n t bs s2"
    by (rule half_step_ends[OF bs i _ s1(2,3)], rule rec; (assumption | use s1(4) in simp))
  then obtain s2 where s2: "half_step P indent rec t i True (ign, s1) = Some (Inr (ign, s2))" "walk_inv n t bs s2" by blast
  have w: "wbounds s2 = bs" "length (n_bounds s2) = n" using s2(2) by (simp_all add: walk_inv_def)
  have "\<exists>s3. half_step P indent rec t i False (ign, s2) = Some (Inr (ign, s3)) \<and> walk_inv n t bs s3"
    by (rule half_step_ends[OF bs i _ w disjI1[OF s2(2)]], rule rec; assumption)
  then obtain s3 where "half_step P indent rec t i False (ign, s2) = Some (Inr (ign, s3))" "walk_inv n t bs s3" by blast
  with s1(1) s2(1) show ?thesis by (simp add: dir_step_def)
qed

lemma walk_ends:
  assumes "sorted_trie n k t" and "length bs = n" and "proper bs" and "length nb = n"
  shows "\<exists>out nb'. walk P indent t bs nb idx = Some (Inr (out, nb')) \<and> length nb' = n"
  using assms
proof (induction "n - k" arbitrary: k t bs nb idx indent rule: less_induct)
  case outer: less
  from outer.prems show ?case
  proof (induction t arbitrary: bs nb idx indent rule: measure_induct_rule[of size])
    case inner: (less t)
    let ?s = "\<lparr>wans = at_node P indent idx bs t, wbounds = bs, n_bounds = nb, child_num = 0, node_num = 0, temp_ans = []\<rparr>"
    have "\<exists>s'. dir_step P indent (walk P (indent + 1)) t i s = Some (Inr s') \<and> walk_inv n t bs s'"
      if i: "i \<in> set [0..<n]" and s: "walk_inv n t bs s" for i s
    proof (rule dir_step_ends[OF inner.prems(2,3) _ inner.prems(1) _ _ s])
      show "i < n" using i by simp
      show "\<exists>out nb'. walk P (indent + 1) c b nb j = Some (Inr (out, nb')) \<and> length nb' = n"
        if "next_right t ! i = Some c \<or> next_left t ! i = Some c" "length b = n" "proper b" "length nb = n" for c b nb j
      proof (rule inner.IH[OF _ _ that(2-4)])
        note c = sorted_children[OF inner.prems(1) \<open>i < n\<close> that(1)]
        show "size c < size t" "sorted_trie n k c" using c sorted_trie_mono[OF c(1,2)] by simp_all
      qed
      show "\<exists>out nb'. walk P (indent + 1) u bs nb j = Some (Inr (out, nb')) \<and> length nb' = n"
        if "k \<le> i" "sorted_trie n (Suc i) u" "length nb = n" for u nb j
        by (rule outer.hyps[OF _ that(2) inner.prems(2,3) that(3)]) (use that(1) \<open>i < n\<close> in simp)
    qed
    moreover have "walk_inv n t bs ?s" using inner.prems(4) by (simp add: walk_inv_def)
    ultimately obtain s where s: "foldO (dir_step P indent (walk P (indent + 1)) t) [0..<n] ?s = Some (Inr s)" "walk_inv n t bs s"
      using foldO_total[of "walk_inv n t bs" ?s "[0..<n]"] by blast
    have "\<exists>out nb'. finish P indent t s = Inr (out, nb') \<and> length nb' = n"
      using s(2) inner.prems(2) by (auto simp: finish_def walk_inv_def edge_at_def Let_def split: option.splits)
    with s(1) inner.prems(1) show ?case by (subst walk.simps) (auto simp: sorted_trie_def)
  qed
qed

lemma trie_files:
  assumes "linked l as" and "length bounds = n" and "\<forall>c \<in> set bounds. fst c < snd c"
    and "\<forall>b \<in> set (boxes l as). length (coords b) = n
       \<and> (\<forall>i < n. fst (bounds ! i) \<le> fst (coords b ! i) \<and> fst (coords b ! i) \<le> snd (coords b ! i) \<and> snd (coords b ! i) \<le> snd (bounds ! i))"
  shows "\<exists>t json code. make_trie l n bounds = Some (Inr t) \<and> write_json t bounds = Some (Inr json) \<and> write_code t bounds = Some (Inr code)
     \<and> \<not> json_value json"
proof -
  have bs: "proper bounds" using assms(3) by (simp add: proper_def)
  have "\<forall>b \<in> set (boxes l as). within_from 0 bounds (coords b)" using assms(2,4) by (simp add: within_from_def)
  from make_trie_sorted[OF assms(1) this bs assms(2)] obtain t where t: "make_trie l n bounds = Some (Inr t)" "sorted_trie n 0 t" by blast
  note ends = walk_ends[OF t(2) assms(2) bs assms(2)]
  from ends[of json_printer 0 "- 1"] obtain json where json: "write_json t bounds = Some (Inr json)" by (auto simp: write_json_def print_trie_def)
  moreover from ends[of code_printer 0 "- 1"] obtain code where "write_code t bounds = Some (Inr code)" by (auto simp: write_code_def print_code_def)
  ultimately show ?thesis using t(1) write_json_invalid[OF json] by blast
qed

text \<open>
  C38: The files of a trie.  Let the bounds have positive extent in every direction and let every
  box of a list lie within them (boxes without extent included).  Then the trie of the list is
  made, \<^verbatim>\<open>write_json\<close> and \<^verbatim>\<open>write_code\<close> end with a text, and the text of \<^verbatim>\<open>write_json\<close> is not a JSON value:
  every object in it has a comma before its closing brace.
\<close>

theorem trie_files_end:
  assumes "linked l as" and "length bounds = n" and "\<forall>c \<in> set bounds. fst c < snd c"
    and "\<forall>b \<in> set (boxes l as). length (coords b) = n
       \<and> (\<forall>i < n. fst (bounds ! i) \<le> fst (coords b ! i) \<and> fst (coords b ! i) \<le> snd (coords b ! i) \<and> snd (coords b ! i) \<le> snd (bounds ! i))"
  shows "\<exists>t json code. make_trie l n bounds = Some (Inr t) \<and> write_json t bounds = Some (Inr json) \<and> write_code t bounds = Some (Inr code)
     \<and> \<not> json_value json"
  using assms by (rule trie_files)

theorem trie_files_end_witness:
  "\<exists>t json code. make_trie (ll_new (box_new [(1, 1), (0, 2)])) 2 [(0, 8), (0, 4)] = Some (Inr t)
     \<and> write_json t [(0, 8), (0, 4)] = Some (Inr json) \<and> write_code t [(0, 8), (0, 4)] = Some (Inr code) \<and> \<not> json_value json"
proof -
  let ?l = "ll_new (box_new [(1, 1), (0, 2)])"
  have l: "linked ?l [0]" "boxes ?l [0] = [box_new [(1, 1), (0, 2)]]" using linked_ll_new[of "box_new [(1, 1), (0, 2)]"] by simp_all
  have "\<forall>b \<in> set (boxes ?l [0]). length (coords b) = 2 \<and> (\<forall>i < 2. fst ([(0, 8), (0, 4)] ! i) \<le> fst (coords b ! i)
      \<and> fst (coords b ! i) \<le> snd (coords b ! i) \<and> snd (coords b ! i) \<le> snd ([(0, 8), (0, 4)] ! i))"
    unfolding l(2) by (auto simp: box_new_def less_2_cases_iff)
  from trie_files_end[OF l(1) _ _ this] show ?thesis by simp
qed

text \<open>
  A node split in a direction passes the next direction but one to its children, so a leaf below
  it does not show the bounds of the direction in between: here those of the second.
\<close>

lemma leaf_drops_direction:
  assumes "next_right t ! i \<noteq> None" and "next_left t ! i \<noteq> None"
  shows "leaf_name (down_idx t i) bounds
     = ''leaf'' @ concat (map (\<lambda>j. range_text ''<='' ''<='' (bounds ! j) j @ '' '') [i + 2..<length bounds])"
  using assms by (simp add: leaf_name_def down_idx_def nat_add_distrib)

end
