(* ===== verification/Threads_Bounds.thy ===== *)
theory Threads_Bounds
  imports Threads_Props
begin

text \<open>
  The bounds of the boxes in the threaded search.  A property of bounds that halving keeps holds
  of every box the threads ever store; one that rounding establishes holds of every box but those
  a thread has just halved and not put back yet.  The locale \<open>fence\<close> states this for two such
  properties, and two interpretations follow: the boxes of both searches stay between the bounds
  of the first box, and those of the integer search have integer bounds.
\<close>

subsection \<open>What the list operations do to the boxes\<close>

lemma cells_put: "ll_put a f l = Inr l' \<Longrightarrow> (\<And>nd. nbox (f nd) = nbox nd) \<Longrightarrow> cells l' = cells l"
  by (auto simp: ll_put_def ll_get_def bindR_Inr cells_def fun_eq_iff ofopt_def split: option.splits)

lemma cells_upd [simp]: "cells (l\<lparr>HEAD := h\<rparr>) = cells l" "cells (l\<lparr>TAIL := h\<rparr>) = cells l"
  by (simp_all add: cells_def fun_eq_iff)

lemma cells_set_box: "set_box a b l = Inr l' \<Longrightarrow> cells l' = (cells l)(a \<mapsto> b)"
  by (auto simp: set_box_def ll_put_def ll_get_def bindR_Inr cells_def fun_eq_iff ofopt_def split: option.splits)

lemma cells_box_at: "box_at l a = Inr b \<Longrightarrow> cells l a = Some b"
  by (auto simp: box_at_def ll_get_def bindR_Inr cells_def ofopt_def split: option.splits)

lemma cells_remove: "remove a l = Inr (c, l') \<Longrightarrow> cells l' = cells l"
  by (auto simp: remove_def Let_def bindR_Inr dest!: cells_put split: option.splits if_splits)

lemma cells_emplace: "emplace_node a l = Inr (c, l') \<Longrightarrow> cells l' = cells l"
  by (auto simp: emplace_node_def bindR_Inr dest!: cells_put split: option.splits)

lemma cells_add_node: "add_node b l = Inr l' \<Longrightarrow> cells l' = (cells l)(brk l \<mapsto> b)"
proof -
  have "cells (l\<lparr>heap := (heap l)(brk l \<mapsto> node_new b), brk := Suc (brk l)\<rparr>) = (cells l)(brk l \<mapsto> b)"
    by (simp add: cells_def fun_eq_iff node_new_def)
  then show "add_node b l = Inr l' \<Longrightarrow> cells l' = (cells l)(brk l \<mapsto> b)"
    by (auto simp: add_node_def ll_alloc_def bindR_Inr dest!: cells_put split: if_splits)
qed

lemma frag_new_cells:
  "frag_new acoords ps ns = Inr st \<Longrightarrow> cells (frags st) = [0 \<mapsto> init_curr_state_vec (length ps) (box_new acoords)]"
  using linked_ll_new(2) by (auto simp: frag_new_def Let_def split: if_splits)

subsection \<open>What the work on a box does to its bounds\<close>

lemma examine_coords: "examine query is found (b, ps, ns) = Inr (r, b', ps', ns') \<Longrightarrow> coords b' = coords b"
proof (induction query "is" found "(b, ps, ns)" arbitrary: b ps ns rule: examine.induct)
  case (2 query i "is" found b ps ns)
  have nv: "coords (note_verdict j v c) = coords c" for j v c by (simp add: note_verdict_def)
  from 2 show ?case by (auto simp: nv split: if_splits sum.splits cxx_error.splits prod.splits)
qed simp

lemma recompute_coords: "recompute_confidence b = Inr b' \<Longrightarrow> coords b' = coords b"
  by (auto simp: recompute_confidence_def Let_def split: if_splits)

definition middle :: "double \<times> double \<Rightarrow> double" where
  "middle c = (snd c + fst c) * (1 / 2)"

definition halves :: "(double \<times> double) list \<Rightarrow> (double \<times> double) list \<Rightarrow> (double \<times> double) list \<Rightarrow> bool" where
  "halves cs l r \<longleftrightarrow> (\<exists>i < length cs. l = cs[i := (fst (cs ! i), middle (cs ! i))] \<and> r = cs[i := (middle (cs ! i), snd (cs ! i))])"

lemma split_box_halves:
  assumes "split_box n b = Inr (nb, b')"
  shows "halves (coords b) (coords nb) (coords b')"
proof -
  from assms obtain idx nb0 where d: "divide idx 0 False b = Inr (nb0, b')" and nb: "copy_state_vec (curr_state_vec b') nb0 = Inr nb"
    by (auto simp: split_box_def bindR_Inr)
  have "coords nb = coords nb0" using nb by (auto simp: copy_state_vec_def split: if_splits)
  with d show ?thesis by (auto simp: divide_def Let_def halves_def middle_def box_new_def split: if_splits)
qed

lemma decide_coords:
  assumes "decide vol_limit n found b = Inr (fate, b')"
  shows "case fate of Halved nb \<Rightarrow> halves (coords b) (coords nb) (coords b') | _ \<Rightarrow> coords b' = coords b"
  using assms by (auto simp: decide_def bindR_Inr dest!: split_box_halves recompute_coords split: if_splits)

text \<open>The bounds of the boxes that come out of the work on a box with bounds \<open>cs\<close>.\<close>

definition proc_bounds :: "(double \<times> double) list \<Rightarrow> proc \<Rightarrow> bool" where
  "proc_bounds cs r = (case r of
       PRemove b \<Rightarrow> coords b = cs
     | PKeep b \<Rightarrow> coords b = cs
     | PSplit nb b \<Rightarrow> halves cs (coords nb) (coords b)
     | PExit fate b \<Rightarrow> (case fate of Halved nb \<Rightarrow> halves cs (coords nb) (coords b) | _ \<Rightarrow> coords b = cs))"

lemma process_box_bounds:
  assumes "process_box int_solve query vol_limit trie bounds st b = Some (Inr r)"
  shows "proc_bounds (coords b) r"
proof -
  from assms obtain t where t: "in_trie trie bounds b = Some (Inr t)" by (auto simp: process_box_def bindO_Inr)
  show ?thesis
  proof (cases "\<not> t \<or> int_solve \<and> not_valid b")
    case True
    with t assms show ?thesis by (auto simp: process_box_def proc_bounds_def)
  next
    case False
    with t assms obtain q b' ps ns where e: "examine query [0..<length (s_pos st)] 2 (b, s_pos st, s_neg st) = Inr (q, b', ps, ns)"
      by (cases "examine query [0..<length (s_pos st)] 2 (b, s_pos st, s_neg st)") (auto simp: process_box_def)
    let ?f = "case q of Completed f \<Rightarrow> f | Caught msg \<Rightarrow> 1"
    from False t assms e obtain fate b2 where d: "decide vol_limit (n_dirs st) ?f b' = Inr (fate, b2)"
      by (cases "decide vol_limit (n_dirs st) ?f b'"; cases q) (auto simp: process_box_def)
    then have "r = proc_of (fate, b2) \<or> r = PExit fate b2" using False t assms e by (cases q) (auto simp: process_box_def)
    with decide_coords[OF d] examine_coords[OF e] show ?thesis by (cases fate) (auto simp: proc_bounds_def proc_of_def)
  qed
qed

subsection \<open>The invariant\<close>

lemma moved_members:
  assumes "moved i p ps ps'"
  shows "Moving a nb \<in> set ps' \<Longrightarrow> Moving a nb = p \<or> Moving a nb \<in> set ps"
    and "Appending a nb \<in> set ps' \<Longrightarrow> Appending a nb = p \<or> Appending a nb \<in> set ps"
    and "Moving a nb \<in> set ps \<Longrightarrow> Moving a nb \<in> set ps' \<or> ps ! i = Moving a nb"
proof -
  have len: "length ps' = length ps" and pi: "ps' ! i = p" using moved_nth(1-3)[OF assms] by auto
  have other: "ps' ! j = q \<longleftrightarrow> ps ! j = q" if "j < length ps" "j \<noteq> i" "q = Moving a nb \<or> q = Appending a nb" for j q
    using assms that by (auto simp: moved_def)
  have fwd: "q = p \<or> q \<in> set ps" if q: "q \<in> set ps'" "q = Moving a nb \<or> q = Appending a nb" for q
  proof -
    from q(1) obtain j where "j < length ps" "ps' ! j = q" using len by (metis in_set_conv_nth)
    then show ?thesis using other[OF _ _ q(2), of j] pi nth_mem[of j ps] by (cases "j = i") auto
  qed
  show "Moving a nb \<in> set ps' \<Longrightarrow> Moving a nb = p \<or> Moving a nb \<in> set ps" using fwd by blast
  show "Appending a nb \<in> set ps' \<Longrightarrow> Appending a nb = p \<or> Appending a nb \<in> set ps" using fwd by blast
  show "Moving a nb \<in> set ps' \<or> ps ! i = Moving a nb" if "Moving a nb \<in> set ps"
  proof -
    from that obtain j where "j < length ps" "ps ! j = Moving a nb" by (metis in_set_conv_nth)
    then show ?thesis using other[of j "Moving a nb"] len nth_mem[of j ps'] by (cases "j = i") auto
  qed
qed

locale fence =
  fixes int_solve :: bool and A B :: "(double \<times> double) list \<Rightarrow> bool"
  assumes half: "A cs \<Longrightarrow> halves cs l r \<Longrightarrow> A l \<and> A r"
    and rounded: "A (coords b) \<Longrightarrow> B (coords (round_if int_solve b))"
    and stronger: "B cs \<Longrightarrow> A cs"
begin

definition fenced :: "'s threads \<Rightarrow> bool" where
  "fenced T \<longleftrightarrow>
     (\<forall>a b. cells (frags (fi T)) a = Some b \<longrightarrow> A (coords b) \<and> (B (coords b) \<or> (\<exists>nb. Moving a nb \<in> set (pcs T))))
     \<and> (\<forall>a nb. Moving a nb \<in> set (pcs T) \<longrightarrow> A (coords nb)) \<and> (\<forall>a nb. Appending a nb \<in> set (pcs T) \<longrightarrow> B (coords nb))"

lemma fenced_step:
  assumes inv: "fenced T" and m: "moved i p (pcs T) (pcs T')"
    and cells: "\<And>a b. cells (frags (fi T')) a = Some b \<Longrightarrow>
        (\<exists>b0. cells (frags (fi T)) a = Some b0 \<and> coords b = coords b0 \<and> (\<forall>nb. pcs T ! i \<noteq> Moving a nb))
        \<or> B (coords b) \<or> A (coords b) \<and> (\<exists>nb. p = Moving a nb)"
    and p: "\<And>a nb. p = Moving a nb \<Longrightarrow> A (coords nb)" "\<And>a nb. p = Appending a nb \<Longrightarrow> B (coords nb)"
  shows "fenced T'"
proof -
  have "p \<in> set (pcs T')" using moved_nth(1-3)[OF m] by (metis nth_mem)
  then have "A (coords b) \<and> (B (coords b) \<or> (\<exists>nb. Moving a nb \<in> set (pcs T')))" if "cells (frags (fi T')) a = Some b" for a b
    using cells[OF that] inv moved_members(3)[OF m, of a] stronger unfolding fenced_def by metis
  moreover have "A (coords nb)" if "Moving a nb \<in> set (pcs T')" for a nb
    using moved_members(1)[OF m that] p(1) inv unfolding fenced_def by blast
  moreover have "B (coords nb)" if "Appending a nb \<in> set (pcs T')" for a nb
    using moved_members(2)[OF m that] p(2) inv unfolding fenced_def by blast
  ultimately show ?thesis unfolding fenced_def by blast
qed

lemma fenced_enter:
  assumes inv: "fenced T" and T0: "T0 = T\<lparr>n_threads_active := c\<rparr>" and i: "i < length (pcs T)" "\<And>a nb. pcs T ! i \<noteq> Moving a nb"
    and run: "enter i T0 = Inr T'"
  shows "fenced T'"
proof -
  let ?R = "\<lambda>c'. T' = set_pc i (Waiting False) (T\<lparr>n_threads_active := c'\<rparr>) \<or> T' = set_pc i Finished (notify_all (T\<lparr>n_threads_active := c'\<rparr>))
     \<or> (\<exists>a. take_box i a (T\<lparr>n_threads_active := c'\<rparr>) = Inr T')"
  have "?R (c - 1) \<or> ?R c" using run by (auto simp: enter_def T0 Let_def split: if_splits option.splits)
  then obtain c' where "?R c'" by blast
  then show ?thesis
  proof (elim disjE exE)
    fix a assume "take_box i a (T\<lparr>n_threads_active := c'\<rparr>) = Inr T'"
    then obtain b l' d where l': "box_at (frags (fi T)) a = Inr b" "set_box a (b\<lparr>curr_state := 1\<rparr>) (frags (fi T)) = Inr l'"
      and T': "T' = set_pc i (Proc a) (T\<lparr>n_threads_active := c', fi := (fi T)\<lparr>frags := l', curr_box := d\<rparr>\<rparr>)"
      by (auto simp: take_box_def Let_def bindR_Inr)
    have "moved i (Proc a) (pcs T) (pcs T')" using i(1) by (simp add: T' moved_def set_pc_def)
    then show ?thesis
      by (rule fenced_step[OF inv]) (use i(2) cells_set_box[OF l'(2)] cells_box_at[OF l'(1)] in \<open>auto simp: T' set_pc_def split: if_splits\<close>)
  qed (rule fenced_step[OF inv, where i = i], use i in \<open>auto simp: moved_def set_pc_def notify_all_def\<close>)+
qed

lemma fenced_process:
  assumes inv: "fenced T" and i: "i < length (pcs T)" "pcs T ! i = Proc a" and b: "box_at (frags (fi T)) a = Inr b"
    and r: "proc_bounds (coords b) r" and run: "leave_box int_solve i a r T = Inr T'"
  shows "fenced T'"
proof -
  let ?l = "frags (fi T)"
  have old: "cells ?l a = Some b" "A (coords b)" using cells_box_at[OF b] inv by (auto simp: fenced_def)
  have step: "fenced T'" if "frags (fi T') = l'" "pcs T' = (pcs T)[i := p]"
      "\<And>e c. cells l' e = Some c \<Longrightarrow> cells ?l e = Some c \<or> e = a \<and> coords c = coords b \<or> B (coords c) \<or> A (coords c) \<and> (\<exists>nb. p = Moving e nb)"
      "\<And>a nb. p = Moving a nb \<Longrightarrow> A (coords nb)" "\<And>a nb. p \<noteq> Appending a nb" for l' p
    by (rule fenced_step[OF inv, of i p]) (use that i old in \<open>auto simp: moved_def, metis+\<close>)
  show ?thesis
  proof (cases r)
    case (PRemove b2)
    then obtain l1 c l2 where "set_box a b2 ?l = Inr l1" "remove a l1 = Inr (c, l2)" and T': "T' = set_pc i Top (T\<lparr>fi := (fi T)\<lparr>frags := l2\<rparr>\<rparr>)"
      using run by (auto simp: leave_box_def Let_def bindR_Inr)
    then have "cells l2 = (cells ?l)(a \<mapsto> b2)" by (simp add: cells_set_box cells_remove)
    then show ?thesis using r PRemove by (intro step[of l2 Top]) (auto simp: T' set_pc_def proc_bounds_def split: if_splits)
  next
    case (PKeep b2)
    then obtain l1 where "set_box a b2 ?l = Inr l1" and T': "T' = set_pc i Top (T\<lparr>fi := (fi T)\<lparr>frags := l1\<rparr>\<rparr>)"
      using run by (auto simp: leave_box_def Let_def bindR_Inr)
    then have "cells l1 = (cells ?l)(a \<mapsto> b2)" by (simp add: cells_set_box)
    then show ?thesis using r PKeep by (intro step[of l1 Top]) (auto simp: T' set_pc_def proc_bounds_def split: if_splits)
  next
    case (PSplit nb b2)
    then obtain l1 where "set_box a b2 ?l = Inr l1" and T': "T' = set_pc i (Moving a nb) (T\<lparr>fi := (fi T)\<lparr>frags := l1\<rparr>\<rparr>)"
      using run by (auto simp: leave_box_def Let_def bindR_Inr)
    then have c: "cells l1 = (cells ?l)(a \<mapsto> b2)" by (simp add: cells_set_box)
    have "A (coords nb) \<and> A (coords b2)" using half[OF old(2)] r PSplit by (simp add: proc_bounds_def)
    then show ?thesis using c by (intro step[of l1 "Moving a nb"]) (auto simp: T' set_pc_def split: if_splits)
  next
    case (PExit fate b2)
    then obtain l' where l': "(case fate of
              Halved nb \<Rightarrow> bindR (set_box a (round_if int_solve b2) ?l) (\<lambda>l1.
                bindR (emplace_node a l1) (\<lambda>(c, l2). add_node (round_if int_solve nb) l2))
            | _ \<Rightarrow> set_box a b2 ?l) = Inr l'"
      and T': "T' = (set_pc i Finished (T\<lparr>fi := (fi T)\<lparr>frags := l'\<rparr>\<rparr>))\<lparr>exited := True\<rparr>"
      using run by (auto simp: leave_box_def Let_def bindR_Inr)
    show ?thesis
    proof (rule step[of l' Finished])
      fix e c assume e: "cells l' e = Some c"
      show "cells ?l e = Some c \<or> e = a \<and> coords c = coords b \<or> B (coords c) \<or> A (coords c) \<and> (\<exists>nb. Finished = Moving e nb)"
      proof (cases fate)
        case (Halved nb)
        with l' obtain l1 d l2 where "set_box a (round_if int_solve b2) ?l = Inr l1" "emplace_node a l1 = Inr (d, l2)"
          "add_node (round_if int_solve nb) l2 = Inr l'" by (auto simp: bindR_Inr)
        then have "cells l' = (cells ?l)(a \<mapsto> round_if int_solve b2, brk l2 \<mapsto> round_if int_solve nb)"
          by (simp add: cells_set_box cells_emplace cells_add_node)
        moreover have "A (coords nb) \<and> A (coords b2)" using half[OF old(2)] r PExit Halved by (simp add: proc_bounds_def)
        ultimately show ?thesis using e rounded by (auto split: if_splits)
      qed (use l' e r PExit in \<open>auto simp: proc_bounds_def dest!: cells_set_box split: if_splits\<close>)
    qed (simp_all add: T' set_pc_def)
  qed
qed

lemma fenced_place:
  assumes inv: "fenced T" and i: "i < length (pcs T)" "pcs T ! i = Moving a nb" and run: "place int_solve i a nb T = Inr T'"
  shows "fenced T'"
proof -
  let ?l = "frags (fi T)"
  from run obtain b l1 c l2 where l: "box_at ?l a = Inr b" "set_box a (round_if int_solve b) ?l = Inr l1" "emplace_node a l1 = Inr (c, l2)"
    and T': "frags (fi T') = l2" "moved i (Appending a (round_if int_solve nb)) (pcs T) (pcs T')"
    using i(1) by (auto simp: place_def Let_def bindR_Inr moved_def set_pc_def notify_all_def split: if_splits)
  have c: "cells l2 = (cells ?l)(a \<mapsto> round_if int_solve b)" using l by (simp add: cells_set_box cells_emplace)
  have "A (coords b)" "A (coords nb)" using inv i cells_box_at[OF l(1)] nth_mem[OF i(1)] by (auto simp: fenced_def)
  then show ?thesis by (intro fenced_step[OF inv T'(2)]) (use c rounded i(2) in \<open>auto simp: T'(1) split: if_splits\<close>)
qed

lemma fenced_append:
  assumes inv: "fenced T" and i: "i < length (pcs T)" "pcs T ! i = Appending a nb" and run: "append_half i a nb T = Inr T'"
  shows "fenced T'"
proof -
  from run obtain l where l: "add_node nb (frags (fi T)) = Inr l"
    and T': "T' = set_pc i (Marking a) (T\<lparr>fi := (fi T)\<lparr>frags := l\<rparr>, holder := None\<rparr>)" by (auto simp: append_half_def bindR_Inr)
  have "B (coords nb)" using inv i nth_mem[OF i(1)] unfolding fenced_def by metis
  then show ?thesis
    by (intro fenced_step[OF inv, of i "Marking a"])
      (use cells_add_node[OF l] i in \<open>auto simp: T' moved_def set_pc_def split: if_splits\<close>)
qed

lemma fenced_mark:
  assumes inv: "fenced T" and i: "i < length (pcs T)" "pcs T ! i = Marking a" and run: "mark_done i a T = Inr T'"
  shows "fenced T'"
proof -
  from run obtain b l where l: "box_at (frags (fi T)) a = Inr b" "set_box a (b\<lparr>curr_state := 2\<rparr>) (frags (fi T)) = Inr l"
    and T': "T' = set_pc i Top (T\<lparr>fi := (fi T)\<lparr>frags := l\<rparr>\<rparr>)" by (auto simp: mark_done_def bindR_Inr)
  show ?thesis
    by (rule fenced_step[OF inv, of i Top])
      (use cells_set_box[OF l(2)] cells_box_at[OF l(1)] i in \<open>auto simp: T' moved_def set_pc_def split: if_splits\<close>)
qed

lemma fenced_wake:
  assumes "fenced T" and "i < length (pcs T)" and "pcs T ! i = Waiting w" and "wake_up i T = Inr T'"
  shows "fenced T'"
  using fenced_enter[OF assms(1) refl assms(2), of "n_threads_active T + 1" T'] assms(3,4) by (simp add: wake_up_def)

lemma fenced_tstep:
  assumes inv: "fenced T" and run: "tstep int_solve query vol_limit trie bounds i T T'"
  shows "fenced T'"
  using run
proof (cases rule: tstep.cases)
  case lock
  show ?thesis by (rule fenced_enter[OF inv, of T "n_threads_active T" i]) (use lock in simp_all)
next
  case wake
  then show ?thesis using fenced_wake[OF inv] by blast
next
  case (process a b r)
  show ?thesis by (rule fenced_process[OF inv process(1,3,4) process_box_bounds[OF process(5)] process(6)])
next
  case (place a nb)
  then show ?thesis using fenced_place[OF inv] by blast
next
  case (append a nb)
  then show ?thesis using fenced_append[OF inv] by blast
next
  case (mark a)
  then show ?thesis using fenced_mark[OF inv] by blast
qed

lemma fenced_reach:
  assumes "reach int_solve query vol_limit trie bounds T0 T" and "fenced T0"
  shows "fenced T"
  using assms(1)
proof induction
  case (spur T i T')
  then show ?case using fenced_wake[OF spur.IH] by (auto simp: spurious_def)
qed (use assms(2) fenced_tstep in blast)+

lemma fenced_start:
  assumes "frag_new acoords ps ns = Inr st" and "B acoords"
  shows "fenced (run_threads_start m st)"
proof -
  note frag_new_cells[OF assms(1)]
  then show ?thesis using assms(2) stronger
    by (auto simp: fenced_def run_threads_start_def init_curr_state_vec_def box_new_def split: if_splits)
qed

lemma fenced_final:
  assumes "reach int_solve query vol_limit trie bounds (run_threads_start m st) T" and "frag_new acoords ps ns = Inr st" and "B acoords"
    and "cells (frags (fi T)) a = Some b"
  shows "A (coords b) \<and> ((\<forall>j < length (pcs T). \<not> active (pcs T ! j)) \<longrightarrow> B (coords b))"
proof -
  have "fenced T" by (rule fenced_reach[OF assms(1) fenced_start[OF assms(2,3)]])
  moreover have "\<not> active (Moving a nb) \<Longrightarrow> False" for nb by (simp add: active_def)
  ultimately show ?thesis using assms(4) unfolding fenced_def by (metis in_set_conv_nth)
qed

end

subsection \<open>Two fences\<close>

definition between :: "(double \<times> double) list \<Rightarrow> (double \<times> double) list \<Rightarrow> bool" where
  "between bs cs \<longleftrightarrow> list_all2 (\<lambda>(lo, hi) (l, u). lo \<le> l \<and> l \<le> hi \<and> lo \<le> u \<and> u \<le> hi) bs cs"

definition int_bounds :: "(double \<times> double) list \<Rightarrow> bool" where
  "int_bounds cs \<longleftrightarrow> (\<forall>c \<in> set cs. fst c \<in> \<int> \<and> snd c \<in> \<int>)"

text \<open>Integer bounds as the drivers give them.\<close>

definition grid :: "(int \<times> int) list \<Rightarrow> (double \<times> double) list" where
  "grid bs = map (map_prod of_int of_int) bs"

lemma between_nth: "between bs cs \<longleftrightarrow> length cs = length bs \<and> (\<forall>i < length bs. fst (bs ! i) \<le> fst (cs ! i) \<and> fst (cs ! i) \<le> snd (bs ! i)
    \<and> fst (bs ! i) \<le> snd (cs ! i) \<and> snd (cs ! i) \<le> snd (bs ! i))"
  by (auto simp: between_def list_all2_conv_all_nth case_prod_beta)

lemma between_half:
  assumes "between bs cs" and "halves cs l r"
  shows "between bs l \<and> between bs r"
proof -
  from assms(2) obtain i where i: "i < length cs" "l = cs[i := (fst (cs ! i), middle (cs ! i))]" "r = cs[i := (middle (cs ! i), snd (cs ! i))]"
    by (auto simp: halves_def)
  moreover have "fst (bs ! i) \<le> middle (cs ! i) \<and> middle (cs ! i) \<le> snd (bs ! i)"
    using assms(1) i(1) by (auto simp: between_nth middle_def field_simps intro: add_mono)
  ultimately show ?thesis using assms(1) by (auto simp: between_nth nth_list_update)
qed

lemma between_round: "between (grid bs) (coords b) \<Longrightarrow> between (grid bs) (coords (round_box 1 b)) \<and> int_bounds (coords (round_box 1 b))"
  by (auto simp: between_nth int_bounds_def grid_def round_box_def round_coord_1 ceiling_le_iff le_floor_iff le_ceiling_iff floor_le_iff
      intro: order_trans[OF _ le_of_int_ceiling] order_trans[OF of_int_floor_le])

lemma between_grid [simp]: "(\<forall>(a, b) \<in> set bs. a \<le> b) \<Longrightarrow> between (grid bs) (grid bs)" "int_bounds (grid bs)"
  by (auto simp: between_def grid_def int_bounds_def list_all2_same split: prod.splits)

interpretation plain_fence: fence False "between bs" "between bs" for bs
  by unfold_locales (auto simp only: round_if_def if_False dest: between_half)

interpretation int_fence: fence True "between (grid bs)" "\<lambda>cs. between (grid bs) cs \<and> int_bounds cs" for bs
  by unfold_locales (auto simp only: round_if_def if_True dest: between_half between_round)

text \<open>
  C24: The bounds of the integer search.  Let the threads of the integer search start on a box with
  integer bounds, with any solvers and any trie.  In every state they reach, every box in the list
  has its bounds between those of the first box, and once no thread is at work any more, all
  bounds are integers.
\<close>

theorem run_thread_int_bounds:
  assumes "frag_new (grid bs) ps ns = Inr st" and "\<forall>(a, b) \<in> set bs. a \<le> b"
    and "reach True query vol_limit trie bounds (run_threads_start m st) T" and "cells (frags (fi T)) a = Some b"
  shows "between (grid bs) (coords b) \<and> ((\<forall>j < length (pcs T). \<not> active (pcs T ! j)) \<longrightarrow> int_bounds (coords b))"
  using int_fence.fenced_final[OF assms(3,1) _ assms(4), of bs] assms(2) by simp

theorem run_thread_int_bounds_witness:
  "\<exists>st T b. frag_new (grid [(0, 3)]) [()] [()] = Inr st
     \<and> reach True (\<lambda>s b. Inr (False, s)) 10 None [] (run_threads_start 1 st) T \<and> cells (frags (fi T)) 0 = Some b
     \<and> between (grid [(0, 3)]) (coords b) \<and> int_bounds (coords b)"
proof -
  have g: "grid [(0, 3)] = [(0, 3)]" by (simp add: grid_def)
  have keep: "\<exists>b'. process_box True (\<lambda>s b. Inr (False, s)) 10 None [] st b = Some (Inr (PKeep b')) \<and> coords b' = [(0, 3)]"
    if "s_pos st = [()]" "s_neg st = [()]" "coords b = [(0, 3)]" "length (curr_state_vec b) = length [()]" for st :: "unit fragmentation_intersection" and b
    using small_box_kept[OF that(1,2), of b 10 "\<lambda>s b. Inr (False, s)" False "()" False "()" True "[]"] that(3,4)
    by (simp add: norm_box_def not_valid_def)
  from root_box_run[OF refl keep] obtain st T b where r: "frag_new (grid [(0, 3)]) [()] [()] = Inr st"
    "reach True (\<lambda>s b. Inr (False, s)) 10 None [] (run_threads_start 1 st) T" "pcs T = [Finished]" "cells (frags (fi T)) 0 = Some b"
    unfolding g by blast
  have "\<forall>(a, b) \<in> set [(0, 3)]. a \<le> (b :: int)" by simp
  from run_thread_int_bounds[OF r(1) this r(2,4)] r show ?thesis by (auto simp: active_def)
qed

text \<open>The plain search halves without rounding, so its boxes stay between the first bounds too.\<close>

lemma run_thread_bounds:
  assumes "frag_new bs ps ns = Inr st" and "\<forall>(a, b) \<in> set bs. a \<le> b"
    and "reach False query vol_limit trie bounds (run_threads_start m st) T" and "cells (frags (fi T)) a = Some b"
  shows "between bs (coords b)"
proof -
  have "between bs bs" using assms(2) by (auto simp: between_def list_all2_same split: prod.splits)
  with plain_fence.fenced_final[OF assms(3,1) _ assms(4), of bs] show ?thesis by blast
qed

end
