(* ===== verification/Driver_Finish.thy ===== *)
theory Driver_Finish
  imports Driver_Output Trie_Text_Ends Threads_Bounds
begin

text \<open>
  The rest of a driver's \<^verbatim>\<open>main\<close> (\<^verbatim>\<open>tests/test1.cpp\<close> and its siblings): the search object the flag on the
  command line asks for, and what happens after the threads have left, from the final check with
  z3 to the files.  The contents of the files named on the command line are arguments.
\<close>

subsection \<open>Before the search\<close>

text \<open>
  Flag 1 continues a search from \<^verbatim>\<open>dump_file\<close>, flag 2 reads a second list from \<^verbatim>\<open>_file\<close>.  With another
  flag the pointer \<^verbatim>\<open>f\<close> is used without a value.
\<close>

definition driver_open :: "(nat \<Rightarrow> int \<times> int) \<Rightarrow> string \<Rightarrow> string \<Rightarrow> string \<Rightarrow> (double \<times> double) list \<Rightarrow> 's list \<Rightarrow> 's list
    \<Rightarrow> ('s fragmentation_intersection \<times> bounding_box ll option) result" where
  "driver_open junk flag dump_file file cs sls_pos sls_neg =
     bindR (stoi flag) (\<lambda>fl.
     bindR (if fl = 1 then frag_from_file junk cs sls_pos sls_neg dump_file False
            else if fl = 0 \<or> fl = 2 then frag_new cs sls_pos sls_neg
            else Inl Undefined) (\<lambda>f.
     if fl = 2 then bindR (read_dump_trace junk file cs (length sls_pos) True ll_empty) (\<lambda>(new_l, c). Inr (f, Some new_l))
     else Inr (f, None)))"

subsection \<open>After the search\<close>

record driver_results =
  final_list :: "bounding_box ll"
  csv :: string
  json :: string
  code_text :: "string option"
  sygus :: string

text \<open>\<^verbatim>\<open>test2.cpp\<close> alone also writes the trie as code.\<close>

definition driver_finish :: "bool \<Rightarrow> (zform list \<Rightarrow> check_result) \<Rightarrow> double expr list \<Rightarrow> (double \<times> double) list \<Rightarrow> double vars \<Rightarrow> nat \<Rightarrow> int
    \<Rightarrow> bounding_box ll option \<Rightarrow> solver_obj fragmentation_intersection \<Rightarrow> driver_results run" where
  "driver_finish with_code check e_check cs v n idx new_l f =
     bindO (recompute_confidence_smt check e_check f) (\<lambda>(f1, calls, grids).
     bindO (case new_l of None \<Rightarrow> Some (Inr (frags f1)) | Some l1 \<Rightarrow> operation l1 (frags f1) 0) (\<lambda>l.
     bindO (ll_print l) (\<lambda>csv.
     bindO (make_trie l n cs) (\<lambda>head.
     bindO (write_json head cs) (\<lambda>json.
     bindO (if with_code then bindO (write_code head cs) (\<lambda>c. Some (Inr (Some c))) else Some (Inr None)) (\<lambda>code.
     bindO (make_test_case e_check cs v idx (Some l)) (\<lambda>sl.
     Some (Inr \<lparr>final_list = l, csv = csv, json = json, code_text = code, sygus = sl\<rparr>))))))))"

lemma ll_print_text:
  assumes l: "linked l as"
  shows "ll_print l = Some (Inr (concat (map box_print (boxes l as))))"
proof -
  have "foldO print_step bs (l, out) = Some (Inr (l, out @ concat (map box_print (boxes l bs))))" if "set bs \<subseteq> set as" for bs out
    using that
  proof (induction bs arbitrary: out)
    case (Cons a bs)
    then obtain b where "cells l a = Some b" "box_at l a = Inr b" using boxes_at[OF l, of a] by auto
    with Cons show ?case by (simp add: print_step_def)
  qed simp
  moreover have "ll_walk (brk l) print_step (first as None) (l, []) = foldO print_step as (l, [])"
    by (rule ll_walk_fold[of l "[]"]) (use l linked_length[OF l] in \<open>auto simp: print_step_def bindR_Inr\<close>)
  ultimately show ?thesis using l by (simp add: ll_print_def linked_def)
qed

subsection \<open>Integer bounds\<close>

text \<open>Bounds with an extent whose absolute values fit \<^verbatim>\<open>int\<close>.\<close>

definition driver_grid :: "(int \<times> int) list \<Rightarrow> bool" where
  "driver_grid bs \<longleftrightarrow> (\<forall>(a, b) \<in> set bs. a < b \<and> \<bar>a\<bar> < 2 ^ 31 \<and> \<bar>b\<bar> < 2 ^ 31)"

lemma driver_grid_nth: "driver_grid bs \<Longrightarrow> i < length bs \<Longrightarrow> fst (bs ! i) < snd (bs ! i) \<and> \<bar>fst (bs ! i)\<bar> < 2 ^ 31 \<and> \<bar>snd (bs ! i)\<bar> < 2 ^ 31"
  using nth_mem[of i bs] by (auto simp: driver_grid_def case_prod_beta)

lemma grid_nth [simp]: "i < length bs \<Longrightarrow> grid bs ! i = (of_int (fst (bs ! i)), of_int (snd (bs ! i)))" "length (grid bs) = length bs"
  by (simp_all add: grid_def map_prod_def split: prod.splits)

lemma driver_grid_valid: "driver_grid bs \<Longrightarrow> (\<forall>(a, b) \<in> set bs. a \<le> b) \<and> (\<forall>c \<in> set (grid bs). fst c < snd c)"
  by (auto simp: driver_grid_def grid_def)

lemma trunc_of_int [simp]: "trunc (of_int a) = a"
  by (simp add: trunc_def)

lemma grid_out_fits: "driver_grid bs \<Longrightarrow> i < length bs \<Longrightarrow> out_fits (grid bs) i"
  using driver_grid_nth[of bs i] by (auto simp: out_fits_def sl_fits_def in_int_range_def simp flip: of_int_abs)

lemma between_fits:
  assumes bs: "driver_grid bs" and b: "between (grid bs) (coords b)" and n: "n \<le> length bs"
  shows "fits_int n b"
  unfolding fits_int_def
proof (intro conjI allI impI)
  show "n \<le> length (coords b)" using b n by (simp add: between_nth)
  fix i assume "i < n"
  then have i: "i < length bs" using n by simp
  have x: "\<bar>\<lceil>x\<rceil>\<bar> < 2 ^ 31 \<and> \<bar>\<lfloor>x\<rfloor>\<bar> < 2 ^ 31" if "of_int (fst (bs ! i)) \<le> x" "x \<le> of_int (snd (bs ! i))" for x :: double
  proof -
    have "fst (bs ! i) \<le> \<lfloor>x\<rfloor>" "\<lceil>x\<rceil> \<le> snd (bs ! i)" using that by (simp_all add: le_floor_iff ceiling_le_iff)
    moreover have "\<lfloor>x\<rfloor> \<le> \<lceil>x\<rceil>" by (rule floor_le_ceiling)
    ultimately show ?thesis using driver_grid_nth[OF bs i] by linarith
  qed
  show "in_int_range \<bar>\<lceil>fst (coords b ! i)\<rceil>\<bar>" "in_int_range \<bar>\<lfloor>snd (coords b ! i)\<rfloor>\<bar>"
    using b i x[of "fst (coords b ! i)"] x[of "snd (coords b ! i)"] by (auto simp: between_nth in_int_range_def)
qed

lemma exact6_rounds: "exact6 [] p \<Longrightarrow> map_multinomial round6 p = p"
proof (induction p rule: multinomial_induct)
  case (Node s k m)
  then show ?case by (auto simp: list_all_iff map_prod_def intro!: map_idI)
qed simp

lemma int_bounds_exact:
  assumes "int_bounds cs"
  shows "\<forall>c \<in> set cs. round6 (fst c) = fst c \<and> round6 (snd c) = snd c"
  using assms round6_of_int by (fastforce simp: int_bounds_def elim: Ints_cases)

text \<open>An integer point within integer bounds.\<close>

definition in_grid :: "(int \<times> int) list \<Rightarrow> int list \<Rightarrow> bool" where
  "in_grid bs z \<longleftrightarrow> list_all2 (\<lambda>(a, b) x. a \<le> x \<and> x \<le> b) bs z"

lemma in_grid_coords: "in_grid bs z \<Longrightarrow> in_coords (grid bs) (map of_int z) \<and> int_point (map of_int z)"
  by (auto simp: in_grid_def in_coords_def grid_def int_point_def list_all2_conv_all_nth case_prod_beta)

lemma eval_int_point:
  assumes "over n n r" and "length z = n"
  shows "eval (\<lambda>i. map of_int z ! unat i) r = eval (\<lambda>i. of_int (z ! unat i)) r"
  using assms by (intro eval_cong) (auto simp: over_def ret_id_arr_symbols)

subsection \<open>From the constraints to the solution of the SyGuS problem\<close>

lemma driver_open_0:
  assumes "driver_open junk ''0'' dump_file file cs ps ns = Inr (st, new_l)"
  shows "frag_new cs ps ns = Inr st" and "new_l = None"
proof -
  have "stoi ''0'' = Inr 0" by code_simp
  with assms show "frag_new cs ps ns = Inr st" "new_l = None" by (auto simp: driver_open_def bindR_Inr)
qed

text \<open>The boxes that come out of the integer search.\<close>

lemma driver_run_boxes:
  assumes data: "driver_data n d aname polys" and made: "driver_setup n d aname polys = Some (Inr (v, ps, ns))"
    and opt: "optimizer_ok optimize" and bs: "driver_grid bs" "length bs = n" and exact: "\<forall>r \<in> set polys. exact6 [] r"
    and st: "frag_new (grid bs) ps ns = Inr st"
    and T: "reach True (query_of optimize check (driver_ids n) 0) vol_limit None (grid bs) (run_threads_start m st) T"
    and fin: "\<not> exited T" "i < length (pcs T)" "pcs T ! i = Finished"
    and chk: "checker_ok check'" "\<forall>fs. check' fs \<noteq> Unknown" and ec: "map deref e_check = map Inr polys"
  shows "\<exists>st' calls grids zs. recompute_confidence_smt check' e_check (fi T) = Some (Inr (st', calls, grids)) \<and> linked (frags st') zs
     \<and> (\<forall>x. in_coords (grid bs) x \<and> int_point x \<and> (\<forall>r \<in> set polys. 0 < eval (\<lambda>i. x ! unat i) r) \<longrightarrow> covered (frags st') zs x)
     \<and> (\<forall>b \<in> set (boxes (frags st') zs). \<not> not_valid b \<and> between (grid bs) (coords b) \<and> int_bounds (coords b))"
proof -
  have box: "length (grid bs) = n" "\<forall>c \<in> set (grid bs). fst c \<le> snd c" and le: "\<forall>(a, b) \<in> set bs. a \<le> b"
    using bs driver_grid_valid[OF bs(1)] by (auto simp: less_imp_le)
  note search = driver_setup_search[OF data made opt box]
  have idle: "\<forall>j < length (pcs T). \<not> active (pcs T ! j)"
    by (rule drv.finished_all(2)[OF driver_reach_inv[OF search(1) st trie_fits_None T] fin])
  have cells: "between (grid bs) (coords b) \<and> int_bounds (coords b)" if "cells (frags (fi T)) a = Some b" for a b
    using int_fence.fenced_final[OF T st _ that, of bs] le idle by simp
  then have "exact_run polys (frags (fi T))" using exact int_bounds_exact unfolding exact_run_def by blast
  from driver_run_final[OF data made opt box st T fin chk ec this] obtain st' calls grids zs where
    r: "recompute_confidence_smt check' e_check (fi T) = Some (Inr (st', calls, grids))" "linked (frags st') zs"
    "\<forall>x. in_coords (grid bs) x \<and> int_point x \<and> (\<forall>r \<in> set polys. 0 < eval (\<lambda>i. x ! unat i) r) \<longrightarrow> covered (frags st') zs x"
    and bx: "\<forall>b \<in> set (boxes (frags st') zs). \<not> not_valid b \<and> (\<exists>a b0. cells (frags (fi T)) a = Some b0 \<and> coords b = coords b0)" by auto
  from bx cells have "\<forall>b \<in> set (boxes (frags st') zs). \<not> not_valid b \<and> between (grid bs) (coords b) \<and> int_bounds (coords b)" by metis
  with r show ?thesis by blast
qed

lemma covered_region:
  assumes "linked l zs" and "covered l zs (map of_int z)" and "\<forall>b \<in> set (boxes l zs). length (coords b) = Suc n"
  shows "in_region (boxes l zs) n (take n z)"
proof -
  from assms(1,2) obtain b where b: "b \<in> set (boxes l zs)" "in_box b (map of_int z)" using covered_boxes by blast
  with assms(3) have "length (coords b) = Suc n" "length z = Suc n" by (auto simp: in_coords_nth)
  moreover have "fst (coords b ! i) \<le> of_int (z ! i) \<and> of_int (z ! i) \<le> snd (coords b ! i)" if "i < Suc n" for i
    using b(2) that calculation by (simp add: in_coords_nth)
  ultimately show ?thesis using b(1) unfolding in_region_def by (intro conjI bexI[of _ b]) simp_all
qed

lemma admissible_at:
  assumes "\<forall>r \<in> set polys. exact6 [] r" and "length x = n" and "length bs = Suc n"
  shows "admissible polys (grid bs ! n) x y
     \<longleftrightarrow> fst (bs ! n) \<le> y \<and> y \<le> snd (bs ! n) \<and> (\<forall>r \<in> set polys. 0 \<le> eval (\<lambda>i. of_int ((x @ [y]) ! unat i)) r)"
proof -
  have "tc_val r (x @ [y]) = eval (\<lambda>i. of_int ((x @ [y]) ! unat i)) r" if "r \<in> set polys" for r
    using assms(1) that exact6_rounds[of r] by (auto simp: tc_val_def)
  then show ?thesis using assms(2,3) by (simp add: admissible_def)
qed

lemma in_grid_take:
  assumes "in_grid bs z" and "length bs = Suc n"
  shows "length z = Suc n" and "z = take n z @ [z ! n]" and "in_grid bs (take n z @ [y]) \<longleftrightarrow> fst (bs ! n) \<le> y \<and> y \<le> snd (bs ! n)"
    and "fst (bs ! n) \<le> z ! n \<and> z ! n \<le> snd (bs ! n)"
proof -
  show len: "length z = Suc n" using assms by (simp add: in_grid_def list_all2_lengthD[symmetric])
  then show "z = take n z @ [z ! n]" by (simp add: take_Suc_conv_app_nth[symmetric])
  show "in_grid bs (take n z @ [y]) \<longleftrightarrow> fst (bs ! n) \<le> y \<and> y \<le> snd (bs ! n)" "fst (bs ! n) \<le> z ! n \<and> z ! n \<le> snd (bs ! n)"
    using assms len by (auto simp: in_grid_def list_all2_conv_all_nth case_prod_beta nth_append less_Suc_eq)
qed

lemma driver_finish_sygus:
  assumes data: "driver_data (Suc n) d aname polys" and made: "driver_setup (Suc n) d aname polys = Some (Inr (v, ps, ns))"
    and bs: "driver_grid bs" "length bs = Suc n" and ec: "map deref e_check = map Inr polys"
    and smt: "recompute_confidence_smt check e_check f = Some (Inr (f1, calls, grids))" and l: "linked (frags f1) zs"
    and bx: "\<forall>b \<in> set (boxes (frags f1) zs). \<not> not_valid b \<and> between (grid bs) (coords b)"
  shows "\<exists>out cmds. driver_finish wc check e_check (grid bs) v (Suc n) (int n) None f = Some (Inr out) \<and> final_list out = frags f1
     \<and> reads (sygus out) cmds
     \<and> (\<forall>F. sygus_solution F cmds
          \<longleftrightarrow> (\<forall>x. in_region (boxes (frags f1) zs) n x \<longrightarrow> best_value polys (grid bs ! n) x (F (f_name n) x)))"
proof -
  let ?l = "frags f1"
  have "\<forall>b \<in> set (boxes ?l zs). fits_int n b" using between_fits[OF bs(1), where n = n] bx bs(2) by simp
  moreover have "out_fits (grid bs) n" "trunc (fst (grid bs ! n)) \<le> trunc (snd (grid bs ! n))"
    using grid_out_fits[OF bs(1)] driver_grid_nth[OF bs(1), of n] bs(2) by simp_all
  ultimately obtain sl cmds where sl: "make_test_case e_check (grid bs) v (int n) (Some ?l) = Some (Inr sl)" "reads sl cmds"
    "\<forall>F. sygus_solution F cmds \<longleftrightarrow> (\<forall>x. in_region (boxes ?l zs) n x \<longrightarrow> best_value polys (grid bs ! n) x (F (f_name n) x))"
    using driver_sygus[OF data made l _ ec] by blast
  have "\<forall>b \<in> set (boxes ?l zs). length (coords b) = Suc n \<and> (\<forall>i < Suc n. fst (grid bs ! i) \<le> fst (coords b ! i)
      \<and> fst (coords b ! i) \<le> snd (coords b ! i) \<and> snd (coords b ! i) \<le> snd (grid bs ! i))"
    using bx bs(2) by (auto simp: between_nth not_valid_alt)
  from trie_files[OF l _ _ this] driver_grid_valid[OF bs(1)] bs(2) obtain t json code where
    "make_trie ?l (Suc n) (grid bs) = Some (Inr t)" "write_json t (grid bs) = Some (Inr json)" "write_code t (grid bs) = Some (Inr code)" by auto
  then show ?thesis using smt sl ll_print_text[OF l] by (auto simp: driver_finish_def)
qed

lemma driver_solution:
  assumes data: "driver_data (Suc n) d aname polys" and made: "driver_setup (Suc n) d aname polys = Some (Inr (v, ps, ns))"
    and opt: "optimizer_ok optimize" and bs: "driver_grid bs" "length bs = Suc n" and exact: "\<forall>r \<in> set polys. exact6 [] r"
    and opened: "driver_open junk ''0'' dump_file file (grid bs) ps ns = Inr (st, new_l)"
    and T: "reach True (query_of optimize check (driver_ids (Suc n)) 0) vol_limit None (grid bs) (run_threads_start m st) T"
    and fin: "\<not> exited T" "i < length (pcs T)" "pcs T ! i = Finished"
    and chk: "checker_ok check'" "\<forall>fs. check' fs \<noteq> Unknown" and ec: "map deref e_check = map Inr polys"
  shows "\<exists>out cmds. driver_finish wc check' e_check (grid bs) v (Suc n) (int n) new_l (fi T) = Some (Inr out) \<and> reads (sygus out) cmds
     \<and> (\<forall>F z. sygus_solution F cmds \<and> in_grid bs z \<and> (\<forall>r \<in> set polys. 0 < eval (\<lambda>i. of_int (z ! unat i)) r) \<longrightarrow>
          (let z' = take n z @ [F (f_name n) (take n z)] in
             z ! n \<le> z' ! n \<and> in_grid bs z' \<and> (\<forall>r \<in> set polys. 0 \<le> eval (\<lambda>i. of_int (z' ! unat i)) r)))"
proof -
  note st = driver_open_0[OF opened]
  from driver_run_boxes[OF data made opt bs exact st(1) T fin chk ec] obtain f1 calls grids zs where
    smt: "recompute_confidence_smt check' e_check (fi T) = Some (Inr (f1, calls, grids))" and l: "linked (frags f1) zs"
    and cov: "\<And>x. in_coords (grid bs) x \<Longrightarrow> int_point x \<Longrightarrow> \<forall>r \<in> set polys. 0 < eval (\<lambda>i. x ! unat i) r \<Longrightarrow> covered (frags f1) zs x"
    and bx: "\<forall>b \<in> set (boxes (frags f1) zs). \<not> not_valid b \<and> between (grid bs) (coords b)" by blast
  from driver_finish_sygus[OF data made bs ec smt l bx] obtain out cmds where
    out: "driver_finish wc check' e_check (grid bs) v (Suc n) (int n) None (fi T) = Some (Inr out)" "reads (sygus out) cmds"
    and sol: "\<And>F. sygus_solution F cmds \<Longrightarrow> \<forall>x. in_region (boxes (frags f1) zs) n x \<longrightarrow> best_value polys (grid bs ! n) x (F (f_name n) x)" by blast
  have "z ! n \<le> (take n z @ [F (f_name n) (take n z)]) ! n \<and> in_grid bs (take n z @ [F (f_name n) (take n z)])
      \<and> (\<forall>r \<in> set polys. 0 \<le> eval (\<lambda>i. of_int ((take n z @ [F (f_name n) (take n z)]) ! unat i)) r)"
    if F: "sygus_solution F cmds" and z: "in_grid bs z" "\<forall>r \<in> set polys. 0 < eval (\<lambda>i. of_int (z ! unat i)) r" for F z
  proof -
    note zs' = in_grid_take[OF z(1) bs(2)]
    have len: "length (take n z) = n" by (simp add: zs'(1))
    have "over (Suc n) (Suc n) r" if "r \<in> set polys" for r using data that by (simp add: driver_data_def)
    then have "\<forall>r \<in> set polys. 0 < eval (\<lambda>i. map of_int z ! unat i :: double) r" 
      using z(2) by (intro ballI) (simp add: eval_int_point[OF _ zs'(1)])
    with cov in_grid_coords[OF z(1)] have "covered (frags f1) zs (map of_int z)" by blast
    from covered_region[OF l this] bx bs(2) have "in_region (boxes (frags f1) zs) n (take n z)" by (simp add: between_nth)
    define y where "y = F (f_name n) (take n z)"
    have best: "best_value polys (grid bs ! n) (take n z) y" using sol[OF F] \<open>in_region _ _ _\<close> by (simp add: y_def)
    note adm = admissible_at[OF exact len bs(2)]
    have "admissible polys (grid bs ! n) (take n z) (z ! n)"
      unfolding adm using zs'(4) z(2)[folded zs'(2)] zs'(2)[symmetric] by (simp only: less_imp_le simp_thms ball_simps) (blast intro: less_imp_le)
    with best have y: "z ! n \<le> y" "admissible polys (grid bs ! n) (take n z) y" unfolding best_value_def by blast+
    from nth_append_length[of "take n z" y "[]"] have "(take n z @ [y]) ! n = y" unfolding len .
    with y(1) y(2)[unfolded adm] zs'(3)[of y] show ?thesis unfolding y_def[symmetric] by simp
  qed
  with out st(2) show ?thesis unfolding Let_def by blast
qed



end
