(* ===== verification/Handelman_Bound.thy ===== *)
theory Handelman_Bound
  imports Handelman_Sound Complex_Main
begin

text \<open>
  How many templates the preparation of a core makes.  Every product of hypotheses up to the
  degree bound gets one, so their number is at most a binomial coefficient, and the symbol limit
  is the only thing that can stop the preparation.
\<close>

text \<open>A step that makes at most \<open>K\<close> symbols, and fails at the limit only if that would pass it.\<close>

definition grows :: "nat \<Rightarrow> 'a vars \<Rightarrow> 'a vars result \<Rightarrow> bool" where
  "grows K v r = (case r of
       Inl err \<Rightarrow> err = limit_error \<longrightarrow> 2 ^ 32 - 1 < unat (NUM_SYMBOLS v) + K
     | Inr v' \<Rightarrow> unat (NUM_SYMBOLS v') \<le> unat (NUM_SYMBOLS v) + K)"

lemma grows_mono: "grows K v r \<Longrightarrow> K \<le> L \<Longrightarrow> grows L v r"
  by (auto simp: grows_def split: sum.splits)

lemma grows_trans: "grows K v (Inr v1) \<Longrightarrow> grows L v1 r \<Longrightarrow> grows (K + L) v r"
  by (auto simp: grows_def split: sum.splits)

lemma grows_Undefined [simp]: "grows K v (Inl Undefined)"
  by (simp add: grows_def)

lemma grows_Inl: "grows K v (Inl err) \<Longrightarrow> grows (K + L) v (Inl err)"
  by (auto simp: grows_def)

lemma push_var_grows: "grows 1 v (push_var v t name)"
proof (cases "symbol_new t (NUM_SYMBOLS v)")
  case (Inl err)
  then have "\<not> NUM_SYMBOLS v < SYM_LIMIT" by (auto simp: symbol_new_def split: if_splits)
  then have "2 ^ 32 - 1 \<le> unat (NUM_SYMBOLS v)"
    by (simp add: SYM_LIMIT_def word_less_nat_alt unsigned_minus_1_eq_mask mask_eq_exp_minus_1)
  with Inl show ?thesis by (simp add: push_var_def grows_def)
next
  case (Inr sn)
  then obtain s n where "symbol_new t (NUM_SYMBOLS v) = Inr (s, n)" by (cases sn) auto
  with symbol_new_Inr(3)[OF this] show ?thesis by (simp add: push_var_def grows_def)
qed

lemma var_named_num: "var_named v name = Inr (x, v') \<Longrightarrow> NUM_SYMBOLS v' = NUM_SYMBOLS v"
  by (auto simp: var_named_def Let_def split: option.splits sum.splits)

lemma var_named_no_limit: "var_named v name \<noteq> Inl limit_error"
  by (auto simp: var_named_def var_at_def Let_def split: option.splits sum.splits)

definition table_of :: "('b \<times> 'a vars \<times> 'c) result \<Rightarrow> 'a vars result" where
  "table_of r = map_sum id (fst \<circ> snd) r"

lemma table_of_simps [simp]: "table_of (Inl err) = Inl err" "table_of (Inr (t, st)) = Inr (fst st)"
  by (simp_all add: table_of_def)

lemma ofopt_no_limit: "ofopt x \<noteq> Inl limit_error"
  by (cases x) (simp_all add: ofopt_def)

lemma gen_tail_grows: "grows 1 (fst st) (table_of (gen_tail ans st))"
proof -
  obtain v s where st: "st = (v, s)" by force
  have push: "grows 1 v (map_sum id snd (add_var v True name))" for name
  proof -
    let ?nm = "if name = [] \<or> mp_find (vmp v) name \<noteq> None then name @ ''var_'' @ nat_to_string (vars_sz v) else name"
    have "map_sum id snd (add_var v True name) = push_var v True ?nm" unfolding add_var_def Let_def by (simp split: sum.split)
    then show ?thesis using push_var_grows[of v True ?nm] by simp
  qed
  show ?thesis
  proof (cases "add_var v True ''additive_template''")
    case (Inl err)
    with push[of "''additive_template''"] show ?thesis by (simp add: gen_tail_def st)
  next
    case (Inr r)
    then obtain ref v1 where a: "add_var v True ''additive_template'' = Inr (ref, v1)" by (cases r) auto
    with push[of "''additive_template''"] have g: "grows 1 v (Inr v1)" by simp
    show ?thesis
    proof (cases "gen_tail ans st")
      case (Inl err)
      have "err \<noteq> limit_error"
        using Inl by (auto simp: gen_tail_def st a bindR_def Let_def var_named_no_limit ofopt_no_limit split: sum.splits)
      then show ?thesis by (simp add: Inl grows_def)
    next
      case (Inr q)
      then obtain t v3 s1 where q: "gen_tail ans st = Inr (t, v3, s1)" by (cases q) auto
      then have "NUM_SYMBOLS v3 = NUM_SYMBOLS v1"
        by (auto simp: gen_tail_def st a bindR_Inr Let_def dest!: var_named_num)
      with g q show ?thesis by (simp add: grows_def st)
    qed
  qed
qed

text \<open>The number of products the loop can still make at degree \<open>d\<close> from hypothesis \<open>j\<close> on.\<close>

definition products :: "'a handelman_core \<Rightarrow> int \<Rightarrow> nat \<Rightarrow> nat" where
  "products c d j = (nat (max_deg c - d) + (length (lhs c) - j)) choose (length (lhs c) - j)"

lemma choose_mono: "m \<le> n \<Longrightarrow> (m + h) choose h \<le> (n + h) choose h"
proof (rule lift_Suc_mono_le[of "\<lambda>m. (m + h) choose h"])
  show "(m + h) choose h \<le> (Suc m + h) choose h" for m by (cases h) simp_all
qed

lemma products_pos: "1 \<le> products c d j"
  by (simp add: products_def Suc_le_eq zero_less_binomial)

lemma products_step:
  assumes "d < deg" and "deg \<le> max_deg c" and "j < length (lhs c)"
  shows "products c deg j + products c d (Suc j) \<le> products c d j"
proof -
  obtain h where h: "length (lhs c) - j = Suc h" "length (lhs c) - Suc j = h" using assms(3) by (metis Suc_diff_Suc)
  obtain m where m: "nat (max_deg c - d) = Suc m" "nat (max_deg c - deg) \<le> m"
    using assms(1,2) by (intro that[of "nat (max_deg c - d - 1)"]) auto
  have "products c deg j \<le> (m + Suc h) choose Suc h" using choose_mono[OF m(2), of "Suc h"] by (simp add: products_def h)
  moreover have "products c d (Suc j) = (m + Suc h) choose h" by (simp add: products_def h m)
  moreover have "products c d j = Suc (m + Suc h) choose Suc h" by (simp add: products_def h m)
  ultimately show ?thesis by simp
qed

lemma products_Suc: "products c d (Suc j) \<le> products c d j"
proof (cases "j < length (lhs c)")
  case True
  then obtain h where h: "length (lhs c) - j = Suc h" "length (lhs c) - Suc j = h" by (metis Suc_diff_Suc)
  show ?thesis by (simp add: products_def h)
next
  case False
  then show ?thesis by (simp add: products_def)
qed

lemma gen_loop_grows:
  assumes "core_ok N A c" and "0 \<le> d" and "d \<le> max_deg c" and "gen_loop c ids d j ans st = Some r"
  shows "grows (products c d j) (fst st) (table_of r)"
  using assms
proof (induction "gen_measure c d j" arbitrary: d j ans st r rule: less_induct)
  case less
  show ?case
  proof (cases "j < length (lhs c)")
    case False
    with less.prems(4) have "r = gen_tail ans st" by (simp add: gen_loop_end)
    then show ?thesis using grows_mono[OF gen_tail_grows products_pos] by simp
  next
    case j: True
    let ?deg = "d + lhs_degree c ! j"
    have "j < length (lhs_degree c)" using less.prems(1) j by (simp add: core_ok_def)
    then have "1 \<le> lhs_degree c ! j" using less.prems(1) by (auto simp: core_ok_def)
    then have pos: "d < ?deg" by simp
    note run = less.prems(4)[unfolded gen_loop_unfold[OF less.prems(1-3) j]]
    show ?thesis
    proof (cases "?deg \<le> max_deg c \<and> cmp_poly ids (lhs c ! j)")
      case False
      with run have "gen_loop c ids d (Suc j) ans st = Some r" by (simp only: if_False)
      from less.hyps[OF gen_measure_Suc[OF j] less.prems(1-3) this] show ?thesis by (rule grows_mono[OF _ products_Suc])
    next
      case True
      with run obtain r1 where r1: "gen_loop c ids ?deg j (new_const 0 False) st = Some r1"
        by (cases "gen_loop c ids ?deg j (new_const 0 False) st") auto
      have m: "gen_measure c ?deg j < gen_measure c d j" using gen_measure_rec True pos by blast
      have g1: "grows (products c ?deg j) (fst st) (table_of r1)"
        by (rule less.hyps[OF m less.prems(1) _ _ r1]) (use True pos less.prems(2) in auto)
      note le = products_step[OF pos _ j]
      show ?thesis
      proof (cases r1)
        case (Inl err)
        with run True r1 have "r = Inl err" by simp
        with Inl g1 grows_mono[OF grows_Inl le] show ?thesis using True by simp
      next
        case (Inr q)
        then obtain t st1 where q: "r1 = Inr (t, st1)" by (cases q) auto
        show ?thesis
        proof (cases "Option.bind (mult (lhs c ! j) t) (add ans)")
          case None
          with run True r1 q have "r = Inl Undefined" by simp
          then show ?thesis by simp
        next
          case (Some ans1)
          with run True r1 q have "gen_loop c ids d (Suc j) ans1 st1 = Some r" by simp
          from less.hyps[OF gen_measure_Suc[OF j] less.prems(1-3) this] g1 q
          have "grows (products c ?deg j + products c d (Suc j)) (fst st) (table_of r)" by (auto intro: grows_trans)
          then show ?thesis using grows_mono le True by blast
        qed
      qed
    qed
  qed
qed

lemma solve_rhs_grows:
  assumes "core_ok N A c" and "0 \<le> max_deg c" and "solve_rhs c r st = Some res"
  shows "grows (products c 0 0) (fst st) (map_sum id fst res)"
proof -
  from assms(3) obtain q where q: "gen_pol c 0 0 (ret_id_arr r) st = Some q"
    and res: "res = bindR q (\<lambda>(t, v, s). bindR (ofopt (Option.bind (mult_c r (- 1)) (add t))) (\<lambda>to_solve.
           Inr (v, fold (\<lambda>a s. add_constr a False s) (reduce to_solve) s)))" by (auto simp: solve_rhs_def bind_eq_Some_conv)
  have g: "grows (products c 0 0) (fst st) (table_of q)"
    using gen_loop_grows[OF assms(1) order_refl assms(2)] q by (simp add: gen_pol_def)
  show ?thesis
  proof (cases q)
    case (Inr x)
    then obtain t v s where x: "q = Inr (t, v, s)" by (cases x) auto
    show ?thesis
    proof (cases "Option.bind (mult_c r (- 1)) (add t)")
      case None
      then show ?thesis by (simp add: res x ofopt_def)
    next
      case (Some p)
      with g show ?thesis by (simp add: res x ofopt_def)
    qed
  qed (use g in \<open>simp add: res\<close>)
qed

lemma solve_loop_grows:
  assumes "core_ok N A c" and "0 \<le> max_deg c" and "solve_loop c rs st = Some res"
  shows "grows (length rs * products c 0 0) (fst st) (map_sum id fst res)"
  using assms(3)
proof (induction rs arbitrary: st)
  case (Cons r rs)
  then obtain q where q: "solve_rhs c r st = Some q" by (cases "solve_rhs c r st") auto
  note g = solve_rhs_grows[OF assms(1,2) q]
  show ?case
  proof (cases q)
    case (Inl err)
    with Cons.prems q have "res = Inl err" by simp
    with g Inl show ?thesis using grows_Inl by simp
  next
    case (Inr st1)
    with Cons.prems q have "solve_loop c rs st1 = Some res" by simp
    from grows_trans[OF _ Cons.IH[OF this]] g Inr show ?thesis by simp
  qed
qed (auto simp: grows_def)

lemma core_prepare_grows:
  fixes c :: "'a::linordered_idom handelman_core"
  assumes "core_wf P N A c v" and "core_prepare c v = Some r"
  shows "grows (length (rhs_arr c) * ((nat (max_deg c) + length (lhs c)) choose length (lhs c))) v (map_sum id snd r)"
proof -
  let ?c = "make_deg_arr c"
  have core: "core_ok N A ?c" "0 \<le> max_deg ?c" using core_wf_prep_ok[OF assms(1)] by (simp_all add: prep_ok_def)
  from assms(2) obtain q where q: "solve_loop ?c (rhs_arr c) (v, slv ?c) = Some q"
    and r: "r = bindR q (\<lambda>(v1, s1). Inr (?c\<lparr>slv := s1\<rparr>, v1))" by (auto simp: core_prepare_def Let_def make_deg_arr_def)
  have "map_sum id snd r = map_sum id fst q" by (cases q) (auto simp: r)
  moreover have "products ?c 0 0 = (nat (max_deg c) + length (lhs c)) choose length (lhs c)" by (simp add: products_def make_deg_arr_def)
  ultimately show ?thesis using solve_loop_grows[OF core q] by simp
qed

lemma core_prepare_bound:
  fixes c :: "'a::linordered_idom handelman_core"
  assumes wf: "core_wf P N A c v"
    and room: "length (var_arr v) + length (rhs_arr c) * ((nat (max_deg c) + length (lhs c)) choose length (lhs c)) < 2 ^ 32"
  shows "\<exists>c' v'. core_prepare c v = Some (Inr (c', v')) \<and> vars_ok v'
     \<and> length (var_arr v') \<le> length (var_arr v) + length (rhs_arr c) * ((nat (max_deg c) + length (lhs c)) choose length (lhs c))"
proof -
  have v: "vars_ok v" "unat (NUM_SYMBOLS v) = length (var_arr v)" using wf unfolding core_wf_def vars_ok_def by metis+
  have "core_prepare c v \<noteq> Some (Inl limit_error)" using core_prepare_grows[OF wf, of "Inl limit_error"] room v by (auto simp: grows_def)
  with core_prepare_spec[OF wf] obtain v' s' xs es where
    run: "core_prepare c v = Some (Inr ((make_deg_arr c)\<lparr>slv := s'\<rparr>, v'))"
    and post: "rhs_post P N (make_deg_arr c) (set (rhs_arr c)) (v, slv c) (v', s') xs es" by auto
  have "vars_ok v'" using post by (simp add: rhs_post_def)
  then have "unat (NUM_SYMBOLS v') = length (var_arr v')" by (simp add: vars_ok_def)
  with core_prepare_grows[OF wf run] run v \<open>vars_ok v'\<close> show ?thesis by (auto simp: grows_def)
qed

text \<open>
  C11: The size of a preparation.  A core with \<open>h\<close> hypotheses of positive degree, \<open>r\<close> conclusions and
  degree bound \<open>d\<close> is prepared with at most \<open>r\<close> times \<open>(d + h) choose h\<close> new templates, and the
  preparation ends without an error whenever that many symbols are left.
\<close>

theorem prepare_bound:
  fixes c :: "'a::linordered_idom handelman_core"
  assumes "core_wf P N A c v"
    and "length (var_arr v) + length (rhs_arr c) * ((nat (max_deg c) + length (lhs c)) choose length (lhs c)) < 2 ^ 32"
  shows "\<exists>c' v'. core_prepare c v = Some (Inr (c', v')) \<and> vars_ok v'
     \<and> length (var_arr v') \<le> length (var_arr v) + length (rhs_arr c) * ((nat (max_deg c) + length (lhs c)) choose length (lhs c))"
  using assms by (rule core_prepare_bound)

theorem prepare_bound_witness:
  "\<exists>c' v'. core_prepare ex_core ex_vars = Some (Inr (c', v')) \<and> vars_ok v' \<and> length (var_arr v') \<le> 3"
proof -
  have "lhs ex_core = [ex_x]" "rhs_arr ex_core = [ex_x]" "max_deg ex_core = 1" "length (var_arr ex_vars) = 1"
    by (simp_all add: ex_core_def ex_vars_def core_new_def add_lhs_def add_rhs_def set_max_degree_def kept_def new_symbol_def new_const_def)
  with prepare_bound[OF ex_core_wf] show ?thesis by (simp add: numeral_3_eq_3)
qed

end
