(* ===== verification/Driver_Bound.thy ===== *)
theory Driver_Bound
  imports Driver_Run Handelman_Bound
begin

text \<open>
  The set-up of a driver always succeeds: the templates its cores make are few compared with the
  symbol limit.
\<close>

lemma vars_new_loop_total: "unat (NUM_SYMBOLS v) + n < 2 ^ 32 \<Longrightarrow> \<exists>v'. vars_new_loop n v = Inr v' \<and> unat (NUM_SYMBOLS v') = unat (NUM_SYMBOLS v) + n"
proof (induction n arbitrary: v)
  case (Suc n)
  obtain v1 where v1: "push_var v False (''var_'' @ nat_to_string (vars_sz v)) = Inr v1" using push_var_total[of v] Suc.prems by fastforce
  then have "unat (NUM_SYMBOLS v1) = Suc (unat (NUM_SYMBOLS v))" by (auto simp: push_var_def dest: symbol_new_Inr(3) split: sum.splits)
  with Suc.IH[of v1] Suc.prems v1 show ?case by auto
qed simp

lemma add_group_loop_total: "unat (NUM_SYMBOLS v) + n < 2 ^ 32 \<Longrightarrow> \<exists>v'. add_group_loop i n t aname v = Inr v' \<and> unat (NUM_SYMBOLS v') = unat (NUM_SYMBOLS v) + n"
proof (induction n arbitrary: i v)
  case (Suc n)
  obtain v1 where v1: "push_var v t (aname @ ''_'' @ nat_to_string i) = Inr v1" using push_var_total[of v] Suc.prems by fastforce
  then have "unat (NUM_SYMBOLS v1) = Suc (unat (NUM_SYMBOLS v))" by (auto simp: push_var_def dest: symbol_new_Inr(3) split: sum.splits)
  with Suc.IH[of v1 "Suc i"] Suc.prems v1 show ?case by auto
qed simp

lemma driver_table_total:
  assumes "n + n + n < 2 ^ 31"
  shows "\<exists>t v. driver_table n aname = Inr (t, v) \<and> unat (NUM_SYMBOLS v) = n + n + n"
proof -
  have "\<exists>v0 :: double vars. vars_new n 0 = Inr v0 \<and> unat (NUM_SYMBOLS v0) = n"
    using vars_new_loop_total[of "\<lparr>var_arr = [], vmp = [], NUM_SYMBOLS = 0\<rparr> :: double vars" n] assms by (simp add: vars_new_def)
  then obtain v0 :: "double vars" where v0: "vars_new n 0 = Inr v0" "unat (NUM_SYMBOLS v0) = n" by blast
  have "\<exists>v. add_group_loop 0 (n + n) True name v0 = Inr v \<and> unat (NUM_SYMBOLS v) = n + n + n" for name
    using add_group_loop_total[of v0 "n + n" 0 True name] v0(2) assms by auto
  then show ?thesis by (auto simp: driver_table_def v0(1) add_var_group_def Let_def split: sum.split) (metis Inl_Inr_False sum.inject(2))+
qed

text \<open>The most templates one core of a driver makes.\<close>

definition core_templates :: "nat \<Rightarrow> int \<Rightarrow> nat" where
  "core_templates n d = (nat d + 2 * n) choose (2 * n)"

lemma driver_core_lhs:
  fixes r :: "double multinomial"
  assumes "driver_vars n t v" and "d \<noteq> 0" and "driver_core n d r v t = Inr c"
  shows "length (lhs c) = 2 * n"
proof -
  have "length (concat (map (\<lambda>i. [f i, g i]) xs)) = 2 * length xs" for f g :: "nat \<Rightarrow> double multinomial" and xs
    by (induction xs) auto
  then show ?thesis using assms by (auto simp: driver_core_def driver_hyps_spec set_max_degree_def add_rhs_def fold_add_lhs core_new_def)
qed

lemma driver_core_grows:
  fixes r :: "double multinomial"
  assumes dv0: "driver_vars n t v0" "same_base n v0 v" and dv: "driver_vars n t v"
    and r: "wf_poly r" "over n n r" and d: "0 < d" "d < 2 ^ 15" and c: "driver_core n d r v0 t = Inr c"
    and run: "core_prepare c v = Some res"
  shows "grows (core_templates n d) v (map_sum id snd res)"
  using core_prepare_grows[OF driver_core_wf[OF dv0 dv r d c] run] driver_core_parts(2,3)[OF dv0 d(1) c]
    driver_core_lhs[OF dv0(1) _ c] d(1) by (simp add: core_templates_def)

text \<open>One round of the loop over the constraints, and the loop.\<close>

lemma driver_constraint_grows:
  assumes dv: "driver_vars n t v" and g: "group_ok t" and r: "wf_poly r" "over n n r" and d: "0 < d" "d < 2 ^ 15"
    and run: "driver_constraint n d t r (v, ps, ns) = Some res"
  shows "grows (2 * core_templates n d) v (map_sum id fst res)"
proof -
  from negated_ok[OF r] obtain q where q: "negated r = Inr q" "wf_poly q" "over n n q" by blast
  from driver_core_spec[OF dv, of d r] d obtain e1 where e1: "driver_core n d r v t = Inr e1" by auto
  from driver_core_spec[OF dv, of d q] d obtain e2 where e2: "driver_core n d q v t = Inr e2" by auto
  note def = driver_constraint_def e1 e2 q(1)
  note prep1 = driver_prepare[OF dv same_base_refl dv g r d e1]
  then obtain r1 where r1: "core_prepare e1 v = Some r1" by blast
  note g1 = driver_core_grows[OF dv same_base_refl dv r d e1 r1]
  show ?thesis
  proof (cases r1)
    case (Inl err)
    with run r1 have "res = Inl err" by (simp add: def)
    with g1 Inl show ?thesis using grows_Inl[of "core_templates n d" v err "core_templates n d"] by (simp add: mult_2)
  next
    case (Inr cv)
    then obtain c1 v1 where cv: "r1 = Inr (c1, v1)" by (cases cv) auto
    with prep1 r1 have p1: "driver_vars n t v1" "same_base n v v1" by auto
    from driver_prepare[OF dv p1(2,1) g q(2,3) d e2] obtain r2 where r2: "core_prepare e2 v1 = Some r2" by blast
    note g2 = driver_core_grows[OF dv p1(2,1) q(2,3) d e2 r2]
    have "map_sum id fst res = map_sum id snd r2" using run r1 r2 cv by (cases r2) (auto simp: def)
    with grows_trans[OF _ g2, of "core_templates n d" v] g1 cv show ?thesis by (simp add: mult_2)
  qed
qed

lemma driver_loop_grows:
  assumes "driver_vars n t v" and "group_ok t" and "0 < d" "d < 2 ^ 15" and "\<forall>r \<in> set rs. wf_poly r \<and> over n n r"
    and "solvers_for n v polys ps ns" and "foldO (driver_constraint n d t) rs (v, ps, ns) = Some res"
  shows "grows (length rs * (2 * core_templates n d)) v (map_sum id fst res)"
  using assms
proof (induction rs arbitrary: v polys ps ns)
  case (Cons r rs)
  have r: "wf_poly r" "over n n r" using Cons.prems(5) by auto
  from driver_constraint_ok[OF Cons.prems(1,2) r Cons.prems(3,4,6)] obtain q where
    q: "driver_constraint n d t r (v, ps, ns) = Some q" by blast
  note g = driver_constraint_grows[OF Cons.prems(1,2) r Cons.prems(3,4) q]
  show ?case
  proof (cases q)
    case (Inl err)
    with Cons.prems(7) q have "res = Inl err" by simp
    with g Inl show ?thesis using grows_Inl[of "2 * core_templates n d" v err] by simp
  next
    case (Inr x)
    with driver_constraint_ok[OF Cons.prems(1,2) r Cons.prems(3,4,6)] q obtain v' p m where
      x: "q = Inr (v', ps @ [p], ns @ [m])" "driver_vars n t v'" "solvers_for n v' (polys @ [r]) (ps @ [p]) (ns @ [m])" by auto
    have run: "foldO (driver_constraint n d t) rs (v', ps @ [p], ns @ [m]) = Some res" using Cons.prems(7) q x(1) by simp
    have "grows (length rs * (2 * core_templates n d)) v' (map_sum id fst res)"
      by (rule Cons.IH[OF x(2) Cons.prems(2-4) _ x(3) run]) (use Cons.prems(5) in simp)
    from grows_trans[OF _ this, of "2 * core_templates n d" v] g x(1) show ?thesis by (simp add: id_def)
  qed
qed (auto simp: grows_def)

lemma driver_setup_made:
  assumes data: "driver_data n d aname polys" and room: "3 * n + length polys * (2 * core_templates n d) < 2 ^ 32"
  shows "\<exists>v ps ns. driver_setup n d aname polys = Some (Inr (v, ps, ns))"
proof -
  have small: "n + n + n < 2 ^ 31" using data by (simp add: driver_data_def)
  from driver_table_total[OF small] obtain t v where tv: "driver_table n aname = Inr (t, v)" "unat (NUM_SYMBOLS v) = n + n + n" by blast
  have dv: "driver_vars n t v" and g: "group_ok t"
    using driver_table_ok[OF tv(1) small] driver_table_group[OF tv(1)] data by (simp_all add: driver_data_def)
  have "solvers_for n v [] [] []" by (simp add: solvers_for_def)
  from driver_loop_grows[OF dv g _ _ _ this, of d polys "Inl limit_error"] data room tv(2)
  have "foldO (driver_constraint n d t) polys (v, [], []) \<noteq> Some (Inl limit_error)" by (auto simp: driver_data_def grows_def)
  then have "driver_setup n d aname polys \<noteq> Some (Inl limit_error)"
    by (auto simp: driver_setup_def tv(1) bindO_def split: option.splits sum.splits)
  with driver_setup_cases[OF data] tv(1) show ?thesis by auto
qed

end
