(* ===== verification/Poly_Exprs.thy ===== *)
theory Poly_Exprs
  imports Driver
begin

text \<open>
  The expressions the drivers write their constraints in: the operators of \<^verbatim>\<open>multinomial\<close> on the
  program variables \<^verbatim>\<open>v[0]\<close>, \<^verbatim>\<open>v[1]\<close>, \<open>\<dots>\<close> of the table and on constants.  \<open>build\<close> computes the polynomial as
  the operators do, \<open>pvalue\<close> is the arithmetic the expression stands for.
\<close>

datatype poly_expr =
    PVar nat
  | PAdd poly_expr poly_expr
  | PAddC poly_expr double
  | PMul poly_expr poly_expr
  | PMulC poly_expr double
  | PPow poly_expr u16

primrec build :: "double vars \<Rightarrow> poly_expr \<Rightarrow> double multinomial result" where
  "build v (PVar i) = var_at v i"
| "build v (PAdd a b) = bindR (build v a) (\<lambda>p. bindR (build v b) (\<lambda>q. ofopt (add p q)))"
| "build v (PAddC a c) = bindR (build v a) (\<lambda>p. ofopt (add_c p c))"
| "build v (PMul a b) = bindR (build v a) (\<lambda>p. bindR (build v b) (\<lambda>q. ofopt (mult p q)))"
| "build v (PMulC a c) = bindR (build v a) (\<lambda>p. ofopt (mult_c p c))"
| "build v (PPow a e) = bindR (build v a) (\<lambda>p. ofopt (power_poly p e))"

primrec pvalue :: "(nat \<Rightarrow> double) \<Rightarrow> poly_expr \<Rightarrow> double" where
  "pvalue x (PVar i) = x i"
| "pvalue x (PAdd a b) = pvalue x a + pvalue x b"
| "pvalue x (PAddC a c) = pvalue x a + c"
| "pvalue x (PMul a b) = pvalue x a * pvalue x b"
| "pvalue x (PMulC a c) = pvalue x a * c"
| "pvalue x (PPow a e) = pvalue x a ^ unat e"

text \<open>The variables are program variables and no exponent reaches the width of 16 bits.\<close>

primrec exp_bound :: "poly_expr \<Rightarrow> nat" where
  "exp_bound (PVar i) = 1"
| "exp_bound (PAdd a b) = max (exp_bound a) (exp_bound b)"
| "exp_bound (PAddC a c) = exp_bound a"
| "exp_bound (PMul a b) = exp_bound a + exp_bound b"
| "exp_bound (PMulC a c) = exp_bound a"
| "exp_bound (PPow a e) = exp_bound a * unat e"

primrec expr_fits :: "nat \<Rightarrow> poly_expr \<Rightarrow> bool" where
  "expr_fits n (PVar i) = (i < n)"
| "expr_fits n (PAdd a b) = (expr_fits n a \<and> expr_fits n b)"
| "expr_fits n (PAddC a c) = expr_fits n a"
| "expr_fits n (PMul a b) = (expr_fits n a \<and> expr_fits n b \<and> exp_bound a + exp_bound b < 2 ^ 16)"
| "expr_fits n (PMulC a c) = expr_fits n a"
| "expr_fits n (PPow a e) = (expr_fits n a \<and> exp_bound a * unat e < 2 ^ 16)"

subsection \<open>The symbols of a power\<close>

lemma square_symbols:
  assumes "square p = Some r" and "set (symbols p) \<subseteq> S"
  shows "set (symbols r) \<subseteq> S"
proof -
  from assms(1) obtain t where t: "mult_c p 1 = Some t" "mult (set_save True t) (set_save True t) = Some r"
    by (auto simp: square_def split: option.splits)
  have "set (symbols (set_save True t)) \<subseteq> S" using syms.good_mult_c[OF t(1) assms(2)] by simp
  from syms.good_mult[OF t(2) this this] show ?thesis .
qed

lemma pow_loop_symbols:
  "pow_loop temp ans c = Some r \<Longrightarrow> set (symbols temp) \<subseteq> S \<Longrightarrow> set (symbols ans) \<subseteq> S \<Longrightarrow> set (symbols r) \<subseteq> S"
proof (induction temp ans c arbitrary: r rule: pow_loop.induct)
  case (1 temp ans c)
  show ?case
  proof (cases "0 < c")
    case True
    with "1.prems"(1) obtain t a where st: "pow_step temp ans c = Some (t, a)" by (auto simp: pow_loop.simps[of temp ans c] split: option.splits)
    then have ta: "set (symbols t) \<subseteq> S" "set (symbols a) \<subseteq> S"
      using "1.prems"(2,3) syms.good_mult[of ans "set_save True temp" a S] by (auto simp: pow_step_def split: if_splits)
    show ?thesis
    proof (cases "half_pow c = 0")
      case False
      with "1.prems"(1) True st obtain t2 where t2: "square t = Some t2" "pow_loop t2 a (half_pow c) = Some r"
        by (auto simp: pow_loop.simps[of temp ans c] split: option.splits)
      show ?thesis by (rule "1.IH"[OF True st refl False t2 square_symbols[OF t2(1) ta(1)] ta(2)])
    qed (use "1.prems"(1) True st ta in \<open>simp add: pow_loop.simps[of temp ans c]\<close>)
  qed (use "1.prems" in \<open>simp add: pow_loop.simps[of temp ans c]\<close>)
qed

lemma power_symbols:
  assumes "power_poly p e = Some r" and "set (symbols p) \<subseteq> S"
  shows "set (symbols r) \<subseteq> S"
proof -
  from assms(1) obtain t where t: "mult_c p 1 = Some t" by (auto simp: power_poly_def split: option.splits)
  note s = syms.good_mult_c[OF t assms(2)]
  have "square p = Some r" if "e = 2" using assms(1) t that by (simp add: power_poly_def square_def)
  moreover have "pow_loop t (new_const 1 False) e = Some r" if "e \<noteq> 1" "e \<noteq> 2" using assms(1) t that by (simp add: power_poly_def)
  moreover have "r = t" if "e = 1" using assms(1) t that by (simp add: power_poly_def)
  ultimately show ?thesis using s square_symbols[OF _ assms(2)] pow_loop_symbols[OF _ s, of "new_const 1 False" e]
    by (cases "e = 1"; cases "e = 2") (auto simp: new_const_def)
qed

subsection \<open>The polynomial of an expression\<close>

definition denotes :: "nat \<Rightarrow> double multinomial result \<Rightarrow> poly_expr \<Rightarrow> bool" where
  "denotes n r e \<longleftrightarrow> (\<exists>p. r = Inr p \<and> wf_poly p \<and> exps_le (exp_bound e) p \<and> over n n p
     \<and> (\<forall>x. eval x p = pvalue (\<lambda>i. x (of_nat i)) e))"

lemma over_symbols: "over n n p \<longleftrightarrow> set (symbols p) \<subseteq> {k. unat (get_id k) < n \<and> \<not> is_template k}"
  by (auto simp: over_def)

lemma denotesI:
  assumes "wf_poly p" "exps_le (exp_bound e) p" "over n n p" "\<And>x. eval x p = pvalue (\<lambda>i. x (of_nat i)) e"
  shows "denotes n (Inr p) e"
  using assms unfolding denotes_def by blast

lemma denotes_var:
  assumes dv: "driver_vars n t v" and i: "i < n"
  shows "denotes n (var_at v i) (PVar i)"
proof -
  have len: "i < length (var_arr v)" using dv i by (simp add: driver_vars_def)
  let ?k = "sym_at v i"
  note k = sym_at_props[OF dv len]
  have "of_nat (unat (get_id ?k)) = get_id ?k" by simp
  then have id: "get_id ?k = of_nat i" unfolding k(2) by (rule sym)
  have "denotes n (Inr (new_symbol ?k True)) (PVar i)"
    by (rule denotesI) (use k(2,3) i in \<open>simp_all add: over_def new_symbol_def new_const_def mp_ok_def mp_keys_def id\<close>)
  with k(1) len show ?thesis by (simp add: var_at_def)
qed

lemma denotes_add:
  assumes "denotes n a e" and "denotes n b f"
  shows "denotes n (bindR a (\<lambda>p. bindR b (\<lambda>q. ofopt (add p q)))) (PAdd e f)"
proof -
  from assms(1) obtain p where p: "a = Inr p" "wf_poly p" "exps_le (exp_bound e) p" "over n n p" "\<And>x. eval x p = pvalue (\<lambda>i. x (of_nat i)) e" unfolding denotes_def by blast
  from assms(2) obtain q where q: "b = Inr q" "wf_poly q" "exps_le (exp_bound f) q" "over n n q" "\<And>x. eval x q = pvalue (\<lambda>i. x (of_nat i)) f" unfolding denotes_def by blast
  from add_struct[OF p(2) q(2)] obtain r where r: "add p q = Some r" "wf_poly r" by blast
  have "denotes n (Inr r) (PAdd e f)"
  proof (rule denotesI[OF r(2)])
    show "exps_le (exp_bound (PAdd e f)) r"
      by (rule add_exps_le[OF r(1)]) (use exps_le_mono[OF p(3)] exps_le_mono[OF q(3)] in simp_all)
    show "over n n r" using p(4) q(4) unfolding over_symbols by (rule syms.good_add[OF r(1)])
    show "eval x r = pvalue (\<lambda>i. x (of_nat i)) (PAdd e f)" for x using eval_add[OF r(1) p(2) q(2)] p(5) q(5) by simp
  qed
  with p(1) q(1) r(1) show ?thesis by simp
qed

lemma denotes_mul:
  assumes "denotes n a e" and "denotes n b f" and small: "exp_bound e + exp_bound f < 2 ^ 16"
  shows "denotes n (bindR a (\<lambda>p. bindR b (\<lambda>q. ofopt (mult p q)))) (PMul e f)"
proof -
  from assms(1) obtain p where p: "a = Inr p" "wf_poly p" "exps_le (exp_bound e) p" "over n n p" "\<And>x. eval x p = pvalue (\<lambda>i. x (of_nat i)) e" unfolding denotes_def by blast
  from assms(2) obtain q where q: "b = Inr q" "wf_poly q" "exps_le (exp_bound f) q" "over n n q" "\<And>x. eval x q = pvalue (\<lambda>i. x (of_nat i)) f" unfolding denotes_def by blast
  from mult_struct[OF p(2) q(2)] obtain r where r: "mult p q = Some r" "wf_poly r" by blast
  have "denotes n (Inr r) (PMul e f)"
  proof (rule denotesI[OF r(2)])
    show "exps_le (exp_bound (PMul e f)) r" using mult_exps_le[OF r(1) p(3) q(3)] by simp
    show "over n n r" using p(4) q(4) unfolding over_symbols by (rule syms.good_mult[OF r(1)])
    show "eval x r = pvalue (\<lambda>i. x (of_nat i)) (PMul e f)" for x using eval_mult[OF r(1) p(2) q(2) p(3) q(3) small] p(5) q(5) by simp
  qed
  with p(1) q(1) r(1) show ?thesis by simp
qed

lemma denotes_unary:
  assumes "denotes n a e"
  shows "denotes n (bindR a (\<lambda>p. ofopt (add_c p c))) (PAddC e c)"
    and "denotes n (bindR a (\<lambda>p. ofopt (mult_c p c))) (PMulC e c)"
    and "exp_bound e * unat k < 2 ^ 16 \<Longrightarrow> denotes n (bindR a (\<lambda>p. ofopt (power_poly p k))) (PPow e k)"
proof -
  from assms obtain p where p: "a = Inr p" "wf_poly p" "exps_le (exp_bound e) p" "over n n p" "\<And>x. eval x p = pvalue (\<lambda>i. x (of_nat i)) e" unfolding denotes_def by blast
  note ov = p(4)[unfolded over_symbols]
  from add_c_total[OF p(2)] obtain r where r: "add_c p c = Some r" by blast
  have "denotes n (Inr r) (PAddC e c)"
    by (rule denotesI[OF add_c_wf[OF r p(2)]]) (use add_c_exps_le[OF r p(3)] syms.good_add_c[OF r ov] eval_add_c[OF r p(2)] p(5) in \<open>simp_all add: over_symbols\<close>)
  with p(1) r show "denotes n (bindR a (\<lambda>p. ofopt (add_c p c))) (PAddC e c)" by simp
  from mult_c_struct[OF p(2)] obtain r where r: "mult_c p c = Some r" "wf_poly r" by blast
  have "denotes n (Inr r) (PMulC e c)"
    by (rule denotesI[OF r(2)]) (use mult_c_exps_le[OF r(1) p(3)] syms.good_mult_c[OF r(1) ov] eval_mult_c[OF r(1) p(2)] p(5) in \<open>simp_all add: over_symbols\<close>)
  with p(1) r(1) show "denotes n (bindR a (\<lambda>p. ofopt (mult_c p c))) (PMulC e c)" by simp
  assume small: "exp_bound e * unat k < 2 ^ 16"
  from power_poly_struct[OF p(2)] obtain r where r: "power_poly p k = Some r" "wf_poly r" by blast
  have "denotes n (Inr r) (PPow e k)"
    by (rule denotesI[OF r(2)]) (use power_poly_spec[OF r(1) p(2,3) small] power_symbols[OF r(1) ov] p(5) in \<open>simp_all add: over_symbols\<close>)
  with p(1) r(1) show "denotes n (bindR a (\<lambda>p. ofopt (power_poly p k))) (PPow e k)" by simp
qed

lemma build_denotes:
  assumes dv: "driver_vars n t v" and "expr_fits n e"
  shows "denotes n (build v e) e"
  using assms(2) by (induction e) (simp_all add: denotes_var[OF dv] denotes_add denotes_mul denotes_unary del: exp_bound.simps)

end
