(* ===== verification/Threads_Ends.thy ===== *)
theory Threads_Ends
  imports Threads_Bounds
begin

text \<open>
  The threaded search ends.  The work a state still holds is bounded by a number: the boxes the
  pending boxes and those in the hands of the threads can still be split into, then the threads
  that have not left, then how far each thread is from its next wait.  Every step lowers it, a
  spurious wake-up does not raise it.
\<close>

subsection \<open>The measure\<close>

definition box_pot :: "double \<Rightarrow> (addr \<Rightarrow> bounding_box option) \<Rightarrow> addr \<Rightarrow> nat" where
  "box_pot vol c a = (case c a of None \<Rightarrow> 0 | Some b \<Rightarrow> pot vol b)"

fun pc_load :: "double \<Rightarrow> (addr \<Rightarrow> bounding_box option) \<Rightarrow> thread_pc \<Rightarrow> nat" where
  "pc_load vol c (Proc a) = 5 * box_pot vol c a - 1"
| "pc_load vol c (Moving a nb) = 5 * (box_pot vol c a + pot vol nb) + 2"
| "pc_load vol c (Appending a nb) = 5 * pot vol nb + 1"
| "pc_load vol c _ = 0"

fun pc_rank :: "thread_pc \<Rightarrow> nat" where
  "pc_rank Finished = 0"
| "pc_rank (Waiting w) = (if w then 2 else 1)"
| "pc_rank Top = 3"
| "pc_rank _ = 4"

definition load :: "double \<Rightarrow> addr list \<Rightarrow> 's threads \<Rightarrow> nat" where
  "load vol pend T = 5 * (\<Sum>a\<leftarrow>pend. box_pot vol (cells (frags (fi T))) a) + (\<Sum>p\<leftarrow>pcs T. pc_load vol (cells (frags (fi T))) p)"

definition unfinished :: "thread_pc list \<Rightarrow> nat" where
  "unfinished ps = (\<Sum>p\<leftarrow>ps. if p = Finished then 0 else 1)"

definition todo :: "double \<Rightarrow> addr list \<Rightarrow> 's threads \<Rightarrow> nat" where
  "todo vol pend T = (load vol pend T * Suc (length (pcs T)) + unfinished (pcs T)) * Suc (4 * length (pcs T)) + (\<Sum>p\<leftarrow>pcs T. pc_rank p)"

lemma digits_less:
  fixes a a' r r' m :: nat
  assumes "r' \<le> m" and "a' < a \<or> a' = a \<and> r' < r"
  shows "a' * Suc m + r' < a * Suc m + r"
proof (cases "a' < a")
  case True
  then have "Suc a' * Suc m \<le> a * Suc m" by (intro mult_le_mono1) simp
  then show ?thesis using assms(1) by simp
qed (use assms(2) in simp)

lemma unfinished_le: "unfinished ps \<le> length ps"
  by (induction ps) (auto simp: unfinished_def)

lemma rank_le: "(\<Sum>p\<leftarrow>ps. pc_rank p) \<le> 4 * length ps"
proof (induction ps)
  case (Cons p ps)
  have "pc_rank p \<le> 4" by (cases p) auto
  with Cons show ?case by simp
qed simp

lemma todo_less:
  assumes "length (pcs T') = length (pcs T)"
    and "load vol pend' T' < load vol pend T \<or> load vol pend' T' = load vol pend T \<and> (unfinished (pcs T') < unfinished (pcs T)
       \<or> unfinished (pcs T') = unfinished (pcs T) \<and> (\<Sum>p\<leftarrow>pcs T'. pc_rank p) < (\<Sum>p\<leftarrow>pcs T. pc_rank p))"
  shows "todo vol pend' T' < todo vol pend T"
proof -
  let ?n = "length (pcs T)"
  have "load vol pend' T' * Suc ?n + unfinished (pcs T') < load vol pend T * Suc ?n + unfinished (pcs T)
      \<or> load vol pend' T' * Suc ?n + unfinished (pcs T') = load vol pend T * Suc ?n + unfinished (pcs T)
        \<and> (\<Sum>p\<leftarrow>pcs T'. pc_rank p) < (\<Sum>p\<leftarrow>pcs T. pc_rank p)"
    using assms digits_less[of "unfinished (pcs T')" ?n] unfinished_le[of "pcs T'"] by auto
  then show ?thesis unfolding todo_def assms(1)
    by (intro digits_less) (use rank_le[of "pcs T'"] assms(1) in simp_all)
qed

text \<open>A thread moves on: what changes in a sum over the threads.\<close>

lemma sum_moved:
  fixes f g :: "thread_pc \<Rightarrow> nat"
  assumes m: "moved i p ps ps'" and same: "\<And>j. j < length ps \<Longrightarrow> j \<noteq> i \<Longrightarrow> g (ps' ! j) = f (ps ! j)"
  shows "(\<Sum>q\<leftarrow>ps'. g q) + f (ps ! i) = (\<Sum>q\<leftarrow>ps. f q) + g p"
proof -
  note nth = moved_nth(1-3)[OF m]
  have "(\<Sum>j \<in> {..<length ps} - {i}. g (ps' ! j)) = (\<Sum>j \<in> {..<length ps} - {i}. f (ps ! j))"
    by (rule sum.cong) (use same in auto)
  moreover have "(\<Sum>q\<leftarrow>ps'. g q) = g (ps' ! i) + (\<Sum>j \<in> {..<length ps} - {i}. g (ps' ! j))"
    using nth(1,2) by (simp add: sum_list_sum_nth atLeast0LessThan sum.remove[of "{..<length ps}" i])
  moreover have "(\<Sum>q\<leftarrow>ps. f q) = f (ps ! i) + (\<Sum>j \<in> {..<length ps} - {i}. f (ps ! j))"
    using nth(2) by (simp add: sum_list_sum_nth atLeast0LessThan sum.remove[of "{..<length ps}" i])
  ultimately show ?thesis using nth(3) by simp
qed

lemma pc_load_wake [simp]: "pc_load vol c (wake_pc p) = pc_load vol c p"
  by (cases p) (simp_all add: wake_pc_def)

lemma pc_load_cong: "(\<And>a. owner p = Some a \<Longrightarrow> box_pot vol c' a = box_pot vol c a) \<Longrightarrow> pc_load vol c' p = pc_load vol c p"
  by (cases p) (simp_all add: pc_defs)

lemma moved_others:
  assumes "moved i p ps ps'" and "j < length ps" and "j \<noteq> i"
  shows "ps' ! j = ps ! j \<or> ps' ! j = wake_pc (ps ! j)"
  using assms by (auto simp: moved_def)

text \<open>
  The load after a step of thread \<open>i\<close>, when the boxes of the other threads and the pending boxes
  \<open>pend\<close> keep their sizes and \<open>xs\<close> are taken from or put to the pending ones.
\<close>

lemma load_step:
  assumes m: "moved i p (pcs T) (pcs T')"
    and own: "\<And>j a. j < length (pcs T) \<Longrightarrow> j \<noteq> i \<Longrightarrow> owner (pcs T ! j) = Some a
      \<Longrightarrow> box_pot vol (cells (frags (fi T'))) a = box_pot vol (cells (frags (fi T))) a"
    and pend: "\<And>a. a \<in> set pend \<Longrightarrow> box_pot vol (cells (frags (fi T'))) a = box_pot vol (cells (frags (fi T))) a"
  shows "load vol pend T' + pc_load vol (cells (frags (fi T))) (pcs T ! i)
     = load vol pend T + pc_load vol (cells (frags (fi T'))) p"
proof -
  let ?c = "cells (frags (fi T))" and ?c' = "cells (frags (fi T'))"
  have "pc_load vol ?c' (pcs T' ! j) = pc_load vol ?c (pcs T ! j)" if "j < length (pcs T)" "j \<noteq> i" for j
    using moved_others[OF m that] pc_load_cong[of "pcs T ! j" vol ?c' ?c] own[OF that] by auto
  note sum_moved[OF m, of "pc_load vol ?c'" "pc_load vol ?c", OF this]
  moreover have "(\<Sum>a\<leftarrow>pend. box_pot vol ?c' a) = (\<Sum>a\<leftarrow>pend. box_pot vol ?c a)"
    using pend by (metis (no_types, lifting) map_cong)
  ultimately show ?thesis by (simp add: load_def)
qed

lemma load_Cons: "load vol (a # pend) T = 5 * box_pot vol (cells (frags (fi T))) a + load vol pend T"
  and load_snoc: "load vol (pend @ [a]) T = load vol pend T + 5 * box_pot vol (cells (frags (fi T))) a"
  by (simp_all add: load_def)

lemma unfinished_moved:
  assumes "moved i p ps ps'"
  shows "unfinished ps' + (if ps ! i = Finished then 0 else 1) = unfinished ps + (if p = Finished then 0 else 1)"
  unfolding unfinished_def by (rule sum_moved[OF assms]) (use moved_nth(4)[OF assms] in auto)

lemma rank_update: "i < length ps \<Longrightarrow> (\<Sum>q\<leftarrow>ps[i := p]. pc_rank q) + pc_rank (ps ! i) = (\<Sum>q\<leftarrow>ps. pc_rank q) + pc_rank p"
  by (rule sum_moved) (auto simp: moved_def)

text \<open>Rounding a box to integer bounds does not make it larger.\<close>

lemma level_mono: "0 < vol \<Longrightarrow> s \<le> s' \<Longrightarrow> level vol s \<le> level vol s'"
  unfolding level_def[of vol s]
  by (rule Least_le) (use LeastI_ex[OF level_ex[of vol s']] in \<open>simp add: level_def\<close>)

lemma pot_round:
  assumes "0 < vol"
  shows "pot vol (round_if int_solve b) \<le> pot vol b"
proof -
  have "level vol (snd (round_coord 1 c) - fst (round_coord 1 c)) \<le> level vol (snd c - fst c)" for c
    by (rule level_mono[OF assms]) (simp add: round_coord_1 diff_mono)
  then have "sides vol (round_if int_solve b) \<le> sides vol b"
    by (auto simp: sides_def round_if_def round_box_def o_def intro!: sum_list_mono)
  then show ?thesis unfolding pot_def by (intro diff_le_mono power_increasing) simp_all
qed

subsection \<open>Every step lowers the measure\<close>

lemma box_pot_same: "c a = Some b \<Longrightarrow> coords b' = coords b \<Longrightarrow> box_pot vol (c(a \<mapsto> b')) e = box_pot vol c e"
  using pot_coords[of b' b vol] by (simp add: box_pot_def)

lemma box_pot_other: "e \<noteq> a \<Longrightarrow> box_pot vol (c(a \<mapsto> b')) e = box_pot vol c e"
  by (simp add: box_pot_def)

lemma take_todo:
  assumes i: "i < length (pcs T)" "pcs T ! i = Top \<or> (\<exists>b. pcs T ! i = Waiting b)"
    and T0: "T0 = T\<lparr>n_threads_active := c\<rparr>" and run: "take_box i a T0 = Inr T'"
  shows "todo vol_limit pend T' < todo vol_limit (a # pend) T"
proof -
  from run obtain b l' d where b: "box_at (frags (fi T)) a = Inr b" "set_box a (b\<lparr>curr_state := 1\<rparr>) (frags (fi T)) = Inr l'"
    and T': "T' = set_pc i (Proc a) (T0\<lparr>fi := (fi T0)\<lparr>frags := l', curr_box := d\<rparr>\<rparr>)"
    by (auto simp: take_box_def T0 Let_def bindR_Inr)
  have m: "moved i (Proc a) (pcs T) (pcs T')" using i(1) by (simp add: T' T0 moved_def set_pc_def)
  have cells: "cells (frags (fi T')) = (cells (frags (fi T)))(a \<mapsto> b\<lparr>curr_state := 1\<rparr>)"
    using cells_set_box[OF b(2)] by (simp add: T' set_pc_def)
  have same: "box_pot vol_limit (cells (frags (fi T'))) e = box_pot vol_limit (cells (frags (fi T))) e" for e
    unfolding cells using cells_box_at[OF b(1)] by (rule box_pot_same) simp
  have nil: "pc_load vol_limit d (pcs T ! i) = 0" for d using i(2) by auto
  have "load vol_limit pend T' = load vol_limit pend T + (5 * box_pot vol_limit (cells (frags (fi T))) a - 1)"
    using load_step[OF m, of vol_limit pend] same nil by simp
  moreover have "0 < box_pot vol_limit (cells (frags (fi T))) a" using cells_box_at[OF b(1)] pot_pos by (simp add: box_pot_def)
  ultimately have "load vol_limit pend T' < load vol_limit (a # pend) T" by (simp add: load_Cons)
  then show ?thesis using todo_less[OF moved_nth(1)[OF m]] by blast
qed

lemma idle_todo:
  assumes i: "i < length (pcs T)" "pcs T ! i = Top \<or> (\<exists>b. pcs T ! i = Waiting b)" and fi: "fi T' = fi T"
    and pcs': "pcs T' = (map wake_pc (pcs T))[i := Finished] \<or> pcs T' = (pcs T)[i := Waiting False]"
  shows "todo vol_limit [] T' < todo vol_limit [] T \<or> pcs T ! i = Waiting False \<and> todo vol_limit [] T' = todo vol_limit [] T"
proof -
  have nil: "pc_load vol_limit d (pcs T ! i) = 0" for d using i(2) by auto
  from pcs' consider (fin) "moved i Finished (pcs T) (pcs T')"
    | (same) "pcs T ! i = Waiting False" "pcs T' = pcs T"
    | (wait) "pcs T ! i \<noteq> Waiting False" "pcs T' = (pcs T)[i := Waiting False]" "moved i (Waiting False) (pcs T) (pcs T')"
    using i(1) by (auto simp: moved_def) (metis list_update_id)
  then show ?thesis
  proof cases
    case fin
    have "load vol_limit [] T' = load vol_limit [] T" using load_step[OF fin, of vol_limit "[]"] fi nil by simp
    moreover have "unfinished (pcs T') < unfinished (pcs T)" using unfinished_moved[OF fin] i(2) by auto
    ultimately show ?thesis using todo_less[OF moved_nth(1)[OF fin]] by blast
  next
    case same
    then show ?thesis using fi by (simp add: todo_def load_def)
  next
    case wait
    have "load vol_limit [] T' = load vol_limit [] T" using load_step[OF wait(3), of vol_limit "[]"] fi nil by simp
    moreover have "unfinished (pcs T') = unfinished (pcs T)" using unfinished_moved[OF wait(3)] i(2) by auto
    moreover have "(\<Sum>p\<leftarrow>pcs T'. pc_rank p) < (\<Sum>p\<leftarrow>pcs T. pc_rank p)"
      using rank_update[OF i(1), of "Waiting False"] i(2) wait(1,2) by auto
    ultimately show ?thesis using todo_less[OF moved_nth(1)[OF wait(3)], of vol_limit "[]" "[]"] by simp
  qed
qed

context judges begin

lemma enter_todo:
  assumes inv: "tinv int_solve vol_limit need dn pend T" and i: "i < length (pcs T)" "pcs T ! i = Top \<or> (\<exists>b. pcs T ! i = Waiting b)"
    and free: "holder T = None"
    and T0: "T0 = T\<lparr>n_threads_active := c\<rparr>" and c: "c = int (n_active (pcs T)) + (if active (pcs T ! i) then 0 else 1)"
    and run: "enter i T0 = Inr T'"
  shows "\<exists>dn' pend'. tinv int_solve vol_limit need dn' pend' T' \<and> exited T' = exited T
     \<and> (todo vol_limit pend' T' < todo vol_limit pend T \<or> pcs T ! i = Waiting False \<and> todo vol_limit pend' T' = todo vol_limit pend T)"
proof -
  have none: "owner (pcs T ! i) = None" "half_of (pcs T ! i) = None" using i(2) by (auto simp: pc_defs)
  have cur: "curr_box (fi T) = first pend None" using inv by (auto simp: tinv_def chain_inv_def)
  have "0 < n_active (pcs T)" if "active (pcs T ! i)" using n_active_0[of "pcs T"] that i(1) by auto
  then have pos: "0 < c" by (auto simp: c)
  show ?thesis
  proof (cases pend)
    case (Cons a pend')
    from run Cons pos cur have take: "take_box i a T0 = Inr T'" by (simp add: enter_def T0)
    with take_box_inv[OF inv[unfolded Cons] i(1) none free T0 c] take_todo[OF i T0 take, of vol_limit pend'] Cons show ?thesis by auto
  next
    case Nil
    from enter_inv[OF inv i free T0 c] run obtain dn' pend' where inv': "tinv int_solve vol_limit need dn' pend' T'" "exited T' = exited T" by auto
    have fi: "fi T' = fi T" and pcs': "pcs T' = (map wake_pc (pcs T))[i := Finished] \<or> pcs T' = (pcs T)[i := Waiting False]"
      using run cur pos by (auto simp: enter_def T0 Nil Let_def set_pc_def notify_all_def split: if_splits)
    have "pend' = []" using inv'(1) cur fi by (cases pend') (auto simp: tinv_def chain_inv_def Nil)
    with inv' idle_todo[OF i fi pcs', of vol_limit] Nil show ?thesis by blast
  qed
qed

text \<open>The step of the owner of a node \<open>a\<close>, seen by the others.\<close>

lemma owner_load:
  assumes inv: "tinv int_solve vol_limit need dn pend T" and i: "i < length (pcs T)" "owner (pcs T ! i) = Some a"
    and m: "moved i p (pcs T) (pcs T')" and cells: "cells (frags (fi T')) = (cells (frags (fi T)))(a \<mapsto> b')"
  shows "load vol_limit pend T' + pc_load vol_limit (cells (frags (fi T))) (pcs T ! i)
     = load vol_limit pend T + pc_load vol_limit (cells (frags (fi T'))) p"
proof (rule load_step[OF m])
  have ow: "owners_inv int_solve vol_limit dn T" and "linked (frags (fi T)) (dn @ pend)"
    using inv pool_linked by (auto simp: tinv_def chain_inv_def)
  note mine = ownersD(1,3)[OF ow i] and dist = linked_distinct[OF this(2)]
  show "box_pot vol_limit (cells (frags (fi T'))) e = box_pot vol_limit (cells (frags (fi T))) e"
    if "j < length (pcs T)" "j \<noteq> i" "owner (pcs T ! j) = Some e" for j e
    unfolding cells using mine(2)[OF that(1,2)] that(3) by (intro box_pot_other) auto
  show "box_pot vol_limit (cells (frags (fi T'))) e = box_pot vol_limit (cells (frags (fi T))) e" if "e \<in> set pend" for e
    unfolding cells using mine(1) dist that by (intro box_pot_other) auto
qed

lemma leave_box_cells:
  assumes "leave_box int_solve i a r T = Inr T'" and "\<not> exited T'" and "i < length (pcs T)"
  shows "\<exists>b' p. moved i p (pcs T) (pcs T') \<and> cells (frags (fi T')) = (cells (frags (fi T)))(a \<mapsto> b')
     \<and> (p = Top \<or> (\<exists>nb. p = Moving a nb \<and> r = PSplit nb b'))"
proof -
  have put: "moved i p (pcs T) (pcs (set_pc i p (T\<lparr>fi := f\<rparr>)))" for p f using assms(3) by (simp add: moved_def set_pc_def)
  show ?thesis
  proof (cases r)
    case (PRemove b)
    with assms(1) obtain l1 c l2 where "set_box a b (frags (fi T)) = Inr l1" "remove a l1 = Inr (c, l2)"
      "T' = set_pc i Top (T\<lparr>fi := (fi T)\<lparr>frags := l2\<rparr>\<rparr>)" by (auto simp: leave_box_def bindR_Inr)
    with put show ?thesis by (intro exI[of _ b] exI[of _ Top]) (simp add: cells_set_box cells_remove set_pc_def)
  next
    case (PKeep b)
    with assms(1) obtain l1 where "set_box a b (frags (fi T)) = Inr l1" "T' = set_pc i Top (T\<lparr>fi := (fi T)\<lparr>frags := l1\<rparr>\<rparr>)"
      by (auto simp: leave_box_def bindR_Inr)
    with put show ?thesis by (intro exI[of _ b] exI[of _ Top]) (simp add: cells_set_box set_pc_def)
  next
    case (PSplit nb b)
    with assms(1) obtain l1 where "set_box a b (frags (fi T)) = Inr l1" "T' = set_pc i (Moving a nb) (T\<lparr>fi := (fi T)\<lparr>frags := l1\<rparr>\<rparr>)"
      by (auto simp: leave_box_def bindR_Inr)
    with put PSplit show ?thesis by (intro exI[of _ b] exI[of _ "Moving a nb"]) (simp add: cells_set_box set_pc_def)
  next
    case (PExit fate b)
    with assms(1,2) show ?thesis by (auto simp: leave_box_def Let_def bindR_Inr)
  qed
qed

lemma process_todo:
  assumes inv: "tinv int_solve vol_limit need dn pend T" and i: "i < length (pcs T)" "pcs T ! i = Proc a" and ex: "\<not> exited T"
    and clear: "\<And>x i. x \<in> need \<Longrightarrow> i < k \<Longrightarrow> \<not> N i x" and trie: "trie_fits int_solve n trie bounds need"
    and ints: "\<And>x. x \<in> need \<Longrightarrow> int_solve \<longrightarrow> int_point x" and vol: "0 < vol_limit"
    and b: "box_at (frags (fi T)) a = Inr b" and r: "process_box int_solve query vol_limit trie bounds (fi T) b = Some (Inr r)"
    and run: "leave_box int_solve i a r T = Inr T'" and going: "\<not> exited T'"
  shows "\<exists>dn'. tinv int_solve vol_limit need dn' pend T' \<and> todo vol_limit pend T' < todo vol_limit pend T"
proof -
  have ow: "owners_inv int_solve vol_limit dn T" and pool: "pool (tok int_solve) (frags (fi T)) (dn @ pend)"
    and st: "ready (s_pos (fi T)) (s_neg (fi T))" "n_dirs (fi T) = n" using inv by (auto simp: tinv_def chain_inv_def)
  have o: "owner (pcs T ! i) = Some a" using i(2) by (simp add: pc_defs)
  note cb = cells_box_at[OF b]
  have "tok int_solve b" using pool_box[OF pool, of a] ownersD(1)[OF ow i(1) o] cb by auto
  from process_box_spec[OF this ownersD(2)[OF ow i(1) o cb] st clear trie, of vol_limit] r have ok: "proc_ok int_solve vol_limit need b r" by auto
  from leave_box_inv[OF inv i cb ok ints ex] run going obtain dn' where inv': "tinv int_solve vol_limit need dn' pend T'" by auto
  from run going obtain b' p where m: "moved i p (pcs T) (pcs T')" and cells: "cells (frags (fi T')) = (cells (frags (fi T)))(a \<mapsto> b')"
    and p: "p = Top \<or> (\<exists>nb. p = Moving a nb \<and> r = PSplit nb b')"
    using leave_box_cells[OF run going i(1)] by blast
  have "pc_load vol_limit (cells (frags (fi T'))) p < pc_load vol_limit (cells (frags (fi T))) (Proc a)"
    using p ok vol pot_pos[of vol_limit b] by (auto simp: cells cb box_pot_def proc_ok_def)
  with owner_load[OF inv i(1) o m cells] i(2) have "load vol_limit pend T' < load vol_limit pend T" by simp
  with inv' todo_less[OF moved_nth(1)[OF m]] show ?thesis by blast
qed

lemma place_todo:
  assumes inv: "tinv int_solve vol_limit need dn pend T" and i: "i < length (pcs T)" "pcs T ! i = Moving a nb"
    and free: "holder T = None" and ints: "\<And>x. x \<in> need \<Longrightarrow> int_solve \<longrightarrow> int_point x" and vol: "0 < vol_limit"
    and run: "place int_solve i a nb T = Inr T'"
  shows "\<exists>dn' pend'. tinv int_solve vol_limit need dn' pend' T' \<and> exited T' = exited T \<and> todo vol_limit pend' T' < todo vol_limit pend T"
proof -
  have o: "owner (pcs T ! i) = Some a" using i(2) by (simp add: pc_defs)
  from run obtain b l1 c l2 where b: "box_at (frags (fi T)) a = Inr b" and l: "set_box a (round_if int_solve b) (frags (fi T)) = Inr l1"
    "emplace_node a l1 = Inr (c, l2)" and fr: "frags (fi T') = l2"
    and m: "moved i (Appending a (round_if int_solve nb)) (pcs T) (pcs T')"
    using i(1) by (auto simp: place_def Let_def bindR_Inr moved_def set_pc_def notify_all_def)
  have cells: "cells (frags (fi T')) = (cells (frags (fi T)))(a \<mapsto> round_if int_solve b)"
    using cells_set_box[OF l(1)] cells_emplace[OF l(2)] fr by simp
  have "load vol_limit (pend @ [a]) T' < load vol_limit pend T"
    using owner_load[OF inv i(1) o m cells] i(2) cells_box_at[OF b] pot_round[OF vol, of int_solve b] pot_round[OF vol, of int_solve nb]
    by (simp add: load_snoc cells box_pot_def)
  with place_inv[OF inv i free ints] run todo_less[OF moved_nth(1)[OF m]] show ?thesis by fastforce
qed

lemma append_todo:
  assumes inv: "tinv int_solve vol_limit need dn pend T" and i: "i < length (pcs T)" "pcs T ! i = Appending a nb"
    and run: "append_half i a nb T = Inr T'"
  shows "\<exists>dn' pend'. tinv int_solve vol_limit need dn' pend' T' \<and> exited T' = exited T \<and> todo vol_limit pend' T' < todo vol_limit pend T"
proof -
  from append_inv[OF inv i] run obtain c where inv': "exited T' = exited T" "tinv int_solve vol_limit need dn (pend @ [c]) T'"
    and c: "cells (frags (fi T)) c = None" "cells (frags (fi T')) = (cells (frags (fi T)))(c \<mapsto> nb)" by auto
  have m: "moved i (Marking a) (pcs T) (pcs T')" using run i(1) by (auto simp: append_half_def bindR_Inr moved_def set_pc_def)
  have ow: "owners_inv int_solve vol_limit dn T" and link: "linked (frags (fi T)) (dn @ pend)"
    using inv pool_linked by (auto simp: tinv_def chain_inv_def)
  have same: "box_pot vol_limit (cells (frags (fi T'))) e = box_pot vol_limit (cells (frags (fi T))) e" if "e \<in> set (dn @ pend)" for e
    unfolding c(2) using linked_in_cells[OF link that] c(1) by (intro box_pot_other) auto
  have "load vol_limit pend T' + (5 * pot vol_limit nb + 1) = load vol_limit pend T"
    using load_step[OF m, of vol_limit pend] same ownersD(1)[OF ow] i(2) by simp
  then have "load vol_limit (pend @ [c]) T' < load vol_limit pend T" by (simp add: load_snoc c(2) box_pot_def)
  with inv' todo_less[OF moved_nth(1)[OF m]] show ?thesis by blast
qed

lemma mark_todo:
  assumes inv: "tinv int_solve vol_limit need dn pend T" and i: "i < length (pcs T)" "pcs T ! i = Marking a"
    and run: "mark_done i a T = Inr T'"
  shows "\<exists>dn' pend'. tinv int_solve vol_limit need dn' pend' T' \<and> exited T' = exited T \<and> todo vol_limit pend' T' < todo vol_limit pend T"
proof -
  from run obtain b l' where b: "box_at (frags (fi T)) a = Inr b" and l': "set_box a (b\<lparr>curr_state := 2\<rparr>) (frags (fi T)) = Inr l'"
    and T': "T' = set_pc i Top (T\<lparr>fi := (fi T)\<lparr>frags := l'\<rparr>\<rparr>)" by (auto simp: mark_done_def bindR_Inr)
  have m: "moved i Top (pcs T) (pcs T')" and pcs': "pcs T' = (pcs T)[i := Top]" using i(1) by (simp_all add: T' moved_def set_pc_def)
  have "box_pot vol_limit (cells (frags (fi T'))) e = box_pot vol_limit (cells (frags (fi T))) e" for e
    using box_pot_same[where c = "cells (frags (fi T))" and a = a and b = b and b' = "b\<lparr>curr_state := 2\<rparr>"]
      cells_box_at[OF b] cells_set_box[OF l'] by (simp add: T' set_pc_def)
  then have "load vol_limit pend T' = load vol_limit pend T" using load_step[OF m, of vol_limit pend] i(2) by simp
  moreover have "unfinished (pcs T') = unfinished (pcs T)" using unfinished_moved[OF m] i(2) by simp
  moreover have "(\<Sum>p\<leftarrow>pcs T'. pc_rank p) < (\<Sum>p\<leftarrow>pcs T. pc_rank p)" using rank_update[OF i(1), of Top] i(2) pcs' by simp
  ultimately have "todo vol_limit pend T' < todo vol_limit pend T" by (intro todo_less[OF moved_nth(1)[OF m]]) simp
  with mark_inv[OF inv i] run show ?thesis by auto
qed

lemma tstep_todo:
  assumes inv: "tinv int_solve vol_limit need dn pend T" and step: "tstep int_solve query vol_limit trie bounds i T T'" and going: "\<not> exited T'"
    and clear: "\<And>x i. x \<in> need \<Longrightarrow> i < k \<Longrightarrow> \<not> N i x" and trie: "trie_fits int_solve n trie bounds need"
    and ints: "\<And>x. x \<in> need \<Longrightarrow> int_solve \<longrightarrow> int_point x" and vol: "0 < vol_limit"
  shows "\<exists>dn' pend'. tinv int_solve vol_limit need dn' pend' T' \<and> todo vol_limit pend' T' < todo vol_limit pend T"
  using step
proof (cases rule: tstep.cases)
  case lock
  have "n_threads_active T = int (n_active (pcs T))" using inv by (simp add: tinv_def lock_inv_def)
  with enter_todo[OF inv lock(1) _ lock(4) _ _ lock(5)] lock(3) show ?thesis by (fastforce simp: pc_defs)
next
  case wake
  have "n_threads_active T = int (n_active (pcs T))" using inv by (simp add: tinv_def lock_inv_def)
  with enter_todo[OF inv wake(1) _ wake(4) _ _ wake(5)[unfolded wake_up_def]] wake(3) show ?thesis by (fastforce simp: pc_defs)
next
  case (process a b r)
  from process_todo[OF inv process(1,3,2) clear trie ints vol process(4-6) going] show ?thesis by blast
next
  case (place a nb)
  from place_todo[OF inv place(1,3,4) ints vol place(5)] show ?thesis by blast
next
  case (append a nb)
  from append_todo[OF inv append(1,3,4)] show ?thesis by blast
next
  case (mark a)
  from mark_todo[OF inv mark(1,3,4)] show ?thesis by blast
qed

end

subsection \<open>Runs and their length\<close>

text \<open>The number of steps of a run, spurious wake-ups not counted.\<close>

inductive run_steps :: "bool \<Rightarrow> 's query \<Rightarrow> double \<Rightarrow> trie_node option \<Rightarrow> (double \<times> double) list \<Rightarrow> 's threads \<Rightarrow> nat \<Rightarrow> 's threads \<Rightarrow> bool"
  for int_solve query vol_limit trie bounds T0 where
  none: "run_steps int_solve query vol_limit trie bounds T0 0 T0"
| step: "run_steps int_solve query vol_limit trie bounds T0 j T \<Longrightarrow> tstep int_solve query vol_limit trie bounds i T T'
    \<Longrightarrow> run_steps int_solve query vol_limit trie bounds T0 (Suc j) T'"
| spur: "run_steps int_solve query vol_limit trie bounds T0 j T \<Longrightarrow> spurious i T T'
    \<Longrightarrow> run_steps int_solve query vol_limit trie bounds T0 j T'"

lemma run_steps_reach: "run_steps int_solve query vol_limit trie bounds T0 j T \<Longrightarrow> reach int_solve query vol_limit trie bounds T0 T"
  by (induction rule: run_steps.induct) (auto intro: reach.intros)

lemma reach_trans:
  assumes "reach int_solve query vol_limit trie bounds T1 T2" and "reach int_solve query vol_limit trie bounds T0 T1"
  shows "reach int_solve query vol_limit trie bounds T0 T2"
  using assms by (induction rule: reach.induct) (auto intro: reach.intros)

lemma enter_keeps: "enter i T = Inr T' \<Longrightarrow> exited T' = exited T \<and> length (pcs T') = length (pcs T)"
  by (auto simp: enter_def take_box_def Let_def bindR_Inr set_pc_def notify_all_def split: if_splits option.splits)

lemma wake_keeps: "wake_up i T = Inr T' \<Longrightarrow> exited T' = exited T \<and> length (pcs T') = length (pcs T)"
  unfolding wake_up_def by (drule enter_keeps) simp

lemma leave_keeps: "leave_box int_solve i a r T = Inr T' \<Longrightarrow> length (pcs T') = length (pcs T) \<and> (exited T' \<longrightarrow> exited T \<or> (\<exists>fate b. r = PExit fate b))"
  by (auto simp: leave_box_def Let_def bindR_Inr set_pc_def split: proc.splits)

lemma place_keeps: "place int_solve i a nb T = Inr T' \<Longrightarrow> exited T' = exited T \<and> length (pcs T') = length (pcs T)"
  by (cases "curr_box (fi T) = None") (auto simp: place_def Let_def bindR_Inr set_pc_def notify_all_def)

lemma append_keeps: "append_half i a nb T = Inr T' \<Longrightarrow> exited T' = exited T \<and> length (pcs T') = length (pcs T)"
  by (auto simp: append_half_def bindR_Inr set_pc_def)

lemma mark_keeps: "mark_done i a T = Inr T' \<Longrightarrow> exited T' = exited T \<and> length (pcs T') = length (pcs T)"
  by (auto simp: mark_done_def bindR_Inr set_pc_def)

lemmas step_keeps = enter_keeps wake_keeps leave_keeps place_keeps append_keeps mark_keeps

lemma reach_length: "reach int_solve query vol_limit trie bounds T0 T \<Longrightarrow> length (pcs T) = length (pcs T0)"
proof (induction rule: reach.induct)
  case (step T i T')
  from step.hyps(2) have "length (pcs T') = length (pcs T)" by (cases rule: tstep.cases) (auto dest: step_keeps)
  with step.IH show ?case by simp
qed (auto simp: spurious_def dest: wake_keeps)

text \<open>Solvers that always answer: the process never exits in the middle of the search.\<close>

locale sure_judges = judges +
  assumes pos_sure: "i < k \<Longrightarrow> s \<in> GP i \<Longrightarrow> length (coords b) = n \<Longrightarrow> \<exists>r s'. query s b = Inr (r, s')"
    and neg_sure: "i < k \<Longrightarrow> s \<in> GN i \<Longrightarrow> length (coords b) = n \<Longrightarrow> \<exists>r s'. query s b = Inr (r, s')"
begin

lemma examine_completed:
  assumes "examine query is found (b, ps, ns) = Inr (r, b', ps', ns')" and "ready ps ns" and "length (coords b) = n" and "set is \<subseteq> {..<k}"
  shows "\<exists>f. r = Completed f"
  using assms
proof (induction "is" arbitrary: found b ps ns)
  case (Cons i "is")
  have i: "i < k" using Cons.prems(4) by simp
  with Cons.prems(2) have ok: "ps ! i \<in> GP i" "ns ! i \<in> GN i" and ready_len: "length ps = k" "length ns = k" by (auto simp: ready_def)
  from pos_sure[OF i ok(1) Cons.prems(3)] obtain y s where y: "query (ps ! i) b = Inr (y, s)" by blast
  from neg_sure[OF i ok(2) Cons.prems(3)] obtain z s' where z: "query (ns ! i) b = Inr (z, s')" by blast
  have s: "s \<in> GP i" "s' \<in> GN i"
    using pos[OF i, unfolded answers_def, rule_format, OF ok(1) Cons.prems(3)] neg[OF i, unfolded answers_def, rule_format, OF ok(2) Cons.prems(3)]
    by (simp_all add: y z)
  note rd = ready_upd(1)[OF Cons.prems(2) s(1)] ready_upd(2)[OF ready_upd(1)[OF Cons.prems(2) s(1)] s(2)]
  have is': "set is \<subseteq> {..<k}" using Cons.prems(4) by simp
  have bnd: "\<not> (length (curr_state_vec b) \<le> i \<or> length ps \<le> i)" "\<not> length ns \<le> i"
    using Cons.prems(1) i ready_len by (simp_all split: if_splits)
  note run = Cons.prems(1)[unfolded examine.simps if_not_P[OF bnd(1)] y z if_not_P[OF bnd(2)] sum.case prod.case]
  show ?case
  proof (cases "0 < curr_state_vec b ! i")
    case True
    with run show ?thesis using Cons.IH[OF _ Cons.prems(2,3) is'] by simp
  next
    case seen: False
    show ?thesis
    proof (cases y)
      case True
      with seen run have "examine query is found (note_verdict i 1 b, ps[i := s], ns) = Inr (r, b', ps', ns')" by simp
      from Cons.IH[OF this rd(1) _ is'] Cons.prems(3) show ?thesis by (simp add: note_verdict_def)
    next
      case False
      show ?thesis
      proof (cases z)
        case True
        with seen False run show ?thesis by auto
      next
        case zF: False
        with seen False run have "examine query is (if found = 2 then 1 else found) (b, ps[i := s], ns[i := s']) = Inr (r, b', ps', ns')" by simp
        from Cons.IH[OF this rd(2) Cons.prems(3) is'] show ?thesis .
      qed
    qed
  qed
qed auto

lemma tstep_no_exit:
  assumes inv: "tinv int_solve vol_limit need dn pend T" and step: "tstep int_solve query vol_limit trie bounds i T T'"
  shows "\<not> exited T'"
  using step
proof (cases rule: tstep.cases)
  case (process a b r)
  have o: "owner (pcs T ! i) = Some a" using process(3) by (simp add: pc_defs)
  have ow: "owners_inv int_solve vol_limit dn T" and pool: "pool (tok int_solve) (frags (fi T)) (dn @ pend)"
    and st: "ready (s_pos (fi T)) (s_neg (fi T))" using inv by (auto simp: tinv_def chain_inv_def)
  have "tok int_solve b" using pool_box[OF pool, of a] ownersD(1)[OF ow process(1) o] cells_box_at[OF process(4)] by auto
  then have len: "length (coords b) = n" by (simp add: tok_def certified_def)
  have "set [0..<length (s_pos (fi T))] \<subseteq> {..<k}" using st by (auto simp: ready_def)
  note compl = examine_completed[OF _ st len this]
  have "r \<noteq> PExit fate b'" for fate b'
    using process(5) compl by (fastforce simp: process_box_def proc_of_def bindO_def split: option.splits sum.splits if_splits try_result.splits fate.splits prod.splits)
  with leave_keeps[OF process(6)] process(2) show ?thesis by blast
qed (auto dest: step_keeps)

text \<open>The number of steps is bounded, and every state can be brought to the end.\<close>

lemma run_steps_bounded:
  assumes "run_steps int_solve query vol_limit trie bounds T0 j T" and inv: "tinv int_solve vol_limit need dn0 pend0 T0" "\<not> exited T0"
    and clear: "\<And>x i. x \<in> need \<Longrightarrow> i < k \<Longrightarrow> \<not> N i x" and trie: "trie_fits int_solve n trie bounds need"
    and ints: "\<And>x. x \<in> need \<Longrightarrow> int_solve \<longrightarrow> int_point x" and vol: "0 < vol_limit"
  shows "\<exists>dn pend. tinv int_solve vol_limit need dn pend T \<and> \<not> exited T \<and> j + todo vol_limit pend T \<le> todo vol_limit pend0 T0"
  using assms(1)
proof (induction rule: run_steps.induct)
  case none
  then show ?case using inv by auto
next
  case (step j T i T')
  then obtain dn pend where t: "tinv int_solve vol_limit need dn pend T" "j + todo vol_limit pend T \<le> todo vol_limit pend0 T0" by blast
  note ex = tstep_no_exit[OF t(1) step.hyps(2)]
  from tstep_todo[OF t(1) step.hyps(2) ex clear trie ints vol] ex t(2) show ?case by fastforce
next
  case (spur j T i T')
  then obtain dn pend where t: "tinv int_solve vol_limit need dn pend T" "\<not> exited T" "j + todo vol_limit pend T \<le> todo vol_limit pend0 T0" by blast
  have w: "i < length (pcs T)" "holder T = None" "pcs T ! i = Waiting False" "wake_up i T = Inr T'"
    using spur.hyps(2) by (auto simp: spurious_def)
  have "n_threads_active T = int (n_active (pcs T))" using t(1) by (simp add: tinv_def lock_inv_def)
  with enter_todo[OF t(1) w(1) _ w(2) _ _ w(4)[unfolded wake_up_def]] w(3) t(2,3) show ?case by (fastforce simp: pc_defs)
qed

lemma some_run_ends:
  assumes "tinv int_solve vol_limit need dn pend T" and "\<not> exited T"
    and clear: "\<And>x i. x \<in> need \<Longrightarrow> i < k \<Longrightarrow> \<not> N i x" and trie: "trie_fits int_solve n trie bounds need"
    and ints: "\<And>x. x \<in> need \<Longrightarrow> int_solve \<longrightarrow> int_point x" and vol: "0 < vol_limit"
  shows "\<exists>T'. reach int_solve query vol_limit trie bounds T T' \<and> \<not> exited T' \<and> (\<forall>i < length (pcs T'). pcs T' ! i = Finished)"
  using assms(1,2)
proof (induction "todo vol_limit pend T" arbitrary: dn pend T rule: less_induct)
  case less
  show ?case
  proof (cases "\<forall>i < length (pcs T). pcs T ! i = Finished")
    case True
    then show ?thesis using less.prems(2) reach.start by blast
  next
    case False
    then obtain i where i: "i < length (pcs T)" "pcs T ! i \<noteq> Finished" by blast
    have "thread_inv int_solve vol_limit need T" unfolding thread_inv_def using less.prems by auto
    from some_thread_moves[OF this less.prems(2) i clear trie ints] obtain j T1 where
      step: "tstep int_solve query vol_limit trie bounds j T T1" by blast
    note ex = tstep_no_exit[OF less.prems(1) step]
    from tstep_todo[OF less.prems(1) step ex clear trie ints vol] obtain dn1 pend1 where
      "tinv int_solve vol_limit need dn1 pend1 T1" "todo vol_limit pend1 T1 < todo vol_limit pend T" by blast
    from less.hyps[OF this(2,1) ex] reach_trans[OF _ reach.step[OF reach.start step]] show ?thesis by blast
  qed
qed

end

interpretation drv_sure: sure_judges "query_of optimize check (driver_ids n) 0" n k "\<lambda>i. nonneg_at (rs i)" "\<lambda>i. nonneg_at (qs i)"
    "\<lambda>i. driver_solvers optimize n (rs i)" "\<lambda>i. driver_solvers optimize n (qs i)"
  for optimize check n k rs qs
  by unfold_locales (use driver_solvers_query in blast)+

subsection \<open>The searches of the drivers\<close>

text \<open>The most steps \<open>m\<close> threads can make on a first box \<open>b\<close>.\<close>

definition thread_bound :: "double \<Rightarrow> nat \<Rightarrow> bounding_box \<Rightarrow> nat" where
  "thread_bound vol m b = (5 * pot vol b * Suc m + m) * Suc (4 * m) + 3 * m"

lemma driver_start:
  assumes d: "driver_search optimize n rs qs acoords ps ns" and st: "frag_new acoords ps ns = Inr st"
  shows "drv.tinv n (length ps) rs optimize qs int_solve vol_limit (wanted int_solve acoords (length ps) qs) [] [0] (run_threads_start m st)"
    and "todo vol_limit [0] (run_threads_start m st) = thread_bound vol_limit m (box_new acoords)" and "\<not> exited (run_threads_start m st)"
proof -
  have ready: "drv.ready (length ps) optimize n rs qs ps ns" using d by (simp add: driver_search_def drv.ready_def)
  from drv.start_tinv[OF ready, where acoords = acoords and vol_limit = vol_limit and int_solve = int_solve and m = m
      and need = "wanted int_solve acoords (length ps) qs"] d st wantedD(1)
  show "drv.tinv n (length ps) rs optimize qs int_solve vol_limit (wanted int_solve acoords (length ps) qs) [] [0] (run_threads_start m st)"
    by (auto simp: driver_search_def)
  have "pot vol_limit (init_curr_state_vec (length ps) (box_new acoords)) = pot vol_limit (box_new acoords)"
    by (rule pot_coords) (simp add: init_curr_state_vec_def)
  moreover have "sum_list (replicate m x) = m * x" for x :: nat by (induction m) simp_all
  ultimately show "todo vol_limit [0] (run_threads_start m st) = thread_bound vol_limit m (box_new acoords)"
    by (simp add: todo_def load_def unfinished_def thread_bound_def run_threads_start_def frag_new_cells[OF st] box_pot_def)
qed (simp add: run_threads_start_def)

lemma driver_steps_bounded:
  assumes d: "driver_search optimize n rs qs acoords ps ns" and st: "frag_new acoords ps ns = Inr st"
    and trie: "trie_fits int_solve n trie acoords (wanted int_solve acoords (length ps) qs)" and vol: "0 < vol_limit"
    and run: "run_steps int_solve (query_of optimize check (driver_ids n) 0) vol_limit trie acoords (run_threads_start m st) j T"
  shows "j \<le> thread_bound vol_limit m (box_new acoords)" and "\<not> exited T"
    and "\<exists>T'. reach int_solve (query_of optimize check (driver_ids n) 0) vol_limit trie acoords T T' \<and> \<not> exited T'
       \<and> pcs T' = replicate m Finished"
proof -
  note start = driver_start(1)[OF d st, where int_solve = int_solve and vol_limit = vol_limit and m = m]
    driver_start(2)[OF d st, of vol_limit m] driver_start(3)[OF d st, of m]
  have w: "x \<in> wanted int_solve acoords (length ps) qs \<Longrightarrow> int_solve \<longrightarrow> int_point x"
    "x \<in> wanted int_solve acoords (length ps) qs \<Longrightarrow> i < length ps \<Longrightarrow> \<not> nonneg_at (qs i) x" for x i
    using wantedD(2,3) by blast+
  from drv_sure.run_steps_bounded[OF run start(1,3) w(2) trie w(1) vol] obtain dn pend where
    t: "drv.tinv n (length ps) rs optimize qs int_solve vol_limit (wanted int_solve acoords (length ps) qs) dn pend T" "\<not> exited T"
    and j: "j + todo vol_limit pend T \<le> todo vol_limit [0] (run_threads_start m st)" by blast
  show "j \<le> thread_bound vol_limit m (box_new acoords)" "\<not> exited T" using j t(2) by (simp_all add: start(2))
  from drv_sure.some_run_ends[OF t w(2) trie w(1) vol, of check] obtain T' where
    T': "reach int_solve (query_of optimize check (driver_ids n) 0) vol_limit trie acoords T T'" "\<not> exited T'"
    and fin: "\<forall>i < length (pcs T'). pcs T' ! i = Finished" by blast
  have "length (pcs T') = m" using reach_length[OF T'(1)] reach_length[OF run_steps_reach[OF run]] by (simp add: run_threads_start_def)
  with fin have "pcs T' = replicate m Finished" by (simp add: list_eq_iff_nth_eq)
  with T' show "\<exists>T'. reach int_solve (query_of optimize check (driver_ids n) 0) vol_limit trie acoords T T' \<and> \<not> exited T'
       \<and> pcs T' = replicate m Finished" by blast
qed

text \<open>A driver does not exit in the middle of its search, whatever the size limit.\<close>

lemma driver_no_exit:
  assumes d: "driver_search optimize n rs qs acoords ps ns" and st: "frag_new acoords ps ns = Inr st"
    and trie: "trie_fits int_solve n trie acoords (wanted int_solve acoords (length ps) qs)"
    and T: "reach int_solve (query_of optimize check (driver_ids n) 0) vol_limit trie acoords (run_threads_start m st) T"
  shows "\<not> exited T"
  using T
proof (cases rule: reach.cases)
  case start
  then show ?thesis by (simp add: run_threads_start_def)
next
  case (step T1 i)
  have "\<not> exited T1" using step(2) by (cases rule: tstep.cases) auto
  with driver_reach_inv[OF d st trie step(1)] obtain dn pend where
    "drv.tinv n (length ps) rs optimize qs int_solve vol_limit (wanted int_solve acoords (length ps) qs) dn pend T1" by (auto simp: drv.thread_inv_def)
  from drv_sure.tstep_no_exit[OF this step(2)] show ?thesis .
next
  case (spur T1 i)
  then show ?thesis by (auto simp: spurious_def dest: wake_keeps)
qed



end
