(* ===== verification/Driver_Programs.thy ===== *)
theory Driver_Programs
  imports Driver_Finish Driver_Bound Poly_Exprs Threads_Ends
begin

text \<open>
  The programs \<^verbatim>\<open>tests/test1.cpp\<close> to \<^verbatim>\<open>test16.cpp\<close> and \<^verbatim>\<open>tests8.cpp\<close>: their constraints, boxes, degree bounds and
  numbers of threads, and what running them gives.  All search with the size limit 0.7 and over
  the integers, and all name their group of bound templates \<^verbatim>\<open>t4\<close>.
\<close>

record driver_program =
  dirs :: nat
  out_idx :: nat
  max_degree :: int
  box_bounds :: "(int \<times> int) list"
  workers :: nat
  with_code :: bool
  constraints :: "(poly_expr \<times> bool) list"

text \<open>
  The flag of a constraint says that \<^verbatim>\<open>e_c[0]=e_c[0]*(-1)\<close> follows its assignment, as for the second one of
  \<^verbatim>\<open>test16.cpp\<close>.  The preparation of a core leaves \<^verbatim>\<open>v[0]\<close>, \<^verbatim>\<open>v[1]\<close>, \<open>\<dots>\<close> alone, so the table is the one before the loop
  for all constraints.
\<close>

definition constraint_poly :: "double vars \<Rightarrow> poly_expr \<times> bool \<Rightarrow> double multinomial result" where
  "constraint_poly v c =
     bindR (build v (fst c)) (\<lambda>p.
     bindR (if snd c then negated (assign p) else Inr (assign p)) (\<lambda>q.
     Inr (set_save True q)))"

definition program_polys :: "driver_program \<Rightarrow> double multinomial list result" where
  "program_polys p = bindR (driver_table (dirs p) ''t4'') (\<lambda>(t, v). mapR (constraint_poly v) (constraints p))"

definition program_setup :: "driver_program \<Rightarrow> (double multinomial list \<times> double vars \<times> solver_obj list \<times> solver_obj list) run" where
  "program_setup p =
     bindO (Some (program_polys p)) (\<lambda>polys.
     bindO (driver_setup (dirs p) (max_degree p) ''t4'' polys) (\<lambda>(v, ps, ns).
     Some (Inr (polys, v, ps, ns))))"

text \<open>\<^verbatim>\<open>f->run_threads(80000,0.7,dump_file,NULL,20,true)\<close>.\<close>

definition program_reach :: "double optimizer \<Rightarrow> (zform list \<Rightarrow> check_result) \<Rightarrow> driver_program
    \<Rightarrow> solver_obj fragmentation_intersection \<Rightarrow> solver_obj threads \<Rightarrow> bool" where
  "program_reach optimize check p st T \<longleftrightarrow>
     reach True (query_of optimize check (driver_ids (dirs p)) 0) (7 / 10) None (grid (box_bounds p)) (run_threads_start (workers p) st) T"

subsection \<open>The programs\<close>

text \<open>A sum, \<^verbatim>\<open>((v[i]*-1+circles[j][i])^e)*(coeff[j][i])\<close>, and the constraints built from them.\<close>

definition sum_expr :: "poly_expr list \<Rightarrow> poly_expr" where
  "sum_expr es = foldl PAdd (hd es) (tl es)"

definition circle_expr :: "u16 list \<Rightarrow> double list \<Rightarrow> double list \<Rightarrow> poly_expr" where
  "circle_expr es circle coeff =
     PAddC (PMulC (sum_expr (map (\<lambda>i. PMulC (PPow (PAddC (PMulC (PVar i) (- 1)) (circle ! i)) (es ! i)) (coeff ! i)) [0..<length es])) (- 1))
       (circle ! length es * circle ! length es)"

text \<open>The constraints of \<^verbatim>\<open>test8.cpp\<close>, which has no squares.\<close>

definition linear_expr :: "double list \<Rightarrow> double list \<Rightarrow> poly_expr" where
  "linear_expr circle coeff =
     PAddC (PMulC (sum_expr (map (\<lambda>i. PMulC (PAddC (PMulC (PVar i) (- 1)) (circle ! i)) (coeff ! i)) [0..<4])) (- 1)) (circle ! 4)"

abbreviation as_written :: "poly_expr list \<Rightarrow> (poly_expr \<times> bool) list" where
  "as_written es \<equiv> map (\<lambda>e. (e, False)) es"

definition test1 :: driver_program where
  "test1 = \<lparr>dirs = 3, out_idx = 2, max_degree = 2, box_bounds = [(-4, 4), (-4, 4), (-4, 4)], workers = 20, with_code = False,
     constraints = as_written [
       PAddC (PMulC (sum_expr [PMulC (PPow (PVar 0) 2) 3, PMulC (PMul (PVar 0) (PVar 1)) 2, PPow (PVar 1) 2, PPow (PVar 2) 2,
         PMulC (PVar 0) (-1), PVar 1]) (-1)) 7,
       PAddC (PMulC (sum_expr [PPow (PVar 0) 2, PPow (PVar 1) 2, PPow (PAddC (PVar 2) (-1)) 2]) (-1)) 4,
       PAddC (PMulC (sum_expr [PPow (PAddC (PVar 0) (-1)) 2, PPow (PAddC (PVar 1) (-1)) 2, PPow (PAddC (PVar 2) (-2)) 2,
         PMulC (PMul (PVar 0) (PVar 1)) (-1), PMulC (PMul (PVar 0) (PVar 2)) (-1)]) (-1)) 4]\<rparr>"

definition test2 :: driver_program where
  "test2 = \<lparr>dirs = 2, out_idx = 1, max_degree = 2, box_bounds = [(-4, 4), (-4, 4)], workers = 20, with_code = True,
     constraints = as_written [circle_expr [2, 2] [1, 2, 4] [1, 1],
       circle_expr [2, 2] [-2, 0, 4] [1, 1]]\<rparr>"

definition test3 :: driver_program where
  "test3 = \<lparr>dirs = 2, out_idx = 1, max_degree = 2, box_bounds = [(-4, 4), (-4, 4)], workers = 20, with_code = False,
     constraints = as_written [circle_expr [2, 2] [1, 2, 8] [4, 1],
       circle_expr [2, 2] [-2, 0, 8] [1, 4]]\<rparr>"

definition test4 :: driver_program where
  "test4 = \<lparr>dirs = 2, out_idx = 1, max_degree = 2, box_bounds = [(0, 80), (0, 80)], workers = 20, with_code = False,
     constraints = as_written [circle_expr [2, 2] [20, 20, 10] [1, 1],
       circle_expr [2, 2] [30, 30, 30] [1, 1],
       circle_expr [2, 2] [40, 40, 30] [1, 1]]\<rparr>"

definition test5 :: driver_program where
  "test5 = \<lparr>dirs = 2, out_idx = 1, max_degree = 2, box_bounds = [(0, 80), (0, 80)], workers = 20, with_code = False,
     constraints = as_written [circle_expr [2, 2] [20, 20, 10] [1, 4],
       circle_expr [2, 2] [30, 30, 30] [2, 2],
       circle_expr [2, 2] [40, 40, 30] [3, 1]]\<rparr>"

definition test6 :: driver_program where
  "test6 = \<lparr>dirs = 3, out_idx = 2, max_degree = 2, box_bounds = [(0, 80), (0, 80), (0, 80)], workers = 20, with_code = False,
     constraints = as_written [circle_expr [2, 2, 2] [20, 30, 20, 10] [1, 1, 1],
       circle_expr [2, 2, 2] [30, 40, 25, 25] [1, 1, 1]]\<rparr>"

definition test7 :: driver_program where
  "test7 = \<lparr>dirs = 3, out_idx = 2, max_degree = 2, box_bounds = [(0, 400), (0, 400), (0, 400)], workers = 20, with_code = False,
     constraints = as_written [circle_expr [2, 2, 2] [200, 300, 200, 150] [1, 4, 1],
       circle_expr [2, 2, 2] [300, 400, 200, 270] [4, 1, 1]]\<rparr>"

definition test8 :: driver_program where
  "test8 = \<lparr>dirs = 4, out_idx = 2, max_degree = 2, box_bounds = [(0, 40), (0, 40), (0, 40), (0, 40)], workers = 20, with_code = False,
     constraints = as_written [linear_expr [10, 10, 10, 10, 15] [1, 2, 1, 2], linear_expr [20, 20, 20, 20, 15] [2, 1, 1, 2]]\<rparr>"

definition test9 :: driver_program where
  "test9 = \<lparr>dirs = 3, out_idx = 2, max_degree = 2, box_bounds = [(0, 80), (0, 80), (0, 80)], workers = 20, with_code = False,
     constraints = as_written [circle_expr [2, 2, 2] [20, 30, 20, 15] [1, 4, 2],
       circle_expr [2, 2, 2] [30, 40, 25, 27] [2, 1, 2],
       circle_expr [2, 2, 2] [40, 35, 25, 30] [1, 3, 1]]\<rparr>"

definition test10 :: driver_program where
  "test10 = \<lparr>dirs = 4, out_idx = 3, max_degree = 2, box_bounds = [(0, 40), (0, 40), (0, 40), (0, 40)], workers = 20, with_code = False,
     constraints = as_written [circle_expr [2, 2, 2, 2] [10, 10, 10, 10, 15] [1, 1, 1, 1],
       circle_expr [2, 2, 2, 2] [20, 20, 20, 20, 15] [1, 1, 1, 1]]\<rparr>"

definition test11 :: driver_program where
  "test11 = \<lparr>dirs = 4, out_idx = 2, max_degree = 2, box_bounds = [(0, 40), (0, 40), (0, 40), (0, 40)], workers = 20, with_code = False,
     constraints = as_written [circle_expr [2, 2, 2, 2] [10, 10, 10, 10, 15] [1, 1, 1, 1],
       circle_expr [2, 2, 2, 2] [20, 20, 20, 20, 15] [1, 1, 1, 1]]\<rparr>"

definition test12 :: driver_program where
  "test12 = \<lparr>dirs = 2, out_idx = 1, max_degree = 4, box_bounds = [(-40, 40), (-40, 40)], workers = 20, with_code = False,
     constraints = as_written [circle_expr [2, 4] [10, 20, 40] [1, 1],
       circle_expr [2, 4] [-20, 23, 40] [1, 1]]\<rparr>"

definition test13 :: driver_program where
  "test13 = \<lparr>dirs = 3, out_idx = 2, max_degree = 4, box_bounds = [(0, 80), (0, 80), (0, 80)], workers = 20, with_code = False,
     constraints = as_written [circle_expr [2, 2, 4] [20, 30, 20, 10] [1, 1, 1],
       circle_expr [2, 2, 4] [30, 40, 25, 25] [1, 1, 1]]\<rparr>"

definition test14 :: driver_program where
  "test14 = \<lparr>dirs = 4, out_idx = 3, max_degree = 4, box_bounds = [(15, 25), (15, 25), (15, 25), (15, 25)], workers = 20, with_code = False,
     constraints = as_written [circle_expr [2, 2, 4, 2] [10, 10, 10, 10, 40] [1, 1, 1, 1],
       circle_expr [2, 2, 4, 2] [20, 20, 13, 20, 30] [1, 1, 1, 1]]\<rparr>"

definition test15 :: driver_program where
  "test15 = \<lparr>dirs = 4, out_idx = 2, max_degree = 4, box_bounds = [(15, 25), (15, 25), (15, 25), (15, 25)], workers = 20, with_code = False,
     constraints = as_written [circle_expr [2, 2, 4, 2] [10, 10, 10, 10, 40] [1, 1, 1, 1],
       circle_expr [2, 2, 4, 2] [20, 20, 13, 20, 30] [1, 1, 1, 1]]\<rparr>"

text \<open>The radii are \<^verbatim>\<open>std::pow(45,0.5)\<close> and \<^verbatim>\<open>std::pow(30,0.5)\<close>, which are arguments here.\<close>

definition test16 :: "double \<Rightarrow> double \<Rightarrow> driver_program" where
  "test16 r45 r30 = \<lparr>dirs = 2, out_idx = 1, max_degree = 2, box_bounds = [(-5, 5), (-5, 5)], workers = 20, with_code = False,
     constraints = [(circle_expr [2, 2] [0, 0, r45] [1, 1], False), (circle_expr [2, 2] [0, 0, r30] [1, 1], True)]\<rparr>"

definition tests8 :: driver_program where
  "tests8 = \<lparr>dirs = 3, out_idx = 2, max_degree = 2, box_bounds = [(0, 80), (0, 80), (0, 80)], workers = 10, with_code = False,
     constraints = as_written [circle_expr [2, 2, 2] [20, 30, 20, 15] [1, 1, 1],
       circle_expr [2, 2, 2] [30, 40, 25, 27] [1, 1, 1],
       circle_expr [2, 2, 2] [40, 35, 25, 30] [1, 1, 1]]\<rparr>"

text \<open>The constraint says that the weighted sum of powers is at most the square of the last entry.\<close>

lemma pvalue_sum_expr: "es \<noteq> [] \<Longrightarrow> pvalue x (sum_expr es) = (\<Sum>e\<leftarrow>es. pvalue x e)"
proof -
  have "pvalue x (foldl PAdd e es) = pvalue x e + (\<Sum>e\<leftarrow>es. pvalue x e)" for e es by (induction es arbitrary: e) (simp_all add: add.assoc)
  then show "es \<noteq> [] \<Longrightarrow> ?thesis" by (cases es) (simp_all add: sum_expr_def)
qed

lemma circle_value:
  assumes "es \<noteq> []"
  shows "pvalue x (circle_expr es circle coeff)
     = (circle ! length es)\<^sup>2 - (\<Sum>i<length es. coeff ! i * (circle ! i - x i) ^ unat (es ! i))"
proof -
  have "(\<Sum>i\<leftarrow>[0..<length es]. (circle ! i - x i) ^ unat (es ! i) * coeff ! i) = (\<Sum>i<length es. coeff ! i * (circle ! i - x i) ^ unat (es ! i))"
    by (simp add: sum_list_sum_nth atLeast0LessThan mult.commute)
  with assms show ?thesis by (simp add: circle_expr_def pvalue_sum_expr o_def power2_eq_square)
qed

text \<open>All programs with integer data.\<close>

definition programs :: "driver_program list" where
  "programs = [test1, test2, test3, test4, test5, test6, test7, test8, test9, test10, test11, test12, test13, test14, test15, tests8]"

lemmas program_defs = test1_def test2_def test3_def test4_def test5_def test6_def test7_def test8_def test9_def test10_def test11_def test12_def test13_def test14_def test15_def test16_def tests8_def

subsection \<open>The polynomials of a program\<close>

definition cvalue :: "(nat \<Rightarrow> double) \<Rightarrow> poly_expr \<times> bool \<Rightarrow> double" where
  "cvalue x c = (if snd c then - pvalue x (fst c) else pvalue x (fst c))"

lemma constraint_poly_ok:
  assumes dv: "driver_vars n t v" and fits: "expr_fits n (fst c)"
  shows "\<exists>q. constraint_poly v c = Inr q \<and> wf_poly q \<and> over n n q \<and> (\<forall>x. eval x q = cvalue (\<lambda>i. x (of_nat i)) c)"
proof -
  from build_denotes[OF assms] obtain p where p: "build v (fst c) = Inr p" "wf_poly p" "over n n p"
    "\<And>x. eval x p = pvalue (\<lambda>i. x (of_nat i)) (fst c)" unfolding denotes_def by blast
  have a: "wf_poly (assign p)" "over n n (assign p)" using p(2,3) by (simp_all add: over_def)
  from negated_ok[OF a] obtain q where q: "negated (assign p) = Inr q" "wf_poly q" "over n n q" "\<And>x. eval x q = - eval x (assign p)" by blast
  show ?thesis
  proof (cases "snd c")
    case True
    with p q show ?thesis by (simp add: constraint_poly_def cvalue_def over_def)
  next
    case False
    with p a show ?thesis by (simp add: constraint_poly_def cvalue_def over_def)
  qed
qed

lemma mapR_list_all2: "(\<And>x. x \<in> set xs \<Longrightarrow> \<exists>y. f x = Inr y \<and> P x y) \<Longrightarrow> \<exists>ys. mapR f xs = Inr ys \<and> list_all2 P xs ys"
proof (induction xs)
  case (Cons x xs)
  then obtain y ys where "f x = Inr y" "P x y" "mapR f xs = Inr ys" "list_all2 P xs ys" by (meson list.set_intros)
  then show ?case by auto
qed simp

text \<open>What the set-up needs of a program; the room left for the templates of all cores is the last condition.\<close>

definition program_ok :: "driver_program \<Rightarrow> bool" where
  "program_ok p \<longleftrightarrow> 0 < dirs p \<and> dirs p < 100 \<and> 0 < max_degree p \<and> max_degree p < 100
     \<and> 0 < length (constraints p) \<and> length (constraints p) < 100 \<and> list_all (\<lambda>c. expr_fits (dirs p) (fst c)) (constraints p)
     \<and> list_all (\<lambda>b. fst b < snd b \<and> \<bar>fst b\<bar> < 1000 \<and> \<bar>snd b\<bar> < 1000) (box_bounds p) \<and> length (box_bounds p) = dirs p
     \<and> length (constraints p) * (2 * core_templates (dirs p) (max_degree p)) < 10000"

lemma program_polys_ok:
  assumes "program_ok p"
  shows "\<exists>polys. program_polys p = Inr polys \<and> driver_data (dirs p) (max_degree p) ''t4'' polys
     \<and> list_all2 (\<lambda>c r. \<forall>x. eval x r = cvalue (\<lambda>i. x (of_nat i)) c) (constraints p) polys"
proof -
  let ?n = "dirs p"
  let ?P = "\<lambda>c r. wf_poly r \<and> over ?n ?n r \<and> (\<forall>x. eval x r = cvalue (\<lambda>i. x (of_nat i)) c)"
  have small: "?n + ?n + ?n < 2 ^ 31" using assms by (simp add: program_ok_def)
  from driver_table_total[OF small] obtain t v where tv: "driver_table ?n ''t4'' = Inr (t, v)" by blast
  note dv = driver_table_ok[OF tv small]
  have "\<exists>ys. mapR (constraint_poly v) (constraints p) = Inr ys \<and> list_all2 ?P (constraints p) ys"
    by (rule mapR_list_all2, rule constraint_poly_ok[OF dv]) (use assms in \<open>auto simp: program_ok_def list_all_iff\<close>)
  then obtain polys where polys: "mapR (constraint_poly v) (constraints p) = Inr polys" "list_all2 ?P (constraints p) polys" by blast
  have len: "length polys = length (constraints p)" using list_all2_lengthD[OF polys(2)] by simp
  have "\<forall>r \<in> set polys. wf_poly r \<and> over ?n ?n r" using polys(2) by (auto simp: list_all2_conv_all_nth in_set_conv_nth)
  then have "driver_data ?n (max_degree p) ''t4'' polys" using assms len by (auto simp: driver_data_def program_ok_def group_ok_def)
  moreover have "list_all2 (\<lambda>c r. \<forall>x. eval x r = cvalue (\<lambda>i. x (of_nat i)) c) (constraints p) polys"
    by (rule list_all2_mono[OF polys(2)]) simp
  ultimately show ?thesis using polys(1) tv by (auto simp: program_polys_def)
qed

lemma program_setup_ok:
  assumes "program_ok p"
  shows "\<exists>polys v ps ns. program_setup p = Some (Inr (polys, v, ps, ns)) \<and> driver_data (dirs p) (max_degree p) ''t4'' polys
     \<and> driver_setup (dirs p) (max_degree p) ''t4'' polys = Some (Inr (v, ps, ns))
     \<and> list_all2 (\<lambda>c r. \<forall>x. eval x r = cvalue (\<lambda>i. x (of_nat i)) c) (constraints p) polys"
proof -
  from program_polys_ok[OF assms] obtain polys where
    p: "program_polys p = Inr polys" "driver_data (dirs p) (max_degree p) ''t4'' polys"
    and val: "list_all2 (\<lambda>c r. \<forall>x. eval x r = cvalue (\<lambda>i. x (of_nat i)) c) (constraints p) polys" by blast
  have "3 * dirs p + length polys * (2 * core_templates (dirs p) (max_degree p)) < 2 ^ 32"
    using assms list_all2_lengthD[OF val] by (simp add: program_ok_def)
  from driver_setup_made[OF p(2) this] p val show ?thesis by (auto simp: program_setup_def)
qed

lemma core_templates_values:
  "core_templates 2 2 = 15" "core_templates 3 2 = 28" "core_templates 4 2 = 45" "core_templates 2 4 = 70" "core_templates 3 4 = 210" "core_templates 4 4 = 495"
  by (simp_all add: core_templates_def numeral_eq_Suc)

lemma programs_ok: "p \<in> set programs \<Longrightarrow> program_ok p" and test16_ok: "program_ok (test16 r45 r30)"
proof -
  note eval = program_ok_def core_templates_values sum_expr_def circle_expr_def linear_expr_def upt_rec
  have "list_all program_ok programs" by (simp add: programs_def program_defs eval)
  then show "p \<in> set programs \<Longrightarrow> program_ok p" by (simp add: list_all_iff)
  show "program_ok (test16 r45 r30)" by (simp add: test16_def eval)
qed

text \<open>The polynomials of the programs with integer data have integer coefficients, so z3 and the SyGuS file get them exactly.\<close>

fun int_coeffs :: "double multinomial \<Rightarrow> bool" where
  "int_coeffs (MConst s c) = (snd (quotient_of c) = 1)"
| "int_coeffs (MNode s k m) = list_all (\<lambda>(e, p). int_coeffs p) m"

lemma int_coeffs_exact: "int_coeffs p \<Longrightarrow> exact6 [] p"
proof (induction p rule: multinomial_induct)
  case (Const s c)
  then obtain i where "quotient_of c = (i, 1)" by (cases "quotient_of c") auto
  then have "c = of_int i" using quotient_of_div[of c i 1] by simp
  then show ?case by simp
next
  case (Node s k m)
  then show ?case by (auto simp: list_all_iff)
qed

definition int_program :: "driver_program \<Rightarrow> bool" where
  "int_program p = (case program_polys p of Inl err \<Rightarrow> False | Inr polys \<Rightarrow> list_all int_coeffs polys)"

lemma int_programs: "list_all int_program programs"
  by code_simp

subsection \<open>Running a program\<close>

lemma pvalue_cong: "expr_fits n e \<Longrightarrow> (\<And>i. i < n \<Longrightarrow> x i = y i) \<Longrightarrow> pvalue x e = pvalue y e"
  by (induction e) auto

lemma program_values:
  assumes ok: "program_ok p" and val: "list_all2 (\<lambda>c r. \<forall>x. eval x r = cvalue (\<lambda>i. x (of_nat i)) c) (constraints p) polys"
  shows "(\<forall>r \<in> set polys. P (eval (\<lambda>i. of_int (z ! unat i)) r)) \<longleftrightarrow> (\<forall>c \<in> set (constraints p). P (cvalue (\<lambda>i. of_int (z ! i)) c))"
proof -
  have small: "unat (of_nat i :: u32) = i" if "i < dirs p" for i using that ok by (simp add: program_ok_def unat_of_nat take_bit_nat_eq_self)
  have "eval (\<lambda>i. of_int (z ! unat i)) (polys ! j) = cvalue (\<lambda>i. of_int (z ! i)) (constraints p ! j)" if j: "j < length (constraints p)" for j
  proof -
    have "expr_fits (dirs p) (fst (constraints p ! j))" using ok j by (simp add: program_ok_def list_all_length)
    from pvalue_cong[OF this, of "\<lambda>i. of_int (z ! unat (of_nat i :: u32))" "\<lambda>i. of_int (z ! i)"] small
    show ?thesis using val j by (simp add: list_all2_conv_all_nth cvalue_def)
  qed
  moreover have "length polys = length (constraints p)" using list_all2_lengthD[OF val] by simp
  ultimately show ?thesis by (simp add: all_set_conv_all_nth)
qed

lemma program_search:
  assumes ok: "program_ok p" and opt: "optimizer_ok optimize" and data: "driver_data (dirs p) (max_degree p) ''t4'' polys"
    and made: "driver_setup (dirs p) (max_degree p) ''t4'' polys = Some (Inr (v, ps, ns))"
  shows "\<exists>st. driver_open junk ''0'' dump_file file (grid (box_bounds p)) ps ns = Inr (st, None) \<and> frag_new (grid (box_bounds p)) ps ns = Inr st
     \<and> driver_search optimize (dirs p) (\<lambda>i. polys ! i) (\<lambda>i. neg_poly (polys ! i)) (grid (box_bounds p)) ps ns"
proof -
  have box: "length (grid (box_bounds p)) = dirs p" "\<forall>c \<in> set (grid (box_bounds p)). fst c \<le> snd c"
    using ok by (auto simp: program_ok_def grid_def list_all_iff)
  note search = driver_setup_search(1)[OF data made opt box]
  then have "length ps = length ns" by (simp add: driver_search_def)
  then obtain st where "frag_new (grid (box_bounds p)) ps ns = Inr st" by (simp add: frag_new_def Let_def)
  moreover have "stoi ''0'' = Inr 0" by code_simp
  ultimately show ?thesis using search by (simp add: driver_open_def)
qed

lemma program_ends:
  assumes ok: "program_ok p" and opt: "optimizer_ok optimize"
  shows "\<exists>polys v ps ns st. program_setup p = Some (Inr (polys, v, ps, ns))
     \<and> list_all2 (\<lambda>c r. \<forall>x. eval x r = cvalue (\<lambda>i. x (of_nat i)) c) (constraints p) polys
     \<and> driver_open junk ''0'' dump_file file (grid (box_bounds p)) ps ns = Inr (st, None)
     \<and> (\<forall>j T. run_steps True (query_of optimize check (driver_ids (dirs p)) 0) (7 / 10) None (grid (box_bounds p)) (run_threads_start (workers p) st) j T
          \<longrightarrow> j \<le> thread_bound (7 / 10) (workers p) (box_new (grid (box_bounds p))))
     \<and> (\<exists>T. program_reach optimize check p st T \<and> \<not> exited T \<and> pcs T = replicate (workers p) Finished)"
proof -
  from program_setup_ok[OF ok] obtain polys v ps ns where
    whole: "program_setup p = Some (Inr (polys, v, ps, ns))" and data: "driver_data (dirs p) (max_degree p) ''t4'' polys"
    and made: "driver_setup (dirs p) (max_degree p) ''t4'' polys = Some (Inr (v, ps, ns))"
    and val: "list_all2 (\<lambda>c r. \<forall>x. eval x r = cvalue (\<lambda>i. x (of_nat i)) c) (constraints p) polys" by blast
  from program_search[OF ok opt data made] obtain st where
    op: "driver_open junk ''0'' dump_file file (grid (box_bounds p)) ps ns = Inr (st, None)" and st: "frag_new (grid (box_bounds p)) ps ns = Inr st"
    and d: "driver_search optimize (dirs p) (\<lambda>i. polys ! i) (\<lambda>i. neg_poly (polys ! i)) (grid (box_bounds p)) ps ns" by blast
  have vol: "(0 :: double) < 7 / 10" by simp
  note ends = driver_steps_bounded[OF d st trie_fits_None vol, where check = check and m = "workers p"]
  from ends(3)[OF run_steps.none] have "\<exists>T. program_reach optimize check p st T \<and> \<not> exited T \<and> pcs T = replicate (workers p) Finished"
    by (simp add: program_reach_def)
  with whole val op ends(1) show ?thesis by blast
qed

text \<open>
  C2: All programs end.  The set-up of each of the programs succeeds with any linear solver that
  keeps its contract, the polynomials it works with have the values of the constraints as they
  are written, and with the arguments of the program's call of \<^verbatim>\<open>run_threads\<close> the number of steps
  of the threads is bounded and they can all get to the end of their loops.
\<close>

theorem programs_end:
  assumes "p \<in> set programs \<or> p = test16 r45 r30" and "optimizer_ok optimize"
  shows "\<exists>polys v ps ns st. program_setup p = Some (Inr (polys, v, ps, ns))
     \<and> list_all2 (\<lambda>c r. \<forall>x. eval x r = cvalue (\<lambda>i. x (of_nat i)) c) (constraints p) polys
     \<and> driver_open junk ''0'' dump_file file (grid (box_bounds p)) ps ns = Inr (st, None)
     \<and> (\<forall>j T. run_steps True (query_of optimize check (driver_ids (dirs p)) 0) (7 / 10) None (grid (box_bounds p)) (run_threads_start (workers p) st) j T
          \<longrightarrow> j \<le> thread_bound (7 / 10) (workers p) (box_new (grid (box_bounds p))))
     \<and> (\<exists>T. program_reach optimize check p st T \<and> \<not> exited T \<and> pcs T = replicate (workers p) Finished)"
  using program_ends[OF _ assms(2)] assms(1) programs_ok test16_ok by blast

theorem programs_end_witness:
  "\<exists>polys v ps ns st T. program_setup test14 = Some (Inr (polys, v, ps, ns)) \<and> driver_open (\<lambda>_. (0, 0)) ''0'' [] [] (grid (box_bounds test14)) ps ns = Inr (st, None)
     \<and> program_reach ideal_optimizer (\<lambda>_. Unknown) test14 st T \<and> pcs T = replicate 20 Finished"
  using programs_end[of test14 0 0 ideal_optimizer "\<lambda>_. (0, 0)" "[]" "[]" "\<lambda>_. Unknown", OF _ ideal_optimizer_ok]
  by (auto simp: programs_def test14_def)


text \<open>\<^verbatim>\<open>test2.cpp\<close>, at the point \<open>(0, 0)\<close>: two circles of radius 4 around \<open>(1, 2)\<close> and \<open>(-2, 0)\<close>.\<close>

lemma test2_values:
  "(\<forall>c \<in> set (constraints test2). P (cvalue x c)) \<longleftrightarrow> P (16 - ((1 - x 0)\<^sup>2 + (2 - x 1)\<^sup>2)) \<and> P (16 - ((- 2 - x 0)\<^sup>2 + (0 - x 1)\<^sup>2))"
  by (simp add: test2_def cvalue_def circle_value lessThan_Suc add.commute power2_eq_square)


end
