(* ===== verification/Lin_Expr.thy ===== *)
theory Lin_Expr
  imports Gurobi
begin

text \<open>
  The rest of \<^verbatim>\<open>GRBLinExpr\<close> (\<^verbatim>\<open>LinExpr.cpp\<close>): copying, the assignment operators, the accessors, terms in
  bulk, removal of a variable, output and the free operators.  Variables are their positions in
  the model, so \<^verbatim>\<open>varRep\<close> is compared by comparing positions.  A quotient by zero is not a finite
  double; it is an error here.
\<close>

definition lin_term :: "nat \<Rightarrow> 'a \<Rightarrow> ('a::zero) linexpr" where
  "lin_term x coeff = \<lparr>lconstant = 0, coeffs = [coeff], lvars = [x]\<rparr>"

definition lin_assign :: "'a linexpr \<Rightarrow> 'a linexpr \<Rightarrow> 'a linexpr" where
  "lin_assign expr this = this\<lparr>lconstant := lconstant expr, coeffs := coeffs expr, lvars := lvars expr\<rparr>"

definition lin_add_assign :: "('a::{zero, one, plus, times}) linexpr \<Rightarrow> 'a linexpr \<Rightarrow> 'a linexpr" where
  "lin_add_assign expr this = multAdd 1 expr this"

definition lin_sub_assign :: "('a::{zero, one, plus, times, uminus}) linexpr \<Rightarrow> 'a linexpr \<Rightarrow> 'a linexpr" where
  "lin_sub_assign expr this = multAdd (- 1) expr this"

definition lin_div_assign :: "double \<Rightarrow> double linexpr \<Rightarrow> double linexpr result" where
  "lin_div_assign a this =
     (if a = 0 then Inl Undefined else Inr (this\<lparr>lconstant := lconstant this / a, coeffs := map (\<lambda>c. c / a) (coeffs this)\<rparr>))"

definition lin_size :: "'a linexpr \<Rightarrow> nat" where
  "lin_size l = length (lvars l)"

definition lin_getVar :: "nat \<Rightarrow> 'a linexpr \<Rightarrow> nat result" where
  "lin_getVar i l = (if i < length (lvars l) then Inr (lvars l ! i) else Inl Undefined)"

definition lin_getCoeff :: "nat \<Rightarrow> 'a linexpr \<Rightarrow> 'a result" where
  "lin_getCoeff i l = (if i < length (coeffs l) then Inr (coeffs l ! i) else Inl Undefined)"

text \<open>\<^verbatim>\<open>addTerms\<close>: a null pointer for the coefficients stands for ones.\<close>

fun lin_addTerms :: "('a::one) list option \<Rightarrow> nat list \<Rightarrow> nat \<Rightarrow> 'a linexpr \<Rightarrow> 'a linexpr result" where
  "lin_addTerms coeff var 0 l = Inr l"
| "lin_addTerms (Some (c # cs)) (v # vs) (Suc cnt) l = lin_addTerms (Some cs) vs cnt (l\<lparr>coeffs := coeffs l @ [c], lvars := lvars l @ [v]\<rparr>)"
| "lin_addTerms None (v # vs) (Suc cnt) l = lin_addTerms None vs cnt (l\<lparr>coeffs := coeffs l @ [1], lvars := lvars l @ [v]\<rparr>)"
| "lin_addTerms _ _ (Suc cnt) l = Inl Undefined"

text \<open>\<^verbatim>\<open>remove(GRBVar)\<close> goes over the terms from the last to the first.\<close>

definition erase :: "nat \<Rightarrow> 'b list \<Rightarrow> 'b list" where
  "erase i xs = take i xs @ drop (Suc i) xs"

primrec lin_remove_loop :: "nat \<Rightarrow> nat \<Rightarrow> 'a linexpr \<Rightarrow> 'a linexpr" where
  "lin_remove_loop v 0 l = l"
| "lin_remove_loop v (Suc i) l =
     lin_remove_loop v i (if v = lvars l ! i then l\<lparr>coeffs := erase i (coeffs l), lvars := erase i (lvars l)\<rparr> else l)"

definition lin_remove_var :: "nat \<Rightarrow> 'a linexpr \<Rightarrow> bool \<times> 'a linexpr" where
  "lin_remove_var v l = (let l' = lin_remove_loop v (length (lvars l)) l in (length (lvars l') < length (lvars l), l'))"

text \<open>\<^verbatim>\<open>operator<<\<close>, with the formats of a number and the names of the variables as arguments.\<close>

definition lin_print :: "('a \<Rightarrow> string) \<Rightarrow> (nat \<Rightarrow> string) \<Rightarrow> ('a::zero) linexpr \<Rightarrow> string" where
  "lin_print num name l =
     concat (map (\<lambda>(c, v). ''+ '' @ num c @ '' '' @ name v @ '' '') (zip (coeffs l) (lvars l)))
     @ (if lconstant l \<noteq> 0 then ''+ '' @ num (lconstant l) else [])"

subsection \<open>The free operators\<close>

definition op_add :: "('a::{zero, one, plus, times}) linexpr \<Rightarrow> 'a linexpr \<Rightarrow> 'a linexpr" where
  "op_add x y = lin_add_assign y x"

definition op_sub :: "('a::{zero, one, plus, times, uminus}) linexpr \<Rightarrow> 'a linexpr \<Rightarrow> 'a linexpr" where
  "op_sub x y = lin_sub_assign y x"

definition op_add_vars :: "nat \<Rightarrow> nat \<Rightarrow> ('a::{zero, one, plus, times}) linexpr" where
  "op_add_vars x y = lin_add_assign (lin_var y) (lin_var x)"

definition op_add_var_c :: "nat \<Rightarrow> 'a \<Rightarrow> ('a::{zero, one, plus, times}) linexpr" where
  "op_add_var_c x a = lin_add_assign (lin_const a) (lin_var x)"

definition op_sub_vars :: "nat \<Rightarrow> nat \<Rightarrow> ('a::{zero, one, plus, times, uminus}) linexpr" where
  "op_sub_vars x y = lin_sub_assign (lin_var y) (lin_var x)"

definition op_sub_var_c :: "nat \<Rightarrow> 'a \<Rightarrow> ('a::{zero, one, plus, times, uminus}) linexpr" where
  "op_sub_var_c x a = lin_sub_assign (lin_const a) (lin_var x)"

definition op_sub_c_var :: "'a \<Rightarrow> nat \<Rightarrow> ('a::{zero, one, plus, times, uminus}) linexpr" where
  "op_sub_c_var a x = lin_sub_assign (lin_var x) (lin_const a)"

definition op_neg :: "('a::{zero, one, plus, times, uminus}) linexpr \<Rightarrow> 'a linexpr" where
  "op_neg x = lin_sub_assign x (lin_const 0)"

definition op_scale_var :: "'a \<Rightarrow> nat \<Rightarrow> ('a::zero) linexpr" where
  "op_scale_var a x = lin_term x a"

definition op_neg_var :: "nat \<Rightarrow> ('a::{zero, one, uminus}) linexpr" where
  "op_neg_var x = op_scale_var (- 1) x"

definition op_scale :: "'a \<Rightarrow> ('a::{zero, one, plus, times}) linexpr \<Rightarrow> 'a linexpr" where
  "op_scale a x = multAdd a x (lin_const 0)"

definition op_div_var :: "nat \<Rightarrow> double \<Rightarrow> double linexpr result" where
  "op_div_var x a = (if a = 0 then Inl Undefined else Inr (lin_term x (1 / a)))"

definition op_div :: "double linexpr \<Rightarrow> double \<Rightarrow> double linexpr result" where
  "op_div x a = (if a = 0 then Inl Undefined else Inr (op_scale (1 / a) x))"

subsection \<open>Values\<close>

lemma lin_term_ok [simp]: "lin_ok (lin_term i a)" "lin_val x (lin_term i a) = a * x i"
  by (simp_all add: lin_ok_def lin_term_def lin_val_def)

lemma lin_assign_eq [simp]: "lin_assign expr (this :: 'a linexpr) = expr"
  by (simp add: lin_assign_def)

lemma lin_assign_ops_ok:
  fixes l l' :: "'a::comm_ring_1 linexpr"
  assumes "lin_ok l" and "lin_ok l'"
  shows "lin_ok (lin_add_assign l l')" "lin_val x (lin_add_assign l l') = lin_val x l' + lin_val x l"
    and "lin_ok (lin_sub_assign l l')" "lin_val x (lin_sub_assign l l') = lin_val x l' - lin_val x l"
  using multAdd_ok[OF assms] by (simp_all add: lin_add_assign_def lin_sub_assign_def)

lemma free_ops_ok:
  fixes l l' :: "'a::comm_ring_1 linexpr"
  assumes "lin_ok l" and "lin_ok l'"
  shows "lin_val x (op_add l l') = lin_val x l + lin_val x l'" "lin_val x (op_sub l l') = lin_val x l - lin_val x l'"
    "lin_val x (op_neg l) = - lin_val x l" "lin_val x (op_scale a l) = a * lin_val x l"
    "lin_ok (op_add l l')" "lin_ok (op_sub l l')" "lin_ok (op_neg l)" "lin_ok (op_scale a l)"
  using assms multAdd_ok[OF assms(1), of "lin_const 0"] by (simp_all add: op_add_def op_sub_def op_neg_def op_scale_def lin_assign_ops_ok)

lemma var_ops_ok:
  fixes a :: "'a::comm_ring_1"
  shows "lin_val x (op_add_vars i j) = x i + x j" "lin_val x (op_add_var_c i a) = x i + a" "lin_val x (op_sub_vars i j) = x i - x j"
    "lin_val x (op_sub_var_c i a) = x i - a" "lin_val x (op_sub_c_var a i) = a - x i" "lin_val x (op_neg_var i) = - x i"
    "lin_val x (op_scale_var a i) = a * x i"
  by (simp_all add: op_add_vars_def op_add_var_c_def op_sub_vars_def op_sub_var_c_def op_sub_c_var_def op_neg_var_def op_scale_var_def lin_assign_ops_ok)

lemma lin_div_ok:
  assumes "lin_ok l" and "a \<noteq> 0"
  shows "\<exists>q. lin_div_assign a l = Inr q \<and> lin_ok q \<and> lin_val x q = lin_val x l / a" and "\<exists>q. op_div l a = Inr q \<and> lin_ok q \<and> lin_val x q = lin_val x l / a"
    and "\<exists>q. op_div_var i a = Inr q \<and> lin_ok q \<and> lin_val x q = x i / a"
proof -
  have "(l :: double linexpr)\<lparr>lconstant := lconstant l / a, coeffs := map (\<lambda>c. c / a) (coeffs l)\<rparr> = lin_times (1 / a) l"
    by (simp add: lin_times_def)
  then show "\<exists>q. lin_div_assign a l = Inr q \<and> lin_ok q \<and> lin_val x q = lin_val x l / a" using assms by (simp add: lin_div_assign_def lin_times_ok)
qed (use assms in \<open>simp_all add: op_div_def op_div_var_def free_ops_ok\<close>)

text \<open>Terms in bulk.\<close>

lemma lin_addTerms_ok:
  assumes "cnt \<le> length var" and "\<forall>cs. coeff = Some cs \<longrightarrow> cnt \<le> length cs" and "lin_ok l"
  shows "\<exists>l'. lin_addTerms coeff var cnt l = Inr l' \<and> lin_ok l' \<and> lconstant l' = lconstant l
     \<and> lvars l' = lvars l @ take cnt var \<and> coeffs l' = coeffs l @ (case coeff of None \<Rightarrow> replicate cnt 1 | Some cs \<Rightarrow> take cnt cs)"
  using assms by (induction coeff var cnt l rule: lin_addTerms.induct) (auto simp: lin_ok_def split: option.splits)

text \<open>After the removal of a variable the terms of the others are left in their order.\<close>

lemma erase_zip: "length xs = length ys \<Longrightarrow> zip (erase i xs) (erase i ys) = erase i (zip xs ys)"
  by (simp add: erase_def take_zip drop_zip)

lemma remove_loop_terms:
  assumes "lin_ok l" and "i \<le> length (lvars l)"
  shows "lin_ok (lin_remove_loop v i l) \<and> lconstant (lin_remove_loop v i l) = lconstant l
     \<and> zip (coeffs (lin_remove_loop v i l)) (lvars (lin_remove_loop v i l))
       = filter (\<lambda>t. snd t \<noteq> v) (take i (zip (coeffs l) (lvars l))) @ drop i (zip (coeffs l) (lvars l))"
  using assms
proof (induction i arbitrary: l)
  case (Suc i)
  let ?ts = "zip (coeffs l) (lvars l)"
  let ?l = "if v = lvars l ! i then l\<lparr>coeffs := erase i (coeffs l), lvars := erase i (lvars l)\<rparr> else l"
  have i: "i < length ?ts" "snd (?ts ! i) = lvars l ! i" and len: "length (coeffs l) = length (lvars l)" using Suc.prems by (auto simp: lin_ok_def)
  have tl: "take (Suc i) ?ts = take i ?ts @ [?ts ! i]" "drop i ?ts = ?ts ! i # drop (Suc i) ?ts"
    using i(1) by (simp add: take_Suc_conv_app_nth, intro Cons_nth_drop_Suc[symmetric])
  have l: "lin_ok ?l" "i \<le> length (lvars ?l)" "lconstant ?l = lconstant l" using Suc.prems by (auto simp: lin_ok_def erase_def)
  show ?case
  proof (cases "v = lvars l ! i")
    case True
    then have "zip (coeffs ?l) (lvars ?l) = erase i ?ts" using len by (simp add: erase_zip)
    with Suc.IH[OF l(1,2)] l(3) True i show ?thesis by (simp add: tl(1) erase_def)
  next
    case False
    with Suc.IH[OF l(1,2)] i show ?thesis by (simp add: tl)
  qed
qed simp

lemma remove_var_terms:
  assumes "lin_ok l"
  shows "lin_ok (snd (lin_remove_var v l))" and "lconstant (snd (lin_remove_var v l)) = lconstant l"
    and "zip (coeffs (snd (lin_remove_var v l))) (lvars (snd (lin_remove_var v l))) = filter (\<lambda>t. snd t \<noteq> v) (zip (coeffs l) (lvars l))"
  using remove_loop_terms[OF assms, of "length (lvars l)" v] assms by (simp_all add: lin_remove_var_def Let_def lin_ok_def)

lemma filter_shorter: "length (filter (\<lambda>u. u \<noteq> v) us) < length us \<longleftrightarrow> v \<in> set us"
  using length_filter_le[of "\<lambda>u. u \<noteq> v"] by (induction us) (auto simp: less_Suc_eq_le)

text \<open>
  C40: \<^verbatim>\<open>GRBLinExpr::remove(GRBVar)\<close> on an expression whose lists agree in length: no term of the
  variable is left, the other terms keep their order and their coefficients, the result tells
  whether the variable occurred, and the value of the rest is the value of the expression with
  the variable at zero.
\<close>

theorem lin_remove_var_correct:
  fixes l :: "'a::comm_ring_1 linexpr"
  assumes ok: "lin_ok l" and run: "lin_remove_var v l = (found, l')"
  shows "lin_ok l' \<and> v \<notin> set (lvars l') \<and> lvars l' = filter (\<lambda>u. u \<noteq> v) (lvars l) \<and> (found \<longleftrightarrow> v \<in> set (lvars l))
     \<and> (\<forall>x. lin_val x l' = lin_val (x(v := 0)) l)"
proof -
  note r = remove_var_terms[OF ok, of v, unfolded run snd_conv]
  have len: "length (coeffs l) = length (lvars l)" "length (coeffs l') = length (lvars l')" using ok r(1) by (simp_all add: lin_ok_def)
  have "lvars l' = map snd (zip (coeffs l') (lvars l'))" using len by simp
  also have "\<dots> = filter (\<lambda>u. u \<noteq> v) (map snd (zip (coeffs l) (lvars l)))" unfolding r(3) by (simp add: filter_map o_def)
  finally have vars: "lvars l' = filter (\<lambda>u. u \<noteq> v) (lvars l)" using len by simp
  have "(\<Sum>(c, i)\<leftarrow>filter (\<lambda>t. snd t \<noteq> v) ts. c * x i) = (\<Sum>(c, i)\<leftarrow>ts. c * (x(v := 0)) i)" for ts :: "('a \<times> nat) list" and x
    by (induction ts) auto
  then have val: "lin_val x l' = lin_val (x(v := 0)) l" for x by (simp add: lin_val_sum r(2,3))
  have "found \<longleftrightarrow> length (filter (\<lambda>u. u \<noteq> v) (lvars l)) < length (lvars l)" using run vars by (auto simp: lin_remove_var_def Let_def)
  also have "\<dots> \<longleftrightarrow> v \<in> set (lvars l)" by (rule filter_shorter)
  finally show ?thesis using r(1) vars val by auto
qed

theorem lin_remove_var_correct_witness:
  "\<exists>l'. lin_remove_var 3 (\<lparr>lconstant = 1, coeffs = [2, 5, 7], lvars = [3, 4, 3]\<rparr> :: int linexpr) = (True, l')
     \<and> lvars l' = [4] \<and> lin_val (\<lambda>i. 10) l' = 51"
proof -
  let ?l = "\<lparr>lconstant = 1, coeffs = [2, 5, 7], lvars = [3, 4, 3]\<rparr> :: int linexpr"
  obtain found l' where run: "lin_remove_var 3 ?l = (found, l')" by force
  from lin_remove_var_correct[OF _ run] have "found" "lvars l' = [4]" and val: "lin_val x l' = lin_val (x(3 := 0)) ?l" for x
    by (simp_all add: lin_ok_def)
  moreover have "lin_val (\<lambda>i. 10) l' = 51" unfolding val by (simp add: lin_val_def)
  ultimately show ?thesis using run by auto
qed

end
