(* ===== verification/Poly_Heap.thy ===== *)
theory Poly_Heap
  imports Multinomial_Ownership
begin

text \<open>
  The nodes of a polynomial in memory and \<^verbatim>\<open>custom_delete\<close>.  A node has its flag, its symbol (none
  for a constant) and its map; the entries of the map point to nodes, for a constant the entry 0
  to a number.  Symbols belong to the table of variables and are not freed with a polynomial.
  Freeing or reading an object that is not there is undefined.  The recursion follows pointers, so it takes a
  bound; \<open>None\<close> is running out of it.
\<close>

type_synonym paddr = nat

datatype 'a cell = PNode bool "symbol option" "(u16 \<times> paddr option) list" | PNum 'a

type_synonym 'a pheap = "paddr \<Rightarrow> 'a cell option"

definition free_obj :: "paddr \<Rightarrow> 'a pheap \<Rightarrow> 'a pheap result" where
  "free_obj a h = (if h a = None then Inl Undefined else Inr (h(a := None)))"

fun custom_delete :: "nat \<Rightarrow> bool \<Rightarrow> paddr \<Rightarrow> 'a pheap \<Rightarrow> 'a pheap run" where
  "custom_delete 0 nested a h = None"
| "custom_delete (Suc f) nested a h =
     (case h a of
        Some (PNode s prim_key mp) \<Rightarrow>
          let h0 = h(a \<mapsto> PNode False prim_key mp) in
          bindO
            (if nested then
               (case prim_key of
                  None \<Rightarrow> (case mp_find mp 0 of
                      Some (Some c) \<Rightarrow> Some (free_obj c h0)
                    | _ \<Rightarrow> Some (Inr h0))
                | Some k \<Rightarrow> foldO (\<lambda>(e, c) h. case c of
                      None \<Rightarrow> Some (Inr h)
                    | Some c \<Rightarrow> bindO (custom_delete f nested c h) (\<lambda>h'. Some (free_obj c h'))) mp h0)
             else Some (Inr h0))
            (\<lambda>h'. if h' a = None then Some (Inl Undefined) else Some (Inr (h'(a \<mapsto> PNode False None []))))
      | _ \<Rightarrow> Some (Inl Undefined))"

text \<open>\<^verbatim>\<open>p->custom_delete(true); delete p;\<close>\<close>

definition delete_poly :: "nat \<Rightarrow> paddr \<Rightarrow> 'a pheap \<Rightarrow> 'a pheap run" where
  "delete_poly f a h = bindO (custom_delete f True a h) (\<lambda>h'. Some (free_obj a h'))"

subsection \<open>Polynomials in memory\<close>

text \<open>\<open>rep h a p S\<close>: the objects at the addresses \<open>S\<close> are the polynomial \<open>p\<close> with its root at \<open>a\<close>, none of them shared.\<close>

inductive rep :: "'a pheap \<Rightarrow> paddr \<Rightarrow> 'a multinomial \<Rightarrow> paddr set \<Rightarrow> bool"
  and reps :: "'a pheap \<Rightarrow> (u16 \<times> paddr option) list \<Rightarrow> (u16 \<times> 'a multinomial) list \<Rightarrow> paddr set \<Rightarrow> bool"
  for h where
  const: "h a = Some (PNode s None [(0, Some b)]) \<Longrightarrow> h b = Some (PNum c) \<Longrightarrow> rep h a (MConst s c) {a, b}"
| node: "h a = Some (PNode s (Some k) es) \<Longrightarrow> reps h es m S \<Longrightarrow> a \<notin> S \<Longrightarrow> rep h a (MNode s k m) (insert a S)"
| nil: "reps h [] [] {}"
| cons: "rep h c p S \<Longrightarrow> reps h es m S' \<Longrightarrow> S \<inter> S' = {} \<Longrightarrow> reps h ((e, Some c) # es) ((e, p) # m) (S \<union> S')"

definition agree :: "paddr set \<Rightarrow> 'a pheap \<Rightarrow> 'a pheap \<Rightarrow> bool" where
  "agree S h h' \<longleftrightarrow> (\<forall>a \<in> S. h' a = h a)"

lemma rep_root: "rep h a p S \<Longrightarrow> a \<in> S \<and> h a \<noteq> None"
  by (auto elim: rep.cases)

definition del_child :: "nat \<Rightarrow> u16 \<times> paddr option \<Rightarrow> 'a pheap \<Rightarrow> 'a pheap run" where
  "del_child f = (\<lambda>(e, c) h. case c of None \<Rightarrow> Some (Inr h) | Some c \<Rightarrow> bindO (custom_delete f True c h) (\<lambda>h'. Some (free_obj c h')))"

lemma custom_delete_node:
  "h a = Some (PNode s (Some k) es) \<Longrightarrow> custom_delete (Suc f) True a h
     = bindO (foldO (del_child f) es (h(a \<mapsto> PNode False (Some k) es))) (\<lambda>h'. if h' a = None then Some (Inl Undefined) else Some (Inr (h'(a \<mapsto> PNode False None []))))"
  by (simp add: del_child_def)

lemma free_marked: "c \<in> S \<Longrightarrow> free_obj c ((h |` (- S))(c \<mapsto> x)) = Inr (h |` (- S))"
  by (auto simp: free_obj_def restrict_map_def fun_eq_iff)

lemma delete_frees:
  "rep h a p S \<Longrightarrow> (\<And>h'. agree S h h' \<Longrightarrow> \<exists>d. \<forall>f \<ge> d. custom_delete f True a h' = Some (Inr ((h' |` (- S))(a \<mapsto> PNode False None []))))"
  "reps h es m S \<Longrightarrow> (\<And>h'. agree S h h' \<Longrightarrow> \<exists>d. \<forall>f \<ge> d. foldO (del_child f) es h' = Some (Inr (h' |` (- S))))"
proof (induction rule: rep_reps.inducts)
  case (const a s b c)
  have ne: "a \<noteq> b" using const(1,2) by auto
  have "custom_delete f True a h' = Some (Inr ((h' |` (- {a, b}))(a \<mapsto> PNode False None [])))" if low: "1 \<le> f" for f
  proof -
    obtain g where f: "f = Suc g" using low by (cases f) auto
    have "h' a = Some (PNode s None [(0, Some b)])" "h' b = Some (PNum c)" using const by (simp_all add: agree_def)
    moreover have "(h'(a \<mapsto> x, b := None))(a \<mapsto> PNode False None []) = (h' |` (- {a, b}))(a \<mapsto> PNode False None [])" for x
      by (auto simp: restrict_map_def fun_eq_iff)
    ultimately show ?thesis using ne by (simp add: f free_obj_def)
  qed
  then show ?case by blast
next
  case (node a s k es m S)
  let ?h = "h'(a \<mapsto> PNode False (Some k) es)"
  have "agree S h ?h" using node(4,5) by (auto simp: agree_def)
  from node(3)[OF this] obtain d where d: "\<And>f. d \<le> f \<Longrightarrow> foldO (del_child f) es ?h = Some (Inr (?h |` (- S)))" by blast
  have "custom_delete f True a h' = Some (Inr ((h' |` (- insert a S))(a \<mapsto> PNode False None [])))" if low: "Suc d \<le> f" for f
  proof -
    obtain g where f: "f = Suc g" "d \<le> g" using low by (cases f) auto
    have ha: "h' a = Some (PNode s (Some k) es)" using node(1,5) by (simp add: agree_def)
    have "(?h |` (- S))(a \<mapsto> PNode False None []) = (h' |` (- insert a S))(a \<mapsto> PNode False None [])"
      by (auto simp: restrict_map_def fun_eq_iff)
    then show ?thesis unfolding f(1) custom_delete_node[of h' a s k es g, OF ha] d[OF f(2)] using node(4) by (simp add: restrict_map_def)
  qed
  then show ?case by blast
next
  case (cons c p S es m S' e)
  have a: "agree S h h'" "agree S' h (h' |` (- S))" using cons(5,6) by (auto simp: agree_def restrict_map_def)
  from cons(2)[OF a(1)] obtain d1 where d1: "\<And>f. d1 \<le> f \<Longrightarrow> custom_delete f True c h' = Some (Inr ((h' |` (- S))(c \<mapsto> PNode False None [])))" by blast
  from cons(4)[OF a(2)] obtain d2 where d2: "\<And>f. d2 \<le> f \<Longrightarrow> foldO (del_child f) es (h' |` (- S)) = Some (Inr (h' |` (- S) |` (- S')))" by blast
  have free: "free_obj c ((h' |` (- S))(c \<mapsto> PNode False None [])) = Inr (h' |` (- S))" using rep_root[OF cons(1)] by (intro free_marked) simp
  have "del_child f (e, Some c) h' = Some (Inr (h' |` (- S)))" if "d1 \<le> f" for f using d1[OF that] free by (simp add: del_child_def)
  then have "foldO (del_child f) ((e, Some c) # es) h' = Some (Inr (h' |` (- (S \<union> S'))))" if "max d1 d2 \<le> f" for f
    using d2[of f] that by simp
  then show ?case by blast
qed (auto simp: restrict_map_def)

text \<open>
  C39: \<^verbatim>\<open>custom_delete(true)\<close> followed by \<^verbatim>\<open>delete\<close> on a polynomial in memory whose nodes are not shared: given
  enough depth it ends, frees every node and every number of the polynomial exactly once and
  touches nothing else.
\<close>

theorem delete_poly_frees:
  assumes "rep h a p S"
  shows "\<exists>d. \<forall>f \<ge> d. delete_poly f a h = Some (Inr (h |` (- S)))"
proof -
  have "agree S h h" by (simp add: agree_def)
  from delete_frees(1)[OF assms this] obtain d where d: "\<And>f. d \<le> f \<Longrightarrow> custom_delete f True a h = Some (Inr ((h |` (- S))(a \<mapsto> PNode False None [])))" by blast
  have "delete_poly f a h = Some (Inr (h |` (- S)))" if "d \<le> f" for f
    using d[OF that] rep_root[OF assms] by (simp add: delete_poly_def free_marked)
  then show ?thesis by blast
qed

text \<open>The polynomial \<open>2 x\<close> next to a number that does not belong to it.\<close>

definition two_x :: "int pheap" where
  "two_x = [0 \<mapsto> PNode True (Some \<lparr>get_id = 5, is_template = False\<rparr>) [(0, Some 1), (1, Some 3)],
     1 \<mapsto> PNode True None [(0, Some 2)], 2 \<mapsto> PNum 0, 3 \<mapsto> PNode True None [(0, Some 4)], 4 \<mapsto> PNum 2, 9 \<mapsto> PNum 7]"

theorem delete_poly_frees_witness:
  "rep two_x 0 (MNode True \<lparr>get_id = 5, is_template = False\<rparr> [(0, MConst True 0), (1, MConst True 2)]) {0, 1, 2, 3, 4}
   \<and> (\<exists>d. \<forall>f \<ge> d. delete_poly f 0 two_x = Some (Inr [9 \<mapsto> PNum 7]))"
proof -
  have "rep two_x 1 (MConst True 0) {1, 2}" "rep two_x 3 (MConst True 2) {3, 4}" by (rule const; simp add: two_x_def)+
  from cons[OF this(1) cons[OF this(2) nil]] have "reps two_x [(0, Some 1), (1, Some 3)] [(0, MConst True 0), (1, MConst True 2)] ({1, 2} \<union> ({3, 4} \<union> {}))"
    by simp
  from node[OF _ this, of 0 True "\<lparr>get_id = 5, is_template = False\<rparr>"]
  have r: "rep two_x 0 (MNode True \<lparr>get_id = 5, is_template = False\<rparr> [(0, MConst True 0), (1, MConst True 2)]) {0, 1, 2, 3, 4}"
    by (simp add: two_x_def insert_commute)
  moreover have "two_x |` (- {0, 1, 2, 3, 4}) = [9 \<mapsto> PNum 7]" by (auto simp: two_x_def restrict_map_def fun_eq_iff)
  ultimately show ?thesis using delete_poly_frees[OF r] by simp
qed

text \<open>A node that two entries share is freed twice.\<close>

lemma delete_shared:
  "delete_poly 3 0 ([0 \<mapsto> PNode True (Some k) [(0, Some 1), (1, Some 1)], 1 \<mapsto> PNode True None [(0, Some 2)], 2 \<mapsto> PNum c]) = Some (Inl Undefined)"
  by (simp add: delete_poly_def free_obj_def numeral_3_eq_3)

end
