(* ===== verification/Spec2Isabelle.thy ===== *)
theory Spec2Isabelle
  imports Fragmentation_Sound Trace_Sound Plain_Solve_Sound Vars_Props Box_Props Driver_Programs Lin_Expr Poly_Heap
begin

text \<open>
  A verification development for the grid solver under \<^verbatim>\<open>src/grid_solve/handelman\<close>.

  \<^bold>\<open>The program.\<close>  A driver (\<^verbatim>\<open>tests/test*.cpp\<close>) states polynomial constraints over a few program
  variables and a box.  For every constraint, and for its negation, a Handelman core turns
  ``the constraint holds on a box'' into linear equations over template variables
  (\<^verbatim>\<open>src/handelman_core.cpp\<close>); the bounds of the box are templates too, so one prepared store serves
  all boxes.  The search (\<^verbatim>\<open>src/approximation.cpp\<close>, \<^verbatim>\<open>include/approximation.hpp\<close>) keeps a doubly linked
  list of boxes: it asks the linear solver whether a box satisfies or violates each constraint,
  removes violating boxes, and halves undecided ones until they are small; it runs in one thread
  or in several.  The boxes left are checked with z3, printed, turned into a trie, and become the
  region of a SyGuS problem (\<^verbatim>\<open>include/parser.hpp\<close>).

  \<^bold>\<open>Theories and sources.\<close>
  \<^item> \<open>Prelude\<close>: results \<open>cxx_error + 'a\<close> (undefined behaviour and exceptions are values), runs
    \<open>'a result option\<close> (\<open>None\<close> is a run without end), folds, \<^verbatim>\<open>std::map\<close> as an ordered association list.
  \<^item> \<open>Symbols\<close>, \<open>Multinomial\<close> (\<^verbatim>\<open>src/symbol.cpp\<close>, \<^verbatim>\<open>src/polynomial.cpp\<close>, \<^verbatim>\<open>include/multinomial.hpp\<close>): nested
    polynomials with 16-bit exponents and the \<^verbatim>\<open>save\<close> flags.  \<open>Multinomial_Grades\<close> has the interface
    \<open>poly_grade\<close> (exponents, degrees and symbols are instances), \<open>Multinomial_Laws\<close>, \<open>Multinomial_Queries\<close>
    and \<open>Multinomial_Ownership\<close> show that the operators compute sums, products and powers of values,
    keep the class invariant and return fresh objects.  \<open>Poly_Heap\<close>: the nodes of a polynomial in memory
    and \<^verbatim>\<open>custom_delete\<close>, which frees each of them once.
  \<^item> \<open>Vars\<close>, \<open>Vars_Props\<close> (\<^verbatim>\<open>src/vars.cpp\<close>), \<open>Exprs\<close> (\<^verbatim>\<open>src/expr.cpp\<close>): the table of variables and the
    owning handles.
  \<^item> \<open>Strings\<close>, \<open>Decimal\<close>, \<open>Number_Text\<close>, \<open>Terms\<close>: \<^verbatim>\<open>std::to_string\<close>, stream output and \<^verbatim>\<open>stoi\<close>/\<^verbatim>\<open>stod\<close>,
    and the terms and formulas of z3 with their meaning.
  \<^item> \<open>Solver\<close>, \<open>Gurobi\<close> (\<^verbatim>\<open>include/solver.hpp\<close>, \<^verbatim>\<open>src/solver.cpp\<close>, \<^verbatim>\<open>LinExpr.cpp\<close>): the constraint store, its
    translation for z3, yices and Gurobi; \<open>Lin_Expr\<close>: the rest of \<^verbatim>\<open>GRBLinExpr\<close>; \<open>Core_Solve\<close>, \<open>Core_Solve_Sound\<close>, \<open>Plain_Solve_Sound\<close>: the
    incremental search with cores, the projected gradient loop, and the quantified formulas of
    \<^verbatim>\<open>plain_solve\<close>.
  \<^item> \<open>Handelman\<close>, \<open>Handelman_Laws\<close>, \<open>Handelman_Sound\<close> (\<^verbatim>\<open>src/handelman_core.cpp\<close>): the certificate system.
    A solution of its equations makes the conclusion non-negative wherever the hypotheses are; the
    preparation ends, and its equations are linear in the unknowns.  \<open>Handelman_Bound\<close>: a binomial
    coefficient bounds the templates a core makes.
  \<^item> \<open>Bounding_Box\<close>, \<open>Box_Props\<close>, \<open>Box_Query\<close>, \<open>Linked_List\<close>, \<open>Trie\<close>: boxes, the query of a box, the list on a
    heap of nodes (interface \<open>box_chain\<close>), the trie of halvings.
  \<^item> \<open>Search\<close>, \<open>Search_Laws\<close>, \<open>Search_Sound\<close>, \<open>Driver_Search\<close>: the sequential search.  The interface
    \<open>judges\<close> is what the search relies on in its solvers; \<open>Driver_Search\<close> interprets it on the queries of
    prepared stores.  \<open>Threads\<close>, \<open>Threads_Laws\<close>, \<open>Threads_Sound\<close>, \<open>Threads_Reach\<close>, \<open>Threads_Props\<close>: the
    threads as a step relation, its invariant, freedom from deadlock, and the result.  \<open>Threads_Bounds\<close>:
    the bounds of the boxes, by the interface \<open>fence\<close> (a property halving keeps, and one rounding
    establishes), interpreted for the plain and for the integer search.  \<open>Threads_Ends\<close>: a measure every
    step lowers, which bounds the steps of a search, and the interface \<open>sure_judges\<close> (solvers that always
    answer), under which the process never exits early.
  \<^item> \<open>Box_Lists\<close>, \<open>Box_Lists_Sound\<close>, \<open>Fragmentation_Sound\<close>: intersection, colouring and the final SMT check of
    lists, and the search for one constraint.  \<open>Trace\<close>, \<open>Trace_Sound\<close>: files of interrupted searches.
  \<^item> \<open>Smt_Text\<close>, \<open>Sexp\<close>, \<open>Poly_Text\<close>, \<open>Test_Case\<close>: the texts of regions, polynomials and SyGuS problems, with
    a reader for s-expressions and their meaning.  \<open>Trie_Text\<close>, \<open>Trie_Text_Sound\<close>, \<open>Trie_Text_Ends\<close>: the
    JSON and code texts of a trie.
  \<^item> \<open>Driver\<close>, \<open>Driver_Run\<close>, \<open>Driver_Output\<close>, \<open>Driver_Finish\<close> (\<^verbatim>\<open>tests/test1.cpp\<close>): the set-up of the cores, the
    run up to the final list, the problem it writes, and \<^verbatim>\<open>main\<close> as a whole, with what a solution of the
    written problem guarantees for the constraints of the driver.  \<open>Driver_Bound\<close>: the set-up succeeds when
    there is room for its templates.  \<open>Poly_Exprs\<close>: the expressions constraints are written in and the
    values of the polynomials they build.  \<open>Driver_Programs\<close> (\<^verbatim>\<open>tests/test1.cpp\<close> to \<^verbatim>\<open>test16.cpp\<close>, \<^verbatim>\<open>tests8.cpp\<close>): the
    programs themselves; all of them end, and what they write has the solutions their constraints ask for.

  \<^bold>\<open>How code becomes definitions.\<close>  State is passed explicitly; objects reached through shared
  pointers (list nodes) live in a heap of addresses.  An access out of range, a null dereference, a
  use after a move and a signed overflow are the error \<open>Undefined\<close>; exceptions carry their text.
  A finite double is a rational number and arithmetic on doubles is exact: rounding is modelled where
  numbers become text (six digits) and where they become integers.  Loops over lists walk as many
  steps as there are addresses in use (\<open>brk\<close>), which bounds every chain without a cycle; loops that
  may run forever are partial functions into \<open>option\<close>.  \<^verbatim>\<open>custom_delete\<close> takes the depth it may descend to,
  and enough depth for the polynomial gives the result.  The fuel of \<^verbatim>\<open>optimize\<close> is the depth of the
  trie, which the recursion cannot exceed.

  \<^bold>\<open>What is assumed.\<close>  The linear solver, z3 and yices are functions passed as arguments, with the
  hypotheses \<open>optimizer_ok\<close> (an optimum is feasible), \<open>checker_ok\<close> (the answers sat and unsat are right),
  \<open>core_check_ok\<close> and \<open>decides\<close>; every property with such a hypothesis has a witness with a concrete
  function.  Threads interleave between atomic steps cut at the accesses other threads can see.  yices
  is modelled for the first call of a solver object.  \<open>exact6\<close> and \<open>exact_run\<close> say that numbers survive
  the six digits of the texts passed to z3 (for boxes this follows when the bounds are integers, for
  the programs because their coefficients are).  The radii of \<^verbatim>\<open>test16.cpp\<close>, results of \<^verbatim>\<open>std::pow\<close>, are
  arguments.

  \<^bold>\<open>Not modelled.\<close>  The solvers themselves (z3, yices, cvc5, Gurobi: third-party code, of which only
  \<^verbatim>\<open>GRBLinExpr\<close> is translated); the addresses at which the operators of polynomials allocate (which
  operator consumes which operand is modelled by the flags); infinities, NaN and the rounding of double
  arithmetic; the log file and the names of files (the contents of the files a driver reads are
  arguments).
\<close>



end
